(* ===== verification/Prelude.thy ===== *)
theory Prelude
  imports Main "HOL-Library.Word" "HOL-Library.Monad_Syntax"
begin

text \<open>
  Shared material of the development: the machine types of the target (a 32-bit
  ARM with \<open>RT_ALIGN_SIZE\<close> 4), the truncations C performs when an \<open>int\<close> value is
  stored into a narrower field, \<open>memcpy\<close> on byte regions with its bounds, the error
  codes of \<open>include/rtdef.h\<close>, and the list and word lemmas the components use.

  A function of the source that can fail to return (an \<open>RT_ASSERT\<close> whose handler
  loops for ever, a loop that does not end, an access outside the object it is given)
  is a function into \<open>option\<close>; \<open>None\<close> is that outcome, so a theorem that gives
  \<open>Some\<close> also says that no assertion fires and no access is out of bounds.
\<close>

unbundle bit_operations_syntax

type_synonym u8 = "8 word"
type_synonym u16 = "16 word"
type_synonym u32 = "32 word"

text \<open>\<open>rt_err_t\<close> is a signed machine word; the codes are returned negated.\<close>

type_synonym rt_err_t = int

abbreviation (input) RT_EOK :: rt_err_t where "RT_EOK \<equiv> 0"
abbreviation (input) RT_ERROR :: rt_err_t where "RT_ERROR \<equiv> 1"
abbreviation (input) RT_ETIMEOUT :: rt_err_t where "RT_ETIMEOUT \<equiv> 2"
abbreviation (input) RT_EFULL :: rt_err_t where "RT_EFULL \<equiv> 3"
abbreviation (input) RT_EEMPTY :: rt_err_t where "RT_EEMPTY \<equiv> 4"
abbreviation (input) RT_ENOMEM :: rt_err_t where "RT_ENOMEM \<equiv> 5"
abbreviation (input) RT_EINVAL :: rt_err_t where "RT_EINVAL \<equiv> 10"

text \<open>Storing a C \<open>int\<close> value into an unsigned field of \<open>w\<close> bits, or a signed one.\<close>

definition trunc_u :: "nat \<Rightarrow> int \<Rightarrow> int" where
  "trunc_u w x = x mod 2 ^ w"

definition trunc_s :: "nat \<Rightarrow> int \<Rightarrow> int" where
  "trunc_s w x = (x + 2 ^ (w - 1)) mod 2 ^ w - 2 ^ (w - 1)"

text \<open>
  \<open>memcpy(&dst[d], &src[s], n)\<close> for two byte regions. The count is a \<open>size_t\<close>, so a
  negative \<open>int\<close> count is a huge one, which no region can hold.
\<close>

definition memcpy :: "'a list \<Rightarrow> int \<Rightarrow> 'a list \<Rightarrow> int \<Rightarrow> int \<Rightarrow> 'a list option" where
  "memcpy dst d src s n =
     (if 0 \<le> d \<and> 0 \<le> s \<and> 0 \<le> n \<and> d + n \<le> int (length dst) \<and> s + n \<le> int (length src)
      then Some (take (nat d) dst @ take (nat n) (drop (nat s) src) @ drop (nat (d + n)) dst)
      else None)"

text \<open>\<open>p[i] = v\<close> and \<open>p[i]\<close> on a region.\<close>

definition store_at :: "'a list \<Rightarrow> int \<Rightarrow> 'a \<Rightarrow> 'a list option" where
  "store_at xs i v = (if 0 \<le> i \<and> i < int (length xs) then Some (xs[nat i := v]) else None)"

definition load_at :: "'a list \<Rightarrow> int \<Rightarrow> 'a option" where
  "load_at xs i = (if 0 \<le> i \<and> i < int (length xs) then Some (xs ! nat i) else None)"

text \<open>\<open>RT_ASSERT(EX)\<close>: the handler does not return when \<open>EX\<close> is false.\<close>

definition rt_assert :: "bool \<Rightarrow> unit option" where
  "rt_assert b = (if b then Some () else None)"

named_theorems rb_simps \<open>unfolding of the ring buffer's operations\<close>
named_theorems kernel_simps \<open>unfolding of the kernel's state accessors\<close>
named_theorems kernel_inv_intros \<open>preservation of the kernel invariant\<close>

lemma rt_assert_True [simp]: "rt_assert True = Some ()"
  by (simp add: rt_assert_def)

lemma rt_assert_False [simp]: "rt_assert False = None"
  by (simp add: rt_assert_def)

lemma rt_assert_bind [simp]: "Option.bind (rt_assert b) f = (if b then f () else None)"
  by (simp add: rt_assert_def)

lemma trunc_u_id [simp]: "0 \<le> x \<Longrightarrow> x < 2 ^ w \<Longrightarrow> trunc_u w x = x"
  by (simp add: trunc_u_def)

lemma trunc_u_range: "0 \<le> trunc_u w x \<and> trunc_u w x < 2 ^ w"
  by (simp add: trunc_u_def)

lemma trunc_s_id: "0 < w \<Longrightarrow> - (2 ^ (w - 1)) \<le> x \<Longrightarrow> x < 2 ^ (w - 1) \<Longrightarrow> trunc_s w x = x"
proof -
  assume w: "0 < w" and lo: "- (2 ^ (w - 1)) \<le> x" and hi: "x < 2 ^ (w - 1)"
  have "(2::int) ^ w = 2 * 2 ^ (w - 1)"
    using w by (cases w) simp_all
  with lo hi show ?thesis by (simp add: trunc_s_def)
qed

lemma memcpy_Some:
  "0 \<le> d \<Longrightarrow> 0 \<le> s \<Longrightarrow> 0 \<le> n \<Longrightarrow> d + n \<le> int (length dst) \<Longrightarrow> s + n \<le> int (length src) \<Longrightarrow>
   memcpy dst d src s n =
     Some (take (nat d) dst @ take (nat n) (drop (nat s) src) @ drop (nat (d + n)) dst)"
  by (simp add: memcpy_def)

lemma memcpy_length: "memcpy dst d src s n = Some r \<Longrightarrow> length r = length dst"
  by (auto simp: memcpy_def split: if_splits)

lemma store_at_length: "store_at xs i v = Some r \<Longrightarrow> length r = length xs"
  by (auto simp: store_at_def split: if_splits)

lemma drop_take_append:
  "n \<le> length xs \<Longrightarrow> drop n (take n xs @ ys) = ys"
  by simp

lemma and_not_mask_int: "x AND NOT (mask m) = push_bit m (drop_bit m (x::int))"
  by (rule bit_eqI) (auto simp: bit_simps not_less)

end
