(* ===== verification/Ringbuffer.thy ===== *)
theory Ringbuffer
  imports Prelude
begin

text \<open>
  \<open>components/drivers/src/ringbuffer.c\<close>: the byte ring buffer with mirrored indices used
  between interrupt handlers and threads. The pool is the list \<open>buffer_ptr\<close>; the two
  one-bit mirror fields are booleans; the 15-bit index fields and the signed 16-bit size
  are integers, and every store into them goes through the truncation of the field.
  The theory shows that the operations implement a bounded byte queue (locale
  \<open>byte_fifo\<close>), that no copy leaves the pool, and what the forced writes overwrite.
\<close>

record rt_ringbuffer =
  buffer_ptr :: "u8 list"
  read_mirror :: bool
  read_index :: int
  write_mirror :: bool
  write_index :: int
  buffer_size :: int

datatype rt_ringbuffer_state = RT_RINGBUFFER_EMPTY | RT_RINGBUFFER_FULL | RT_RINGBUFFER_HALFFULL

definition rt_ringbuffer_status :: "rt_ringbuffer \<Rightarrow> rt_ringbuffer_state" where
  "rt_ringbuffer_status rb =
     (if read_index rb = write_index rb
      then (if read_mirror rb = write_mirror rb then RT_RINGBUFFER_EMPTY else RT_RINGBUFFER_FULL)
      else RT_RINGBUFFER_HALFFULL)"

text \<open>The result is an unsigned 32-bit \<open>rt_size_t\<close>.\<close>

definition rt_ringbuffer_data_len :: "rt_ringbuffer \<Rightarrow> int" where
  "rt_ringbuffer_data_len rb =
     (case rt_ringbuffer_status rb of
        RT_RINGBUFFER_EMPTY \<Rightarrow> 0
      | RT_RINGBUFFER_FULL \<Rightarrow> trunc_u 32 (buffer_size rb)
      | RT_RINGBUFFER_HALFFULL \<Rightarrow>
          (let wi = write_index rb; ri = read_index rb
           in if wi > ri then trunc_u 32 (wi - ri)
              else trunc_u 32 (buffer_size rb - (ri - wi))))"

definition rt_ringbuffer_space_len :: "rt_ringbuffer \<Rightarrow> int" where
  "rt_ringbuffer_space_len rb = trunc_u 32 (buffer_size rb - rt_ringbuffer_data_len rb)"

definition rt_ringbuffer_get_size :: "rt_ringbuffer \<Rightarrow> int" where
  "rt_ringbuffer_get_size rb = trunc_u 16 (buffer_size rb)"

definition rt_ringbuffer_init :: "u8 list \<Rightarrow> int \<Rightarrow> rt_ringbuffer option" where
  "rt_ringbuffer_init pool sz =
     do { rt_assert (sz > 0);
          Some \<lparr>buffer_ptr = pool, read_mirror = False, read_index = 0,
                write_mirror = False, write_index = 0,
                buffer_size = trunc_s 16 (sz AND NOT 3)\<rparr> }"

definition rt_ringbuffer_put :: "rt_ringbuffer \<Rightarrow> u8 list \<Rightarrow> int \<Rightarrow> (rt_ringbuffer \<times> int) option" where
  "rt_ringbuffer_put rb ptr len0 =
     (let sz = trunc_u 16 (rt_ringbuffer_space_len rb) in
      if sz = 0 then Some (rb, 0)
      else
        let len = (if sz < len0 then sz else len0);
            room = buffer_size rb - write_index rb in
        if room > len then
          do { buf \<leftarrow> memcpy (buffer_ptr rb) (write_index rb) ptr 0 len;
               Some (rb\<lparr>buffer_ptr := buf, write_index := trunc_u 15 (write_index rb + len)\<rparr>,
                     len) }
        else
          do { buf1 \<leftarrow> memcpy (buffer_ptr rb) (write_index rb) ptr 0 room;
               buf2 \<leftarrow> memcpy buf1 0 ptr room (len - room);
               Some (rb\<lparr>buffer_ptr := buf2, write_mirror := \<not> write_mirror rb,
                        write_index := trunc_u 15 (len - room)\<rparr>, len) })"

definition rt_ringbuffer_put_force :: "rt_ringbuffer \<Rightarrow> u8 list \<Rightarrow> int \<Rightarrow> (rt_ringbuffer \<times> int) option" where
  "rt_ringbuffer_put_force rb ptr0 len0 =
     (let space_length = trunc_u 16 (rt_ringbuffer_space_len rb);
          over = len0 > buffer_size rb;
          off = (if over then len0 - buffer_size rb else 0);
          len = (if over then buffer_size rb else len0);
          room = buffer_size rb - write_index rb in
      if room > len then
        do { buf \<leftarrow> memcpy (buffer_ptr rb) (write_index rb) ptr0 off len;
             let wi = trunc_u 15 (write_index rb + len) in
             Some (rb\<lparr>buffer_ptr := buf, write_index := wi,
                      read_index := (if len > space_length then wi else read_index rb)\<rparr>,
                   len) }
      else
        do { buf1 \<leftarrow> memcpy (buffer_ptr rb) (write_index rb) ptr0 off room;
             buf2 \<leftarrow> memcpy buf1 0 ptr0 (off + room) (len - room);
             let wi = trunc_u 15 (len - room) in
             Some ((if len > space_length
                    then rb\<lparr>buffer_ptr := buf2, write_mirror := \<not> write_mirror rb, write_index := wi,
                            read_mirror := (if wi \<le> read_index rb then \<not> read_mirror rb
                                            else read_mirror rb),
                            read_index := wi\<rparr>
                    else rb\<lparr>buffer_ptr := buf2, write_mirror := \<not> write_mirror rb,
                            write_index := wi\<rparr>), len) })"

text \<open>
  The destination of \<open>rt_ringbuffer_get\<close> is a region the caller passes; the model returns
  the region after the copies, with the buffer and the count.
\<close>

definition rt_ringbuffer_get ::
  "rt_ringbuffer \<Rightarrow> u8 list \<Rightarrow> int \<Rightarrow> (rt_ringbuffer \<times> u8 list \<times> int) option" where
  "rt_ringbuffer_get rb ptr len0 =
     (let sz = rt_ringbuffer_data_len rb in
      if sz = 0 then Some (rb, ptr, 0)
      else
        let len = (if sz < len0 then trunc_u 16 sz else len0);
            room = buffer_size rb - read_index rb in
        if room > len then
          do { dst \<leftarrow> memcpy ptr 0 (buffer_ptr rb) (read_index rb) len;
               Some (rb\<lparr>read_index := trunc_u 15 (read_index rb + len)\<rparr>, dst, len) }
        else
          do { dst1 \<leftarrow> memcpy ptr 0 (buffer_ptr rb) (read_index rb) room;
               dst2 \<leftarrow> memcpy dst1 room (buffer_ptr rb) 0 (len - room);
               Some (rb\<lparr>read_mirror := \<not> read_mirror rb,
                        read_index := trunc_u 15 (len - room)\<rparr>, dst2, len) })"

text \<open>The pointer \<open>rt_ringbuffer_peak\<close> stores is an offset into the pool, or null.\<close>

definition rt_ringbuffer_peak :: "rt_ringbuffer \<Rightarrow> rt_ringbuffer \<times> int option \<times> int" where
  "rt_ringbuffer_peak rb =
     (let sz = rt_ringbuffer_data_len rb in
      if sz = 0 then (rb, None, 0)
      else
        let room = buffer_size rb - read_index rb in
        if trunc_u 32 room > sz
        then (rb\<lparr>read_index := trunc_u 15 (read_index rb + sz)\<rparr>, Some (read_index rb), sz)
        else (rb\<lparr>read_mirror := \<not> read_mirror rb, read_index := 0\<rparr>,
              Some (read_index rb), trunc_u 32 room))"

definition rt_ringbuffer_putchar :: "rt_ringbuffer \<Rightarrow> u8 \<Rightarrow> (rt_ringbuffer \<times> int) option" where
  "rt_ringbuffer_putchar rb ch =
     (if rt_ringbuffer_space_len rb = 0 then Some (rb, 0)
      else
        do { buf \<leftarrow> store_at (buffer_ptr rb) (write_index rb) ch;
             Some ((if write_index rb = buffer_size rb - 1
                    then rb\<lparr>buffer_ptr := buf, write_mirror := \<not> write_mirror rb, write_index := 0\<rparr>
                    else rb\<lparr>buffer_ptr := buf, write_index := trunc_u 15 (write_index rb + 1)\<rparr>),
                   1) })"

definition rt_ringbuffer_putchar_force :: "rt_ringbuffer \<Rightarrow> u8 \<Rightarrow> (rt_ringbuffer \<times> int) option" where
  "rt_ringbuffer_putchar_force rb ch =
     (let old_state = rt_ringbuffer_status rb in
      do { buf \<leftarrow> store_at (buffer_ptr rb) (write_index rb) ch;
           Some ((if write_index rb = buffer_size rb - 1
                  then (if old_state = RT_RINGBUFFER_FULL
                        then rb\<lparr>buffer_ptr := buf, write_mirror := \<not> write_mirror rb,
                                write_index := 0, read_mirror := \<not> read_mirror rb,
                                read_index := 0\<rparr>
                        else rb\<lparr>buffer_ptr := buf, write_mirror := \<not> write_mirror rb,
                                write_index := 0\<rparr>)
                  else let wi = trunc_u 15 (write_index rb + 1) in
                       (if old_state = RT_RINGBUFFER_FULL
                        then rb\<lparr>buffer_ptr := buf, write_index := wi, read_index := wi\<rparr>
                        else rb\<lparr>buffer_ptr := buf, write_index := wi\<rparr>)), 1) })"

text \<open>\<open>*ch\<close> is returned as an option: it is written only when the result is 1.\<close>

definition rt_ringbuffer_getchar :: "rt_ringbuffer \<Rightarrow> (rt_ringbuffer \<times> u8 option \<times> int) option" where
  "rt_ringbuffer_getchar rb =
     (if rt_ringbuffer_data_len rb = 0 then Some (rb, None, 0)
      else
        do { c \<leftarrow> load_at (buffer_ptr rb) (read_index rb);
             Some ((if read_index rb = buffer_size rb - 1
                    then rb\<lparr>read_mirror := \<not> read_mirror rb, read_index := 0\<rparr>
                    else rb\<lparr>read_index := trunc_u 15 (read_index rb + 1)\<rparr>), Some c, 1) })"

definition rt_ringbuffer_reset :: "rt_ringbuffer \<Rightarrow> rt_ringbuffer" where
  "rt_ringbuffer_reset rb =
     rb\<lparr>read_mirror := False, read_index := 0, write_mirror := False, write_index := 0\<rparr>"

text \<open>
  \<open>rt_ringbuffer_create\<close>: the two allocations are inputs, the outcome of
  \<open>rt_malloc(sizeof(struct rt_ringbuffer))\<close> (whether it is non-null) and of
  \<open>rt_malloc(size)\<close> as a function of the requested size. Passing the \<open>rt_uint16_t\<close> size to
  \<open>rt_ringbuffer_init\<close> converts it to \<open>rt_int16_t\<close>.
\<close>

definition rt_ringbuffer_create :: "bool \<Rightarrow> (int \<Rightarrow> u8 list option) \<Rightarrow> int \<Rightarrow> rt_ringbuffer option option" where
  "rt_ringbuffer_create rb_ok pool_malloc sz0 =
     do { rt_assert (sz0 > 0);
          let sz = trunc_u 16 (sz0 AND NOT 3);
          if \<not> rb_ok then Some None
          else (case pool_malloc sz of
                  None \<Rightarrow> Some None
                | Some pool \<Rightarrow> do { rb \<leftarrow> rt_ringbuffer_init pool (trunc_s 16 sz);
                                    Some (Some rb) }) }"

subsection \<open>Invariant and abstraction\<close>

definition rb_inv :: "rt_ringbuffer \<Rightarrow> bool" where
  "rb_inv rb \<longleftrightarrow>
     0 < buffer_size rb \<and> buffer_size rb < 2 ^ 15 \<and>
     buffer_size rb \<le> int (length (buffer_ptr rb)) \<and>
     0 \<le> read_index rb \<and> read_index rb < buffer_size rb \<and>
     0 \<le> write_index rb \<and> write_index rb < buffer_size rb \<and>
     (if read_mirror rb = write_mirror rb then read_index rb \<le> write_index rb
      else write_index rb \<le> read_index rb)"

text \<open>The bytes of the pool that belong to the buffer, and the queue it represents.\<close>

definition rb_pool :: "rt_ringbuffer \<Rightarrow> u8 list" where
  "rb_pool rb = take (nat (buffer_size rb)) (buffer_ptr rb)"

definition rb_content :: "rt_ringbuffer \<Rightarrow> u8 list" where
  "rb_content rb =
     (if read_mirror rb = write_mirror rb
      then take (nat (write_index rb - read_index rb)) (drop (nat (read_index rb)) (rb_pool rb))
      else drop (nat (read_index rb)) (rb_pool rb) @ take (nat (write_index rb)) (rb_pool rb))"

text \<open>Writing \<open>xs\<close> into a region at offset \<open>w\<close>.\<close>

definition blit :: "'a list \<Rightarrow> nat \<Rightarrow> 'a list \<Rightarrow> 'a list" where
  "blit p w xs = take w p @ xs @ drop (w + length xs) p"

subsection \<open>Regions\<close>

lemma blit_length [simp]: "w + length xs \<le> length p \<Longrightarrow> length (blit p w xs) = length p"
  by (simp add: blit_def)

lemma blit_behind_same:
  "r \<le> w \<Longrightarrow> w + length xs \<le> length p \<Longrightarrow>
   take (w + length xs - r) (drop r (blit p w xs)) = take (w - r) (drop r p) @ xs"
  by (simp add: blit_def drop_take)

lemma blit_before_drop:
  "w + length xs \<le> r \<Longrightarrow> r \<le> length p \<Longrightarrow> drop r (blit p w xs) = drop r p"
  by (simp add: blit_def min_absorb2)

lemma blit_before_take:
  "w + length xs \<le> length p \<Longrightarrow> take (w + length xs) (blit p w xs) = take w p @ xs"
  by (simp add: blit_def)

lemma blit_wrap:
  "length p = w + length xs \<Longrightarrow> length ys \<le> w \<Longrightarrow>
   blit (blit p w xs) 0 ys = ys @ drop (length ys) (take w p) @ xs"
  by (simp add: blit_def)

lemma blit_wrap_all:
  "length p = w + length xs \<Longrightarrow> length ys \<le> length p \<Longrightarrow>
   blit (blit p w xs) 0 ys = ys @ drop (length ys) (take w p @ xs)"
  by (simp add: blit_def)

lemma memcpy_blit:
  assumes "memcpy buf d src s n = Some buf'" and "d + n \<le> int N" and "N \<le> length buf"
  shows "take N buf' = blit (take N buf) (nat d) (take (nat n) (drop (nat s) src))"
proof -
  from assms(1) have b: "0 \<le> d" "0 \<le> s" "0 \<le> n" "d + n \<le> int (length buf)" "s + n \<le> int (length src)"
    and buf': "buf' = take (nat d) buf @ take (nat n) (drop (nat s) src) @ drop (nat (d + n)) buf"
    by (auto simp: memcpy_def split: if_splits)
  define xs where "xs = take (nat n) (drop (nat s) src)"
  have len: "length xs = nat n"
    using b by (simp add: xs_def)
  have sum: "nat (d + n) = nat d + nat n"
    using b by simp
  have le: "nat d + nat n \<le> N"
    using b assms(2) by linarith
  have "take N (take (nat d) buf @ xs @ drop (nat d + nat n) buf) =
      take (nat d) buf @ xs @ take (N - (nat d + nat n)) (drop (nat d + nat n) buf)"
    using le len assms(3) by (simp add: min_absorb2)
  then show ?thesis
    using le len assms(3) by (simp add: buf' blit_def sum xs_def [symmetric] drop_take min_absorb1)
qed

lemma memcpy_defined:
  assumes "0 \<le> d" "0 \<le> s" "0 \<le> n" "d + n \<le> int (length dst)" "s + n \<le> int (length src)"
  obtains r where "memcpy dst d src s n = Some r" and "length r = length dst"
proof -
  from memcpy_Some [OF assms] obtain r where "memcpy dst d src s n = Some r" by blast
  with memcpy_length [OF this] that show ?thesis by blast
qed

subsection \<open>Lengths\<close>

lemma rb_pool_length: "rb_inv rb \<Longrightarrow> length (rb_pool rb) = nat (buffer_size rb)"
  by (auto simp: rb_inv_def rb_pool_def)

lemma rb_content_length:
  assumes "rb_inv rb"
  shows "int (length (rb_content rb)) =
     (if read_mirror rb = write_mirror rb then write_index rb - read_index rb
      else buffer_size rb - read_index rb + write_index rb)"
proof -
  have b: "0 < buffer_size rb" "0 \<le> read_index rb" "read_index rb < buffer_size rb"
    "0 \<le> write_index rb" "write_index rb < buffer_size rb"
    using assms by (auto simp: rb_inv_def)
  show ?thesis
  proof (cases "read_mirror rb = write_mirror rb")
    case True
    with assms have "read_index rb \<le> write_index rb" by (simp add: rb_inv_def)
    with True b assms show ?thesis
      by (simp add: rb_content_def rb_pool_length nat_diff_distrib)
  next
    case False
    with b assms show ?thesis
      by (simp add: rb_content_def rb_pool_length)
  qed
qed

lemma rb_content_le_size: "rb_inv rb \<Longrightarrow> int (length (rb_content rb)) \<le> buffer_size rb"
  by (auto simp: rb_content_length rb_inv_def split: if_splits)

lemma data_len_content:
  assumes "rb_inv rb"
  shows "rt_ringbuffer_data_len rb = int (length (rb_content rb))"
proof -
  have "buffer_size rb < 2 ^ 32" using assms by (simp add: rb_inv_def)
  with assms show ?thesis
    by (auto simp: rb_content_length [OF assms] rt_ringbuffer_data_len_def rt_ringbuffer_status_def
        Let_def rb_inv_def split: if_splits)
qed

lemma space_len_content:
  assumes "rb_inv rb"
  shows "rt_ringbuffer_space_len rb = buffer_size rb - int (length (rb_content rb))"
proof -
  have "buffer_size rb < 2 ^ 32" using assms by (simp add: rb_inv_def)
  then show ?thesis
    using rb_content_le_size [OF assms]
    by (simp add: rt_ringbuffer_space_len_def data_len_content [OF assms])
qed

lemma space_len_u16:
  "rb_inv rb \<Longrightarrow> trunc_u 16 (rt_ringbuffer_space_len rb) = buffer_size rb - int (length (rb_content rb))"
  using rb_content_le_size [of rb] by (simp add: space_len_content rb_inv_def)

lemma status_content:
  "rb_inv rb \<Longrightarrow> rt_ringbuffer_status rb =
     (if rb_content rb = [] then RT_RINGBUFFER_EMPTY
      else if int (length (rb_content rb)) = buffer_size rb then RT_RINGBUFFER_FULL
      else RT_RINGBUFFER_HALFFULL)"
proof -
  assume inv: "rb_inv rb"
  have "rb_content rb = [] \<longleftrightarrow> int (length (rb_content rb)) = 0" by simp
  with inv show ?thesis
    unfolding rb_content_length [OF inv]
    by (auto simp: rt_ringbuffer_status_def rb_inv_def split: if_splits)
qed

subsection \<open>How a write changes the content\<close>

text \<open>
  Both \<open>rt_ringbuffer_put\<close> and \<open>rt_ringbuffer_put_force\<close> end in one of two shapes: the new
  bytes lie behind the write index, or they run to the end of the pool and continue at its
  start. The lemmas below are about any buffer state \<open>rb'\<close> with that shape.
\<close>

lemma rb_boundsD:
  assumes "rb_inv rb"
  shows "0 < buffer_size rb" "buffer_size rb < 2 ^ 15" "buffer_size rb \<le> int (length (buffer_ptr rb))"
    "0 \<le> read_index rb" "read_index rb < buffer_size rb"
    "0 \<le> write_index rb" "write_index rb < buffer_size rb"
  using assms by (auto simp: rb_inv_def)

lemma content_same_mirror:
  assumes "rb_inv rb" and "read_mirror rb = write_mirror rb"
  shows "rb_content rb = drop (nat (read_index rb)) (take (nat (write_index rb)) (rb_pool rb))"
    and "read_index rb \<le> write_index rb"
  using assms by (simp_all add: rb_content_def rb_inv_def drop_take nat_diff_distrib)

lemma content_other_mirror:
  assumes "rb_inv rb" and "read_mirror rb \<noteq> write_mirror rb"
  shows "rb_content rb =
      drop (nat (read_index rb)) (rb_pool rb) @ take (nat (write_index rb)) (rb_pool rb)"
    and "write_index rb \<le> read_index rb"
  using assms by (simp_all add: rb_content_def rb_inv_def)

lemma append_nowrap:
  assumes inv: "rb_inv rb" and fit: "int (length (rb_content rb)) + int (length xs) \<le> buffer_size rb"
    and room: "write_index rb + int (length xs) < buffer_size rb"
    and pool: "rb_pool rb' = blit (rb_pool rb) (nat (write_index rb)) xs"
    and rb': "buffer_size rb' = buffer_size rb" "read_mirror rb' = read_mirror rb"
      "read_index rb' = read_index rb" "write_mirror rb' = write_mirror rb"
      "write_index rb' = write_index rb + int (length xs)"
      "buffer_size rb \<le> int (length (buffer_ptr rb'))"
  shows "rb_inv rb' \<and> rb_content rb' = rb_content rb @ xs"
proof (cases "read_mirror rb = write_mirror rb")
  case True
  note c = content_same_mirror [OF inv True] and b = rb_boundsD [OF inv]
  have inv': "rb_inv rb'" using b c(2) room rb' True by (simp add: rb_inv_def)
  have "take (nat (write_index rb') - nat (read_index rb)) (drop (nat (read_index rb)) (rb_pool rb')) =
      rb_content rb @ xs"
    using blit_behind_same [of "nat (read_index rb)" "nat (write_index rb)" xs "rb_pool rb"] b c room
    by (simp add: pool rb' drop_take rb_pool_length [OF inv] nat_add_distrib nat_diff_distrib)
  with inv' show ?thesis using b c(2) rb' True by (simp add: rb_content_def nat_diff_distrib)
next
  case False
  note c = content_other_mirror [OF inv False] and b = rb_boundsD [OF inv]
  have le: "write_index rb + int (length xs) \<le> read_index rb"
    using fit False by (simp add: rb_content_length [OF inv])
  have inv': "rb_inv rb'" using b c(2) room le rb' False by (simp add: rb_inv_def)
  have "drop (nat (read_index rb)) (rb_pool rb') = drop (nat (read_index rb)) (rb_pool rb)"
    and "take (nat (write_index rb')) (rb_pool rb') = take (nat (write_index rb)) (rb_pool rb) @ xs"
    using blit_before_drop [of "nat (write_index rb)" xs "nat (read_index rb)" "rb_pool rb"]
      blit_before_take [of "nat (write_index rb)" xs "rb_pool rb"] b le room
    by (simp_all add: pool rb' rb_pool_length [OF inv] nat_add_distrib)
  with inv' show ?thesis using rb' False c by (simp add: rb_content_def)
qed

lemma append_wrap:
  assumes inv: "rb_inv rb"
    and fit: "int (length (rb_content rb)) + int (length xs) + int (length ys) \<le> buffer_size rb"
    and room: "write_index rb + int (length xs) = buffer_size rb"
    and pool: "rb_pool rb' = blit (blit (rb_pool rb) (nat (write_index rb)) xs) 0 ys"
    and rb': "buffer_size rb' = buffer_size rb" "read_mirror rb' = read_mirror rb"
      "read_index rb' = read_index rb" "write_mirror rb' = (\<not> write_mirror rb)"
      "write_index rb' = int (length ys)" "buffer_size rb \<le> int (length (buffer_ptr rb'))"
  shows "rb_inv rb' \<and> rb_content rb' = rb_content rb @ xs @ ys"
proof (cases "read_mirror rb = write_mirror rb")
  case True
  note c = content_same_mirror [OF inv True] and b = rb_boundsD [OF inv]
  have le: "int (length ys) \<le> read_index rb"
    using fit room True by (simp add: rb_content_length [OF inv])
  have inv': "rb_inv rb'" using b c(2) room le rb' True by (auto simp: rb_inv_def)
  have p': "rb_pool rb' = ys @ drop (length ys) (take (nat (write_index rb)) (rb_pool rb)) @ xs"
    unfolding pool by (rule blit_wrap) (use b c(2) le room rb_pool_length [OF inv] in linarith)+
  have "drop (nat (read_index rb)) (rb_pool rb') = rb_content rb @ xs"
    using le c b room by (simp add: p' rb_pool_length [OF inv] add.commute)
  moreover have "take (nat (write_index rb')) (rb_pool rb') = ys" by (simp add: p' rb')
  ultimately show ?thesis using inv' rb' True by (simp add: rb_content_def)
next
  case False
  note c = content_other_mirror [OF inv False] and b = rb_boundsD [OF inv]
  from fit False b room c(2) have "read_index rb = write_index rb \<and> xs = [] \<and> ys = [] \<or> False"
    by (simp add: rb_content_length [OF inv])
  with b room show ?thesis by simp
qed

lemma full_content:
  assumes "0 < buffer_size rb" "buffer_size rb < 2 ^ 15" "buffer_size rb \<le> int (length (buffer_ptr rb))"
    and "0 \<le> write_index rb" "write_index rb < buffer_size rb"
    and "read_index rb = write_index rb" "read_mirror rb \<noteq> write_mirror rb"
  shows "rb_inv rb \<and> rb_content rb =
      drop (nat (write_index rb)) (rb_pool rb) @ take (nat (write_index rb)) (rb_pool rb)"
  using assms by (simp add: rb_inv_def rb_content_def)

lemma overwrite_nowrap:
  assumes inv: "rb_inv rb" and over: "int (length (rb_content rb)) + int (length xs) > buffer_size rb"
    and room: "write_index rb + int (length xs) < buffer_size rb"
    and pool: "rb_pool rb' = blit (rb_pool rb) (nat (write_index rb)) xs"
    and rb': "buffer_size rb' = buffer_size rb" "read_mirror rb' = read_mirror rb"
      "read_index rb' = write_index rb + int (length xs)" "write_mirror rb' = write_mirror rb"
      "write_index rb' = write_index rb + int (length xs)"
      "buffer_size rb \<le> int (length (buffer_ptr rb'))"
  shows "rb_inv rb' \<and>
    rb_content rb' = drop (length (rb_content rb) + length xs - nat (buffer_size rb)) (rb_content rb @ xs)"
proof -
  note b = rb_boundsD [OF inv]
  have mir: "read_mirror rb \<noteq> write_mirror rb"
  proof
    assume "read_mirror rb = write_mirror rb"
    with over room b show False by (simp add: rb_content_length [OF inv])
  qed
  note c = content_other_mirror [OF inv mir]
  define w r n where "w = nat (write_index rb)" and "r = nat (read_index rb)" and "n = nat (buffer_size rb)"
  have wn: "w + length xs < n" "r < n" "length (rb_pool rb) = n" "r < w + length xs"
    "nat (write_index rb') = w + length xs"
    using b room over mir rb' unfolding w_def r_def n_def
    by (auto simp: rb_pool_length [OF inv] rb_content_length [OF inv] nat_add_distrib)
  have c': "rb_content rb = drop r (rb_pool rb) @ take w (rb_pool rb)"
    using c by (simp add: w_def r_def)
  have len: "length (rb_content rb) + length xs - n = w + length xs - r"
    using wn by (simp add: c')
  have "drop (w + length xs) (rb_pool rb') @ take (w + length xs) (rb_pool rb') =
      drop (w + length xs - r) (rb_content rb @ xs)"
    using wn by (simp add: pool w_def [symmetric] c' blit_def)
  moreover have "rb_inv rb' \<and> rb_content rb' =
      drop (nat (write_index rb')) (rb_pool rb') @ take (nat (write_index rb')) (rb_pool rb')"
    using b room rb' mir by (intro full_content) simp_all
  ultimately show ?thesis using len wn by (simp add: n_def)
qed

lemma overwrite_wrap:
  assumes inv: "rb_inv rb"
    and over: "int (length (rb_content rb)) + int (length xs) + int (length ys) > buffer_size rb"
    and room: "write_index rb + int (length xs) = buffer_size rb"
    and max: "int (length ys) \<le> write_index rb"
    and pool: "rb_pool rb' = blit (blit (rb_pool rb) (nat (write_index rb)) xs) 0 ys"
    and rb': "buffer_size rb' = buffer_size rb"
      "read_mirror rb' = (if int (length ys) \<le> read_index rb then \<not> read_mirror rb else read_mirror rb)"
      "read_index rb' = int (length ys)" "write_mirror rb' = (\<not> write_mirror rb)"
      "write_index rb' = int (length ys)" "buffer_size rb \<le> int (length (buffer_ptr rb'))"
  shows "rb_inv rb' \<and> rb_content rb' =
    drop (length (rb_content rb) + length (xs @ ys) - nat (buffer_size rb)) (rb_content rb @ xs @ ys)"
proof -
  note b = rb_boundsD [OF inv]
  have mir: "read_mirror rb' \<noteq> write_mirror rb'"
    using over room max inv rb' by (auto simp: rb_content_length [OF inv] rb_inv_def split: if_splits)
  define w r n where "w = nat (write_index rb)" and "r = nat (read_index rb)" and "n = nat (buffer_size rb)"
  have wn: "w + length xs = n" "r < n" "length (rb_pool rb) = n" "length ys \<le> w"
    "nat (write_index rb') = length ys"
    using b room max rb' unfolding w_def r_def n_def by (auto simp: rb_pool_length [OF inv])
  have p': "rb_pool rb' = ys @ drop (length ys) (take w (rb_pool rb)) @ xs"
    unfolding pool w_def [symmetric] by (rule blit_wrap) (use wn in linarith)+
  have d: "drop (length ys) (rb_pool rb') @ take (length ys) (rb_pool rb') =
      drop (length ys) (take w (rb_pool rb)) @ xs @ ys"
    by (simp add: p')
  have "drop (length (rb_content rb) + length (xs @ ys) - n) (rb_content rb @ xs @ ys) =
      drop (length ys) (take w (rb_pool rb)) @ xs @ ys"
  proof (cases "read_mirror rb = write_mirror rb")
    case True
    note c = content_same_mirror [OF inv True]
    have "rb_content rb = drop r (take w (rb_pool rb))" and "r \<le> w" and "r < length ys"
      using c over room b True by (simp_all add: w_def r_def rb_content_length [OF inv])
    moreover have "w + (length xs + length ys) - n = length ys" using wn by simp
    ultimately show ?thesis using wn by simp
  next
    case False
    note c = content_other_mirror [OF inv False]
    have "rb_content rb = drop r (rb_pool rb) @ take w (rb_pool rb)" and "w \<le> r"
      using c b by (simp_all add: w_def r_def)
    moreover have "w + (length xs + length ys) - n = length ys" using wn by simp
    ultimately show ?thesis using wn by simp
  qed
  moreover have "rb_inv rb' \<and> rb_content rb' =
      drop (nat (write_index rb')) (rb_pool rb') @ take (nat (write_index rb')) (rb_pool rb')"
    using b room rb' mir max by (intro full_content) simp_all
  ultimately show ?thesis using d wn by (simp add: n_def)
qed

subsection \<open>The copies of the writing operations\<close>

lemma write_copy:
  assumes inv: "rb_inv rb" and "0 \<le> off" "0 \<le> n" "off + n \<le> int (length ptr)"
    and room: "write_index rb + n \<le> buffer_size rb"
  obtains buf where "memcpy (buffer_ptr rb) (write_index rb) ptr off n = Some buf"
    and "length buf = length (buffer_ptr rb)"
    and "take (nat (buffer_size rb)) buf =
      blit (rb_pool rb) (nat (write_index rb)) (take (nat n) (drop (nat off) ptr))"
proof -
  note b = rb_boundsD [OF inv]
  obtain buf where m: "memcpy (buffer_ptr rb) (write_index rb) ptr off n = Some buf"
    and lb: "length buf = length (buffer_ptr rb)"
    by (rule memcpy_defined [of "write_index rb" off n "buffer_ptr rb" ptr]) (use b assms in auto)
  moreover have "take (nat (buffer_size rb)) buf =
      blit (rb_pool rb) (nat (write_index rb)) (take (nat n) (drop (nat off) ptr))"
    using memcpy_blit [OF m, of "nat (buffer_size rb)"] b room by (simp add: rb_pool_def nat_le_iff)
  ultimately show ?thesis by (rule that)
qed

lemma write_copy_wrap:
  assumes inv: "rb_inv rb" and off: "0 \<le> off" "off + n \<le> int (length ptr)"
    and room: "room = buffer_size rb - write_index rb" "room \<le> n" "n \<le> buffer_size rb"
  obtains buf1 buf2 where "memcpy (buffer_ptr rb) (write_index rb) ptr off room = Some buf1"
    and "memcpy buf1 0 ptr (off + room) (n - room) = Some buf2"
    and "length buf2 = length (buffer_ptr rb)"
    and "take (nat (buffer_size rb)) buf2 =
      blit (blit (rb_pool rb) (nat (write_index rb)) (take (nat room) (drop (nat off) ptr))) 0
        (take (nat (n - room)) (drop (nat (off + room)) ptr))"
proof -
  note b = rb_boundsD [OF inv]
  obtain buf1 where m1: "memcpy (buffer_ptr rb) (write_index rb) ptr off room = Some buf1"
    and l1: "length buf1 = length (buffer_ptr rb)"
    and p1: "take (nat (buffer_size rb)) buf1 =
      blit (rb_pool rb) (nat (write_index rb)) (take (nat room) (drop (nat off) ptr))"
    by (rule write_copy [OF inv, of off room ptr]) (use b off room in auto)
  obtain buf2 where m2: "memcpy buf1 0 ptr (off + room) (n - room) = Some buf2"
    and l2: "length buf2 = length buf1"
    by (rule memcpy_defined [of 0 "off + room" "n - room" buf1 ptr]) (use b off room l1 in auto)
  have "take (nat (buffer_size rb)) buf2 =
      blit (take (nat (buffer_size rb)) buf1) 0 (take (nat (n - room)) (drop (nat (off + room)) ptr))"
    using memcpy_blit [OF m2, of "nat (buffer_size rb)"] b room l1 by (simp add: nat_le_iff)
  with m1 m2 l1 l2 p1 that show ?thesis by simp
qed

lemma take_split:
  assumes "0 \<le> room" "room \<le> n" "0 \<le> off"
  shows "take (nat room) (drop (nat off) ptr) @ take (nat (n - room)) (drop (nat (off + room)) ptr) =
    take (nat n) (drop (nat off) ptr)"
proof -
  have "nat n = nat room + nat (n - room)" "nat (off + room) = nat off + nat room"
    using assms by simp_all
  then show ?thesis by (simp add: take_add add.commute)
qed

subsection \<open>The operations on the queue\<close>

lemma put_spec:
  assumes inv: "rb_inv rb" and len: "0 \<le> len" "len \<le> int (length ptr)"
    and n: "n = min len (buffer_size rb - int (length (rb_content rb)))"
  shows "\<exists>rb'. rt_ringbuffer_put rb ptr len = Some (rb', n) \<and> rb_inv rb' \<and>
      rb_content rb' = rb_content rb @ take (nat n) ptr \<and> buffer_size rb' = buffer_size rb"
proof (cases "buffer_size rb = int (length (rb_content rb))")
  case True
  with inv len n show ?thesis by (simp add: rt_ringbuffer_put_def space_len_u16)
next
  case False
  note b = rb_boundsD [OF inv] and le = rb_content_le_size [OF inv]
  have n': "(if buffer_size rb - int (length (rb_content rb)) < len
      then buffer_size rb - int (length (rb_content rb)) else len) = n" "0 \<le> n" "n \<le> int (length ptr)"
    "int (length (rb_content rb)) + n \<le> buffer_size rb"
    using n len le by auto
  define room where "room = buffer_size rb - write_index rb"
  show ?thesis
  proof (cases "room > n")
    case True
    obtain buf where m: "memcpy (buffer_ptr rb) (write_index rb) ptr 0 n = Some buf"
      and lb: "length buf = length (buffer_ptr rb)"
      and p: "take (nat (buffer_size rb)) buf = blit (rb_pool rb) (nat (write_index rb)) (take (nat n) ptr)"
      by (rule write_copy [OF inv, of 0 n ptr]) (use n' True room_def in auto)
    define rb' where "rb' = rb\<lparr>buffer_ptr := buf, write_index := write_index rb + n\<rparr>"
    have "rb_inv rb' \<and> rb_content rb' = rb_content rb @ take (nat n) ptr"
      using p n' b True room_def lb
      by (intro append_nowrap [OF inv]) (auto simp: rb'_def rb_pool_def)
    moreover have "rt_ringbuffer_put rb ptr len = Some (rb', n)"
      using m False True n' room_def b inv
      by (simp add: rt_ringbuffer_put_def space_len_u16 rb'_def Let_def)
    ultimately show ?thesis by (auto simp: rb'_def)
  next
    case wrap: False
    have room: "0 \<le> room" "room \<le> n" using b wrap room_def by auto
    obtain buf1 buf2 where m: "memcpy (buffer_ptr rb) (write_index rb) ptr 0 room = Some buf1"
      "memcpy buf1 0 ptr room (n - room) = Some buf2"
      and l2: "length buf2 = length (buffer_ptr rb)"
      and p: "take (nat (buffer_size rb)) buf2 =
        blit (blit (rb_pool rb) (nat (write_index rb)) (take (nat room) ptr)) 0
          (take (nat (n - room)) (drop (nat room) ptr))"
      by (rule write_copy_wrap [OF inv, of 0 n ptr room]) (use n' room room_def in auto)
    define rb' where "rb' = rb\<lparr>buffer_ptr := buf2, write_mirror := \<not> write_mirror rb,
      write_index := n - room\<rparr>"
    have "rb_inv rb' \<and> rb_content rb' =
        rb_content rb @ take (nat room) ptr @ take (nat (n - room)) (drop (nat room) ptr)"
      using p n' b room room_def l2 by (intro append_wrap [OF inv]) (auto simp: rb'_def rb_pool_def)
    moreover have "rt_ringbuffer_put rb ptr len = Some (rb', n)"
      using m False wrap n' room_def b inv
      by (simp add: rt_ringbuffer_put_def space_len_u16 rb'_def Let_def)
    ultimately show ?thesis using take_split [OF room, of 0 ptr] by (auto simp: rb'_def)
  qed
qed

text \<open>What a forced write leaves: the newest \<open>N\<close> bytes of the stream.\<close>

definition newest :: "nat \<Rightarrow> 'a list \<Rightarrow> 'a list" where
  "newest N xs = drop (length xs - N) xs"

lemma newest_all [simp]: "length xs \<le> N \<Longrightarrow> newest N xs = xs"
  by (simp add: newest_def)

lemma newest_append_skip:
  "N \<le> length ys \<Longrightarrow> newest N (xs @ drop (length ys - N) ys) = newest N (xs @ ys)"
  by (simp add: newest_def)

lemma newest_tail:
  assumes "0 \<le> len" "len \<le> int (length ptr)" "0 < N"
    and "off = (if len > N then len - N else 0)" and "n = min len N"
  shows "newest (nat N) (cs @ take (nat n) (drop (nat off) ptr)) = newest (nat N) (cs @ take (nat len) ptr)"
proof (cases "len > N")
  case True
  have "length (take (nat len) ptr) = nat len" using assms by simp
  moreover have "take (nat n) (drop (nat off) ptr) = drop (nat len - nat N) (take (nat len) ptr)"
    using assms True by (simp add: drop_take nat_diff_distrib)
  ultimately show ?thesis
    using newest_append_skip [of "nat N" "take (nat len) ptr" cs] True by simp
qed (simp add: assms)

lemma put_force_nowrap:
  assumes inv: "rb_inv rb" and n: "0 \<le> off" "0 \<le> n" "off + n \<le> int (length ptr)"
    and room: "write_index rb + n < buffer_size rb"
    and xs: "xs = take (nat n) (drop (nat off) ptr)"
  obtains buf rb' where "memcpy (buffer_ptr rb) (write_index rb) ptr off n = Some buf"
    and "rb' = rb\<lparr>buffer_ptr := buf, write_index := write_index rb + n,
      read_index := (if n > buffer_size rb - int (length (rb_content rb))
        then write_index rb + n else read_index rb)\<rparr>"
    and "rb_inv rb'" and "rb_content rb' = newest (nat (buffer_size rb)) (rb_content rb @ xs)"
proof -
  note b = rb_boundsD [OF inv]
  have lx: "int (length xs) = n" using n xs by simp
  obtain buf where m: "memcpy (buffer_ptr rb) (write_index rb) ptr off n = Some buf"
    and lb: "length buf = length (buffer_ptr rb)"
    and p: "take (nat (buffer_size rb)) buf = blit (rb_pool rb) (nat (write_index rb)) xs"
    unfolding xs by (rule write_copy [OF inv, of off n ptr]) (use n room in auto)
  define rb' where "rb' = rb\<lparr>buffer_ptr := buf, write_index := write_index rb + n,
    read_index := (if n > buffer_size rb - int (length (rb_content rb))
      then write_index rb + n else read_index rb)\<rparr>"
  have "rb_inv rb' \<and> rb_content rb' = newest (nat (buffer_size rb)) (rb_content rb @ xs)"
  proof (cases "n > buffer_size rb - int (length (rb_content rb))")
    case over: True
    have "rb_inv rb' \<and> rb_content rb' =
        drop (length (rb_content rb) + length xs - nat (buffer_size rb)) (rb_content rb @ xs)"
      using p n b room lb over lx
      by (intro overwrite_nowrap [OF inv]) (auto simp: rb'_def rb_pool_def)
    then show ?thesis by (simp add: newest_def)
  next
    case no: False
    have "rb_inv rb' \<and> rb_content rb' = rb_content rb @ xs"
      using p n b room lb no lx by (intro append_nowrap [OF inv]) (auto simp: rb'_def rb_pool_def)
    with no lx show ?thesis by simp
  qed
  with m rb'_def that show ?thesis by blast
qed

lemma put_force_wrap:
  assumes inv: "rb_inv rb" and off: "0 \<le> off" "off + n \<le> int (length ptr)"
    and room: "room = buffer_size rb - write_index rb" "room \<le> n" "n \<le> buffer_size rb"
    and xs: "xs = take (nat n) (drop (nat off) ptr)"
  obtains buf1 buf2 rb' where "memcpy (buffer_ptr rb) (write_index rb) ptr off room = Some buf1"
    and "memcpy buf1 0 ptr (off + room) (n - room) = Some buf2"
    and "rb' = (if n > buffer_size rb - int (length (rb_content rb))
      then rb\<lparr>buffer_ptr := buf2, write_mirror := \<not> write_mirror rb, write_index := n - room,
        read_mirror := (if n - room \<le> read_index rb then \<not> read_mirror rb else read_mirror rb),
        read_index := n - room\<rparr>
      else rb\<lparr>buffer_ptr := buf2, write_mirror := \<not> write_mirror rb, write_index := n - room\<rparr>)"
    and "rb_inv rb'" and "rb_content rb' = newest (nat (buffer_size rb)) (rb_content rb @ xs)"
proof -
  note b = rb_boundsD [OF inv]
  define x1 x2 where "x1 = take (nat room) (drop (nat off) ptr)"
    and "x2 = take (nat (n - room)) (drop (nat (off + room)) ptr)"
  obtain buf1 buf2 where m: "memcpy (buffer_ptr rb) (write_index rb) ptr off room = Some buf1"
    "memcpy buf1 0 ptr (off + room) (n - room) = Some buf2"
    and l2: "length buf2 = length (buffer_ptr rb)"
    and p: "take (nat (buffer_size rb)) buf2 = blit (blit (rb_pool rb) (nat (write_index rb)) x1) 0 x2"
    unfolding x1_def x2_def by (rule write_copy_wrap [OF inv off room])
  have x12: "xs = x1 @ x2" "int (length x1) = room" "int (length x2) = n - room"
    using take_split [of room n off ptr] off b room by (auto simp: xs x1_def x2_def)
  define rb' where "rb' = (if n > buffer_size rb - int (length (rb_content rb))
    then rb\<lparr>buffer_ptr := buf2, write_mirror := \<not> write_mirror rb, write_index := n - room,
      read_mirror := (if n - room \<le> read_index rb then \<not> read_mirror rb else read_mirror rb),
      read_index := n - room\<rparr>
    else rb\<lparr>buffer_ptr := buf2, write_mirror := \<not> write_mirror rb, write_index := n - room\<rparr>)"
  have "rb_inv rb' \<and> rb_content rb' = newest (nat (buffer_size rb)) (rb_content rb @ xs)"
  proof (cases "n > buffer_size rb - int (length (rb_content rb))")
    case over: True
    have "rb_inv rb' \<and> rb_content rb' =
        drop (length (rb_content rb) + length (x1 @ x2) - nat (buffer_size rb)) (rb_content rb @ x1 @ x2)"
      using p b room l2 over x12 by (intro overwrite_wrap [OF inv]) (auto simp: rb'_def rb_pool_def)
    then show ?thesis by (simp add: newest_def x12)
  next
    case no: False
    have "rb_inv rb' \<and> rb_content rb' = rb_content rb @ x1 @ x2"
      using p b room l2 no x12 by (intro append_wrap [OF inv]) (auto simp: rb'_def rb_pool_def)
    with no x12 show ?thesis by simp
  qed
  with m rb'_def that show ?thesis by blast
qed

lemma put_force_spec:
  assumes inv: "rb_inv rb" and len: "0 \<le> len" "len \<le> int (length ptr)"
  shows "\<exists>rb'. rt_ringbuffer_put_force rb ptr len = Some (rb', min len (buffer_size rb)) \<and> rb_inv rb' \<and>
      rb_content rb' = newest (nat (buffer_size rb)) (rb_content rb @ take (nat len) ptr) \<and>
      buffer_size rb' = buffer_size rb"
proof -
  note b = rb_boundsD [OF inv] and le = rb_content_le_size [OF inv]
  define off n room where "off = (if len > buffer_size rb then len - buffer_size rb else 0)"
    and "n = min len (buffer_size rb)" and "room = buffer_size rb - write_index rb"
  have n': "0 \<le> off" "0 \<le> n" "off + n \<le> int (length ptr)" "n \<le> buffer_size rb"
    using len b by (auto simp: off_def n_def)
  note new = newest_tail [OF len b(1) off_def n_def, of "rb_content rb"]
  note unfold = rt_ringbuffer_put_force_def space_len_u16 Let_def off_def n_def min_def
  show ?thesis
  proof (cases "room > n")
    case True
    then have r: "write_index rb + n < buffer_size rb" by (simp add: room_def)
    obtain buf rb' where m: "memcpy (buffer_ptr rb) (write_index rb) ptr off n = Some buf"
      and rb': "rb' = rb\<lparr>buffer_ptr := buf, write_index := write_index rb + n,
        read_index := (if n > buffer_size rb - int (length (rb_content rb))
          then write_index rb + n else read_index rb)\<rparr>"
      and res: "rb_inv rb'"
        "rb_content rb' = newest (nat (buffer_size rb)) (rb_content rb @ take (nat n) (drop (nat off) ptr))"
      by (rule put_force_nowrap [OF inv n'(1-3) r refl])
    have "rt_ringbuffer_put_force rb ptr len = Some (rb', n)"
      using m True n' room_def b inv by (auto simp: rb' unfold)
    with res new show ?thesis by (auto simp: rb' n_def)
  next
    case wrap: False
    then have r: "room \<le> n" by simp
    obtain buf1 buf2 rb' where m: "memcpy (buffer_ptr rb) (write_index rb) ptr off room = Some buf1"
      "memcpy buf1 0 ptr (off + room) (n - room) = Some buf2"
      and rb': "rb' = (if n > buffer_size rb - int (length (rb_content rb))
        then rb\<lparr>buffer_ptr := buf2, write_mirror := \<not> write_mirror rb, write_index := n - room,
          read_mirror := (if n - room \<le> read_index rb then \<not> read_mirror rb else read_mirror rb),
          read_index := n - room\<rparr>
        else rb\<lparr>buffer_ptr := buf2, write_mirror := \<not> write_mirror rb, write_index := n - room\<rparr>)"
      and res: "rb_inv rb'"
        "rb_content rb' = newest (nat (buffer_size rb)) (rb_content rb @ take (nat n) (drop (nat off) ptr))"
      by (rule put_force_wrap [OF inv n'(1,3) room_def r n'(4) refl])
    have "rt_ringbuffer_put_force rb ptr len = Some (rb', n)"
      using m wrap n' room_def b inv by (auto simp: rb' unfold)
    with res new show ?thesis by (auto simp: rb' n_def)
  qed
qed

lemma rb_pool_upd [simp]:
  "rb_pool (rb\<lparr>read_index := i\<rparr>) = rb_pool rb"
  "rb_pool (rb\<lparr>read_mirror := m\<rparr>) = rb_pool rb"
  "rb_pool (rb\<lparr>write_index := i\<rparr>) = rb_pool rb"
  "rb_pool (rb\<lparr>write_mirror := m\<rparr>) = rb_pool rb"
  by (simp_all add: rb_pool_def)

lemma consume_nowrap:
  assumes inv: "rb_inv rb" and n: "0 \<le> n" "n \<le> int (length (rb_content rb))"
    and room: "read_index rb + n < buffer_size rb"
    and rb': "rb' = rb\<lparr>read_index := read_index rb + n\<rparr>"
  shows "rb_inv rb' \<and> rb_content rb' = drop (nat n) (rb_content rb) \<and>
    take (nat n) (drop (nat (read_index rb)) (buffer_ptr rb)) = take (nat n) (rb_content rb)"
proof -
  note b = rb_boundsD [OF inv]
  have sum: "nat (read_index rb + n) = nat (read_index rb) + nat n" using b n by simp
  have buf: "take (nat n) (drop (nat (read_index rb)) (rb_pool rb)) =
      take (nat n) (drop (nat (read_index rb)) (buffer_ptr rb))"
    using b n room by (simp add: rb_pool_def drop_take min_absorb1 nat_diff_distrib)
  show ?thesis
  proof (cases "read_mirror rb = write_mirror rb")
    case True
    note c = content_same_mirror [OF inv True]
    have le: "read_index rb + n \<le> write_index rb" using n True by (simp add: rb_content_length [OF inv])
    have "rb_inv rb'" using b n le room True by (simp add: rb_inv_def rb')
    moreover have "rb_content rb' = drop (nat n) (rb_content rb)"
      using content_same_mirror(1) [OF \<open>rb_inv rb'\<close>] True c(1)
      by (simp add: rb' sum add.commute [of "nat n"])
    moreover have "take (nat n) (rb_content rb) = take (nat n) (drop (nat (read_index rb)) (rb_pool rb))"
    proof -
      have "nat n \<le> nat (write_index rb) - nat (read_index rb)" using le b n by linarith
      then show ?thesis using c by (simp add: drop_take min_absorb1)
    qed
    ultimately show ?thesis using buf by simp
  next
    case False
    note c = content_other_mirror [OF inv False]
    have "rb_inv rb'" using b n c(2) room False by (simp add: rb_inv_def rb')
    moreover have "rb_content rb' = drop (nat n) (rb_content rb)"
      using content_other_mirror(1) [OF \<open>rb_inv rb'\<close>] False c(1) room b n
      by (simp add: rb' sum add.commute [of "nat n"] rb_pool_length [OF inv])
    moreover have "take (nat n) (rb_content rb) = take (nat n) (drop (nat (read_index rb)) (rb_pool rb))"
      using c room b n by (simp add: rb_pool_length [OF inv])
    ultimately show ?thesis using buf by simp
  qed
qed

lemma consume_wrap:
  assumes inv: "rb_inv rb" and n: "n \<le> int (length (rb_content rb))"
    and room: "room = buffer_size rb - read_index rb" "room \<le> n"
    and rb': "rb' = rb\<lparr>read_mirror := \<not> read_mirror rb, read_index := n - room\<rparr>"
  shows "rb_inv rb' \<and> rb_content rb' = drop (nat n) (rb_content rb) \<and>
    take (nat room) (drop (nat (read_index rb)) (buffer_ptr rb)) @
      take (nat (n - room)) (buffer_ptr rb) = take (nat n) (rb_content rb)"
proof -
  note b = rb_boundsD [OF inv]
  have mir: "read_mirror rb \<noteq> write_mirror rb"
    using n room b by (auto simp: rb_content_length [OF inv] split: if_splits)
  note c = content_other_mirror [OF inv mir]
  have le: "n - room \<le> write_index rb" using n room mir by (simp add: rb_content_length [OF inv])
  have d1: "take (nat room) (drop (nat (read_index rb)) (buffer_ptr rb)) =
      drop (nat (read_index rb)) (rb_pool rb)"
    using b room by (simp add: rb_pool_def drop_take nat_diff_distrib)
  have d2: "take (nat (n - room)) (buffer_ptr rb) = take (nat (n - room)) (rb_pool rb)"
    using b le by (simp add: rb_pool_def min_absorb1)
  have len: "length (drop (nat (read_index rb)) (rb_pool rb)) = nat room"
    using b room by (simp add: rb_pool_length [OF inv] nat_diff_distrib)
  have nn: "nat n = nat room + nat (n - room)" using b room by simp
  have "rb_inv rb'" using b room le mir by (auto simp: rb_inv_def rb')
  moreover have "rb_content rb' = drop (nat n) (rb_content rb)"
    using content_same_mirror(1) [OF \<open>rb_inv rb'\<close>] mir len by (simp add: rb' c(1) nn)
  moreover have "take (nat n) (rb_content rb) =
      drop (nat (read_index rb)) (rb_pool rb) @ take (nat (n - room)) (rb_pool rb)"
    using len le b by (simp add: c(1) nn min_absorb1)
  ultimately show ?thesis by (simp add: d1 d2)
qed

lemma get_spec:
  assumes inv: "rb_inv rb" and len: "0 \<le> len" "len \<le> int (length dst)"
    and n: "n = min len (int (length (rb_content rb)))"
  shows "\<exists>rb'. rt_ringbuffer_get rb dst len =
      Some (rb', take (nat n) (rb_content rb) @ drop (nat n) dst, n) \<and> rb_inv rb' \<and>
      rb_content rb' = drop (nat n) (rb_content rb) \<and> buffer_size rb' = buffer_size rb"
proof (cases "rb_content rb = []")
  case True
  with inv len n show ?thesis by (simp add: rt_ringbuffer_get_def data_len_content)
next
  case False
  note b = rb_boundsD [OF inv] and le = rb_content_le_size [OF inv]
  define room where "room = buffer_size rb - read_index rb"
  have n': "(if int (length (rb_content rb)) < len then trunc_u 16 (int (length (rb_content rb))) else len) = n"
    "0 \<le> n" "n \<le> int (length dst)" "n \<le> int (length (rb_content rb))"
    using n len le b by auto
  show ?thesis
  proof (cases "room > n")
    case True
    define rb' where "rb' = rb\<lparr>read_index := read_index rb + n\<rparr>"
    from True have r: "read_index rb + n < buffer_size rb" by (simp add: room_def)
    note cons = consume_nowrap [OF inv n'(2,4) r rb'_def]
    have "memcpy dst 0 (buffer_ptr rb) (read_index rb) n =
        Some (take (nat n) (rb_content rb) @ drop (nat n) dst)"
      using cons b n' r by (simp add: memcpy_def)
    then have "rt_ringbuffer_get rb dst len =
        Some (rb', take (nat n) (rb_content rb) @ drop (nat n) dst, n)"
      using False True n' r b by (simp add: rt_ringbuffer_get_def data_len_content [OF inv] Let_def rb'_def room_def)
    with cons show ?thesis by (simp add: rb'_def)
  next
    case wrap: False
    then have r: "room \<le> n" "0 \<le> room" using b by (simp_all add: room_def)
    define rb' where "rb' = rb\<lparr>read_mirror := \<not> read_mirror rb, read_index := n - room\<rparr>"
    define x1 x2 where "x1 = take (nat room) (drop (nat (read_index rb)) (buffer_ptr rb))"
      and "x2 = take (nat (n - room)) (buffer_ptr rb)"
    note cons = consume_wrap [OF inv n'(4) room_def r(1) rb'_def]
    have lens: "length x1 = nat room" "length x2 = nat (n - room)"
      using b r n' le by (auto simp: x1_def x2_def room_def)
    have m1: "memcpy dst 0 (buffer_ptr rb) (read_index rb) room = Some (x1 @ drop (nat room) dst)"
      using b n' r by (simp add: memcpy_def x1_def room_def)
    have tr: "trunc_u 15 (n - room) = n - room" using n' r le b by simp
    have le2: "n - room \<le> int (length (buffer_ptr rb))" "nat room + nat (n - room) = nat n"
      using b n' r le by auto
    have "memcpy (x1 @ drop (nat room) dst) room (buffer_ptr rb) 0 (n - room) =
        Some (x1 @ x2 @ drop (nat n) dst)"
      using n' r lens le2 by (simp add: memcpy_def x2_def [symmetric])
    then have "rt_ringbuffer_get rb dst len =
        Some (rb', take (nat n) (rb_content rb) @ drop (nat n) dst, n)"
      using False wrap n' r b m1 cons tr
      by (simp add: rt_ringbuffer_get_def data_len_content [OF inv] Let_def rb'_def room_def x1_def x2_def
          flip: append_assoc)
    with cons show ?thesis by (simp add: rb'_def)
  qed
qed

subsection \<open>The byte operations are block operations of length one\<close>

lemma memcpy_one:
  "0 \<le> i \<Longrightarrow> i < int (length buf) \<Longrightarrow> memcpy buf i [ch] 0 1 = Some (buf[nat i := ch])"
  by (simp add: memcpy_def upd_conv_take_nth_drop nat_add_distrib)

lemma memcpy_none: "0 \<le> s \<Longrightarrow> s \<le> int (length src) \<Longrightarrow> memcpy buf 0 src s 0 = Some buf"
  by (simp add: memcpy_def)

lemma putchar_put:
  assumes inv: "rb_inv rb"
  shows "rt_ringbuffer_putchar rb ch = rt_ringbuffer_put rb [ch] 1"
proof -
  note b = rb_boundsD [OF inv] and le = rb_content_le_size [OF inv]
  have st: "store_at (buffer_ptr rb) (write_index rb) ch = Some ((buffer_ptr rb)[nat (write_index rb) := ch])"
    and m: "memcpy (buffer_ptr rb) (write_index rb) [ch] 0 1 = Some ((buffer_ptr rb)[nat (write_index rb) := ch])"
    using b by (simp_all add: store_at_def memcpy_one)
  show ?thesis
  proof (cases "write_index rb = buffer_size rb - 1")
    case True
    then have "buffer_size rb - write_index rb = 1" by simp
    with st m le b show ?thesis
      by (auto simp: rt_ringbuffer_putchar_def rt_ringbuffer_put_def space_len_u16 [OF inv]
          space_len_content [OF inv] True memcpy_none Let_def)
  next
    case False
    with b have "buffer_size rb - write_index rb > 1" by simp
    with st m le b False show ?thesis
      by (auto simp: rt_ringbuffer_putchar_def rt_ringbuffer_put_def space_len_u16 [OF inv]
          space_len_content [OF inv] Let_def)
  qed
qed

lemma putchar_force_put_force:
  assumes inv: "rb_inv rb"
  shows "rt_ringbuffer_putchar_force rb ch = rt_ringbuffer_put_force rb [ch] 1"
proof -
  note b = rb_boundsD [OF inv] and le = rb_content_le_size [OF inv]
  have st: "store_at (buffer_ptr rb) (write_index rb) ch = Some ((buffer_ptr rb)[nat (write_index rb) := ch])"
    and m: "memcpy (buffer_ptr rb) (write_index rb) [ch] 0 1 = Some ((buffer_ptr rb)[nat (write_index rb) := ch])"
    using b by (simp_all add: store_at_def memcpy_one)
  have full: "rt_ringbuffer_status rb = RT_RINGBUFFER_FULL \<longleftrightarrow>
      1 > buffer_size rb - int (length (rb_content rb))"
    using le b by (auto simp: status_content [OF inv])
  note unfold = rt_ringbuffer_putchar_force_def rt_ringbuffer_put_force_def space_len_u16 [OF inv] full Let_def
  show ?thesis
  proof (cases "write_index rb = buffer_size rb - 1")
    case True
    then have "buffer_size rb - write_index rb = 1" "\<not> 1 > buffer_size rb" using b by simp_all
    with st m b show ?thesis by (auto simp: unfold True memcpy_none)
  next
    case False
    with b have "buffer_size rb - write_index rb > 1" "\<not> 1 > buffer_size rb" by simp_all
    with st m b False show ?thesis by (auto simp: unfold)
  qed
qed

lemma getchar_get:
  assumes inv: "rb_inv rb"
  shows "rt_ringbuffer_getchar rb =
    map_option (\<lambda>(rb', dst, n). (rb', if n = 1 then Some (hd dst) else None, n)) (rt_ringbuffer_get rb [d] 1)"
proof -
  note b = rb_boundsD [OF inv] and le = rb_content_le_size [OF inv]
  have ld: "load_at (buffer_ptr rb) (read_index rb) = Some (buffer_ptr rb ! nat (read_index rb))"
    using b by (simp add: load_at_def)
  have "take (Suc 0) (drop (nat (read_index rb)) (buffer_ptr rb)) = [buffer_ptr rb ! nat (read_index rb)]"
    using b by (simp add: take_Suc_conv_app_nth hd_drop_conv_nth)
  then have m: "memcpy [d] 0 (buffer_ptr rb) (read_index rb) 1 = Some [buffer_ptr rb ! nat (read_index rb)]"
    using b by (simp add: memcpy_def)
  have e: "memcpy xs 1 (buffer_ptr rb) 0 0 = Some xs" if "length xs = 1" for xs
    using that by (simp add: memcpy_def)
  note unfold = rt_ringbuffer_getchar_def rt_ringbuffer_get_def data_len_content [OF inv] Let_def
  show ?thesis
  proof (cases "read_index rb = buffer_size rb - 1")
    case True
    then have "buffer_size rb - read_index rb = 1" by simp
    with ld m e b show ?thesis by (auto simp: unfold True)
  next
    case False
    with b have "buffer_size rb - read_index rb > 1" by simp
    with ld m b False show ?thesis by (auto simp: unfold)
  qed
qed

lemma peak_spec:
  assumes inv: "rb_inv rb" and p: "rt_ringbuffer_peak rb = (rb', ptr, n)"
  shows "rb_inv rb' \<and> 0 \<le> n \<and> n \<le> int (length (rb_content rb)) \<and>
    rb_content rb' = drop (nat n) (rb_content rb) \<and> (ptr = None \<longleftrightarrow> rb_content rb = []) \<and>
    (\<forall>i. ptr = Some i \<longrightarrow> 0 < n \<and> take (nat n) (drop (nat i) (buffer_ptr rb)) = take (nat n) (rb_content rb))"
proof (cases "rb_content rb = []")
  case True
  with inv p show ?thesis by (auto simp: rt_ringbuffer_peak_def data_len_content)
next
  case False
  note b = rb_boundsD [OF inv] and le = rb_content_le_size [OF inv]
  have ne: "0 < int (length (rb_content rb))" using False by simp
  have room: "trunc_u 32 (buffer_size rb - read_index rb) = buffer_size rb - read_index rb"
    using b by simp
  show ?thesis
  proof (cases "buffer_size rb - read_index rb > int (length (rb_content rb))")
    case True
    then have r: "read_index rb + int (length (rb_content rb)) < buffer_size rb" by simp
    have rb': "rb' = rb\<lparr>read_index := read_index rb + int (length (rb_content rb))\<rparr>"
      and "n = int (length (rb_content rb))" "ptr = Some (read_index rb)"
      using p False True b by (auto simp: rt_ringbuffer_peak_def data_len_content [OF inv] room Let_def)
    then show ?thesis using consume_nowrap [OF inv _ _ r rb'] False by simp
  next
    case wrap: False
    then have r: "buffer_size rb - read_index rb \<le> int (length (rb_content rb))" by simp
    have rb': "rb' = rb\<lparr>read_mirror := \<not> read_mirror rb,
        read_index := (buffer_size rb - read_index rb) - (buffer_size rb - read_index rb)\<rparr>"
      and "n = buffer_size rb - read_index rb" "ptr = Some (read_index rb)"
      using p False wrap b by (auto simp: rt_ringbuffer_peak_def data_len_content [OF inv] room Let_def)
    then show ?thesis using consume_wrap [OF inv r refl order_refl rb'] False b r by simp
  qed
qed

lemma align_down_4: "(x::int) AND NOT 3 = 4 * (x div 4)"
proof -
  have "(3::int) = mask 2" by (simp add: mask_eq_exp_minus_1)
  then show ?thesis
    using and_not_mask_int [of x 2] by (simp only: push_bit_eq_mult drop_bit_eq_div) simp
qed

lemmas align_down_4' = align_down_4 [simplified]

lemma init_spec:
  assumes "4 \<le> sz" "sz < 2 ^ 15" "sz \<le> int (length pool)"
  shows "\<exists>rb. rt_ringbuffer_init pool sz = Some rb \<and> rb_inv rb \<and> rb_content rb = [] \<and>
    buffer_size rb = 4 * (sz div 4)"
proof -
  have "4 \<le> 4 * (sz div 4)" "4 * (sz div 4) \<le> sz" using assms by simp_all
  moreover from this have "trunc_s 16 (4 * (sz div 4)) = 4 * (sz div 4)"
    using assms by (intro trunc_s_id) auto
  ultimately show ?thesis
    using assms by (auto simp: rt_ringbuffer_init_def align_down_4' rb_inv_def rb_content_def)
qed

lemma create_null: "0 < sz \<Longrightarrow> rt_ringbuffer_create False m sz = Some None"
  by (simp add: rt_ringbuffer_create_def Let_def)

subsection \<open>The interface: a bounded byte queue\<close>

text \<open>
  A run of transfers through a byte queue: \<open>Inl xs\<close> offers a block, \<open>Inr dst\<close> asks for as
  many bytes as the region \<open>dst\<close> holds. The result keeps the stream of accepted bytes and the
  stream of received ones.
\<close>

fun transfer :: "('q \<Rightarrow> 'b list \<Rightarrow> int \<Rightarrow> ('q \<times> int) option) \<Rightarrow>
    ('q \<Rightarrow> 'b list \<Rightarrow> int \<Rightarrow> ('q \<times> 'b list \<times> int) option) \<Rightarrow>
    'q \<Rightarrow> ('b list + 'b list) list \<Rightarrow> ('q \<times> 'b list \<times> 'b list) option" where
  "transfer put get q [] = Some (q, [], [])"
| "transfer put get q (Inl xs # ops) =
     (case put q xs (int (length xs)) of
        None \<Rightarrow> None
      | Some (q', n) \<Rightarrow>
          map_option (\<lambda>(q'', acc, rcv). (q'', take (nat n) xs @ acc, rcv)) (transfer put get q' ops))"
| "transfer put get q (Inr dst # ops) =
     (case get q dst (int (length dst)) of
        None \<Rightarrow> None
      | Some (q', r, n) \<Rightarrow>
          map_option (\<lambda>(q'', acc, rcv). (q'', acc, take (nat n) r @ rcv)) (transfer put get q' ops))"

text \<open>
  What a driver relies on when it moves bytes through the buffer. \<open>put\<close> accepts as much of
  the offered block as fits and appends it; \<open>get\<close> removes a prefix into the caller's region.
\<close>

locale byte_fifo =
  fixes invar :: "'q \<Rightarrow> bool"
    and content :: "'q \<Rightarrow> 'b list"
    and cap :: "'q \<Rightarrow> int"
    and put :: "'q \<Rightarrow> 'b list \<Rightarrow> int \<Rightarrow> ('q \<times> int) option"
    and get :: "'q \<Rightarrow> 'b list \<Rightarrow> int \<Rightarrow> ('q \<times> 'b list \<times> int) option"
  assumes content_cap: "invar q \<Longrightarrow> int (length (content q)) \<le> cap q"
    and put_law: "invar q \<Longrightarrow> n = min (int (length xs)) (cap q - int (length (content q))) \<Longrightarrow>
      \<exists>q'. put q xs (int (length xs)) = Some (q', n) \<and> invar q' \<and>
        content q' = content q @ take (nat n) xs \<and> cap q' = cap q"
    and get_law: "invar q \<Longrightarrow> n = min (int (length dst)) (int (length (content q))) \<Longrightarrow>
      \<exists>q'. get q dst (int (length dst)) = Some (q', take (nat n) (content q) @ drop (nat n) dst, n) \<and>
        invar q' \<and> content q' = drop (nat n) (content q) \<and> cap q' = cap q"
begin

lemma transfer_fifo:
  assumes "invar q"
  shows "\<exists>q' acc rcv. transfer put get q ops = Some (q', acc, rcv) \<and> invar q' \<and> cap q' = cap q \<and>
    content q @ acc = rcv @ content q'"
  using assms
proof (induction ops arbitrary: q)
  case Nil
  then show ?case by simp
next
  case (Cons x ops)
  show ?case
  proof (cases x)
    case (Inl xs)
    obtain q1 n where q1: "put q xs (int (length xs)) = Some (q1, n)" "invar q1"
      "content q1 = content q @ take (nat n) xs" "cap q1 = cap q"
      using put_law [OF Cons.prems refl, of xs] by blast
    with Cons.IH [OF q1(2)] Inl show ?thesis by auto
  next
    case (Inr dst)
    define n where "n = min (int (length dst)) (int (length (content q)))"
    obtain q1 where q1: "get q dst (int (length dst)) = Some (q1, take (nat n) (content q) @ drop (nat n) dst, n)"
      "invar q1" "content q1 = drop (nat n) (content q)" "cap q1 = cap q"
      using get_law [OF Cons.prems n_def] by blast
    have tk: "take (nat n) (take (nat n) (content q) @ drop (nat n) dst) = take (nat n) (content q)"
      by (simp add: n_def min_def)
    obtain q2 acc rcv where q2: "transfer put get q1 ops = Some (q2, acc, rcv)" "invar q2" "cap q2 = cap q1"
      "content q1 @ acc = rcv @ content q2"
      using Cons.IH [OF q1(2)] by blast
    have "content q @ acc = take (nat n) (content q) @ rcv @ content q2"
      using q2(4) append_take_drop_id [of "nat n" "content q"] by (metis append_assoc q1(3))
    with q1 q2 Inr tk show ?thesis by simp
  qed
qed

end

interpretation rb: byte_fifo rb_inv rb_content buffer_size rt_ringbuffer_put rt_ringbuffer_get
proof
  show "int (length (rb_content q)) \<le> buffer_size q" if "rb_inv q" for q
    using that by (rule rb_content_le_size)
  show "\<exists>q'. rt_ringbuffer_put q xs (int (length xs)) = Some (q', n) \<and> rb_inv q' \<and>
      rb_content q' = rb_content q @ take (nat n) xs \<and> buffer_size q' = buffer_size q"
    if "rb_inv q" and "n = min (int (length xs)) (buffer_size q - int (length (rb_content q)))" for q n xs
    using put_spec [OF that(1) _ _ that(2)] by simp
  show "\<exists>q'. rt_ringbuffer_get q dst (int (length dst)) =
      Some (q', take (nat n) (rb_content q) @ drop (nat n) dst, n) \<and>
      rb_inv q' \<and> rb_content q' = drop (nat n) (rb_content q) \<and> buffer_size q' = buffer_size q"
    if "rb_inv q" and "n = min (int (length dst)) (int (length (rb_content q)))" for q n dst
    using get_spec [OF that(1) _ _ that(2)] by simp
qed

subsection \<open>A pool of fewer than four bytes\<close>

text \<open>Repeated \<open>rt_ringbuffer_putchar_force\<close>, as an interrupt handler calls it.\<close>

fun putchar_force_all :: "rt_ringbuffer \<Rightarrow> u8 list \<Rightarrow> rt_ringbuffer option" where
  "putchar_force_all rb [] = Some rb"
| "putchar_force_all rb (c # cs) =
     do { (rb', _) \<leftarrow> rt_ringbuffer_putchar_force rb c; putchar_force_all rb' cs }"

lemma zero_size_overrun:
  assumes "buffer_size rb = 0" "read_index rb = 0" "read_mirror rb = write_mirror rb"
    and "0 \<le> write_index rb" "int (length (buffer_ptr rb)) < 2 ^ 15"
    and "int (length (buffer_ptr rb)) < write_index rb + int (length cs)"
    and "write_index rb \<le> int (length (buffer_ptr rb))"
  shows "putchar_force_all rb cs = None"
  using assms
proof (induction cs arbitrary: rb)
  case Nil
  then show ?case by simp
next
  case (Cons c cs)
  show ?case
  proof (cases "write_index rb < int (length (buffer_ptr rb))")
    case True
    define rb' where "rb' = rb\<lparr>buffer_ptr := (buffer_ptr rb)[nat (write_index rb) := c],
      write_index := write_index rb + 1\<rparr>"
    have "rt_ringbuffer_putchar_force rb c = Some (rb', 1)"
      using True Cons.prems by (auto simp: rt_ringbuffer_putchar_force_def store_at_def rb'_def
          rt_ringbuffer_status_def Let_def)
    moreover have "putchar_force_all rb' cs = None"
      by (rule Cons.IH) (use True Cons.prems in \<open>auto simp: rb'_def\<close>)
    ultimately show ?thesis by simp
  next
    case False
    then have "rt_ringbuffer_putchar_force rb c = None"
      by (simp add: rt_ringbuffer_putchar_force_def store_at_def)
    then show ?thesis by simp
  qed
qed

lemma small_init:
  assumes "0 < sz" "sz < 4"
  shows "rt_ringbuffer_init pool sz = Some \<lparr>buffer_ptr = pool, read_mirror = False, read_index = 0,
    write_mirror = False, write_index = 0, buffer_size = 0\<rparr>"
  using assms by (simp add: rt_ringbuffer_init_def align_down_4' trunc_s_def)

subsection \<open>Properties\<close>

text \<open>A four-byte buffer in the middle of its life: three bytes stored, the writer one lap ahead.\<close>

definition rb_demo :: rt_ringbuffer where
  "rb_demo = \<lparr>buffer_ptr = [1, 2, 3, 4], read_mirror = False, read_index = 2,
     write_mirror = True, write_index = 1, buffer_size = 4\<rparr>"

lemma rb_demo_inv: "rb_inv rb_demo"
  by (simp add: rb_inv_def rb_demo_def)

lemma rb_demo_content: "rb_content rb_demo = [3, 4, 1]"
  by (simp add: rb_content_def rb_pool_def rb_demo_def)

text \<open>
  C16. The ring buffer is a FIFO. From any buffer that satisfies the invariant, any sequence of
  \<open>rt_ringbuffer_put\<close> and \<open>rt_ringbuffer_get\<close> calls runs without an access outside the pool or
  the caller's regions, keeps the invariant and the capacity, and delivers the stored bytes
  followed by the accepted bytes in order: what was stored plus what was accepted is what was
  received plus what is still stored.
\<close>

theorem ringbuffer_fifo:
  assumes "rb_inv rb"
  shows "\<exists>rb' acc rcv. transfer rt_ringbuffer_put rt_ringbuffer_get rb ops = Some (rb', acc, rcv) \<and>
    rb_inv rb' \<and> buffer_size rb' = buffer_size rb \<and> rb_content rb @ acc = rcv @ rb_content rb'"
  using rb.transfer_fifo [OF assms, of ops] by blast

theorem ringbuffer_fifo_witness:
  "rb_inv rb_demo \<and> (\<exists>rb' acc rcv.
     transfer rt_ringbuffer_put rt_ringbuffer_get rb_demo [Inl [7, 8], Inr [0, 0], Inl [9]] = Some (rb', acc, rcv) \<and>
     rb_inv rb' \<and> buffer_size rb' = buffer_size rb_demo \<and> rb_content rb_demo @ acc = rcv @ rb_content rb')"
  using rb_demo_inv ringbuffer_fifo [OF rb_demo_inv, of "[Inl [7, 8], Inr [0, 0], Inl [9]]"] by blast

text \<open>
  \<open>rt_ringbuffer_put_force\<close> never fails and never leaves the pool: for a block of any length
  it returns the smaller of the length and the capacity, and afterwards the buffer holds the
  newest bytes of the stream, that is the last \<open>buffer_size\<close> bytes of the old content followed
  by the block (all of them when they fit). The read index and both mirror bits are adjusted so
  that the invariant holds again.
\<close>

theorem put_force_keeps_newest:
  assumes "rb_inv rb"
  shows "\<exists>rb'. rt_ringbuffer_put_force rb xs (int (length xs)) =
      Some (rb', min (int (length xs)) (buffer_size rb)) \<and>
    rb_inv rb' \<and> rb_content rb' = newest (nat (buffer_size rb)) (rb_content rb @ xs) \<and>
    buffer_size rb' = buffer_size rb"
  using put_force_spec [OF assms, of "int (length xs)" xs] by simp

theorem put_force_keeps_newest_witness:
  "rb_inv rb_demo \<and> (\<exists>rb'. rt_ringbuffer_put_force rb_demo [7, 8, 9] 3 = Some (rb', 3) \<and>
     rb_inv rb' \<and> rb_content rb' = [1, 7, 8, 9] \<and> buffer_size rb' = buffer_size rb_demo)"
  using rb_demo_inv put_force_keeps_newest [OF rb_demo_inv, of "[7, 8, 9]"]
  by (simp add: rb_demo_content newest_def) (simp add: rb_demo_def)

text \<open>
  The byte operations are the block operations with length one: on a buffer that satisfies
  the invariant \<open>rt_ringbuffer_putchar\<close> equals \<open>rt_ringbuffer_put\<close>, \<open>rt_ringbuffer_putchar_force\<close>
  equals \<open>rt_ringbuffer_put_force\<close>, and \<open>rt_ringbuffer_getchar\<close> equals \<open>rt_ringbuffer_get\<close> into a
  one-byte region, in result and in the whole buffer state.
\<close>

theorem byte_operations_are_block_operations:
  assumes "rb_inv rb"
  shows "rt_ringbuffer_putchar rb ch = rt_ringbuffer_put rb [ch] 1 \<and>
    rt_ringbuffer_putchar_force rb ch = rt_ringbuffer_put_force rb [ch] 1 \<and>
    rt_ringbuffer_getchar rb =
      map_option (\<lambda>(rb', dst, n). (rb', if n = 1 then Some (hd dst) else None, n))
        (rt_ringbuffer_get rb [ch] 1)"
  using putchar_put [OF assms] putchar_force_put_force [OF assms] getchar_get [OF assms] by blast

theorem byte_operations_are_block_operations_witness:
  "rb_inv rb_demo \<and> rt_ringbuffer_putchar rb_demo 9 = rt_ringbuffer_put rb_demo [9] 1 \<and>
    rt_ringbuffer_putchar_force rb_demo 9 = rt_ringbuffer_put_force rb_demo [9] 1"
  using rb_demo_inv byte_operations_are_block_operations [OF rb_demo_inv, of 9] by blast

text \<open>
  \<open>rt_ringbuffer_peak\<close> hands out the longest contiguous run of readable bytes and consumes
  it: the pointer is null exactly when the buffer is empty, otherwise the returned count is
  positive, the bytes at the pointer are the first ones of the queue, and the buffer continues
  with the rest. (The comment calls the result the size of the ring buffer.)
\<close>

theorem peak_consumes_contiguous_run:
  assumes "rb_inv rb" and "rt_ringbuffer_peak rb = (rb', ptr, n)"
  shows "rb_inv rb' \<and> 0 \<le> n \<and> n \<le> int (length (rb_content rb)) \<and>
    rb_content rb' = drop (nat n) (rb_content rb) \<and> (ptr = None \<longleftrightarrow> rb_content rb = []) \<and>
    (\<forall>i. ptr = Some i \<longrightarrow> 0 < n \<and> take (nat n) (drop (nat i) (buffer_ptr rb)) = take (nat n) (rb_content rb))"
  using assms by (rule peak_spec)

theorem peak_consumes_contiguous_run_witness:
  "\<exists>rb'. rt_ringbuffer_peak rb_demo = (rb', Some 2, 2) \<and> rb_content rb' = [1] \<and> rb_inv rb'"
proof -
  have p: "rt_ringbuffer_peak rb_demo =
      (rb_demo\<lparr>read_mirror := True, read_index := 0\<rparr>, Some 2, 2)"
    by (simp add: rt_ringbuffer_peak_def rt_ringbuffer_data_len_def rt_ringbuffer_status_def
        rb_demo_def trunc_u_def Let_def)
  show ?thesis
    using peak_consumes_contiguous_run [OF rb_demo_inv p] p by (simp add: rb_demo_content)
qed

text \<open>
  \<open>rt_ringbuffer_init\<close> accepts a size of one to three bytes, rounds it down to zero, and the
  buffer is then not protected by any check: \<open>rt_ringbuffer_putchar_force\<close> never resets the write
  index of a buffer of size zero, so after one more byte than the pool holds it writes outside the
  pool.
\<close>

theorem small_pool_overrun:
  assumes "0 < sz" and "sz < 4" and "length pool < length cs" and "length pool < 2 ^ 15"
  shows "\<exists>rb. rt_ringbuffer_init pool sz = Some rb \<and> buffer_size rb = 0 \<and> putchar_force_all rb cs = None"
  unfolding small_init [OF assms(1,2)]
  using assms(3,4) by (auto intro!: zero_size_overrun)

theorem small_pool_overrun_witness:
  "\<exists>rb. rt_ringbuffer_init [0, 0, 0] 3 = Some rb \<and> buffer_size rb = 0 \<and>
     putchar_force_all rb [1, 2, 3, 4] = None"
  using small_pool_overrun [of 3 "[0, 0, 0]" "[1, 2, 3, 4]"] by simp

end
