(* ===== verification/Kernel_State.thy ===== *)
theory Kernel_State
  imports Prelude
begin

text \<open>
  The state of the RT-Thread kernel as the uniprocessor configuration of \<open>rtconfig.h\<close> has it
  (32 priorities, no SMP, hard and soft timers, skip list of one level). Threads, timers and
  IPC objects are named by their addresses; a map takes an address to the fields of the
  structure. The intrusive list nodes (\<open>thread->tlist\<close>, \<open>timer->row\<close>) are represented by the
  lists they are linked into: \<open>tlists\<close> gives, for every list head a thread node can be linked
  to, the threads on it in order, and \<open>rt_list_remove\<close> takes the node out of the list it is on.
  Interrupt masking is not part of the state: an operation up to its call of \<open>rt_schedule\<close> is
  one step.
\<close>

type_synonym tid = nat
type_synonym obj = nat

text \<open>Thread states of \<open>include/rtdef.h\<close> (lines 536 to 545).\<close>

abbreviation (input) RT_THREAD_INIT :: u8 where "RT_THREAD_INIT \<equiv> 0"
abbreviation (input) RT_THREAD_READY :: u8 where "RT_THREAD_READY \<equiv> 1"
abbreviation (input) RT_THREAD_SUSPEND :: u8 where "RT_THREAD_SUSPEND \<equiv> 2"
abbreviation (input) RT_THREAD_RUNNING :: u8 where "RT_THREAD_RUNNING \<equiv> 3"
abbreviation (input) RT_THREAD_CLOSE :: u8 where "RT_THREAD_CLOSE \<equiv> 4"
abbreviation (input) RT_THREAD_STAT_MASK :: u8 where "RT_THREAD_STAT_MASK \<equiv> 7"
abbreviation (input) RT_THREAD_STAT_YIELD :: u8 where "RT_THREAD_STAT_YIELD \<equiv> 8"

abbreviation (input) RT_TIMER_FLAG_ACTIVATED :: u8 where "RT_TIMER_FLAG_ACTIVATED \<equiv> 1"
abbreviation (input) RT_TIMER_FLAG_PERIODIC :: u8 where "RT_TIMER_FLAG_PERIODIC \<equiv> 2"
abbreviation (input) RT_TIMER_FLAG_SOFT_TIMER :: u8 where "RT_TIMER_FLAG_SOFT_TIMER \<equiv> 4"

abbreviation (input) RT_IPC_FLAG_FIFO :: u8 where "RT_IPC_FLAG_FIFO \<equiv> 0"
abbreviation (input) RT_IPC_FLAG_PRIO :: u8 where "RT_IPC_FLAG_PRIO \<equiv> 1"

definition RT_TICK_MAX :: u32 where "RT_TICK_MAX = 0xffffffff"

text \<open>The list heads a thread's \<open>tlist\<close> node can be linked to.\<close>

datatype list_head =
    Ready u8            \<comment> \<open>\<open>rt_thread_priority_table[p]\<close>\<close>
  | Suspend obj         \<comment> \<open>\<open>ipc->suspend_thread\<close>\<close>
  | Suspend_sender obj  \<comment> \<open>\<open>mb->suspend_sender_thread\<close>, \<open>mq->suspend_sender_thread\<close>\<close>
  | Defunct             \<comment> \<open>\<open>_rt_thread_defunct\<close>\<close>

text \<open>A timer is a thread's built-in one or one of the application.\<close>

datatype timer_id = Thread_timer tid | User_timer nat

text \<open>
  \<open>timeout_func\<close> with its parameter: the kernel's own \<open>rt_thread_timeout\<close>, or the \<open>n\<close>-th
  function of the application, which the operations take as a parameter.
\<close>

datatype timeout_fn = Rt_thread_timeout tid | User_timeout nat

record rt_timer =
  tm_flag :: u8
  tm_timeout_func :: timeout_fn
  tm_init_tick :: u32
  tm_timeout_tick :: u32

record rt_thread =
  th_stat :: u8
  th_error :: rt_err_t
  th_current_priority :: u8
  th_init_priority :: u8
  th_number_mask :: u32
  th_event_set :: u32
  th_event_info :: u8
  th_init_tick :: u32
  th_remaining_tick :: u32
  th_cleanup :: bool        \<comment> \<open>whether \<open>thread->cleanup\<close> is set\<close>
  th_static :: bool         \<comment> \<open>\<open>rt_object_is_systemobject\<close>\<close>

record rt_semaphore =
  sem_flag :: u8
  sem_value :: u16

record rt_mutex =
  mx_flag :: u8
  mx_value :: u16
  mx_original_priority :: u8
  mx_hold :: u8
  mx_owner :: "tid option"

record rt_event =
  ev_flag :: u8
  ev_set :: u32

record rt_mailbox =
  mb_flag :: u8
  mb_msg_pool :: "u32 list"
  mb_size :: u16
  mb_entry :: u16
  mb_in_offset :: u16
  mb_out_offset :: u16

text \<open>
  Message blocks are numbered by their position in the pool; \<open>mq_next\<close> is the link word of a
  block and \<open>mq_data\<close> the \<open>msg_size\<close> bytes behind it.
\<close>

record rt_messagequeue =
  mq_flag :: u8
  mq_msg_size :: u16
  mq_max_msgs :: u16
  mq_entry :: u16
  mq_head :: "nat option"
  mq_tail :: "nat option"
  mq_free :: "nat option"
  mq_next :: "nat \<Rightarrow> nat option"
  mq_data :: "nat \<Rightarrow> u8 list"

record kernel =
  threads :: "tid \<Rightarrow> rt_thread"
  tlists :: "list_head \<Rightarrow> tid list"
  ready_priority_group :: u32
  current_thread :: "tid option"
  current_priority :: u8
  scheduler_lock_nest :: int       \<comment> \<open>\<open>rt_int16_t\<close>\<close>
  interrupt_nest :: u8
  cpu_thread :: "tid option"       \<comment> \<open>the thread whose context the CPU runs, or runs when the
                                       pending exception returns: set by \<open>rt_hw_context_switch*\<close>\<close>
  timers :: "timer_id \<Rightarrow> rt_timer"
  timer_list :: "timer_id list"
  soft_timer_list :: "timer_id list"
  expiring_hard :: "timer_id list" \<comment> \<open>the local \<open>list\<close> of a running \<open>rt_timer_check\<close>\<close>
  expiring_soft :: "timer_id list" \<comment> \<open>the local \<open>list\<close> of a running \<open>rt_soft_timer_check\<close>\<close>
  soft_timer_idle :: bool          \<comment> \<open>\<open>_soft_timer_status == RT_SOFT_TIMER_IDLE\<close>\<close>
  timer_thread :: tid              \<comment> \<open>\<open>&_timer_thread\<close>\<close>
  rt_tick :: u32
  cleanups :: "tid list"           \<comment> \<open>the calls of \<open>thread->cleanup\<close> so far, latest first\<close>
  semaphores :: "obj \<Rightarrow> rt_semaphore"
  mutexes :: "obj \<Rightarrow> rt_mutex"
  events :: "obj \<Rightarrow> rt_event"
  mailboxes :: "obj \<Rightarrow> rt_mailbox"
  messagequeues :: "obj \<Rightarrow> rt_messagequeue"

subsection \<open>Access to threads and their lists\<close>

definition upd_thread :: "tid \<Rightarrow> (rt_thread \<Rightarrow> rt_thread) \<Rightarrow> kernel \<Rightarrow> kernel" where
  "upd_thread t f k = k\<lparr>threads := (threads k)(t := f (threads k t))\<rparr>"

definition upd_timer :: "timer_id \<Rightarrow> (rt_timer \<Rightarrow> rt_timer) \<Rightarrow> kernel \<Rightarrow> kernel" where
  "upd_timer i f k = k\<lparr>timers := (timers k)(i := f (timers k i))\<rparr>"

text \<open>\<open>thread->stat & RT_THREAD_STAT_MASK\<close>, and \<open>S | (stat & ~RT_THREAD_STAT_MASK)\<close>.\<close>

definition stat_of :: "u8 \<Rightarrow> u8" where
  "stat_of s = s AND RT_THREAD_STAT_MASK"

definition set_stat :: "u8 \<Rightarrow> u8 \<Rightarrow> u8" where
  "set_stat new s = new OR (s AND NOT RT_THREAD_STAT_MASK)"

abbreviation thread_stat :: "kernel \<Rightarrow> tid \<Rightarrow> u8" where
  "thread_stat k t \<equiv> stat_of (th_stat (threads k t))"

abbreviation thread_prio :: "kernel \<Rightarrow> tid \<Rightarrow> u8" where
  "thread_prio k t \<equiv> th_current_priority (threads k t)"

text \<open>\<open>rt_list_remove(&thread->tlist)\<close> and \<open>rt_list_insert_before(head, &thread->tlist)\<close>.\<close>

definition tlist_remove :: "tid \<Rightarrow> kernel \<Rightarrow> kernel" where
  "tlist_remove t k = k\<lparr>tlists := (\<lambda>h. removeAll t (tlists k h))\<rparr>"

definition tlist_append :: "list_head \<Rightarrow> tid \<Rightarrow> kernel \<Rightarrow> kernel" where
  "tlist_append h t k = k\<lparr>tlists := (tlists k)(h := tlists k h @ [t])\<rparr>"

text \<open>\<open>1 << p\<close> as the bit of a priority in the 32-bit ready group.\<close>

definition prio_mask :: "u8 \<Rightarrow> u32" where
  "prio_mask p = push_bit (unat p) 1"

subsection \<open>Lemmas\<close>

lemma stat_of_set_stat [simp]:
  "stat_of (set_stat 1 s) = 1" "stat_of (set_stat 2 s) = 2" "stat_of (set_stat 3 s) = 3"
  "stat_of (set_stat 4 s) = 4"
  by (simp_all add: stat_of_def set_stat_def bit.conj_disj_distrib2 and.assoc)

lemma stat_of_values [simp]:
  "stat_of 0 = 0" "stat_of 1 = 1" "stat_of 2 = 2" "stat_of 3 = 3" "stat_of 4 = 4"
  by (simp_all add: stat_of_def)

lemma stat_of_yield [simp]:
  "stat_of (s AND NOT 8) = stat_of s" "stat_of (s OR 8) = stat_of s"
proof -
  have e: "(NOT 8 AND 7 :: u8) = 7" "(8 AND 7 :: u8) = 0" by simp_all
  show "stat_of (s AND NOT 8) = stat_of s"
    unfolding stat_of_def and.assoc e ..
  show "stat_of (s OR 8) = stat_of s"
    unfolding stat_of_def bit.conj_disj_distrib2 e by simp
qed

lemma stat_of_yield_num [simp]: "stat_of (s AND - 9) = stat_of s"
  using stat_of_yield(1) [of s] by simp

lemma threads_upd_thread [simp]:
  "threads (upd_thread t f k) = (threads k)(t := f (threads k t))"
  by (simp add: upd_thread_def)

lemma upd_thread_frame [simp]:
  "tlists (upd_thread t f k) = tlists k"
  "ready_priority_group (upd_thread t f k) = ready_priority_group k"
  "current_thread (upd_thread t f k) = current_thread k"
  "current_priority (upd_thread t f k) = current_priority k"
  "scheduler_lock_nest (upd_thread t f k) = scheduler_lock_nest k"
  "interrupt_nest (upd_thread t f k) = interrupt_nest k"
  "cpu_thread (upd_thread t f k) = cpu_thread k"
  "timers (upd_thread t f k) = timers k" "timer_list (upd_thread t f k) = timer_list k"
  "soft_timer_list (upd_thread t f k) = soft_timer_list k"
  "expiring_hard (upd_thread t f k) = expiring_hard k" "expiring_soft (upd_thread t f k) = expiring_soft k"
  "soft_timer_idle (upd_thread t f k) = soft_timer_idle k"
  "timer_thread (upd_thread t f k) = timer_thread k"
  "rt_tick (upd_thread t f k) = rt_tick k" "cleanups (upd_thread t f k) = cleanups k"
  "semaphores (upd_thread t f k) = semaphores k" "mutexes (upd_thread t f k) = mutexes k"
  "events (upd_thread t f k) = events k" "mailboxes (upd_thread t f k) = mailboxes k"
  "messagequeues (upd_thread t f k) = messagequeues k"
  by (simp_all add: upd_thread_def)

lemma upd_timer_frame [simp]:
  "timers (upd_timer i g k) = (timers k)(i := g (timers k i))"
  "threads (upd_timer i g k) = threads k" "tlists (upd_timer i g k) = tlists k"
  "ready_priority_group (upd_timer i g k) = ready_priority_group k"
  "current_thread (upd_timer i g k) = current_thread k"
  "current_priority (upd_timer i g k) = current_priority k"
  "scheduler_lock_nest (upd_timer i g k) = scheduler_lock_nest k"
  "interrupt_nest (upd_timer i g k) = interrupt_nest k"
  "cpu_thread (upd_timer i g k) = cpu_thread k"
  "timer_list (upd_timer i g k) = timer_list k"
  "soft_timer_list (upd_timer i g k) = soft_timer_list k"
  "expiring_hard (upd_timer i g k) = expiring_hard k" "expiring_soft (upd_timer i g k) = expiring_soft k"
  "soft_timer_idle (upd_timer i g k) = soft_timer_idle k"
  "timer_thread (upd_timer i g k) = timer_thread k"
  "rt_tick (upd_timer i g k) = rt_tick k" "cleanups (upd_timer i g k) = cleanups k"
  "semaphores (upd_timer i g k) = semaphores k" "mutexes (upd_timer i g k) = mutexes k"
  "events (upd_timer i g k) = events k" "mailboxes (upd_timer i g k) = mailboxes k"
  "messagequeues (upd_timer i g k) = messagequeues k"
  by (simp_all add: upd_timer_def)

lemma tlist_remove_frame [simp]:
  "tlists (tlist_remove t k) = (\<lambda>h. removeAll t (tlists k h))"
  "threads (tlist_remove t k) = threads k"
  "ready_priority_group (tlist_remove t k) = ready_priority_group k"
  "current_thread (tlist_remove t k) = current_thread k"
  "current_priority (tlist_remove t k) = current_priority k"
  "scheduler_lock_nest (tlist_remove t k) = scheduler_lock_nest k"
  "interrupt_nest (tlist_remove t k) = interrupt_nest k"
  "cpu_thread (tlist_remove t k) = cpu_thread k"
  "timers (tlist_remove t k) = timers k" "timer_list (tlist_remove t k) = timer_list k"
  "soft_timer_list (tlist_remove t k) = soft_timer_list k"
  "expiring_hard (tlist_remove t k) = expiring_hard k" "expiring_soft (tlist_remove t k) = expiring_soft k"
  "soft_timer_idle (tlist_remove t k) = soft_timer_idle k"
  "timer_thread (tlist_remove t k) = timer_thread k"
  "rt_tick (tlist_remove t k) = rt_tick k" "cleanups (tlist_remove t k) = cleanups k"
  "semaphores (tlist_remove t k) = semaphores k" "mutexes (tlist_remove t k) = mutexes k"
  "events (tlist_remove t k) = events k" "mailboxes (tlist_remove t k) = mailboxes k"
  "messagequeues (tlist_remove t k) = messagequeues k"
  by (simp_all add: tlist_remove_def)

lemma tlist_append_frame [simp]:
  "tlists (tlist_append h t k) = (tlists k)(h := tlists k h @ [t])"
  "threads (tlist_append h t k) = threads k"
  "ready_priority_group (tlist_append h t k) = ready_priority_group k"
  "current_thread (tlist_append h t k) = current_thread k"
  "current_priority (tlist_append h t k) = current_priority k"
  "scheduler_lock_nest (tlist_append h t k) = scheduler_lock_nest k"
  "interrupt_nest (tlist_append h t k) = interrupt_nest k"
  "cpu_thread (tlist_append h t k) = cpu_thread k"
  "timers (tlist_append h t k) = timers k" "timer_list (tlist_append h t k) = timer_list k"
  "soft_timer_list (tlist_append h t k) = soft_timer_list k"
  "expiring_hard (tlist_append h t k) = expiring_hard k" "expiring_soft (tlist_append h t k) = expiring_soft k"
  "soft_timer_idle (tlist_append h t k) = soft_timer_idle k"
  "timer_thread (tlist_append h t k) = timer_thread k"
  "rt_tick (tlist_append h t k) = rt_tick k" "cleanups (tlist_append h t k) = cleanups k"
  "semaphores (tlist_append h t k) = semaphores k" "mutexes (tlist_append h t k) = mutexes k"
  "events (tlist_append h t k) = events k" "mailboxes (tlist_append h t k) = mailboxes k"
  "messagequeues (tlist_append h t k) = messagequeues k"
  by (simp_all add: tlist_append_def)

lemma bit_prio_mask: "bit (prio_mask p) n \<longleftrightarrow> n = unat p \<and> n < 32"
  by (auto simp: prio_mask_def bit_simps)

end
