(* ===== verification/Scheduler.thy ===== *)
theory Scheduler
  imports Kernel_State
begin

text \<open>
  \<open>src/scheduler.c\<close> (the uniprocessor branch), \<open>src/irq.c\<close> and the find-first-set routine of
  \<open>src/kservice.c\<close>: the ready queues, the bitmap of non-empty ones, \<open>rt_schedule\<close>, the
  scheduler lock, and the direct switch \<open>rt_schedule_fast\<close> this port adds. The stack check and
  the hooks (function pointers that are null unless the application installs one) are left out.
\<close>

subsection \<open>Find first set\<close>

text \<open>\<open>__builtin_ffs\<close>: the number of the least significant set bit, counted from one, or zero.\<close>

definition builtin_ffs :: "u32 \<Rightarrow> nat" where
  "builtin_ffs v = (case find (bit v) [0..<32] of None \<Rightarrow> 0 | Some i \<Rightarrow> Suc i)"

text \<open>The table-driven \<open>__rt_ffs\<close> of \<open>kservice.c\<close> for CPUs without the instruction.\<close>

definition lowest_bit_row :: "nat \<Rightarrow> nat list" where
  "lowest_bit_row x = [x, 0, 1, 0, 2, 0, 1, 0, 3, 0, 1, 0, 2, 0, 1, 0]"

definition lowest_bit_bitmap :: "nat list" where
  "lowest_bit_bitmap = concat (map lowest_bit_row [0, 4, 5, 4, 6, 4, 5, 4, 7, 4, 5, 4, 6, 4, 5, 4])"

definition rt_ffs_table :: "u32 \<Rightarrow> nat" where
  "rt_ffs_table v =
     (if v = 0 then 0
      else if v AND 0xff \<noteq> 0 then lowest_bit_bitmap ! unat (v AND 0xff) + 1
      else if v AND 0xff00 \<noteq> 0 then lowest_bit_bitmap ! unat (drop_bit 8 (v AND 0xff00)) + 9
      else if v AND 0xff0000 \<noteq> 0 then lowest_bit_bitmap ! unat (drop_bit 16 (v AND 0xff0000)) + 17
      else lowest_bit_bitmap ! unat (drop_bit 24 (v AND 0xff000000)) + 25)"

subsection \<open>The ready queues\<close>

text \<open>
  \<open>_scheduler_get_highest_priority_thread\<close>: the head of the queue the bitmap selects. With an
  empty bitmap the index would be -1, and with an empty queue the entry would be the head itself.
\<close>

definition scheduler_get_highest_priority_thread :: "kernel \<Rightarrow> (tid \<times> u8) option" where
  "scheduler_get_highest_priority_thread k =
     (let n = builtin_ffs (ready_priority_group k) in
      if n = 0 then None
      else let p = of_nat (n - 1) in
           (case tlists k (Ready p) of [] \<Rightarrow> None | t # _ \<Rightarrow> Some (t, p)))"

definition rt_system_scheduler_init :: "kernel \<Rightarrow> kernel" where
  "rt_system_scheduler_init k =
     k\<lparr>scheduler_lock_nest := 0,
       tlists := (\<lambda>h. case h of Ready p \<Rightarrow> if p < 32 then [] else tlists k h | _ \<Rightarrow> tlists k h),
       ready_priority_group := 0\<rparr>"

definition rt_schedule_insert_thread :: "tid \<Rightarrow> kernel \<Rightarrow> kernel" where
  "rt_schedule_insert_thread t k =
     (if current_thread k = Some t
      then upd_thread t (\<lambda>th. th\<lparr>th_stat := set_stat RT_THREAD_RUNNING (th_stat th)\<rparr>) k
      else
        let k1 = upd_thread t (\<lambda>th. th\<lparr>th_stat := set_stat RT_THREAD_READY (th_stat th)\<rparr>) k;
            k2 = tlist_append (Ready (thread_prio k1 t)) t k1
        in k2\<lparr>ready_priority_group := ready_priority_group k2 OR th_number_mask (threads k2 t)\<rparr>)"

definition rt_schedule_remove_thread :: "tid \<Rightarrow> kernel \<Rightarrow> kernel" where
  "rt_schedule_remove_thread t k =
     (let k1 = tlist_remove t k in
      if tlists k1 (Ready (thread_prio k1 t)) = []
      then k1\<lparr>ready_priority_group :=
                ready_priority_group k1 AND NOT (th_number_mask (threads k1 t))\<rparr>
      else k1)"

definition rt_system_scheduler_start :: "kernel \<Rightarrow> kernel option" where
  "rt_system_scheduler_start k =
     do { (to, _) \<leftarrow> scheduler_get_highest_priority_thread k;
          let k1 = k\<lparr>current_thread := Some to\<rparr>;
          let k2 = rt_schedule_remove_thread to k1;
          let k3 = upd_thread to (\<lambda>th. th\<lparr>th_stat := RT_THREAD_RUNNING\<rparr>) k2;
          Some (k3\<lparr>cpu_thread := Some to\<rparr>) }"

subsection \<open>The scheduler\<close>

text \<open>
  The choice \<open>rt_schedule\<close> makes: the thread to run, and whether the running thread goes back to
  its ready queue.
\<close>

definition schedule_choice :: "kernel \<Rightarrow> tid \<Rightarrow> tid \<Rightarrow> u8 \<Rightarrow> tid \<times> bool" where
  "schedule_choice k c to hp =
     (if thread_stat k c = RT_THREAD_RUNNING
      then if thread_prio k c < hp then (c, False)
           else if thread_prio k c = hp \<and> th_stat (threads k c) AND RT_THREAD_STAT_YIELD = 0
           then (c, False)
           else (to, True)
      else (to, False))"

definition rt_schedule :: "kernel \<Rightarrow> kernel option" where
  "rt_schedule k =
     (if scheduler_lock_nest k = 0 \<and> ready_priority_group k \<noteq> 0
      then
        do { (to0, hp) \<leftarrow> scheduler_get_highest_priority_thread k;
             c \<leftarrow> current_thread k;
             let (to, need_insert) = schedule_choice k c to0 hp;
             let k1 = (if thread_stat k c = RT_THREAD_RUNNING
                       then upd_thread c (\<lambda>th. th\<lparr>th_stat := th_stat th AND NOT RT_THREAD_STAT_YIELD\<rparr>) k
                       else k);
             if to \<noteq> c
             then let k2 = k1\<lparr>current_priority := hp, current_thread := Some to\<rparr>;
                      k3 = (if need_insert then rt_schedule_insert_thread c k2 else k2);
                      k4 = rt_schedule_remove_thread to k3;
                      k5 = upd_thread to (\<lambda>th. th\<lparr>th_stat := set_stat RT_THREAD_RUNNING (th_stat th)\<rparr>) k4
                  in Some (k5\<lparr>cpu_thread := Some to\<rparr>)
             else let k2 = rt_schedule_remove_thread c k1
                  in Some (upd_thread c (\<lambda>th. th\<lparr>th_stat := set_stat RT_THREAD_RUNNING (th_stat th)\<rparr>) k2) }
      else Some k)"

definition rt_enter_critical :: "kernel \<Rightarrow> kernel" where
  "rt_enter_critical k = k\<lparr>scheduler_lock_nest := trunc_s 16 (scheduler_lock_nest k + 1)\<rparr>"

definition rt_exit_critical :: "kernel \<Rightarrow> kernel option" where
  "rt_exit_critical k =
     (let n = trunc_s 16 (scheduler_lock_nest k - 1); k1 = k\<lparr>scheduler_lock_nest := n\<rparr> in
      if n \<le> 0
      then let k2 = k1\<lparr>scheduler_lock_nest := 0\<rparr> in
           (if current_thread k2 \<noteq> None then rt_schedule k2 else Some k2)
      else Some k1)"

definition rt_critical_level :: "kernel \<Rightarrow> int" where
  "rt_critical_level k = trunc_u 16 (scheduler_lock_nest k)"

text \<open>
  The direct switch from an interrupt handler: no check of the scheduler lock, of priorities or
  of the states of the two threads.
\<close>

definition rt_schedule_fast :: "tid \<Rightarrow> kernel \<Rightarrow> kernel option" where
  "rt_schedule_fast to k =
     do { from \<leftarrow> current_thread k;
          let k1 = upd_thread from (\<lambda>th. th\<lparr>th_stat := th_stat th AND NOT RT_THREAD_STAT_YIELD\<rparr>) k;
          let k2 = k1\<lparr>current_priority := thread_prio k1 to, current_thread := Some to\<rparr>;
          let k3 = upd_thread from (\<lambda>th. th\<lparr>th_stat := set_stat RT_THREAD_READY (th_stat th)\<rparr>) k2;
          let k4 = tlist_append (Ready (thread_prio k3 from)) from k3;
          let k5 = k4\<lparr>ready_priority_group :=
                        ready_priority_group k4 OR th_number_mask (threads k4 from)\<rparr>;
          let k6 = rt_schedule_remove_thread to k5;
          let k7 = upd_thread to (\<lambda>th. th\<lparr>th_stat := set_stat RT_THREAD_RUNNING (th_stat th)\<rparr>) k6;
          Some (k7\<lparr>cpu_thread := Some to\<rparr>) }"

text \<open>Borrowing the CPU for a callback thread without telling the scheduler.\<close>

definition rt_callback_thread_enter :: "tid \<Rightarrow> kernel \<Rightarrow> kernel" where
  "rt_callback_thread_enter to k = k\<lparr>cpu_thread := Some to\<rparr>"

definition rt_callback_thread_leave :: "kernel \<Rightarrow> kernel" where
  "rt_callback_thread_leave k = k\<lparr>cpu_thread := current_thread k\<rparr>"

definition rt_interrupt_enter :: "kernel \<Rightarrow> kernel" where
  "rt_interrupt_enter k = k\<lparr>interrupt_nest := interrupt_nest k + 1\<rparr>"

definition rt_interrupt_leave :: "kernel \<Rightarrow> kernel" where
  "rt_interrupt_leave k = k\<lparr>interrupt_nest := interrupt_nest k - 1\<rparr>"

subsection \<open>The invariant of the ready queues\<close>

text \<open>
  \<open>started s\<close>: the state of a thread \<open>rt_thread_startup\<close> has run on and that has not exited.
  \<open>qinv X k\<close>: the queues, the bitmap and the thread states agree, except that the threads of
  \<open>X\<close> are detached (on no list) and their fields are unconstrained; \<open>cur_inv\<close> relates the current
  thread to the states. Inside an operation one thread is usually detached.
\<close>

definition started :: "u8 \<Rightarrow> bool" where
  "started s \<longleftrightarrow> s = RT_THREAD_READY \<or> s = RT_THREAD_SUSPEND \<or> s = RT_THREAD_RUNNING"

definition prio_ok :: "rt_thread \<Rightarrow> bool" where
  "prio_ok th \<longleftrightarrow> th_current_priority th < 32 \<and> th_number_mask th = prio_mask (th_current_priority th)"

definition list_stat :: "list_head \<Rightarrow> u8" where
  "list_stat h = (case h of Ready _ \<Rightarrow> RT_THREAD_READY | Suspend _ \<Rightarrow> RT_THREAD_SUSPEND
     | Suspend_sender _ \<Rightarrow> RT_THREAD_SUSPEND | Defunct \<Rightarrow> RT_THREAD_CLOSE)"

definition qinv :: "tid set \<Rightarrow> kernel \<Rightarrow> bool" where
  "qinv X k \<longleftrightarrow>
     (\<forall>h t. t \<in> set (tlists k h) \<longrightarrow> t \<notin> X \<and> thread_stat k t = list_stat h) \<and>
     (\<forall>p t. t \<in> set (tlists k (Ready p)) \<longrightarrow> thread_prio k t = p) \<and>
     (\<forall>t. t \<notin> X \<longrightarrow> thread_stat k t = RT_THREAD_READY \<longrightarrow> t \<in> set (tlists k (Ready (thread_prio k t)))) \<and>
     (\<forall>h. distinct (tlists k h)) \<and>
     (\<forall>h h' t. t \<in> set (tlists k h) \<longrightarrow> t \<in> set (tlists k h') \<longrightarrow> h = h') \<and>
     (\<forall>t. t \<notin> X \<longrightarrow> started (thread_stat k t) \<longrightarrow> prio_ok (threads k t)) \<and>
     (\<forall>n < 32. bit (ready_priority_group k) n \<longleftrightarrow> tlists k (Ready (of_nat n)) \<noteq> [])"

definition cur_inv :: "kernel \<Rightarrow> bool" where
  "cur_inv k \<longleftrightarrow>
     (\<forall>t. thread_stat k t = RT_THREAD_RUNNING \<longrightarrow> current_thread k = Some t) \<and>
     (\<forall>t. current_thread k = Some t \<longrightarrow> thread_stat k t \<noteq> RT_THREAD_READY)"

definition sched_inv :: "kernel \<Rightarrow> bool" where
  "sched_inv k \<longleftrightarrow> qinv {} k \<and> cur_inv k"

subsection \<open>Find first set: the table agrees with the instruction\<close>

lemma find_first_bit:
  assumes "bit v i" "i < n" "\<forall>j<i. \<not> bit v j"
  shows "find (bit v) [0..<n] = Some i"
  using assms by (auto simp: find_Some_iff intro!: exI [of _ i])

lemma ffsI: "bit v i \<Longrightarrow> \<forall>j<i. \<not> bit v j \<Longrightarrow> builtin_ffs v = Suc i"
proof -
  assume b: "bit v i" and l: "\<forall>j<i. \<not> bit v j"
  have "i < 32" using bit_imp_le_length [OF b] by simp
  with b l show ?thesis by (simp add: builtin_ffs_def find_first_bit)
qed

lemma ffs_cases:
  obtains "v = 0" "builtin_ffs v = 0"
  | i where "builtin_ffs v = Suc i" "i < 32" "bit v i" "\<forall>j<i. \<not> bit v j"
proof (cases "v = 0")
  case True
  have "find (bit (0::u32)) [0..<32] = None" by (simp add: find_None_iff)
  with True that(1) show ?thesis by (simp add: builtin_ffs_def)
next
  case False
  then obtain n where "bit v n" by (metis bit_eq_iff bit_0_eq bot_apply bot_bool_def)
  define i where "i = (LEAST n. bit v n)"
  have b: "bit v i" "\<forall>j<i. \<not> bit v j" using \<open>bit v n\<close> unfolding i_def
    by (auto intro: LeastI dest: not_less_Least)
  moreover have "i < 32" using bit_imp_le_length [OF b(1)] by simp
  ultimately show ?thesis using that(2) ffsI by blast
qed

lemma lowest_bit_bitmap_length: "length lowest_bit_bitmap = 256"
  by (simp add: lowest_bit_bitmap_def lowest_bit_row_def)

definition bitmap_ok :: "int \<times> nat \<Rightarrow> bool" where
  "bitmap_ok = (\<lambda>(b, i). b = 0 \<or> i < 8 \<and> b mod 2 ^ i = 0 \<and> (b div 2 ^ i) mod 2 = 1)"

lemma bitmap_all: "list_all bitmap_ok (zip [0..255] lowest_bit_bitmap)"
  unfolding lowest_bit_bitmap_def lowest_bit_row_def by code_simp

lemma bitmap_entry:
  assumes "0 < b" "b < 256"
  shows "lowest_bit_bitmap ! b < 8 \<and> bit b (lowest_bit_bitmap ! b) \<and>
     (\<forall>j < lowest_bit_bitmap ! b. \<not> bit b j)"
proof -
  define i where "i = lowest_bit_bitmap ! b"
  have "bitmap_ok (zip [0..255] lowest_bit_bitmap ! b)"
    using bitmap_all assms lowest_bit_bitmap_length by (simp add: list_all_length)
  then have "i < 8" "int b mod 2 ^ i = 0" "(int b div 2 ^ i) mod 2 = 1"
    using assms lowest_bit_bitmap_length by (auto simp: bitmap_ok_def i_def nth_upto)
  moreover from this have "int (b mod 2 ^ i) = int 0" "int ((b div 2 ^ i) mod 2) = int 1"
    by (simp_all add: zmod_int zdiv_int)
  ultimately have i: "i < 8" "2 ^ i dvd b" "odd (b div 2 ^ i)"
    unfolding of_nat_eq_iff by (simp_all add: mod_eq_0_iff_dvd odd_iff_mod_2_eq_one)
  have "\<not> bit b j" if "j < i" for j
  proof -
    from i(2) obtain c where "b = 2 ^ i * c" by blast
    moreover have "(2::nat) ^ i = 2 ^ j * 2 * 2 ^ (i - Suc j)"
      using that power_add [of "2::nat" "Suc j" "i - Suc j"] by simp
    ultimately show ?thesis by (simp add: bit_iff_odd mult.assoc)
  qed
  with i show ?thesis by (simp add: bit_iff_odd i_def)
qed

lemma byte_table:
  fixes v m :: u32
  assumes m: "\<forall>n. bit m n \<longleftrightarrow> s \<le> n \<and> n < s + 8" and ne: "v AND m \<noteq> 0"
    and low: "\<forall>j < s. \<not> bit v j"
  shows "builtin_ffs v = lowest_bit_bitmap ! unat (drop_bit s (v AND m)) + s + 1"
proof -
  define b where "b = unat (drop_bit s (v AND m))"
  have bits: "bit b n \<longleftrightarrow> n < 8 \<and> bit v (s + n)" for n
    using m by (auto simp: b_def bit_simps)
  have "b \<noteq> 0"
  proof
    assume "b = 0"
    then have "\<not> bit v (s + n)" if "n < 8" for n using bits [of n] that by simp
    then have "v AND m = 0"
      by (intro bit_eqI) (use m in \<open>auto simp: bit_simps dest!: le_Suc_ex\<close>)
    with ne show False ..
  qed
  moreover have "b < 2 ^ 8"
    unfolding take_bit_nat_eq_self_iff [symmetric]
    by (rule bit_eqI) (auto simp: bit_simps bits)
  ultimately have i: "lowest_bit_bitmap ! b < 8" "bit b (lowest_bit_bitmap ! b)"
    "\<forall>j < lowest_bit_bitmap ! b. \<not> bit b j"
    using bitmap_entry [of b] by auto
  have "builtin_ffs v = Suc (s + lowest_bit_bitmap ! b)"
  proof (rule ffsI)
    show "bit v (s + lowest_bit_bitmap ! b)" using i bits by simp
    show "\<forall>j < s + lowest_bit_bitmap ! b. \<not> bit v j"
    proof (intro allI impI)
      fix j assume "j < s + lowest_bit_bitmap ! b"
      then show "\<not> bit v j" using low i bits [of "j - s"] by (cases "j < s") auto
    qed
  qed
  then show ?thesis by (simp add: b_def)
qed

lemma bit_byte: "bit (push_bit s (mask 8) :: u32) n \<longleftrightarrow> s \<le> n \<and> n < s + 8 \<and> n < 32"
  by (auto simp: bit_simps)

lemma byte_masks:
  "bit (0xff :: u32) n \<longleftrightarrow> 0 \<le> n \<and> n < 0 + 8"
  "bit (0xff00 :: u32) n \<longleftrightarrow> 8 \<le> n \<and> n < 8 + 8"
  "bit (0xff0000 :: u32) n \<longleftrightarrow> 16 \<le> n \<and> n < 16 + 8"
  "bit (0xff000000 :: u32) n \<longleftrightarrow> 24 \<le> n \<and> n < 24 + 8"
proof -
  have e: "(0xff :: u32) = push_bit 0 (mask 8)" "(0xff00 :: u32) = push_bit 8 (mask 8)"
    "(0xff0000 :: u32) = push_bit 16 (mask 8)" "(0xff000000 :: u32) = push_bit 24 (mask 8)"
    by (simp_all add: mask_eq_exp_minus_1 push_bit_eq_mult)
  show "bit (0xff :: u32) n \<longleftrightarrow> 0 \<le> n \<and> n < 0 + 8" unfolding e(1) bit_byte by auto
  show "bit (0xff00 :: u32) n \<longleftrightarrow> 8 \<le> n \<and> n < 8 + 8" unfolding e(2) bit_byte by auto
  show "bit (0xff0000 :: u32) n \<longleftrightarrow> 16 \<le> n \<and> n < 16 + 8" unfolding e(3) bit_byte by auto
  show "bit (0xff000000 :: u32) n \<longleftrightarrow> 24 \<le> n \<and> n < 24 + 8" unfolding e(4) bit_byte by auto
qed

lemma and_zero_bits: "v AND m = 0 \<Longrightarrow> bit m j \<Longrightarrow> \<not> bit (v::u32) j"
  by (metis bit_0_eq bit_and_iff bot_apply bot_bool_def)

lemma low_bits_extend:
  assumes "v AND m = 0" "\<forall>j < s. \<not> bit v j" "\<And>n. bit m n \<longleftrightarrow> s \<le> n \<and> n < s + 8"
  shows "\<forall>j < s + 8. \<not> bit (v::u32) j"
  using assms and_zero_bits [OF assms(1)] by (meson not_less)

lemma rt_ffs_table_eq: "rt_ffs_table v = builtin_ffs v"
proof -
  have z: "builtin_ffs 0 = 0" by (rule ffs_cases [of 0]) auto
  have l8: "\<forall>j<8. \<not> bit v j" if "v AND 0xff = 0"
    using and_zero_bits [OF that] byte_masks(1) by auto
  have l16: "\<forall>j<16. \<not> bit v j" if "v AND 0xff = 0" "v AND 0xff00 = 0"
    using low_bits_extend [OF that(2) l8 [OF that(1)] byte_masks(2)] by simp
  have l24: "\<forall>j<24. \<not> bit v j" if "v AND 0xff = 0" "v AND 0xff00 = 0" "v AND 0xff0000 = 0"
    using low_bits_extend [OF that(3) l16 [OF that(1,2)] byte_masks(3)] by simp
  have top: "v AND 0xff000000 \<noteq> 0" if "v \<noteq> 0" "v AND 0xff = 0" "v AND 0xff00 = 0" "v AND 0xff0000 = 0"
  proof
    assume "v AND 0xff000000 = 0"
    then have "\<not> bit v n" for n
      using and_zero_bits [of v "0xff000000" n] byte_masks(4) [of n] l24 [OF that(2-4)] bit_imp_le_length [of v n]
      by (cases "n < 24") auto
    then have "v = 0" by (intro bit_eqI) simp
    with that(1) show False ..
  qed
  show ?thesis
    unfolding rt_ffs_table_def
    using byte_table [of "0xff" 0 v] byte_table [of "0xff00" 8 v] byte_table [of "0xff0000" 16 v]
      byte_table [of "0xff000000" 24 v] byte_masks l8 l16 l24 top z
    by (simp del: bit_numeral_simps)
qed

subsection \<open>The ready queues keep their invariant\<close>

lemma qinvD:
  assumes "qinv X k"
  shows "t \<in> set (tlists k h) \<Longrightarrow> t \<notin> X" "t \<in> set (tlists k h) \<Longrightarrow> thread_stat k t = list_stat h"
    "t \<in> set (tlists k (Ready p)) \<Longrightarrow> thread_prio k t = p"
    "t \<notin> X \<Longrightarrow> thread_stat k t = 1 \<Longrightarrow> t \<in> set (tlists k (Ready (thread_prio k t)))"
    "distinct (tlists k h)"
    "t \<in> set (tlists k h) \<Longrightarrow> t \<in> set (tlists k h') \<Longrightarrow> h = h'"
    "t \<notin> X \<Longrightarrow> started (thread_stat k t) \<Longrightarrow> prio_ok (threads k t)"
    "n < 32 \<Longrightarrow> bit (ready_priority_group k) n \<longleftrightarrow> tlists k (Ready (of_nat n)) \<noteq> []"
  using assms unfolding qinv_def by blast+

lemma list_stat_simps [simp]:
  "list_stat (Ready p) = 1" "list_stat (Suspend ob) = 2" "list_stat (Suspend_sender ob) = 2"
  "list_stat Defunct = 4"
  by (simp_all add: list_stat_def)

lemma started_simps [simp]: "started 1" "started 2" "started 3" "\<not> started 0" "\<not> started 4"
  by (simp_all add: started_def)

lemma of_nat_unat_prio: "p < 32 \<Longrightarrow> n < 32 \<Longrightarrow> n = unat p \<longleftrightarrow> (of_nat n :: u8) = p"
  by (auto simp: word_less_nat_alt unat_of_nat unat_eq_nat_uint [symmetric] word_unat_eq_iff)

lemma bit_group_set:
  assumes "p < 32" "n < 32"
  shows "bit (g OR prio_mask p) n \<longleftrightarrow> bit g n \<or> (of_nat n :: u8) = p"
  using assms of_nat_unat_prio [OF assms] by (auto simp: bit_or_iff bit_prio_mask)

lemma bit_group_clear:
  assumes "p < 32" "n < 32"
  shows "bit (g AND NOT (prio_mask p)) n \<longleftrightarrow> bit g n \<and> (of_nat n :: u8) \<noteq> p"
  using assms of_nat_unat_prio [OF assms] by (auto simp: bit_simps bit_prio_mask)

text \<open>Removing a thread that has a valid priority detaches it and keeps everything else.\<close>

lemma qinv_remove:
  assumes inv: "qinv X k" and p: "prio_ok (threads k t)"
  shows "qinv (insert t X) (rt_schedule_remove_thread t k)"
proof -
  define p where "p = thread_prio k t"
  have mask: "th_number_mask (threads k t) = prio_mask p" "p < 32"
    using assms(2) by (auto simp: prio_ok_def p_def)
  have other: "removeAll t (tlists k (Ready q)) = tlists k (Ready q)" if "q \<noteq> p" for q
    using qinvD(3) [OF inv, of t q] that by (intro removeAll_id) (auto simp: p_def)
  define g' where "g' = (if removeAll t (tlists k (Ready p)) = [] then ready_priority_group k AND NOT (prio_mask p)
      else ready_priority_group k)"
  have bits: "bit g' n \<longleftrightarrow> removeAll t (tlists k (Ready (of_nat n))) \<noteq> []" if "n < 32" for n
    using qinvD(8) [OF inv that] other [of "of_nat n"] bit_group_clear [OF mask(2) that, of "ready_priority_group k"]
    by (auto simp: g'_def)
  have k': "threads (rt_schedule_remove_thread t k) = threads k"
    "tlists (rt_schedule_remove_thread t k) = (\<lambda>h. removeAll t (tlists k h))"
    "ready_priority_group (rt_schedule_remove_thread t k) = g'"
    by (simp_all add: rt_schedule_remove_thread_def Let_def mask g'_def flip: p_def)
  show ?thesis
    unfolding qinv_def k' using bits qinvD(1-7) [OF inv] by (auto simp: distinct_removeAll)
qed

lemma qinv_upd_detached:
  "qinv X k \<Longrightarrow> t \<in> X \<Longrightarrow> qinv X (upd_thread t f k)"
  unfolding qinv_def by auto

lemma qinv_insert:
  assumes inv: "qinv X k" and t: "t \<in> X" and p: "prio_ok (threads k t)" and cur: "current_thread k \<noteq> Some t"
  shows "qinv (X - {t}) (rt_schedule_insert_thread t k)"
proof -
  define p where "p = thread_prio k t"
  have mask: "th_number_mask (threads k t) = prio_mask p" "p < 32"
    using assms(3) by (auto simp: prio_ok_def p_def)
  have tl: "t \<notin> set (tlists k h)" for h using qinvD(1) [OF inv] t by blast
  define k' where "k' = rt_schedule_insert_thread t k"
  have k': "threads k' = (threads k)(t := (threads k t)\<lparr>th_stat := set_stat 1 (th_stat (threads k t))\<rparr>)"
    "tlists k' = (tlists k)(Ready p := tlists k (Ready p) @ [t])"
    "ready_priority_group k' = ready_priority_group k OR prio_mask p"
    using cur mask by (simp_all add: k'_def rt_schedule_insert_thread_def Let_def flip: p_def)
  have bits: "bit (ready_priority_group k') n \<longleftrightarrow> tlists k' (Ready (of_nat n)) \<noteq> []" if "n < 32" for n
    using qinvD(8) [OF inv that] bit_group_set [OF mask(2) that, of "ready_priority_group k"] by (simp add: k')
  have "prio_ok (threads k' t)" using p by (simp add: k' prio_ok_def)
  then show ?thesis
    unfolding k'_def [symmetric] qinv_def using bits qinvD(1-7) [OF inv] tl
    by (auto simp: k' p_def) metis
qed
lemma qinv_settle:
  assumes "qinv X k" and "t \<in> X" and "thread_stat k t \<noteq> 1"
    and "started (thread_stat k t) \<Longrightarrow> prio_ok (threads k t)"
  shows "qinv (X - {t}) k"
  using assms unfolding qinv_def by blast

lemma qinv_tlist_remove:
  assumes inv: "qinv X k" and "thread_stat k t \<noteq> 1"
  shows "qinv (insert t X) (tlist_remove t k)"
proof -
  have "removeAll t (tlists k (Ready p)) = tlists k (Ready p)" for p
    using qinvD(2) [OF inv, of t "Ready p"] assms(2) by (intro removeAll_id) auto
  then show ?thesis
    unfolding qinv_def using qinvD [OF inv] by (auto simp: distinct_removeAll)
qed

lemma qinv_link:
  assumes inv: "qinv X k" and t: "t \<in> X" and h: "\<forall>p. h \<noteq> Ready p" and st: "thread_stat k t = list_stat h"
    and p: "started (thread_stat k t) \<Longrightarrow> prio_ok (threads k t)"
    and k': "threads k' = threads k" "ready_priority_group k' = ready_priority_group k"
      "tlists k' = (tlists k)(h := xs)" "set xs = insert t (set (tlists k h))" "distinct xs"
  shows "qinv (X - {t}) k'"
proof -
  have tl: "t \<notin> set (tlists k h')" for h' using qinvD(1) [OF inv] t by blast
  have "list_stat h \<noteq> 1" using h by (cases h) auto
  with tl h st p show ?thesis
    unfolding qinv_def k'(1-3) using qinvD [OF inv] k'(4,5) by auto
qed

lemma qinv_frame:
  assumes "qinv X k" and "threads k' = threads k" "tlists k' = tlists k"
    "ready_priority_group k' = ready_priority_group k"
  shows "qinv X k'"
  using assms by (simp add: qinv_def)

text \<open>Updates that keep a thread's state and priority.\<close>

definition keeps_sched :: "(rt_thread \<Rightarrow> rt_thread) \<Rightarrow> bool" where
  "keeps_sched f \<longleftrightarrow> (\<forall>th. stat_of (th_stat (f th)) = stat_of (th_stat th) \<and>
     th_current_priority (f th) = th_current_priority th \<and> th_number_mask (f th) = th_number_mask th)"

lemma upd_keeps_sched:
  assumes "keeps_sched f"
  shows "thread_stat (upd_thread t f k) u = thread_stat k u"
    "thread_prio (upd_thread t f k) u = thread_prio k u"
    "prio_ok (threads (upd_thread t f k) u) = prio_ok (threads k u)"
  using assms by (simp_all add: keeps_sched_def prio_ok_def)

lemma qinv_upd_same:
  assumes "qinv X k" and "keeps_sched f"
  shows "qinv X (upd_thread t f k)"
  using assms(1) unfolding qinv_def upd_thread_frame upd_keeps_sched [OF assms(2)] .

lemma cur_inv_upd_same:
  assumes "cur_inv k" and "keeps_sched f"
  shows "cur_inv (upd_thread t f k)"
  using assms(1) unfolding cur_inv_def upd_thread_frame upd_keeps_sched [OF assms(2)] .

lemma keeps_sched_simps [simp]:
  "keeps_sched (\<lambda>th. th\<lparr>th_stat := th_stat th AND NOT 8\<rparr>)"
  "keeps_sched (\<lambda>th. th\<lparr>th_stat := th_stat th AND - 9\<rparr>)"
  "keeps_sched (\<lambda>th. th\<lparr>th_stat := th_stat th OR 8\<rparr>)"
  "keeps_sched (\<lambda>th. th\<lparr>th_error := e\<rparr>)"
  "keeps_sched (\<lambda>th. th\<lparr>th_event_set := es\<rparr>)"
  "keeps_sched (\<lambda>th. th\<lparr>th_event_set := es, th_event_info := ei\<rparr>)"
  "keeps_sched (\<lambda>th. th\<lparr>th_remaining_tick := r th\<rparr>)"
  "keeps_sched (\<lambda>th. th\<lparr>th_stat := th_stat th OR 8, th_remaining_tick := r th\<rparr>)"
  by (simp_all add: keeps_sched_def)

subsection \<open>The selected thread\<close>

lemma ready_prio_lt:
  assumes inv: "qinv {} k" and t: "t \<in> set (tlists k (Ready p))"
  shows "p < 32"
proof -
  have "prio_ok (threads k t)" using qinvD(2) [OF inv t] qinvD(7) [OF inv, of t] by simp
  then show ?thesis using qinvD(3) [OF inv t] by (simp add: prio_ok_def)
qed

text \<open>With a non-empty bitmap the selection succeeds and no queue of a smaller number is occupied.\<close>

lemma highest_spec:
  assumes inv: "qinv {} k" and ne: "ready_priority_group k \<noteq> 0"
  obtains to hp rest where "scheduler_get_highest_priority_thread k = Some (to, hp)"
    and "tlists k (Ready hp) = to # rest" and "hp < 32"
    and "\<And>t p. t \<in> set (tlists k (Ready p)) \<Longrightarrow> hp \<le> p"
proof (rule ffs_cases [of "ready_priority_group k"])
  fix i assume i: "builtin_ffs (ready_priority_group k) = Suc i" "i < 32"
    "bit (ready_priority_group k) i" "\<forall>j<i. \<not> bit (ready_priority_group k) j"
  define hp :: u8 where "hp = of_nat i"
  have un: "unat hp = i" "hp < 32" using i(2) by (simp_all add: hp_def unat_of_nat word_less_nat_alt)
  obtain to rest where q: "tlists k (Ready hp) = to # rest"
    using qinvD(8) [OF inv i(2)] i(3) unfolding hp_def by (cases "tlists k (Ready (of_nat i))") auto
  have "hp \<le> p" if t: "t \<in> set (tlists k (Ready p))" for t p
  proof -
    have p: "p < 32" using ready_prio_lt [OF inv t] .
    then have "unat p < 32" by (simp add: word_less_nat_alt)
    moreover have "tlists k (Ready (of_nat (unat p))) \<noteq> []" using t by auto
    ultimately have "bit (ready_priority_group k) (unat p)" using qinvD(8) [OF inv] by blast
    with i(4) have "i \<le> unat p" by (meson not_less)
    then show ?thesis by (simp add: word_le_nat_alt un)
  qed
  moreover have "scheduler_get_highest_priority_thread k = Some (to, hp)"
    using i(1) q by (simp add: scheduler_get_highest_priority_thread_def hp_def)
  ultimately show ?thesis using that q un(2) by blast
qed (use ne in simp)

lemma group_zero_iff:
  assumes "qinv {} k"
  shows "ready_priority_group k = 0 \<longleftrightarrow> (\<forall>t. thread_stat k t \<noteq> 1)"
proof (cases "ready_priority_group k = 0")
  case True
  have "thread_stat k t \<noteq> 1" for t
  proof
    assume "thread_stat k t = 1"
    then have t: "t \<in> set (tlists k (Ready (thread_prio k t)))" using qinvD(4) [OF assms] by simp
    then have p: "unat (thread_prio k t) < 32" using ready_prio_lt [OF assms t] by (simp add: word_less_nat_alt)
    then have "bit (ready_priority_group k) (unat (thread_prio k t))" using qinvD(8) [OF assms p] t by auto
    with True show False by simp
  qed
  with True show ?thesis by simp
next
  case False
  then obtain to hp rest where "tlists k (Ready hp) = to # rest" by (rule highest_spec [OF assms])
  then have "thread_stat k to = 1" using qinvD(2) [OF assms, of to "Ready hp"] by simp
  with False show ?thesis by blast
qed
subsection \<open>rt_schedule\<close>

lemma remove_frame [simp]:
  "threads (rt_schedule_remove_thread t k) = threads k"
  "current_thread (rt_schedule_remove_thread t k) = current_thread k"
  "scheduler_lock_nest (rt_schedule_remove_thread t k) = scheduler_lock_nest k"
  "tlists (rt_schedule_remove_thread t k) = (\<lambda>h. removeAll t (tlists k h))"
  by (simp_all add: rt_schedule_remove_thread_def Let_def)

lemma insert_frame [simp]:
  "current_thread (rt_schedule_insert_thread t k) = current_thread k"
  "scheduler_lock_nest (rt_schedule_insert_thread t k) = scheduler_lock_nest k"
  by (simp_all add: rt_schedule_insert_thread_def Let_def)

lemma insert_threads:
  "threads (rt_schedule_insert_thread t k) = (threads k)(t := (threads k t)\<lparr>th_stat :=
     set_stat (if current_thread k = Some t then 3 else 1) (th_stat (threads k t))\<rparr>)"
  by (simp add: rt_schedule_insert_thread_def Let_def)

text \<open>Detaching a thread and putting it into a state other than ready.\<close>

lemma qinv_detach_set:
  assumes inv: "qinv {} k" and p: "prio_ok (threads k t)" and s: "s = 2 \<or> s = 3"
  shows "qinv {} (upd_thread t (\<lambda>th. th\<lparr>th_stat := set_stat s (th_stat th)\<rparr>) (rt_schedule_remove_thread t k))"
proof -
  let ?k' = "upd_thread t (\<lambda>th. th\<lparr>th_stat := set_stat s (th_stat th)\<rparr>) (rt_schedule_remove_thread t k)"
  have "qinv {t} ?k'" by (rule qinv_upd_detached [OF qinv_remove [OF inv p, simplified]]) simp
  moreover have "thread_stat ?k' t \<noteq> 1" "prio_ok (threads ?k' t)"
    using s p by (auto simp: prio_ok_def)
  ultimately show ?thesis using qinv_settle [of "{t}" ?k' t] by simp
qed

text \<open>
  What \<open>rt_schedule\<close> leaves: a running current thread such that no ready thread has a smaller
  priority number.
\<close>

definition best_running :: "kernel \<Rightarrow> bool" where
  "best_running k \<longleftrightarrow> (\<exists>c. current_thread k = Some c \<and> thread_stat k c = RT_THREAD_RUNNING \<and>
     (\<forall>t. thread_stat k t = RT_THREAD_READY \<longrightarrow> thread_prio k c \<le> thread_prio k t))"

lemma sched_invI:
  assumes "qinv {} k" and "current_thread k = Some c" and "thread_stat k c = 3"
    and "\<And>t. thread_stat k t = 3 \<Longrightarrow> current_thread k = Some t"
  shows "sched_inv k"
  using assms unfolding sched_inv_def cur_inv_def by auto

lemma best_runningI:
  assumes "current_thread k = Some c" and "thread_stat k c = 3"
    and "\<And>t. thread_stat k t = 1 \<Longrightarrow> thread_prio k c \<le> thread_prio k t"
  shows "best_running k"
  using assms by (simp add: best_running_def)

lemma running_current: "sched_inv k \<Longrightarrow> thread_stat k t = 3 \<Longrightarrow> current_thread k = Some t"
  by (simp add: sched_inv_def cur_inv_def)

lemma schedule_stay:
  assumes inv: "sched_inv k" and c: "current_thread k = Some c" "thread_stat k c = 3"
    and best: "\<And>t. thread_stat k t = 1 \<Longrightarrow> thread_prio k c \<le> thread_prio k t"
    and k': "k' = upd_thread c (\<lambda>th. th\<lparr>th_stat := set_stat 3 (th_stat th)\<rparr>)
      (rt_schedule_remove_thread c (upd_thread c (\<lambda>th. th\<lparr>th_stat := th_stat th AND NOT 8\<rparr>) k))"
  shows "sched_inv k' \<and> best_running k' \<and> current_thread k' = Some c"
proof -
  let ?k1 = "upd_thread c (\<lambda>th. th\<lparr>th_stat := th_stat th AND NOT 8\<rparr>) k"
  have q: "qinv {} k" and cu: "cur_inv k" using inv by (simp_all add: sched_inv_def)
  have "prio_ok (threads k c)" using qinvD(7) [OF q, of c] c by simp
  then have q': "qinv {} k'"
    unfolding k' by (intro qinv_detach_set qinv_upd_same q) (simp_all add: prio_ok_def)
  have st: "thread_stat k' t = thread_stat k t" "thread_prio k' t = thread_prio k t" for t
    using c(2) by (simp_all add: k')
  have cur: "current_thread k' = Some c" using c by (simp add: k')
  have run: "thread_stat k' c = 3" unfolding st by (rule c(2))
  have "sched_inv k'"
  proof (rule sched_invI [OF q' cur run])
    fix t assume "thread_stat k' t = 3"
    then show "current_thread k' = Some t" using running_current [OF inv, of t] cur c(1) unfolding st by simp
  qed
  moreover have "best_running k'"
    by (rule best_runningI [OF cur run]) (simp only: st best)
  ultimately show ?thesis using cur by blast
qed

lemma schedule_switch:
  assumes inv: "sched_inv k" and c: "current_thread k = Some c"
    and to: "to \<in> set (tlists k (Ready hp))"
    and least: "\<And>t p. t \<in> set (tlists k (Ready p)) \<Longrightarrow> hp \<le> p"
    and ni: "ni \<longleftrightarrow> thread_stat k c = 3" and le: "ni \<Longrightarrow> hp \<le> thread_prio k c"
    and k1: "k1 = (if thread_stat k c = 3 then upd_thread c (\<lambda>th. th\<lparr>th_stat := th_stat th AND NOT 8\<rparr>) k else k)"
    and k2: "k2 = k1\<lparr>current_priority := hp, current_thread := Some to\<rparr>"
    and k3: "k3 = (if ni then rt_schedule_insert_thread c k2 else k2)"
    and k5: "k5 = upd_thread to (\<lambda>th. th\<lparr>th_stat := set_stat 3 (th_stat th)\<rparr>) (rt_schedule_remove_thread to k3)"
  shows "sched_inv (k5\<lparr>cpu_thread := Some to\<rparr>) \<and> best_running (k5\<lparr>cpu_thread := Some to\<rparr>)"
proof -
  have q: "qinv {} k" and cu: "cur_inv k" using inv by (simp_all add: sched_inv_def)
  have tost: "thread_stat k to = 1" "thread_prio k to = hp"
    using qinvD(2,3) [OF q] to by auto
  have cne: "to \<noteq> c" using cu c tost by (auto simp: cur_inv_def)
  have same: "thread_stat k2 t = thread_stat k t" "thread_prio k2 t = thread_prio k t"
    "prio_ok (threads k2 t) = prio_ok (threads k t)" for t
    by (simp_all add: k1 k2 prio_ok_def)
  have q2: "qinv {} k2"
    by (rule qinv_frame [of _ k1]) (simp_all add: k1 k2 q qinv_upd_same)
  have q3: "qinv {} k3"
  proof (cases ni)
    case True
    then have run: "thread_stat k c = 3" using ni by simp
    have "c \<notin> set (tlists k2 h)" for h using qinvD(2) [OF q2, of c h] same run by (cases h) auto
    then have "tlist_remove c k2 = k2" by (simp add: tlist_remove_def removeAll_id)
    then have "qinv {c} k2" using qinv_tlist_remove [OF q2, of c] same run by simp
    moreover have "prio_ok (threads k2 c)" using qinvD(7) [OF q, of c] same run by simp
    moreover have "current_thread k2 \<noteq> Some c" using cne by (simp add: k2)
    ultimately show ?thesis using qinv_insert [of "{c}" k2 c] True by (simp add: k3)
  qed (simp add: k3 q2)
  have st3: "thread_stat k3 t = (if ni \<and> t = c then 1 else thread_stat k t)"
    "thread_prio k3 t = thread_prio k t" "prio_ok (threads k3 t) = prio_ok (threads k t)" for t
    using cne same [of t] by (auto simp: k3 insert_threads k2 prio_ok_def)
  have "prio_ok (threads k3 to)" using qinvD(7) [OF q, of to] tost st3 by simp
  then have "qinv {} k5" unfolding k5 by (intro qinv_detach_set q3) simp_all
  moreover have st5: "thread_stat k5 t = (if t = to then 3 else thread_stat k3 t)"
    "thread_prio k5 t = thread_prio k t" for t
    using st3 by (simp_all add: k5)
  moreover have cur5: "current_thread k5 = Some to" by (simp add: k5 k3 k2)
  moreover have "hp \<le> thread_prio k t" if "thread_stat k5 t = 1" for t
  proof (cases "ni \<and> t = c")
    case False
    then have "thread_stat k t = 1" using that st5 st3 by (auto split: if_splits)
    then show ?thesis using qinvD(4) [OF q, of t] least by blast
  qed (use le in auto)
  moreover have "current_thread k5 = Some t" if "thread_stat k5 t = 3" for t
    using that running_current [OF inv, of t] c ni cur5 unfolding st5 st3 by (auto split: if_splits)
  ultimately have "sched_inv k5" "best_running k5"
    by (intro sched_invI [of k5 to] best_runningI [of k5 to]; simp add: tost)+
  then show ?thesis by (simp add: sched_inv_def cur_inv_def best_running_def qinv_def)
qed

lemma rt_schedule_spec:
  assumes inv: "sched_inv k" and c: "current_thread k = Some c" and unlocked: "scheduler_lock_nest k = 0"
    and work: "thread_stat k c = 3 \<or> ready_priority_group k \<noteq> 0"
  obtains k' where "rt_schedule k = Some k'" "sched_inv k'" "best_running k'"
proof (cases "ready_priority_group k = 0")
  case True
  have q: "qinv {} k" using inv by (simp add: sched_inv_def)
  have "best_running k"
    using True work c group_zero_iff [OF q] by (auto simp: best_running_def)
  moreover have "rt_schedule k = Some k" using True by (simp add: rt_schedule_def)
  ultimately show ?thesis using that inv by blast
next
  case False
  have q: "qinv {} k" and cu: "cur_inv k" using inv by (simp_all add: sched_inv_def)
  obtain to hp rest where hi: "scheduler_get_highest_priority_thread k = Some (to, hp)"
    and ql: "tlists k (Ready hp) = to # rest" and least: "\<And>t p. t \<in> set (tlists k (Ready p)) \<Longrightarrow> hp \<le> p"
    by (rule highest_spec [OF q False]) blast
  have tost: "thread_stat k to = 1" using qinvD(2) [OF q, of to "Ready hp"] ql by simp
  then have ne: "to \<noteq> c" using cu c by (auto simp: cur_inv_def)
  define stay where "stay \<longleftrightarrow> thread_stat k c = 3 \<and>
    (thread_prio k c < hp \<or> thread_prio k c = hp \<and> th_stat (threads k c) AND 8 = 0)"
  show ?thesis
  proof (cases stay)
    case True
    then have "thread_prio k c \<le> hp" by (auto simp: stay_def)
    then have best: "thread_prio k c \<le> thread_prio k t" if "thread_stat k t = 1" for t
      using least qinvD(4) [OF q, of t] that by force
    show ?thesis
      using schedule_stay [OF inv c _ best refl] True that hi c unlocked False ne
      by (auto simp: rt_schedule_def schedule_choice_def stay_def)
  next
    case no: False
    have ch: "schedule_choice k c to hp = (to, thread_stat k c = 3)"
      using no by (auto simp: schedule_choice_def stay_def)
    have le: "hp \<le> thread_prio k c" if "thread_stat k c = 3"
      using no that by (auto simp: stay_def not_less)
    have "to \<in> set (tlists k (Ready hp))" using ql by simp
    from schedule_switch [OF inv c this least refl le refl refl refl refl]
    show ?thesis using that hi c unlocked False ne ch by (simp add: rt_schedule_def Let_def)
  qed
qed

subsection \<open>What the scheduler leaves alone\<close>

text \<open>
  \<open>objs_same\<close>: timers, tick and IPC objects are untouched. \<open>thread_core\<close> is a thread without
  its state word.
\<close>

definition objs_same :: "kernel \<Rightarrow> kernel \<Rightarrow> bool" where
  "objs_same k k' \<longleftrightarrow>
     timers k' = timers k \<and> timer_list k' = timer_list k \<and> soft_timer_list k' = soft_timer_list k \<and>
     expiring_hard k' = expiring_hard k \<and> expiring_soft k' = expiring_soft k \<and>
     soft_timer_idle k' = soft_timer_idle k \<and> timer_thread k' = timer_thread k \<and>
     rt_tick k' = rt_tick k \<and> cleanups k' = cleanups k \<and> semaphores k' = semaphores k \<and>
     mutexes k' = mutexes k \<and> events k' = events k \<and> mailboxes k' = mailboxes k \<and>
     messagequeues k' = messagequeues k \<and> scheduler_lock_nest k' = scheduler_lock_nest k \<and>
     interrupt_nest k' = interrupt_nest k"

definition thread_core :: "rt_thread \<Rightarrow> rt_thread" where
  "thread_core th = th\<lparr>th_stat := 0\<rparr>"

lemma thread_core_eqD:
  assumes "thread_core a = thread_core b"
  shows "th_error a = th_error b" "th_current_priority a = th_current_priority b"
    "th_number_mask a = th_number_mask b" "th_event_set a = th_event_set b"
    "th_event_info a = th_event_info b" "th_remaining_tick a = th_remaining_tick b"
    "th_init_tick a = th_init_tick b" "th_init_priority a = th_init_priority b"
    "th_static a = th_static b" "th_cleanup a = th_cleanup b"
  using assms by (cases a; cases b; simp add: thread_core_def)+

lemma objs_same_refl [simp]: "objs_same k k"
  by (simp add: objs_same_def)

lemma objs_same_trans: "objs_same k k' \<Longrightarrow> objs_same k' k'' \<Longrightarrow> objs_same k k''"
  by (simp add: objs_same_def)

lemma objs_same_ops [simp]:
  "objs_same k (upd_thread t f k)" "objs_same k (tlist_remove t k)" "objs_same k (tlist_append h t k)"
  "objs_same k (rt_schedule_remove_thread t k)" "objs_same k (rt_schedule_insert_thread t k)"
  "objs_same k (k\<lparr>current_priority := p, current_thread := ct\<rparr>)" "objs_same k (k\<lparr>cpu_thread := ct\<rparr>)"
  by (simp_all add: objs_same_def rt_schedule_remove_thread_def rt_schedule_insert_thread_def Let_def)

lemma thread_core_stat [simp]: "thread_core (th\<lparr>th_stat := s\<rparr>) = thread_core th"
  by (simp add: thread_core_def)

lemma thread_core_insert [simp]:
  "thread_core (threads (rt_schedule_insert_thread t k) u) = thread_core (threads k u)"
  by (simp add: insert_threads)

lemma rt_schedule_frame:
  assumes "rt_schedule k = Some k'"
  shows "objs_same k k'" "thread_core (threads k' t) = thread_core (threads k t)"
proof -
  note r = assms [unfolded rt_schedule_def schedule_choice_def]
  show "objs_same k k'"
    using r
    by (auto simp: Let_def bind_eq_Some_conv split: if_splits
        intro: objs_same_trans [OF objs_same_ops(6)])
      (auto simp: objs_same_def rt_schedule_remove_thread_def rt_schedule_insert_thread_def Let_def)
  show "thread_core (threads k' t) = thread_core (threads k t)"
    using r by (auto simp: Let_def bind_eq_Some_conv split: if_splits)
qed

text \<open>Lists other than the ready queues keep their members.\<close>

lemma rt_schedule_waiting:
  assumes inv: "sched_inv k" and r: "rt_schedule k = Some k'" and h: "\<forall>p. h \<noteq> Ready p"
  shows "tlists k' h = tlists k h"
proof (cases "scheduler_lock_nest k = 0 \<and> ready_priority_group k \<noteq> 0")
  case True
  have q: "qinv {} k" and cu: "cur_inv k" using inv by (simp_all add: sched_inv_def)
  obtain to hp rest where hi: "scheduler_get_highest_priority_thread k = Some (to, hp)"
    and ql: "tlists k (Ready hp) = to # rest"
    by (rule highest_spec [OF q]) (use True in blast)+
  obtain c where c: "current_thread k = Some c"
    using r hi True by (cases "current_thread k") (auto simp: rt_schedule_def)
  have "thread_stat k to = 1" using qinvD(2) [OF q, of to "Ready hp"] ql by simp
  then have tn: "to \<notin> set (tlists k h)" using qinvD(2) [OF q, of to h] h by (cases h) auto
  have cn: "c \<notin> set (tlists k h)" if "thread_stat k c = 3"
    using qinvD(2) [OF q, of c h] that by (cases h) auto
  show ?thesis
    using r True hi c tn cn h
    by (auto simp: rt_schedule_def schedule_choice_def Let_def rt_schedule_insert_thread_def
        removeAll_id split: if_splits)
qed (use r in \<open>auto simp: rt_schedule_def\<close>)

lemma rt_schedule_defined:
  assumes inv: "sched_inv k" and c: "current_thread k = Some c"
  obtains k' where "rt_schedule k = Some k'" "sched_inv k'"
proof (cases "scheduler_lock_nest k = 0 \<and> ready_priority_group k \<noteq> 0")
  case True
  then show ?thesis using rt_schedule_spec [OF inv c] that by blast
next
  case False
  then have "rt_schedule k = Some k" by (auto simp: rt_schedule_def)
  then show ?thesis using that inv by blast
qed

subsection \<open>Round robin, the scheduler lock, the direct switch, the start\<close>

lemma highest_is_head:
  assumes q: "qinv {} k" and ql: "tlists k (Ready p) = u # us"
    and least: "\<And>t. thread_stat k t = 1 \<Longrightarrow> p \<le> thread_prio k t"
  shows "scheduler_get_highest_priority_thread k = Some (u, p)" "ready_priority_group k \<noteq> 0"
proof -
  have u: "thread_stat k u = 1" using qinvD(2) [OF q, of u "Ready p"] ql by simp
  then show ne: "ready_priority_group k \<noteq> 0" using group_zero_iff [OF q] by blast
  obtain to hp rest where hi: "scheduler_get_highest_priority_thread k = Some (to, hp)"
    and ql': "tlists k (Ready hp) = to # rest" and le: "\<And>t p. t \<in> set (tlists k (Ready p)) \<Longrightarrow> hp \<le> p"
    by (rule highest_spec [OF q ne]) blast
  have "hp \<le> p" using le [of u p] ql by simp
  moreover have "thread_stat k to = 1" "thread_prio k to = hp"
    using qinvD(2,3) [OF q] ql' by (metis list.set_intros(1) list_stat_simps(1))+
  then have "p \<le> hp" using least by metis
  ultimately have "hp = p" by simp
  with hi ql ql' show "scheduler_get_highest_priority_thread k = Some (u, p)" by simp
qed

lemma rt_schedule_round_robin:
  assumes inv: "sched_inv k" and c: "current_thread k = Some c" "thread_stat k c = 3"
    and unlocked: "scheduler_lock_nest k = 0" and y: "th_stat (threads k c) AND 8 \<noteq> 0"
    and ql: "tlists k (Ready (thread_prio k c)) = u # us"
    and least: "\<And>t. thread_stat k t = 1 \<Longrightarrow> thread_prio k c \<le> thread_prio k t"
  shows "\<exists>k'. rt_schedule k = Some k' \<and> current_thread k' = Some u \<and> cpu_thread k' = Some u \<and>
    tlists k' (Ready (thread_prio k c)) = us @ [c]"
proof -
  have q: "qinv {} k" using inv by (simp add: sched_inv_def)
  note hi = highest_is_head [OF q ql least]
  have u: "thread_stat k u = 1" using qinvD(2) [OF q, of u "Ready (thread_prio k c)"] ql by simp
  then have uc: "u \<noteq> c" using c by auto
  have "u \<notin> set us" using qinvD(5) [OF q, of "Ready (thread_prio k c)"] ql by simp
  then show ?thesis
    using hi c unlocked y ql uc
    by (auto simp: rt_schedule_def schedule_choice_def Let_def rt_schedule_insert_thread_def
        removeAll_id)
qed

lemma rt_schedule_fast_spec:
  assumes inv: "sched_inv k" and c: "current_thread k = Some c" "thread_stat k c = 3"
    and to: "thread_stat k to = 1"
  shows "\<exists>k'. rt_schedule_fast to k = Some k' \<and> sched_inv k' \<and> current_thread k' = Some to \<and>
    cpu_thread k' = Some to \<and> thread_stat k' to = 3 \<and> thread_stat k' c = 1 \<and>
    c \<in> set (tlists k' (Ready (thread_prio k c))) \<and> objs_same k k'"
proof -
  define k1 where "k1 = upd_thread c (\<lambda>th. th\<lparr>th_stat := th_stat th AND NOT 8\<rparr>) k"
  define k2 where "k2 = k1\<lparr>current_priority := thread_prio k1 to, current_thread := Some to\<rparr>"
  define k5 where "k5 = rt_schedule_insert_thread c k2"
  define k7 where "k7 = upd_thread to (\<lambda>th. th\<lparr>th_stat := set_stat 3 (th_stat th)\<rparr>) (rt_schedule_remove_thread to k5)"
  have q: "qinv {} k" using inv by (simp add: sched_inv_def)
  have ne: "to \<noteq> c" using c to by auto
  have same: "thread_stat k2 t = thread_stat k t" "thread_prio k2 t = thread_prio k t"
    "prio_ok (threads k2 t) = prio_ok (threads k t)" for t
    by (simp_all add: k1_def k2_def prio_ok_def)
  have q2: "qinv {} k2" by (rule qinv_frame [of _ k1]) (simp_all add: k1_def k2_def q qinv_upd_same)
  have "c \<notin> set (tlists k2 h)" for h using qinvD(2) [OF q2, of c h] same c by (cases h) auto
  then have "tlist_remove c k2 = k2" by (simp add: tlist_remove_def removeAll_id)
  then have "qinv {c} k2" using qinv_tlist_remove [OF q2, of c] same c by simp
  moreover have "prio_ok (threads k2 c)" using qinvD(7) [OF q, of c] same c by simp
  moreover have "current_thread k2 \<noteq> Some c" using ne by (simp add: k2_def)
  ultimately have q5: "qinv {} k5" using qinv_insert [of "{c}" k2 c] by (simp add: k5_def)
  have st5: "thread_stat k5 t = (if t = c then 1 else thread_stat k t)"
    "thread_prio k5 t = thread_prio k t" "prio_ok (threads k5 t) = prio_ok (threads k t)" for t
    using ne same [of t] by (auto simp: k5_def insert_threads k2_def prio_ok_def)
  have "prio_ok (threads k5 to)" using qinvD(7) [OF q, of to] to st5 by simp
  then have q7: "qinv {} k7" unfolding k7_def by (intro qinv_detach_set q5) simp_all
  have st7: "thread_stat k7 t = (if t = to then 3 else if t = c then 1 else thread_stat k t)" for t
    using st5 by (simp add: k7_def)
  have cur7: "current_thread k7 = Some to" by (simp add: k7_def k5_def k2_def)
  have inv7: "sched_inv k7"
  proof (rule sched_invI [OF q7 cur7])
    show "thread_stat k7 to = 3" by (simp add: st7)
    fix t assume "thread_stat k7 t = 3"
    then show "current_thread k7 = Some t"
      using running_current [OF inv, of t] c cur7 unfolding st7 by (auto split: if_splits)
  qed
  have mem: "c \<in> set (tlists k7 (Ready (thread_prio k c)))"
    using ne same by (auto simp: k7_def k5_def rt_schedule_insert_thread_def k2_def k1_def Let_def)
  have "rt_schedule_fast to k = Some (k7\<lparr>cpu_thread := Some to\<rparr>)"
    using c ne by (simp add: rt_schedule_fast_def k7_def k5_def rt_schedule_insert_thread_def k2_def k1_def Let_def)
  moreover have "sched_inv (k7\<lparr>cpu_thread := Some to\<rparr>)"
    using inv7 by (simp add: sched_inv_def cur_inv_def qinv_def)
  moreover have "objs_same k k7"
    unfolding k7_def k5_def k2_def k1_def
    by (intro objs_same_trans [OF _ objs_same_ops(1)] objs_same_trans [OF _ objs_same_ops(4)]
        objs_same_trans [OF _ objs_same_ops(5)] objs_same_trans [OF _ objs_same_ops(6)]) simp
  then have "objs_same k (k7\<lparr>cpu_thread := Some to\<rparr>)" by (rule objs_same_trans) simp
  ultimately show ?thesis using st7 cur7 mem ne by simp
qed

lemma rt_system_scheduler_start_spec:
  assumes q: "qinv {} k" and ne: "ready_priority_group k \<noteq> 0" and none: "\<And>t. thread_stat k t \<noteq> 3"
  shows "\<exists>k'. rt_system_scheduler_start k = Some k' \<and> sched_inv k' \<and> best_running k'"
proof -
  obtain to hp rest where hi: "scheduler_get_highest_priority_thread k = Some (to, hp)"
    and ql: "tlists k (Ready hp) = to # rest" and le: "\<And>t p. t \<in> set (tlists k (Ready p)) \<Longrightarrow> hp \<le> p"
    by (rule highest_spec [OF q ne]) blast
  have to: "thread_stat k to = 1" "thread_prio k to = hp"
    using qinvD(2,3) [OF q] ql by (metis list.set_intros(1) list_stat_simps(1))+
  define k1 where "k1 = k\<lparr>current_thread := Some to\<rparr>"
  define k3 where "k3 = upd_thread to (\<lambda>th. th\<lparr>th_stat := 3\<rparr>) (rt_schedule_remove_thread to k1)"
  have q1: "qinv {} k1" by (rule qinv_frame [OF q]) (simp_all add: k1_def)
  have p: "prio_ok (threads k to)" using qinvD(7) [OF q, of to] to by simp
  have "qinv {to} k3"
    unfolding k3_def by (rule qinv_upd_detached [OF qinv_remove [OF q1, simplified]]) (simp_all add: k1_def p)
  then have q3: "qinv {} k3"
    using qinv_settle [of "{to}" k3 to] p by (simp add: k3_def k1_def prio_ok_def)
  have st: "thread_stat k3 t = (if t = to then 3 else thread_stat k t)" "thread_prio k3 t = thread_prio k t" for t
    by (simp_all add: k3_def k1_def)
  have cur: "current_thread k3 = Some to" by (simp add: k3_def k1_def)
  have run: "thread_stat k3 to = 3" by (simp add: st)
  have "sched_inv k3"
  proof (rule sched_invI [OF q3 cur run])
    fix t assume "thread_stat k3 t = 3"
    then show "current_thread k3 = Some t" using none [of t] cur unfolding st by (auto split: if_splits)
  qed
  moreover have "best_running k3"
  proof (rule best_runningI [OF cur run])
    fix t assume "thread_stat k3 t = 1"
    then have "thread_stat k t = 1" unfolding st by (auto split: if_splits)
    then show "thread_prio k3 to \<le> thread_prio k3 t"
      unfolding st to using le qinvD(4) [OF q, of t] by blast
  qed
  moreover have "rt_system_scheduler_start k = Some (k3\<lparr>cpu_thread := Some to\<rparr>)"
    using hi by (simp add: rt_system_scheduler_start_def k3_def k1_def Let_def)
  ultimately show ?thesis by (simp add: sched_inv_def cur_inv_def qinv_def best_running_def)
qed

text \<open>Between \<open>rt_enter_critical\<close> and the matching exit no switch happens.\<close>

lemma enter_critical_locks:
  assumes "0 \<le> scheduler_lock_nest k" "scheduler_lock_nest k < 2 ^ 15 - 1"
  shows "rt_schedule (rt_enter_critical k) = Some (rt_enter_critical k)"
    "scheduler_lock_nest (rt_enter_critical k) = scheduler_lock_nest k + 1"
proof -
  have e: "trunc_s 16 (scheduler_lock_nest k + 1) = scheduler_lock_nest k + 1"
    using assms by (intro trunc_s_id) auto
  then show "rt_schedule (rt_enter_critical k) = Some (rt_enter_critical k)"
    "scheduler_lock_nest (rt_enter_critical k) = scheduler_lock_nest k + 1"
    using assms by (simp_all add: rt_enter_critical_def rt_schedule_def)
qed

lemma exit_critical_cases:
  assumes "0 < scheduler_lock_nest k" "scheduler_lock_nest k < 2 ^ 15"
  shows "rt_exit_critical k =
    (if scheduler_lock_nest k = 1
     then (if current_thread k \<noteq> None then rt_schedule (k\<lparr>scheduler_lock_nest := 0\<rparr>)
           else Some (k\<lparr>scheduler_lock_nest := 0\<rparr>))
     else Some (k\<lparr>scheduler_lock_nest := scheduler_lock_nest k - 1\<rparr>))"
proof -
  have "trunc_s 16 (scheduler_lock_nest k - 1) = scheduler_lock_nest k - 1"
    using assms by (intro trunc_s_id) auto
  with assms show ?thesis by (auto simp: rt_exit_critical_def Let_def)
qed

subsection \<open>A small system\<close>

text \<open>
  Four started threads: the idle thread 0 (priority 31, ready), thread 1 (priority 10, running),
  thread 2 (priority 10, ready) and the timer thread 3 (priority 4, suspended). Thread 4 is
  initialised but not started.
\<close>

definition demo_thread :: "u8 \<Rightarrow> u8 \<Rightarrow> rt_thread" where
  "demo_thread s p = \<lparr>th_stat = s, th_error = 0, th_current_priority = p, th_init_priority = p,
     th_number_mask = prio_mask p, th_event_set = 0, th_event_info = 0, th_init_tick = 5,
     th_remaining_tick = 5, th_cleanup = False, th_static = False\<rparr>"

definition demo_threads :: "tid \<Rightarrow> rt_thread" where
  "demo_threads t =
     (if t = 0 then demo_thread 1 31 else if t = 1 then demo_thread 3 10
      else if t = 2 then demo_thread 1 10 else if t = 3 then demo_thread 2 4
      else demo_thread 0 20)"

definition demo_lists :: "list_head \<Rightarrow> tid list" where
  "demo_lists h = (if h = Ready 31 then [0] else if h = Ready 10 then [2] else [])"

definition k_demo :: kernel where
  "k_demo = \<lparr>threads = demo_threads, tlists = demo_lists,
     ready_priority_group = prio_mask 31 OR prio_mask 10, current_thread = Some 1,
     current_priority = 10, scheduler_lock_nest = 0, interrupt_nest = 0, cpu_thread = Some 1,
     timers = (\<lambda>i. \<lparr>tm_flag = 0, tm_timeout_func = (case i of Thread_timer t \<Rightarrow> Rt_thread_timeout t
         | User_timer n \<Rightarrow> User_timeout n), tm_init_tick = 0, tm_timeout_tick = 0\<rparr>),
     timer_list = [], soft_timer_list = [], expiring_hard = [],
     expiring_soft = [], soft_timer_idle = True, timer_thread = 3, rt_tick = 100,
     cleanups = [],
     semaphores = (\<lambda>_. \<lparr>sem_flag = 0, sem_value = 1\<rparr>),
     mutexes = (\<lambda>_. \<lparr>mx_flag = 1, mx_value = 1, mx_original_priority = 0xff, mx_hold = 0, mx_owner = None\<rparr>),
     events = (\<lambda>_. \<lparr>ev_flag = 0, ev_set = 0\<rparr>),
     mailboxes = (\<lambda>_. \<lparr>mb_flag = 0, mb_msg_pool = [0, 0], mb_size = 2, mb_entry = 0,
        mb_in_offset = 0, mb_out_offset = 0\<rparr>),
     messagequeues = (\<lambda>_. \<lparr>mq_flag = 0, mq_msg_size = 4, mq_max_msgs = 2, mq_entry = 0, mq_head = None,
        mq_tail = None, mq_free = Some 1, mq_next = (\<lambda>i. if i = 1 then Some 0 else None),
        mq_data = (\<lambda>_. [0, 0, 0, 0])\<rparr>)\<rparr>"

lemma k_demo_simps [simp]:
  "threads k_demo = demo_threads" "tlists k_demo = demo_lists" "current_thread k_demo = Some 1"
  "scheduler_lock_nest k_demo = 0"
  by (simp_all add: k_demo_def)

lemma demo_prio_ok: "p < 32 \<Longrightarrow> prio_ok (demo_thread s p)"
  by (simp add: prio_ok_def demo_thread_def)

lemma k_demo_qinv: "qinv {} k_demo"
proof -
  have bits: "bit (ready_priority_group k_demo) n \<longleftrightarrow> demo_lists (Ready (of_nat n)) \<noteq> []" if "n < 32" for n
  proof -
    have "bit (prio_mask 31 OR prio_mask 10) n \<longleftrightarrow> (of_nat n :: u8) = 31 \<or> (of_nat n :: u8) = 10"
      using bit_group_set [of 10 n "prio_mask 31"] bit_group_set [of 31 n 0] that by simp
    then show ?thesis by (auto simp: k_demo_def demo_lists_def)
  qed
  show ?thesis
    unfolding qinv_def
    by (auto simp: bits demo_lists_def demo_threads_def demo_thread_def prio_ok_def split: if_splits)
qed

lemma k_demo_inv: "sched_inv k_demo"
  using k_demo_qinv
  by (auto simp: sched_inv_def cur_inv_def demo_threads_def demo_thread_def split: if_splits)

subsection \<open>Properties\<close>

text \<open>
  C1. \<open>rt_schedule\<close> with the scheduler unlocked, from any consistent state in which there is
  something to run (the current thread still runs, or some thread is ready): it returns, the
  ready queues, the bitmap and the thread states agree again, the current thread is running, and
  no ready thread has a higher priority (a smaller number).
\<close>

theorem rt_schedule_runs_highest:
  assumes "sched_inv k" and "current_thread k = Some c" and "scheduler_lock_nest k = 0"
    and "thread_stat k c = RT_THREAD_RUNNING \<or> ready_priority_group k \<noteq> 0"
  shows "\<exists>k'. rt_schedule k = Some k' \<and> sched_inv k' \<and> best_running k'"
  using rt_schedule_spec [OF assms] by metis

theorem rt_schedule_runs_highest_witness:
  "\<exists>k'. rt_schedule k_demo = Some k' \<and> sched_inv k' \<and> best_running k'"
  by (rule rt_schedule_runs_highest [OF k_demo_inv, of 1])
    (simp_all add: demo_threads_def demo_thread_def)

text \<open>
  Time slicing is round robin: when the running thread has its yield bit set (its slice is
  used up or it called \<open>rt_thread_yield\<close>) and the first thread queued at its own priority is
  \<open>u\<close>, with no ready thread of higher priority, \<open>rt_schedule\<close> switches to \<open>u\<close> and queues the old
  thread behind all others of that priority.
\<close>

theorem yield_round_robin:
  assumes "sched_inv k" and "current_thread k = Some c" and "thread_stat k c = RT_THREAD_RUNNING"
    and "scheduler_lock_nest k = 0" and "th_stat (threads k c) AND RT_THREAD_STAT_YIELD \<noteq> 0"
    and "tlists k (Ready (thread_prio k c)) = u # us"
    and "\<And>t. thread_stat k t = RT_THREAD_READY \<Longrightarrow> thread_prio k c \<le> thread_prio k t"
  shows "\<exists>k'. rt_schedule k = Some k' \<and> current_thread k' = Some u \<and> cpu_thread k' = Some u \<and>
    tlists k' (Ready (thread_prio k c)) = us @ [c]"
  using assms by (rule rt_schedule_round_robin)

definition k_demo_yield :: kernel where
  "k_demo_yield = upd_thread 1 (\<lambda>th. th\<lparr>th_stat := th_stat th OR 8\<rparr>) k_demo"

lemma k_demo_yield_inv: "sched_inv k_demo_yield"
  using k_demo_inv by (simp add: k_demo_yield_def sched_inv_def qinv_upd_same cur_inv_upd_same)

theorem yield_round_robin_witness:
  "\<exists>k'. rt_schedule k_demo_yield = Some k' \<and> current_thread k' = Some 2 \<and> cpu_thread k' = Some 2 \<and>
    tlists k' (Ready 10) = [1]"
proof -
  have p: "thread_prio k_demo_yield 1 = 10"
    by (simp add: k_demo_yield_def demo_threads_def demo_thread_def)
  have "\<exists>k'. rt_schedule k_demo_yield = Some k' \<and> current_thread k' = Some 2 \<and> cpu_thread k' = Some 2 \<and>
      tlists k' (Ready (thread_prio k_demo_yield 1)) = [] @ [1]"
  proof (rule yield_round_robin [OF k_demo_yield_inv])
    show "tlists k_demo_yield (Ready (thread_prio k_demo_yield 1)) = 2 # []"
      unfolding p by (simp add: k_demo_yield_def demo_lists_def)
    show "thread_prio k_demo_yield 1 \<le> thread_prio k_demo_yield t"
      if "thread_stat k_demo_yield t = 1" for t
      using that by (auto simp: k_demo_yield_def demo_threads_def demo_thread_def split: if_splits)
  qed (simp_all add: k_demo_yield_def demo_threads_def demo_thread_def stat_of_def)
  then show ?thesis unfolding p by simp
qed

text \<open>
  The direct switch \<open>rt_schedule_fast\<close> of this port, called for a ready thread while the
  current thread is running, makes that thread the current one whatever the priorities are, puts
  the interrupted thread back into its ready queue, keeps the scheduler's invariant and leaves
  timers and IPC objects alone.
\<close>

theorem direct_switch_consistent:
  assumes "sched_inv k" and "current_thread k = Some c" and "thread_stat k c = RT_THREAD_RUNNING"
    and "thread_stat k to = RT_THREAD_READY"
  shows "\<exists>k'. rt_schedule_fast to k = Some k' \<and> sched_inv k' \<and> current_thread k' = Some to \<and>
    cpu_thread k' = Some to \<and> thread_stat k' to = RT_THREAD_RUNNING \<and> thread_stat k' c = RT_THREAD_READY \<and>
    c \<in> set (tlists k' (Ready (thread_prio k c))) \<and> objs_same k k'"
  using assms by (rule rt_schedule_fast_spec)

theorem direct_switch_consistent_witness:
  "\<exists>k'. rt_schedule_fast 0 k_demo = Some k' \<and> sched_inv k' \<and> current_thread k' = Some 0 \<and>
    cpu_thread k' = Some 0 \<and> thread_stat k' 0 = RT_THREAD_RUNNING \<and> thread_stat k' 1 = RT_THREAD_READY \<and>
    1 \<in> set (tlists k' (Ready (thread_prio k_demo 1))) \<and> objs_same k_demo k'"
  by (rule direct_switch_consistent [OF k_demo_inv])
    (simp_all add: demo_threads_def demo_thread_def)

text \<open>
  The direct switch checks nothing: called while the current thread has already suspended
  itself on a semaphore (an interrupt between \<open>rt_thread_suspend\<close> and \<open>rt_schedule\<close> in
  \<open>rt_sem_take\<close>), it links that thread into a ready queue and marks it ready although it is still
  on the semaphore's list, so the scheduler's invariant is lost.
\<close>

theorem direct_switch_unchecked:
  assumes "qinv {} k" and "current_thread k = Some c" and "c \<in> set (tlists k (Suspend ob))" and "to \<noteq> c"
  shows "\<exists>k'. rt_schedule_fast to k = Some k' \<and> c \<in> set (tlists k' (Suspend ob)) \<and>
    c \<in> set (tlists k' (Ready (thread_prio k c))) \<and> \<not> sched_inv k'"
proof -
  obtain k' where r: "rt_schedule_fast to k = Some k'"
    using assms(2) by (simp add: rt_schedule_fast_def Let_def)
  have "c \<in> set (tlists k' (Suspend ob))" "c \<in> set (tlists k' (Ready (thread_prio k c)))"
    using r assms(2-4) by (auto simp: rt_schedule_fast_def Let_def)
  moreover from this have "\<not> sched_inv k'"
    unfolding sched_inv_def using qinvD(6) [of "{}" k' c "Suspend ob" "Ready (thread_prio k c)"] by auto
  ultimately show ?thesis using r by blast
qed

definition k_demo_wait :: kernel where
  "k_demo_wait = (upd_thread 1 (\<lambda>th. th\<lparr>th_stat := 2\<rparr>) k_demo)\<lparr>tlists := demo_lists(Suspend 7 := [1])\<rparr>"

lemma k_demo_wait_qinv: "qinv {} k_demo_wait"
proof -
  have "qinv {1} (tlist_remove 1 k_demo)"
    using qinv_tlist_remove [OF k_demo_qinv, of 1] by (simp add: demo_threads_def demo_thread_def)
  moreover have "tlist_remove 1 k_demo = k_demo"
    by (auto simp: tlist_remove_def demo_lists_def fun_eq_iff intro!: kernel.equality)
  ultimately have q: "qinv {1} (upd_thread 1 (\<lambda>th. th\<lparr>th_stat := 2\<rparr>) k_demo)"
    by (simp add: qinv_upd_detached)
  show ?thesis
    using qinv_link [OF q, of 1 "Suspend 7" k_demo_wait "[1]"]
    by (simp add: k_demo_wait_def demo_lists_def demo_threads_def demo_thread_def prio_ok_def)
qed

theorem direct_switch_unchecked_witness:
  "\<exists>k'. rt_schedule_fast 2 k_demo_wait = Some k' \<and> 1 \<in> set (tlists k' (Suspend 7)) \<and>
    1 \<in> set (tlists k' (Ready (thread_prio k_demo_wait 1))) \<and> \<not> sched_inv k'"
  by (rule direct_switch_unchecked [OF k_demo_wait_qinv]) (simp_all add: k_demo_wait_def)

text \<open>
  The scheduler lock: while \<open>rt_enter_critical\<close> is in force \<open>rt_schedule\<close> changes nothing, and
  the exit that matches the outermost enter runs the scheduler on the unlocked state, so a switch
  requested inside the section is made up for.
\<close>

theorem scheduler_lock_defers:
  assumes "scheduler_lock_nest k = 0" and "current_thread k \<noteq> None"
  shows "rt_schedule (rt_enter_critical k) = Some (rt_enter_critical k) \<and>
    rt_schedule (rt_enter_critical (rt_enter_critical k)) = Some (rt_enter_critical (rt_enter_critical k)) \<and>
    rt_exit_critical (rt_enter_critical (rt_enter_critical k)) = Some (rt_enter_critical k) \<and>
    rt_exit_critical (rt_enter_critical k) = rt_schedule k"
proof -
  let ?k1 = "rt_enter_critical k"
  have n1: "scheduler_lock_nest ?k1 = 1" and s1: "rt_schedule ?k1 = Some ?k1"
    using enter_critical_locks [of k] assms by simp_all
  have n2: "scheduler_lock_nest (rt_enter_critical ?k1) = 2"
    and s2: "rt_schedule (rt_enter_critical ?k1) = Some (rt_enter_critical ?k1)"
    using enter_critical_locks [of ?k1] n1 by simp_all
  have "?k1\<lparr>scheduler_lock_nest := 0\<rparr> = k" "current_thread ?k1 = current_thread k"
    using assms(1) by (simp_all add: rt_enter_critical_def)
  then have "rt_exit_critical ?k1 = rt_schedule k"
    using exit_critical_cases [of ?k1] n1 assms by simp
  moreover have "(rt_enter_critical ?k1)\<lparr>scheduler_lock_nest := 1\<rparr> = ?k1"
    using n1 by (simp add: rt_enter_critical_def)
  then have "rt_exit_critical (rt_enter_critical ?k1) = Some ?k1"
    using exit_critical_cases [of "rt_enter_critical ?k1"] n2 by simp
  ultimately show ?thesis using s1 s2 by blast
qed

theorem scheduler_lock_defers_witness:
  "rt_schedule (rt_enter_critical k_demo_yield) = Some (rt_enter_critical k_demo_yield) \<and>
   rt_exit_critical (rt_enter_critical k_demo_yield) = rt_schedule k_demo_yield"
  using scheduler_lock_defers [of k_demo_yield] by (simp add: k_demo_yield_def)

text \<open>
  The table-driven \<open>__rt_ffs\<close> of \<open>kservice.c\<close> agrees with the compiler's find-first-set on
  every 32-bit value, so the ready-queue selection does not depend on which of the two is built.
\<close>

theorem rt_ffs_table_correct: "rt_ffs_table v = builtin_ffs v"
  by (rule rt_ffs_table_eq)

text \<open>
  \<open>rt_system_scheduler_start\<close>: once some thread has been made ready, and none runs yet, the
  start returns with the highest-priority ready thread as the running current thread and the
  invariant of the scheduler established.
\<close>

theorem scheduler_start_establishes:
  assumes "qinv {} k" and "ready_priority_group k \<noteq> 0" and "\<And>t. thread_stat k t \<noteq> RT_THREAD_RUNNING"
  shows "\<exists>k'. rt_system_scheduler_start k = Some k' \<and> sched_inv k' \<and> best_running k'"
  using assms by (rule rt_system_scheduler_start_spec)

theorem scheduler_start_establishes_witness:
  "\<exists>k'. rt_system_scheduler_start k_demo_wait = Some k' \<and> sched_inv k' \<and> best_running k'"
proof (rule scheduler_start_establishes [OF k_demo_wait_qinv])
  have "bit (prio_mask 31 OR prio_mask 10 :: u32) 10" by (simp add: bit_or_iff bit_prio_mask)
  then have "prio_mask 31 OR prio_mask 10 \<noteq> (0 :: u32)" by (metis bit_0_eq bot_apply bot_bool_def)
  then show "ready_priority_group k_demo_wait \<noteq> 0" by (simp add: k_demo_wait_def k_demo_def)
  show "thread_stat k_demo_wait t \<noteq> 3" for t
    by (simp add: k_demo_wait_def demo_threads_def demo_thread_def)
qed

end
