(* ===== verification/Timer.thy ===== *)
theory Timer
  imports Scheduler
begin

text \<open>
  The part of \<open>src/timer.c\<close> that does not call into the thread code: initialisation, stop,
  control, and the ordered insertion \<open>rt_timer_start\<close> performs. The lists are kept in the order
  of the expiry ticks, compared modulo \<open>2 ^ 32\<close>.
\<close>

abbreviation (input) RT_TIMER_CTRL_SET_TIME :: int where "RT_TIMER_CTRL_SET_TIME \<equiv> 0"
abbreviation (input) RT_TIMER_CTRL_GET_TIME :: int where "RT_TIMER_CTRL_GET_TIME \<equiv> 1"
abbreviation (input) RT_TIMER_CTRL_SET_ONESHOT :: int where "RT_TIMER_CTRL_SET_ONESHOT \<equiv> 2"
abbreviation (input) RT_TIMER_CTRL_SET_PERIODIC :: int where "RT_TIMER_CTRL_SET_PERIODIC \<equiv> 3"
abbreviation (input) RT_TIMER_CTRL_GET_STATE :: int where "RT_TIMER_CTRL_GET_STATE \<equiv> 4"

text \<open>\<open>_timer_init\<close>.\<close>

definition timer_init :: "timer_id \<Rightarrow> timeout_fn \<Rightarrow> u32 \<Rightarrow> u8 \<Rightarrow> kernel \<Rightarrow> kernel" where
  "timer_init i timeout time flag k =
     upd_timer i (\<lambda>_. \<lparr>tm_flag = flag AND NOT RT_TIMER_FLAG_ACTIVATED, tm_timeout_func = timeout,
       tm_init_tick = time, tm_timeout_tick = 0\<rparr>) k"

text \<open>\<open>_timer_remove\<close>: the row node leaves whatever list it is linked to.\<close>

definition timer_remove :: "timer_id \<Rightarrow> kernel \<Rightarrow> kernel" where
  "timer_remove i k =
     k\<lparr>timer_list := removeAll i (timer_list k), soft_timer_list := removeAll i (soft_timer_list k),
       expiring_hard := removeAll i (expiring_hard k), expiring_soft := removeAll i (expiring_soft k)\<rparr>"

definition timer_list_next_timeout :: "timer_id list \<Rightarrow> kernel \<Rightarrow> u32" where
  "timer_list_next_timeout l k =
     (case l of [] \<Rightarrow> RT_TICK_MAX | i # _ \<Rightarrow> tm_timeout_tick (timers k i))"

definition rt_timer_next_timeout_tick :: "kernel \<Rightarrow> u32" where
  "rt_timer_next_timeout_tick k = timer_list_next_timeout (timer_list k) k"

definition rt_timer_detach :: "timer_id \<Rightarrow> kernel \<Rightarrow> kernel \<times> rt_err_t" where
  "rt_timer_detach i k =
     (upd_timer i (\<lambda>t. t\<lparr>tm_flag := tm_flag t AND NOT RT_TIMER_FLAG_ACTIVATED\<rparr>) (timer_remove i k), RT_EOK)"

definition rt_timer_stop :: "timer_id \<Rightarrow> kernel \<Rightarrow> kernel \<times> rt_err_t" where
  "rt_timer_stop i k =
     (if tm_flag (timers k i) AND RT_TIMER_FLAG_ACTIVATED = 0 then (k, - RT_ERROR)
      else (upd_timer i (\<lambda>t. t\<lparr>tm_flag := tm_flag t AND NOT RT_TIMER_FLAG_ACTIVATED\<rparr>) (timer_remove i k),
            RT_EOK))"

text \<open>\<open>rt_timer_control\<close>: the word \<open>arg\<close> points to goes in and comes out.\<close>

definition rt_timer_control :: "timer_id \<Rightarrow> int \<Rightarrow> u32 \<Rightarrow> kernel \<Rightarrow> kernel \<times> u32 \<times> rt_err_t" where
  "rt_timer_control i cmd arg k =
     (if cmd = RT_TIMER_CTRL_GET_TIME then (k, tm_init_tick (timers k i), RT_EOK)
      else if cmd = RT_TIMER_CTRL_SET_TIME then (upd_timer i (\<lambda>t. t\<lparr>tm_init_tick := arg\<rparr>) k, arg, RT_EOK)
      else if cmd = RT_TIMER_CTRL_SET_ONESHOT
      then (upd_timer i (\<lambda>t. t\<lparr>tm_flag := tm_flag t AND NOT RT_TIMER_FLAG_PERIODIC\<rparr>) k, arg, RT_EOK)
      else if cmd = RT_TIMER_CTRL_SET_PERIODIC
      then (upd_timer i (\<lambda>t. t\<lparr>tm_flag := tm_flag t OR RT_TIMER_FLAG_PERIODIC\<rparr>) k, arg, RT_EOK)
      else if cmd = RT_TIMER_CTRL_GET_STATE
      then (k, if tm_flag (timers k i) AND RT_TIMER_FLAG_ACTIVATED \<noteq> 0 then 1 else 0, RT_EOK)
      else (k, arg, RT_EOK))"

text \<open>
  The search loop of \<open>rt_timer_start\<close>: the timer goes before the first one that expires strictly
  later, where later means less than half the tick range ahead.
\<close>

fun timer_insert :: "(timer_id \<Rightarrow> rt_timer) \<Rightarrow> timer_id \<Rightarrow> timer_id list \<Rightarrow> timer_id list" where
  "timer_insert tms i [] = [i]"
| "timer_insert tms i (t # ts) =
     (let d = tm_timeout_tick (tms t) - tm_timeout_tick (tms i) in
      if d = 0 then t # timer_insert tms i ts
      else if d < RT_TICK_MAX div 2 then i # t # ts
      else t # timer_insert tms i ts)"

subsection \<open>Order of the timer list\<close>

text \<open>
  \<open>due tms now i\<close>: the ticks from \<open>now\<close> to the expiry of \<open>i\<close>. A list is ordered at \<open>now\<close> when no
  timer on it is overdue by the comparison the code makes and the due times do not decrease.
\<close>

definition due :: "(timer_id \<Rightarrow> rt_timer) \<Rightarrow> u32 \<Rightarrow> timer_id \<Rightarrow> nat" where
  "due tms now i = unat (tm_timeout_tick (tms i) - now)"

definition timer_sorted :: "(timer_id \<Rightarrow> rt_timer) \<Rightarrow> u32 \<Rightarrow> timer_id list \<Rightarrow> bool" where
  "timer_sorted tms now l \<longleftrightarrow> sorted (map (due tms now) l) \<and> (\<forall>i \<in> set l. due tms now i < 2 ^ 31 - 1)"

lemma timer_insert_set [simp]: "set (timer_insert tms i l) = insert i (set l)"
  by (induction l) (auto simp: Let_def)

lemma timer_insert_distinct: "i \<notin> set l \<Longrightarrow> distinct (timer_insert tms i l) \<longleftrightarrow> distinct l"
  by (induction l) (auto simp: Let_def)

lemma half_tick: "unat (RT_TICK_MAX div 2 :: u32) = 2 ^ 31 - 1"
  by (simp add: RT_TICK_MAX_def)

text \<open>The comparison of the loop is the comparison of the due times.\<close>

lemma unat_diff_order:
  fixes a b :: u32
  assumes "unat a < 2 ^ 31 - 1" "unat b < 2 ^ 31 - 1"
  shows "a - b = 0 \<longleftrightarrow> unat a = unat b"
    "a - b \<noteq> 0 \<Longrightarrow> a - b < RT_TICK_MAX div 2 \<longleftrightarrow> unat b < unat a"
proof -
  show "a - b = 0 \<longleftrightarrow> unat a = unat b" by (metis eq_iff_diff_eq_0 word_unat_eq_iff)
  assume ne: "a - b \<noteq> 0"
  show "a - b < RT_TICK_MAX div 2 \<longleftrightarrow> unat b < unat a"
  proof (cases "unat b \<le> unat a")
    case True
    then have "unat (a - b) = unat a - unat b" by (simp add: unat_sub word_le_nat_alt)
    with True assms ne show ?thesis unfolding word_less_nat_alt half_tick
      by (auto simp: word_unat_eq_iff)
  next
    case False
    then have "unat (a - b) = 2 ^ 32 + unat a - unat b"
      using unat_sub_if_size [of a b] by (simp add: word_size)
    with False assms show ?thesis unfolding word_less_nat_alt half_tick by simp
  qed
qed

lemma due_cmp:
  assumes "due tms now t < 2 ^ 31 - 1" "due tms now i < 2 ^ 31 - 1"
  defines "d \<equiv> tm_timeout_tick (tms t) - tm_timeout_tick (tms i)"
  shows "d = 0 \<longleftrightarrow> due tms now t = due tms now i"
    "d \<noteq> 0 \<Longrightarrow> d < RT_TICK_MAX div 2 \<longleftrightarrow> due tms now i < due tms now t"
proof -
  have "d = (tm_timeout_tick (tms t) - now) - (tm_timeout_tick (tms i) - now)" by (simp add: d_def)
  then show "d = 0 \<longleftrightarrow> due tms now t = due tms now i"
    "d \<noteq> 0 \<Longrightarrow> d < RT_TICK_MAX div 2 \<longleftrightarrow> due tms now i < due tms now t"
    using unat_diff_order [OF assms(1,2) [unfolded due_def]] by (simp_all add: due_def)
qed

lemma timer_insert_sorted:
  assumes "timer_sorted tms now l" and "due tms now i < 2 ^ 31 - 1"
  shows "timer_sorted tms now (timer_insert tms i l)"
  using assms
proof (induction l)
  case Nil
  then show ?case by (simp add: timer_sorted_def)
next
  case (Cons t ts)
  have t: "due tms now t < 2 ^ 31 - 1" and le: "\<forall>u \<in> set ts. due tms now t \<le> due tms now u"
    using Cons.prems by (simp_all add: timer_sorted_def)
  have IH: "timer_sorted tms now (timer_insert tms i ts)"
    using Cons.IH Cons.prems by (simp add: timer_sorted_def)
  note cmp = due_cmp [OF t Cons.prems(2)]
  consider (eq) "tm_timeout_tick (tms t) - tm_timeout_tick (tms i) = 0"
    | (lt) "tm_timeout_tick (tms t) - tm_timeout_tick (tms i) \<noteq> 0"
      "tm_timeout_tick (tms t) - tm_timeout_tick (tms i) < RT_TICK_MAX div 2"
    | (ge) "tm_timeout_tick (tms t) - tm_timeout_tick (tms i) \<noteq> 0"
      "\<not> tm_timeout_tick (tms t) - tm_timeout_tick (tms i) < RT_TICK_MAX div 2"
    by blast
  then show ?case
  proof cases
    case eq
    then have "due tms now t \<le> due tms now i" using cmp(1) by simp
    then show ?thesis using eq IH t le by (auto simp: timer_sorted_def)
  next
    case lt
    then have "due tms now i < due tms now t" using cmp(2) by blast
    then show ?thesis using lt Cons.prems le by (auto simp: timer_sorted_def)
  next
    case ge
    then have "due tms now t \<le> due tms now i" using cmp(2) by (simp add: not_less)
    then show ?thesis using ge IH t le by (auto simp: timer_sorted_def)
  qed
qed

text \<open>Timers with equal expiry fire in the order they were started.\<close>

lemma timer_insert_split:
  assumes "timer_sorted tms now l" and "due tms now i < 2 ^ 31 - 1"
  shows "\<exists>a b. l = a @ b \<and> timer_insert tms i l = a @ i # b \<and>
    (\<forall>t \<in> set a. due tms now t \<le> due tms now i) \<and> (\<forall>t \<in> set b. due tms now i < due tms now t)"
  using assms
proof (induction l)
  case Nil
  then show ?case by simp
next
  case (Cons t ts)
  have t: "due tms now t < 2 ^ 31 - 1" and le: "\<forall>u \<in> set ts. due tms now t \<le> due tms now u"
    using Cons.prems by (simp_all add: timer_sorted_def)
  note cmp = due_cmp [OF t Cons.prems(2)]
  obtain a b where ab: "ts = a @ b" "timer_insert tms i ts = a @ i # b"
    "\<forall>t \<in> set a. due tms now t \<le> due tms now i" "\<forall>t \<in> set b. due tms now i < due tms now t"
    using Cons.IH Cons.prems by (auto simp: timer_sorted_def)
  show ?case
  proof (cases "due tms now i < due tms now t")
    case True
    then have "timer_insert tms i (t # ts) = i # t # ts" using cmp by auto
    then show ?thesis using True le by (intro exI [of _ "[]"] exI [of _ "t # ts"]) auto
  next
    case False
    then have "timer_insert tms i (t # ts) = t # timer_insert tms i ts" using cmp by (auto simp: Let_def)
    then show ?thesis using False ab by (intro exI [of _ "t # a"] exI [of _ b]) auto
  qed
qed

lemma timer_remove_frame [simp]:
  "threads (timer_remove i k) = threads k" "tlists (timer_remove i k) = tlists k"
  "ready_priority_group (timer_remove i k) = ready_priority_group k"
  "current_thread (timer_remove i k) = current_thread k" "timers (timer_remove i k) = timers k"
  "scheduler_lock_nest (timer_remove i k) = scheduler_lock_nest k" "rt_tick (timer_remove i k) = rt_tick k"
  "timer_list (timer_remove i k) = removeAll i (timer_list k)"
  "soft_timer_list (timer_remove i k) = removeAll i (soft_timer_list k)"
  "expiring_hard (timer_remove i k) = removeAll i (expiring_hard k)"
  "expiring_soft (timer_remove i k) = removeAll i (expiring_soft k)"
  "soft_timer_idle (timer_remove i k) = soft_timer_idle k" "timer_thread (timer_remove i k) = timer_thread k"
  "semaphores (timer_remove i k) = semaphores k" "mutexes (timer_remove i k) = mutexes k"
  "events (timer_remove i k) = events k" "mailboxes (timer_remove i k) = mailboxes k"
  "messagequeues (timer_remove i k) = messagequeues k" "cpu_thread (timer_remove i k) = cpu_thread k"
  "interrupt_nest (timer_remove i k) = interrupt_nest k" "cleanups (timer_remove i k) = cleanups k"
  "current_priority (timer_remove i k) = current_priority k"
  by (simp_all add: timer_remove_def)

end
