(* ===== verification/Thread.thy ===== *)
theory Thread
  imports Timer
begin

text \<open>
  \<open>src/thread.c\<close>, the operations that do not start a timer, and the list of defunct threads of
  \<open>src/idle.c\<close>: initialisation, start-up, suspend, resume, yield, change of priority, detach,
  delete and exit. Stack memory, entry point and names are not part of the state.
\<close>

abbreviation (input) RT_THREAD_CTRL_STARTUP :: int where "RT_THREAD_CTRL_STARTUP \<equiv> 0"
abbreviation (input) RT_THREAD_CTRL_CLOSE :: int where "RT_THREAD_CTRL_CLOSE \<equiv> 1"
abbreviation (input) RT_THREAD_CTRL_CHANGE_PRIORITY :: int where "RT_THREAD_CTRL_CHANGE_PRIORITY \<equiv> 2"

text \<open>\<open>_thread_init\<close>; \<open>static\<close> tells \<open>rt_thread_init\<close> from \<open>rt_thread_create\<close>.\<close>

definition thread_init :: "tid \<Rightarrow> bool \<Rightarrow> u8 \<Rightarrow> u32 \<Rightarrow> kernel \<Rightarrow> kernel option" where
  "thread_init t static priority tick k =
     do { rt_assert (priority < 32);
          let k1 = upd_thread t (\<lambda>th. th\<lparr>th_stat := RT_THREAD_INIT, th_error := RT_EOK,
                th_current_priority := priority, th_init_priority := priority, th_number_mask := 0,
                th_init_tick := tick, th_remaining_tick := tick, th_cleanup := False,
                th_static := static\<rparr>) k;
          Some (timer_init (Thread_timer t) (Rt_thread_timeout t) 0 0 k1) }"

text \<open>
  \<open>rt_thread_create\<close>: the allocation of the thread object and of its stack may fail; a failed
  stack allocation deletes the object again, so no state remains. The result is the handle.
\<close>

definition rt_thread_create :: "bool \<Rightarrow> bool \<Rightarrow> tid \<Rightarrow> u8 \<Rightarrow> u32 \<Rightarrow> kernel \<Rightarrow> (kernel \<times> tid option) option" where
  "rt_thread_create obj_ok stack_ok t priority tick k =
     (if \<not> obj_ok then Some (k, None)
      else if \<not> stack_ok then Some (k, None)
      else do { k1 \<leftarrow> thread_init t False priority tick k; Some (k1, Some t) })"

definition rt_thread_suspend :: "tid \<Rightarrow> kernel \<Rightarrow> (kernel \<times> rt_err_t) option" where
  "rt_thread_suspend t k =
     (let stat = thread_stat k t in
      if stat \<noteq> RT_THREAD_READY \<and> stat \<noteq> RT_THREAD_RUNNING then Some (k, - RT_ERROR)
      else do { rt_assert (stat = RT_THREAD_RUNNING \<longrightarrow> current_thread k = Some t);
                let k1 = rt_schedule_remove_thread t k;
                let k2 = upd_thread t (\<lambda>th. th\<lparr>th_stat := set_stat RT_THREAD_SUSPEND (th_stat th)\<rparr>) k1;
                Some (fst (rt_timer_stop (Thread_timer t) k2), RT_EOK) })"

definition rt_thread_resume :: "tid \<Rightarrow> kernel \<Rightarrow> kernel \<times> rt_err_t" where
  "rt_thread_resume t k =
     (if thread_stat k t \<noteq> RT_THREAD_SUSPEND then (k, - RT_ERROR)
      else let k1 = tlist_remove t k;
               k2 = fst (rt_timer_stop (Thread_timer t) k1)
           in (rt_schedule_insert_thread t k2, RT_EOK))"

definition rt_thread_startup :: "tid \<Rightarrow> kernel \<Rightarrow> (kernel \<times> rt_err_t) option" where
  "rt_thread_startup t k =
     do { rt_assert (thread_stat k t = RT_THREAD_INIT);
          let p = th_init_priority (threads k t);
          rt_assert (p < 32);
          let k1 = upd_thread t (\<lambda>th. th\<lparr>th_current_priority := p, th_number_mask := prio_mask p,
                th_stat := RT_THREAD_SUSPEND\<rparr>) k;
          let k2 = fst (rt_thread_resume t k1);
          if current_thread k2 \<noteq> None
          then do { k3 \<leftarrow> rt_schedule k2; Some (k3, RT_EOK) }
          else Some (k2, RT_EOK) }"

text \<open>The call of \<open>thread->cleanup\<close>, when one is set, is recorded.\<close>

definition thread_cleanup_execute :: "tid \<Rightarrow> kernel \<Rightarrow> kernel" where
  "thread_cleanup_execute t k =
     (if th_cleanup (threads k t) then k\<lparr>cleanups := t # cleanups k\<rparr> else k)"

text \<open>\<open>rt_list_insert_after(&_rt_thread_defunct, &thread->tlist)\<close>, and the head taken off again.\<close>

definition rt_thread_defunct_enqueue :: "tid \<Rightarrow> kernel \<Rightarrow> kernel" where
  "rt_thread_defunct_enqueue t k = k\<lparr>tlists := (tlists k)(Defunct := t # tlists k Defunct)\<rparr>"

definition rt_thread_defunct_dequeue :: "kernel \<Rightarrow> kernel \<times> tid option" where
  "rt_thread_defunct_dequeue k =
     (case tlists k Defunct of [] \<Rightarrow> (k, None) | t # _ \<Rightarrow> (tlist_remove t k, Some t))"

definition rt_thread_detach :: "tid \<Rightarrow> kernel \<Rightarrow> (kernel \<times> rt_err_t) option" where
  "rt_thread_detach t k =
     do { rt_assert (th_static (threads k t));
          if thread_stat k t = RT_THREAD_CLOSE then Some (k, RT_EOK)
          else
            let k1 = (if thread_stat k t \<noteq> RT_THREAD_INIT then rt_schedule_remove_thread t k else k);
                k2 = thread_cleanup_execute t k1;
                k3 = fst (rt_timer_detach (Thread_timer t) k2);
                k4 = upd_thread t (\<lambda>th. th\<lparr>th_stat := RT_THREAD_CLOSE\<rparr>) k3
            in Some (k4, RT_EOK) }"

definition rt_thread_delete :: "tid \<Rightarrow> kernel \<Rightarrow> (kernel \<times> rt_err_t) option" where
  "rt_thread_delete t k =
     do { rt_assert (\<not> th_static (threads k t));
          if thread_stat k t = RT_THREAD_CLOSE then Some (k, RT_EOK)
          else
            let k1 = (if thread_stat k t \<noteq> RT_THREAD_INIT then rt_schedule_remove_thread t k else k);
                k2 = thread_cleanup_execute t k1;
                k3 = fst (rt_timer_detach (Thread_timer t) k2);
                k4 = upd_thread t (\<lambda>th. th\<lparr>th_stat := RT_THREAD_CLOSE\<rparr>) k3
            in Some (rt_thread_defunct_enqueue t k4, RT_EOK) }"

text \<open>\<open>_thread_exit\<close>: where a thread's entry function returns to.\<close>

definition thread_exit :: "kernel \<Rightarrow> kernel option" where
  "thread_exit k =
     do { t \<leftarrow> current_thread k;
          let k1 = thread_cleanup_execute t k;
          let k2 = rt_schedule_remove_thread t k1;
          let k3 = upd_thread t (\<lambda>th. th\<lparr>th_stat := RT_THREAD_CLOSE\<rparr>) k2;
          let k4 = fst (rt_timer_detach (Thread_timer t) k3);
          let k5 = (if th_static (threads k4 t) then k4 else rt_thread_defunct_enqueue t k4);
          rt_schedule k5 }"

text \<open>
  \<open>rt_defunct_execute\<close> of the idle thread: every defunct thread is taken off the list, its
  cleanup function is called, and it is detached or freed (which the state does not record).
\<close>

function rt_defunct_execute :: "kernel \<Rightarrow> kernel" where
  "rt_defunct_execute k =
     (case rt_thread_defunct_dequeue k of
        (k1, None) \<Rightarrow> k1
      | (k1, Some t) \<Rightarrow> rt_defunct_execute (thread_cleanup_execute t k1))"
  by pat_completeness auto
termination
  by (relation "measure (\<lambda>k. length (tlists k Defunct))")
    (auto simp: rt_thread_defunct_dequeue_def thread_cleanup_execute_def split: list.splits
      intro: le_less_trans [OF length_removeAll_less_eq])

definition rt_thread_yield :: "kernel \<Rightarrow> (kernel \<times> rt_err_t) option" where
  "rt_thread_yield k =
     do { t \<leftarrow> current_thread k;
          let k1 = upd_thread t (\<lambda>th. th\<lparr>th_remaining_tick := th_init_tick th,
                th_stat := th_stat th OR RT_THREAD_STAT_YIELD\<rparr>) k;
          k2 \<leftarrow> rt_schedule k1;
          Some (k2, RT_EOK) }"

text \<open>
  \<open>RT_THREAD_CTRL_CHANGE_PRIORITY\<close>. The new priority is not checked: 32 or more would shift past
  the word and index past the table.
\<close>

definition thread_change_priority :: "tid \<Rightarrow> u8 \<Rightarrow> kernel \<Rightarrow> kernel option" where
  "thread_change_priority t p k =
     (if p < 32
      then Some
        (if thread_stat k t = RT_THREAD_READY
         then rt_schedule_insert_thread t
                (upd_thread t (\<lambda>th. th\<lparr>th_current_priority := p, th_number_mask := prio_mask p\<rparr>)
                  (rt_schedule_remove_thread t k))
         else upd_thread t (\<lambda>th. th\<lparr>th_current_priority := p, th_number_mask := prio_mask p\<rparr>) k)
      else None)"

definition rt_thread_control :: "tid \<Rightarrow> int \<Rightarrow> u8 \<Rightarrow> kernel \<Rightarrow> (kernel \<times> rt_err_t) option" where
  "rt_thread_control t cmd arg k =
     (if cmd = RT_THREAD_CTRL_CHANGE_PRIORITY
      then do { k1 \<leftarrow> thread_change_priority t arg k; Some (k1, RT_EOK) }
      else if cmd = RT_THREAD_CTRL_STARTUP then rt_thread_startup t k
      else if cmd = RT_THREAD_CTRL_CLOSE
      then do { (k1, err) \<leftarrow> (if th_static (threads k t) then rt_thread_detach t k else rt_thread_delete t k);
                k2 \<leftarrow> rt_schedule k1;
                Some (k2, err) }
      else Some (k, RT_EOK))"

end
