(* ===== verification/Clock.thy ===== *)
theory Clock
  imports Thread
begin

text \<open>
  The rest of \<open>src/timer.c\<close>, \<open>src/clock.c\<close> and the delaying operations of \<open>src/thread.c\<close>:
  starting a timer, the expiry of hard and soft timers, the tick, and sleeping. A function that
  gives up the processor is modelled up to and including its call of \<open>rt_schedule\<close>; what it does
  when the thread runs again is a second definition with the suffix \<open>_return\<close>.

  \<open>usr n\<close> is the \<open>n\<close>-th timeout function of the application.
\<close>

type_synonym user_functions = "nat \<Rightarrow> kernel \<Rightarrow> kernel option"

definition rt_timer_start :: "timer_id \<Rightarrow> kernel \<Rightarrow> (kernel \<times> rt_err_t) option" where
  "rt_timer_start i k =
     do { let k1 = upd_timer i (\<lambda>t. t\<lparr>tm_flag := tm_flag t AND NOT RT_TIMER_FLAG_ACTIVATED\<rparr>) (timer_remove i k);
          rt_assert (tm_init_tick (timers k1 i) < RT_TICK_MAX div 2);
          let k2 = upd_timer i (\<lambda>t. t\<lparr>tm_timeout_tick := rt_tick k1 + tm_init_tick t\<rparr>) k1;
          let soft = (tm_flag (timers k2 i) AND RT_TIMER_FLAG_SOFT_TIMER \<noteq> 0);
          let k3 = (if soft then k2\<lparr>soft_timer_list := timer_insert (timers k2) i (soft_timer_list k2)\<rparr>
                    else k2\<lparr>timer_list := timer_insert (timers k2) i (timer_list k2)\<rparr>);
          let k4 = upd_timer i (\<lambda>t. t\<lparr>tm_flag := tm_flag t OR RT_TIMER_FLAG_ACTIVATED\<rparr>) k3;
          if soft \<and> soft_timer_idle k4 \<and> thread_stat k4 (timer_thread k4) = RT_THREAD_SUSPEND
          then do { k5 \<leftarrow> rt_schedule (fst (rt_thread_resume (timer_thread k4) k4)); Some (k5, RT_EOK) }
          else Some (k4, RT_EOK) }"

definition rt_thread_timeout :: "tid \<Rightarrow> kernel \<Rightarrow> kernel option" where
  "rt_thread_timeout t k =
     do { rt_assert (thread_stat k t = RT_THREAD_SUSPEND);
          let k1 = upd_thread t (\<lambda>th. th\<lparr>th_error := - RT_ETIMEOUT\<rparr>) k;
          rt_schedule (rt_schedule_insert_thread t (tlist_remove t k1)) }"

definition call_timeout :: "user_functions \<Rightarrow> timeout_fn \<Rightarrow> kernel \<Rightarrow> kernel option" where
  "call_timeout usr f k = (case f of Rt_thread_timeout t \<Rightarrow> rt_thread_timeout t k | User_timeout n \<Rightarrow> usr n k)"

text \<open>One expired timer: the body of the loop of \<open>rt_timer_check\<close> up to the test of the local list.\<close>

definition timer_expire :: "user_functions \<Rightarrow> timer_id \<Rightarrow> kernel \<Rightarrow> kernel option" where
  "timer_expire usr i k =
     do { let k1 = timer_remove i k;
          let k2 = (if tm_flag (timers k1 i) AND RT_TIMER_FLAG_PERIODIC = 0
                    then upd_timer i (\<lambda>t. t\<lparr>tm_flag := tm_flag t AND NOT RT_TIMER_FLAG_ACTIVATED\<rparr>) k1 else k1);
          let k3 = k2\<lparr>expiring_hard := [i]\<rparr>;
          call_timeout usr (tm_timeout_func (timers k3 i)) k3 }"

text \<open>The end of the loop body: a periodic timer the callback left active is started again.\<close>

definition timer_rearm :: "timer_id \<Rightarrow> kernel \<Rightarrow> kernel option" where
  "timer_rearm i k =
     (let k1 = timer_remove i k in
      if tm_flag (timers k1 i) AND RT_TIMER_FLAG_PERIODIC \<noteq> 0 \<and> tm_flag (timers k1 i) AND RT_TIMER_FLAG_ACTIVATED \<noteq> 0
      then map_option fst
             (rt_timer_start i (upd_timer i (\<lambda>t. t\<lparr>tm_flag := tm_flag t AND NOT RT_TIMER_FLAG_ACTIVATED\<rparr>) k1))
      else Some k1)"

partial_function (option) timer_check_loop :: "user_functions \<Rightarrow> u32 \<Rightarrow> kernel \<Rightarrow> kernel option" where
  "timer_check_loop usr current_tick k =
     (case timer_list k of
        [] \<Rightarrow> Some k
      | i # _ \<Rightarrow>
          if current_tick - tm_timeout_tick (timers k i) < RT_TICK_MAX div 2
          then do { k1 \<leftarrow> timer_expire usr i k;
                    if expiring_hard k1 = [] then timer_check_loop usr (rt_tick k1) k1
                    else do { k2 \<leftarrow> timer_rearm i k1; timer_check_loop usr (rt_tick k1) k2 } }
          else Some k)"

definition rt_timer_check :: "user_functions \<Rightarrow> kernel \<Rightarrow> kernel option" where
  "rt_timer_check usr k = timer_check_loop usr (rt_tick k) k"

text \<open>The same for the soft timers; the tick is read in every round and the callback runs unmasked.\<close>

definition soft_timer_expire :: "user_functions \<Rightarrow> timer_id \<Rightarrow> kernel \<Rightarrow> kernel option" where
  "soft_timer_expire usr i k =
     do { let k1 = timer_remove i k;
          let k2 = (if tm_flag (timers k1 i) AND RT_TIMER_FLAG_PERIODIC = 0
                    then upd_timer i (\<lambda>t. t\<lparr>tm_flag := tm_flag t AND NOT RT_TIMER_FLAG_ACTIVATED\<rparr>) k1 else k1);
          let k3 = k2\<lparr>expiring_soft := [i], soft_timer_idle := False\<rparr>;
          k4 \<leftarrow> call_timeout usr (tm_timeout_func (timers k3 i)) k3;
          Some (k4\<lparr>soft_timer_idle := True\<rparr>) }"

partial_function (option) soft_timer_check_loop :: "user_functions \<Rightarrow> kernel \<Rightarrow> kernel option" where
  "soft_timer_check_loop usr k =
     (case soft_timer_list k of
        [] \<Rightarrow> Some k
      | i # _ \<Rightarrow>
          if rt_tick k - tm_timeout_tick (timers k i) < RT_TICK_MAX div 2
          then do { k1 \<leftarrow> soft_timer_expire usr i k;
                    if expiring_soft k1 = [] then soft_timer_check_loop usr k1
                    else do { k2 \<leftarrow> timer_rearm i k1; soft_timer_check_loop usr k2 } }
          else Some k)"

definition rt_tick_increase :: "user_functions \<Rightarrow> kernel \<Rightarrow> kernel option" where
  "rt_tick_increase usr k =
     do { let k1 = k\<lparr>rt_tick := rt_tick k + 1\<rparr>;
          t \<leftarrow> current_thread k1;
          let k2 = upd_thread t (\<lambda>th. th\<lparr>th_remaining_tick := th_remaining_tick th - 1\<rparr>) k1;
          k3 \<leftarrow> (if th_remaining_tick (threads k2 t) = 0
                 then rt_schedule (upd_thread t (\<lambda>th. th\<lparr>th_remaining_tick := th_init_tick th,
                        th_stat := th_stat th OR RT_THREAD_STAT_YIELD\<rparr>) k2)
                 else Some k2);
          rt_timer_check usr k3 }"

definition rt_tick_set :: "u32 \<Rightarrow> kernel \<Rightarrow> kernel" where
  "rt_tick_set tick k = k\<lparr>rt_tick := tick\<rparr>"

text \<open>
  \<open>rt_tick_from_millisecond\<close> with \<open>RT_TICK_PER_SECOND\<close> 1000; the argument is an \<open>rt_int32_t\<close>,
  C division truncates, and the results are stored into an unsigned 32-bit tick.
\<close>

definition rt_tick_from_millisecond :: "int \<Rightarrow> u32" where
  "rt_tick_from_millisecond ms =
     (if ms < 0 then of_int (- 1)
      else of_int (1000 * (ms div 1000)) + of_int ((1000 * (ms mod 1000) + 999) div 1000))"

definition rt_tick_get_millisecond :: "kernel \<Rightarrow> u32" where
  "rt_tick_get_millisecond k = rt_tick k * (1000 div 1000)"

text \<open>
  The common tail of every timed wait: set the thread's timer to \<open>time\<close> ticks and start it.
\<close>

definition start_thread_timer :: "tid \<Rightarrow> u32 \<Rightarrow> kernel \<Rightarrow> kernel option" where
  "start_thread_timer t time k =
     (let (k1, _, _) = rt_timer_control (Thread_timer t) RT_TIMER_CTRL_SET_TIME time k
      in map_option fst (rt_timer_start (Thread_timer t) k1))"

definition rt_thread_sleep :: "u32 \<Rightarrow> kernel \<Rightarrow> kernel option" where
  "rt_thread_sleep tick k =
     do { t \<leftarrow> current_thread k;
          (k1, _) \<leftarrow> rt_thread_suspend t k;
          k2 \<leftarrow> start_thread_timer t tick k1;
          rt_schedule k2 }"

definition rt_thread_sleep_return :: "tid \<Rightarrow> kernel \<Rightarrow> kernel \<times> rt_err_t" where
  "rt_thread_sleep_return t k =
     (if th_error (threads k t) = - RT_ETIMEOUT then (upd_thread t (\<lambda>th. th\<lparr>th_error := RT_EOK\<rparr>) k, RT_EOK)
      else (k, RT_EOK))"

text \<open>\<open>rt_thread_delay_until\<close>: \<open>Inl\<close> when it suspends the caller, \<open>Inr\<close> when it returns at once.\<close>

definition rt_thread_delay_until :: "u32 \<Rightarrow> u32 \<Rightarrow> kernel \<Rightarrow> ((kernel \<times> u32) + (kernel \<times> u32)) option" where
  "rt_thread_delay_until tick inc_tick k =
     do { t \<leftarrow> current_thread k;
          let cur_tick = rt_tick k;
          if cur_tick - tick < inc_tick
          then do { let tick' = tick + inc_tick;
                    let left_tick = tick' - cur_tick;
                    (k1, _) \<leftarrow> rt_thread_suspend t k;
                    k2 \<leftarrow> start_thread_timer t left_tick k1;
                    k3 \<leftarrow> rt_schedule k2;
                    Some (Inl (k3, tick')) }
          else Some (Inr (k, cur_tick)) }"

definition rt_thread_mdelay :: "int \<Rightarrow> kernel \<Rightarrow> kernel option" where
  "rt_thread_mdelay ms k = rt_thread_sleep (rt_tick_from_millisecond ms) k"

text \<open>
  One round of \<open>_timer_thread_entry\<close> up to the point where the thread gives up the processor, and
  the check it makes when it runs (again).
\<close>

definition timer_thread_wait :: "kernel \<Rightarrow> kernel option" where
  "timer_thread_wait k =
     (let next_timeout = timer_list_next_timeout (soft_timer_list k) k in
      if next_timeout = RT_TICK_MAX
      then do { t \<leftarrow> current_thread k; (k1, _) \<leftarrow> rt_thread_suspend t k; rt_schedule k1 }
      else if next_timeout - rt_tick k < RT_TICK_MAX div 2
      then rt_thread_sleep (next_timeout - rt_tick k) k
      else Some k)"

definition rt_soft_timer_check :: "user_functions \<Rightarrow> kernel \<Rightarrow> kernel option" where
  "rt_soft_timer_check usr k = soft_timer_check_loop usr k"

section \<open>Timers and threads together\<close>

text \<open>
  The built-in timer of a thread is a hard one-shot timer whose function is \<open>rt_thread_timeout\<close>
  of that thread, it is active exactly when it is on the timer list, and then the thread is
  suspended. \<open>timer_ok T\<close> exempts the threads of \<open>T\<close> from the last clause.
\<close>

definition timer_ok :: "tid set \<Rightarrow> kernel \<Rightarrow> bool" where
  "timer_ok T k \<longleftrightarrow>
     distinct (timer_list k) \<and>
     (\<forall>i \<in> set (timer_list k). tm_flag (timers k i) AND 1 \<noteq> 0 \<and> tm_flag (timers k i) AND 4 = 0) \<and>
     (\<forall>i \<in> set (soft_timer_list k). tm_flag (timers k i) AND 4 \<noteq> 0) \<and>
     (\<forall>t. tm_timeout_func (timers k (Thread_timer t)) = Rt_thread_timeout t \<and>
          tm_flag (timers k (Thread_timer t)) AND 6 = 0) \<and>
     (\<forall>t. tm_flag (timers k (Thread_timer t)) AND 1 \<noteq> 0 \<longrightarrow> Thread_timer t \<in> set (timer_list k)) \<and>
     (\<forall>t. t \<notin> T \<longrightarrow> Thread_timer t \<in> set (timer_list k) \<longrightarrow> thread_stat k t = 2)"

definition kinv :: "kernel \<Rightarrow> bool" where
  "kinv k \<longleftrightarrow> sched_inv k \<and> timer_ok {} k"

lemma flag_simps [simp]:
  fixes f :: u8
  shows "(f AND NOT 1) AND 1 = 0" "(f AND NOT 1) AND 2 = f AND 2" "(f AND NOT 1) AND 4 = f AND 4"
    "(f AND NOT 1) AND 6 = f AND 6" "(f OR 1) AND 2 = f AND 2" "(f OR 1) AND 4 = f AND 4" "(f OR 1) AND 6 = f AND 6"
    "(f OR 1) AND 1 = 1"
proof -
  have e: "(NOT 1 AND 1 :: u8) = 0" "(NOT 1 AND 2 :: u8) = 2" "(NOT 1 AND 4 :: u8) = 4" "(NOT 1 AND 6 :: u8) = 6"
    by simp_all
  show "(f AND NOT 1) AND 1 = 0" "(f AND NOT 1) AND 2 = f AND 2" "(f AND NOT 1) AND 4 = f AND 4"
    "(f AND NOT 1) AND 6 = f AND 6" unfolding and.assoc e by simp_all
  show "(f OR 1) AND 2 = f AND 2" "(f OR 1) AND 4 = f AND 4" "(f OR 1) AND 6 = f AND 6" "(f OR 1) AND 1 = 1"
    unfolding bit.conj_disj_distrib2 by simp_all
qed

lemmas flag_simps_num [simp] = flag_simps(1-4) [simplified]

lemma flag_and_parts:
  fixes f :: u8
  assumes "f AND 6 = 0"
  shows "f AND 2 = 0" "f AND 4 = 0"
proof -
  have "(f AND 6) AND 2 = 0" "(f AND 6) AND 4 = 0" using assms by simp_all
  then show "f AND 2 = 0" "f AND 4 = 0" by (simp_all add: and.assoc)
qed

lemma timer_okD:
  assumes "timer_ok T k"
  shows "tm_timeout_func (timers k (Thread_timer t)) = Rt_thread_timeout t"
    "tm_flag (timers k (Thread_timer t)) AND 6 = 0"
    "tm_flag (timers k (Thread_timer t)) AND 2 = 0" "tm_flag (timers k (Thread_timer t)) AND 4 = 0"
    "tm_flag (timers k (Thread_timer t)) AND 1 \<noteq> 0 \<longleftrightarrow> Thread_timer t \<in> set (timer_list k)"
    "t \<notin> T \<Longrightarrow> Thread_timer t \<in> set (timer_list k) \<Longrightarrow> thread_stat k t = 2"
  using assms flag_and_parts [of "tm_flag (timers k (Thread_timer t))"] unfolding timer_ok_def by blast+

lemma timer_ok_frame:
  assumes "timer_ok T k" "timers k' = timers k" "timer_list k' = timer_list k" "soft_timer_list k' = soft_timer_list k"
    and "\<And>t. t \<notin> T \<Longrightarrow> thread_stat k t = 2 \<Longrightarrow> thread_stat k' t = 2"
  shows "timer_ok T k'"
  using assms unfolding timer_ok_def by simp

text \<open>Stopping a thread's timer.\<close>

lemma timer_stop_thread:
  assumes ok: "timer_ok T k" and k': "k' = fst (rt_timer_stop (Thread_timer t) k)"
  shows "timer_ok (T - {t}) k' \<and> Thread_timer t \<notin> set (timer_list k')"
proof (cases "tm_flag (timers k (Thread_timer t)) AND 1 = 0")
  case True
  then have "k' = k" by (simp add: k' rt_timer_stop_def)
  moreover have "Thread_timer t \<notin> set (timer_list k)" using timer_okD(5) [OF ok, of t] True by simp
  moreover from this have "timer_ok (T - {t}) k" using ok unfolding timer_ok_def by blast
  ultimately show ?thesis by simp
next
  case False
  then have e: "k' = upd_timer (Thread_timer t) (\<lambda>t. t\<lparr>tm_flag := tm_flag t AND NOT 1\<rparr>) (timer_remove (Thread_timer t) k)"
    by (simp add: k' rt_timer_stop_def)
  have "timer_ok (T - {t}) k'"
    using ok unfolding timer_ok_def e by (auto simp: distinct_removeAll)
  then show ?thesis by (simp add: e)
qed

lemma timer_stop_objs:
  assumes "k' = fst (rt_timer_stop i k)"
  shows "threads k' = threads k" "tlists k' = tlists k" "ready_priority_group k' = ready_priority_group k"
    "current_thread k' = current_thread k" "cpu_thread k' = cpu_thread k"
    "semaphores k' = semaphores k" "mutexes k' = mutexes k" "events k' = events k"
    "mailboxes k' = mailboxes k" "messagequeues k' = messagequeues k"
    "scheduler_lock_nest k' = scheduler_lock_nest k" "rt_tick k' = rt_tick k" "timer_thread k' = timer_thread k"
    "soft_timer_idle k' = soft_timer_idle k"
  by (simp_all add: assms rt_timer_stop_def)

subsection \<open>Suspend and resume\<close>

text \<open>IPC objects, the scheduler lock and the tick are untouched.\<close>

definition ipc_same :: "kernel \<Rightarrow> kernel \<Rightarrow> bool" where
  "ipc_same k k' \<longleftrightarrow>
     semaphores k' = semaphores k \<and> mutexes k' = mutexes k \<and> events k' = events k \<and>
     mailboxes k' = mailboxes k \<and> messagequeues k' = messagequeues k \<and>
     scheduler_lock_nest k' = scheduler_lock_nest k \<and> rt_tick k' = rt_tick k \<and>
     timer_thread k' = timer_thread k \<and> soft_timer_idle k' = soft_timer_idle k"

lemma ipc_same_refl [simp]: "ipc_same k k"
  by (simp add: ipc_same_def)

lemma ipc_same_trans: "ipc_same k k' \<Longrightarrow> ipc_same k' k'' \<Longrightarrow> ipc_same k k''"
  by (simp add: ipc_same_def)

lemma objs_ipc_same: "objs_same k k' \<Longrightarrow> ipc_same k k'"
  by (simp add: objs_same_def ipc_same_def)

lemma ipc_same_timer_stop: "ipc_same k (fst (rt_timer_stop i k))"
  using timer_stop_objs [OF refl, of i k] by (simp add: ipc_same_def)

lemma ipc_sameD:
  assumes "ipc_same k k'"
  shows "semaphores k' = semaphores k" "mutexes k' = mutexes k" "events k' = events k"
    "mailboxes k' = mailboxes k" "messagequeues k' = messagequeues k"
    "scheduler_lock_nest k' = scheduler_lock_nest k" "rt_tick k' = rt_tick k"
    "timer_thread k' = timer_thread k" "soft_timer_idle k' = soft_timer_idle k"
  using assms by (simp_all add: ipc_same_def)

lemma sched_inv_frame:
  assumes "sched_inv k" "threads k' = threads k" "tlists k' = tlists k"
    "ready_priority_group k' = ready_priority_group k" "current_thread k' = current_thread k"
  shows "sched_inv k'"
  using assms by (simp add: sched_inv_def cur_inv_def qinv_def)

lemma suspend_spec:
  assumes inv: "kinv k" and st: "thread_stat k t = 1 \<or> thread_stat k t = 3"
  obtains k' where "rt_thread_suspend t k = Some (k', 0)" "kinv k'" "thread_stat k' t = 2"
    "\<And>h. tlists k' h = removeAll t (tlists k h)" "Thread_timer t \<notin> set (timer_list k')"
    "\<And>u. u \<noteq> t \<Longrightarrow> threads k' u = threads k u" "\<And>u. thread_core (threads k' u) = thread_core (threads k u)"
    "current_thread k' = current_thread k" "ipc_same k k'"
proof -
  have s: "sched_inv k" and q: "qinv {} k" and ok: "timer_ok {} k"
    using inv by (auto simp: kinv_def sched_inv_def)
  define k2 where "k2 = upd_thread t (\<lambda>th. th\<lparr>th_stat := set_stat 2 (th_stat th)\<rparr>) (rt_schedule_remove_thread t k)"
  define k3 where "k3 = fst (rt_timer_stop (Thread_timer t) k2)"
  have p: "prio_ok (threads k t)" using qinvD(7) [OF q, of t] st by auto
  have q2: "qinv {} k2" unfolding k2_def by (rule qinv_detach_set [OF q p]) simp
  have st2: "thread_stat k2 u = (if u = t then 2 else thread_stat k u)" for u by (simp add: k2_def)
  have s2: "sched_inv k2"
    using q2 s unfolding sched_inv_def cur_inv_def st2 by (auto simp: k2_def)
  have "timer_ok {} k2"
    by (rule timer_ok_frame [OF ok]) (simp_all add: k2_def rt_schedule_remove_thread_def Let_def)
  note stop = timer_stop_thread [OF this k3_def] timer_stop_objs [OF k3_def]
  have "rt_thread_suspend t k = Some (k3, 0)"
    using st running_current [OF s, of t] by (auto simp: rt_thread_suspend_def k3_def k2_def Let_def)
  moreover have "sched_inv k3" by (rule sched_inv_frame [OF s2]) (simp_all add: stop)
  then have "kinv k3" using stop by (simp add: kinv_def)
  moreover have "ipc_same k k3"
    unfolding k3_def k2_def
    by (intro ipc_same_trans [OF _ ipc_same_timer_stop] objs_ipc_same objs_same_trans [OF _ objs_same_ops(1)]
        objs_same_trans [OF _ objs_same_ops(4)]) simp
  ultimately show ?thesis using that [of k3] stop st2 [of t] by (simp add: k2_def)
qed

lemma resume_spec:
  assumes inv: "kinv k" and st: "thread_stat k t = 2" and k': "k' = fst (rt_thread_resume t k)"
  shows "kinv k'" "thread_stat k' t = (if current_thread k = Some t then 3 else 1)"
    "\<forall>p. h \<noteq> Ready p \<Longrightarrow> tlists k' h = removeAll t (tlists k h)"
    "\<And>u. u \<noteq> t \<Longrightarrow> threads k' u = threads k u" "\<And>u. thread_core (threads k' u) = thread_core (threads k u)"
    "current_thread k' = current_thread k" "ipc_same k k'"
    "current_thread k \<noteq> Some t \<Longrightarrow> ready_priority_group k' \<noteq> 0"
proof -
  have s: "sched_inv k" and q: "qinv {} k" and ok: "timer_ok {} k"
    using inv by (auto simp: kinv_def sched_inv_def)
  define k1 where "k1 = tlist_remove t k"
  define k2 where "k2 = fst (rt_timer_stop (Thread_timer t) k1)"
  have k'2: "k' = rt_schedule_insert_thread t k2"
    using st by (simp add: k' rt_thread_resume_def k2_def k1_def Let_def)
  have q1: "qinv {t} k1" using qinv_tlist_remove [OF q, of t] st by (simp add: k1_def)
  have "timer_ok {} k1" by (rule timer_ok_frame [OF ok]) (simp_all add: k1_def)
  note stop = timer_stop_thread [OF this k2_def] timer_stop_objs [OF k2_def]
  have q2: "qinv {t} k2" by (rule qinv_frame [OF q1]) (simp_all add: stop)
  have th2: "threads k2 = threads k" "current_thread k2 = current_thread k" by (simp_all add: stop k1_def)
  have p: "prio_ok (threads k t)" using qinvD(7) [OF q, of t] st by simp
  show st': "thread_stat k' t = (if current_thread k = Some t then 3 else 1)"
    by (simp add: k'2 insert_threads th2)
  show oth: "threads k' u = threads k u" if "u \<noteq> t" for u using that by (simp add: k'2 insert_threads th2)
  show "thread_core (threads k' u) = thread_core (threads k u)" for u by (simp add: k'2 th2)
  show cur': "current_thread k' = current_thread k" by (simp add: k'2 th2)
  show "tlists k' h = removeAll t (tlists k h)" if "\<forall>p. h \<noteq> Ready p"
    using that stop by (simp add: k'2 rt_schedule_insert_thread_def Let_def k1_def)
  show "ipc_same k k'"
    unfolding k'2 k2_def k1_def
    by (rule ipc_same_trans [OF ipc_same_trans [OF objs_ipc_same [OF objs_same_ops(2)] ipc_same_timer_stop]
          objs_ipc_same [OF objs_same_ops(5)]])
  have q': "qinv {} k'"
  proof (cases "current_thread k = Some t")
    case False
    then show ?thesis using qinv_insert [OF q2, of t] p by (simp add: k'2 th2)
  next
    case True
    then have e: "k' = upd_thread t (\<lambda>th. th\<lparr>th_stat := set_stat 3 (th_stat th)\<rparr>) k2"
      by (simp add: k'2 rt_schedule_insert_thread_def th2)
    have "qinv {t} k'" unfolding e by (rule qinv_upd_detached [OF q2]) simp
    then show ?thesis using qinv_settle [of "{t}" k' t] p by (simp add: e th2 prio_ok_def)
  qed
  have "cur_inv k'"
    unfolding cur_inv_def
  proof (intro conjI allI impI)
    fix u assume u: "thread_stat k' u = 3"
    show "current_thread k' = Some u"
      using running_current [OF s, of u] u oth st' cur' by (cases "u = t") (auto split: if_splits)
  next
    fix u assume u: "current_thread k' = Some u"
    then show "thread_stat k' u \<noteq> 1"
      using s oth st' cur' by (cases "u = t") (auto simp: sched_inv_def cur_inv_def split: if_splits)
  qed
  then have s': "sched_inv k'" using q' by (simp add: sched_inv_def)
  have "timer_ok {} k'"
  proof -
    have t2: "timer_list k' = timer_list k2" "timers k' = timers k2" "soft_timer_list k' = soft_timer_list k2"
      by (simp_all add: k'2 rt_schedule_insert_thread_def Let_def)
    have nt: "Thread_timer t \<notin> set (timer_list k2)" using stop by simp
    have ok2: "timer_ok {} k2" using stop by simp
    have "thread_stat k' u = 2" if "Thread_timer u \<in> set (timer_list k2)" for u
      using timer_okD(6) [OF ok2, of u] that nt oth [of u] th2 by (cases "u = t") auto
    then show ?thesis using ok2 unfolding timer_ok_def t2 by blast
  qed
  with s' show "kinv k'" by (simp add: kinv_def)
  show "ready_priority_group k' \<noteq> 0" if "current_thread k \<noteq> Some t"
    using group_zero_iff [OF q'] st' that by auto
qed

lemma rt_schedule_other_stat:
  assumes inv: "sched_inv k" and r: "rt_schedule k = Some k'" and t: "thread_stat k t \<noteq> 1" "thread_stat k t \<noteq> 3"
  shows "thread_stat k' t = thread_stat k t"
proof (cases "scheduler_lock_nest k = 0 \<and> ready_priority_group k \<noteq> 0")
  case True
  have q: "qinv {} k" and cu: "cur_inv k" using inv by (simp_all add: sched_inv_def)
  obtain to hp rest where hi: "scheduler_get_highest_priority_thread k = Some (to, hp)"
    and ql: "tlists k (Ready hp) = to # rest"
    by (rule highest_spec [OF q]) (use True in blast)+
  obtain c where c: "current_thread k = Some c"
    using r hi True by (cases "current_thread k") (auto simp: rt_schedule_def)
  have to: "thread_stat k to = 1" using qinvD(2) [OF q, of to "Ready hp"] ql by simp
  then have "to \<noteq> c" using cu c by (auto simp: cur_inv_def)
  then show ?thesis
    using r True hi c t to
    by (auto simp: rt_schedule_def schedule_choice_def Let_def insert_threads split: if_splits)
qed (use r in \<open>auto simp: rt_schedule_def\<close>)

lemma schedule_kinv:
  assumes inv: "kinv k" and r: "rt_schedule k = Some k'" and s': "sched_inv k'"
  shows "kinv k'" "ipc_same k k'" "\<forall>p. h \<noteq> Ready p \<Longrightarrow> tlists k' h = tlists k h"
    "thread_core (threads k' t) = thread_core (threads k t)" "thread_stat k t = 2 \<Longrightarrow> thread_stat k' t = 2"
    "timer_list k' = timer_list k" "timers k' = timers k"
proof -
  have s: "sched_inv k" and ok: "timer_ok {} k" using inv by (simp_all add: kinv_def)
  note fr = rt_schedule_frame [OF r]
  have st: "thread_stat k' u = 2" if "thread_stat k u = 2" for u
    using rt_schedule_other_stat [OF s r, of u] that by simp
  have "timer_ok {} k'"
    by (rule timer_ok_frame [OF ok]) (use fr st in \<open>simp_all add: objs_same_def\<close>)
  with s' show "kinv k'" by (simp add: kinv_def)
  show "ipc_same k k'" by (rule objs_ipc_same [OF fr(1)])
  show "tlists k' h = tlists k h" if "\<forall>p. h \<noteq> Ready p" using rt_schedule_waiting [OF s r that] .
  show "thread_core (threads k' t) = thread_core (threads k t)" by (rule fr(2))
  show "thread_stat k' t = 2" if "thread_stat k t = 2" using st that .
  show "timer_list k' = timer_list k" "timers k' = timers k" using fr by (simp_all add: objs_same_def)
qed

lemma schedule_kinv_defined:
  assumes inv: "kinv k" and c: "current_thread k = Some c"
  obtains k' where "rt_schedule k = Some k'" "kinv k'"
proof -
  have "sched_inv k" using inv by (simp add: kinv_def)
  then obtain k' where r: "rt_schedule k = Some k'" "sched_inv k'" by (rule rt_schedule_defined [OF _ c])
  with schedule_kinv [OF inv r] that show ?thesis by blast
qed

subsection \<open>Timed waits\<close>

lemma start_thread_timer_spec:
  assumes inv: "kinv k" and st: "thread_stat k t = 2" and time: "time < RT_TICK_MAX div 2"
  obtains k' where "start_thread_timer t time k = Some k'" "kinv k'" "Thread_timer t \<in> set (timer_list k')"
    "tm_timeout_tick (timers k' (Thread_timer t)) = rt_tick k + time"
    "\<And>i. i \<noteq> Thread_timer t \<Longrightarrow> timers k' i = timers k i"
    "timer_sorted (timers k) (rt_tick k) (timer_list k) \<Longrightarrow> timer_sorted (timers k') (rt_tick k) (timer_list k')"
    "threads k' = threads k" "tlists k' = tlists k" "current_thread k' = current_thread k"
    "ready_priority_group k' = ready_priority_group k" "ipc_same k k'"
    "set (timer_list k') = insert (Thread_timer t) (set (timer_list k))"
proof -
  let ?i = "Thread_timer t"
  have s: "sched_inv k" and ok: "timer_ok {} k" using inv by (simp_all add: kinv_def)
  note fl = timer_okD [OF ok, of t]
  define f where "f = (tm_flag (timers k ?i) AND NOT 1)"
  define tm where "tm = (timers k ?i)\<lparr>tm_init_tick := time, tm_flag := f, tm_timeout_tick := rt_tick k + time\<rparr>"
  define tms where "tms = (timers k)(?i := tm)"
  define l where "l = timer_insert tms ?i (removeAll ?i (timer_list k))"
  define k' where "k' = (timer_remove ?i k)\<lparr>timers := tms(?i := tm\<lparr>tm_flag := f OR 1\<rparr>), timer_list := l\<rparr>"
  have run: "start_thread_timer t time k = Some k'"
    using time fl
    by (simp add: start_thread_timer_def rt_timer_control_def rt_timer_start_def k'_def l_def tms_def tm_def f_def
        Let_def upd_timer_def timer_remove_def)
  have set_l: "set l = insert ?i (set (timer_list k))" by (auto simp: l_def)
  have d: "distinct l" using ok by (simp add: l_def timer_insert_distinct distinct_removeAll timer_ok_def)
  have "timer_ok {} k'"
    using ok st d fl(4) unfolding timer_ok_def by (auto simp: k'_def set_l tms_def tm_def f_def)
  moreover have "sched_inv k'" by (rule sched_inv_frame [OF s]) (simp_all add: k'_def)
  ultimately have kv: "kinv k'" by (simp add: kinv_def)
  have due: "due (timers k') n = due tms n" for n by (rule ext) (simp add: due_def k'_def tms_def)
  have sorted: "timer_sorted (timers k') (rt_tick k) l" if so: "timer_sorted (timers k) (rt_tick k) (timer_list k)"
  proof -
    have "due tms (rt_tick k) ?i < 2 ^ 31 - 1"
      using time unfolding word_less_nat_alt half_tick by (simp add: due_def tms_def tm_def)
    moreover have "map (due tms (rt_tick k)) (removeAll ?i (timer_list k)) =
        map (due (timers k) (rt_tick k)) (removeAll ?i (timer_list k))"
      by (auto simp: due_def tms_def)
    moreover have "sorted (map (due (timers k) (rt_tick k)) (removeAll ?i (timer_list k)))"
      using so by (simp add: timer_sorted_def sorted_filter removeAll_filter_not_eq)
    moreover have "\<forall>i \<in> set (removeAll ?i (timer_list k)). due tms (rt_tick k) i < 2 ^ 31 - 1"
      using so by (simp add: timer_sorted_def due_def tms_def)
    ultimately have "timer_sorted tms (rt_tick k) (removeAll ?i (timer_list k))"
      unfolding timer_sorted_def by presburger
    then have "timer_sorted tms (rt_tick k) l"
      unfolding l_def using \<open>due tms (rt_tick k) ?i < 2 ^ 31 - 1\<close> by (rule timer_insert_sorted)
    then show ?thesis by (simp add: timer_sorted_def due)
  qed
  show ?thesis
    by (rule that [OF run kv]) (use sorted set_l in \<open>simp_all add: k'_def tms_def tm_def ipc_same_def\<close>)
qed

text \<open>A thread whose wait times out becomes ready with \<open>-RT_ETIMEOUT\<close> as its error.\<close>

lemma thread_timeout_spec:
  assumes s: "sched_inv k" and ok: "timer_ok {} k" and st: "thread_stat k t = 2"
    and c: "current_thread k = Some c" and nt: "Thread_timer t \<notin> set (timer_list k)"
  obtains k' where "rt_thread_timeout t k = Some k'" "kinv k'" "th_error (threads k' t) = - 2"
    "thread_stat k' t \<noteq> 2" "\<And>h. \<forall>p. h \<noteq> Ready p \<Longrightarrow> tlists k' h = removeAll t (tlists k h)"
    "\<And>u. u \<noteq> t \<Longrightarrow> thread_core (threads k' u) = thread_core (threads k u)"
    "\<And>u. u \<noteq> t \<Longrightarrow> thread_stat k u = 2 \<Longrightarrow> thread_stat k' u = 2"
    "objs_same k k'"
proof -
  define k1 where "k1 = upd_thread t (\<lambda>th. th\<lparr>th_error := - 2\<rparr>) k"
  define k2 where "k2 = rt_schedule_insert_thread t (tlist_remove t k1)"
  have k1: "kinv k1" "thread_stat k1 t = 2"
    using s ok st by (auto simp: k1_def kinv_def sched_inv_def qinv_upd_same cur_inv_upd_same timer_ok_def)
  have off: "tm_flag (timers (tlist_remove t k1) (Thread_timer t)) AND 1 = 0"
    using timer_okD(5) [OF ok, of t] nt by (simp add: k1_def)
  have e: "fst (rt_timer_stop (Thread_timer t) (tlist_remove t k1)) = tlist_remove t k1"
    using off by (simp add: rt_timer_stop_def)
  have k2: "k2 = fst (rt_thread_resume t k1)"
    using k1(2) e by (simp add: k2_def rt_thread_resume_def Let_def)
  note res = resume_spec [OF k1 k2]
  have c2: "current_thread k2 = Some c" using res(6) c by (simp add: k1_def)
  obtain k' where r: "rt_schedule k2 = Some k'" "kinv k'" by (rule schedule_kinv_defined [OF res(1) c2])
  have s': "sched_inv k'" using r(2) by (simp add: kinv_def)
  note sch = schedule_kinv [OF res(1) r(1) s']
  have "rt_thread_timeout t k = Some k'" using st r(1) by (simp add: rt_thread_timeout_def k1_def k2_def Let_def)
  moreover have "th_error (threads k' t) = - 2"
    using thread_core_eqD(1) [OF sch(4), of t] thread_core_eqD(1) [OF res(5), of t] by (simp add: k1_def)
  moreover have "thread_stat k' t \<noteq> 2"
  proof -
    have q2: "qinv {} k2" "cur_inv k2" using res(1) by (simp_all add: kinv_def sched_inv_def)
    show ?thesis
      using r(1) res(2) by (auto simp: rt_schedule_def schedule_choice_def Let_def insert_threads
          bind_eq_Some_conv split: if_splits)
  qed
  moreover have "objs_same k k'"
    unfolding k2_def k1_def
    by (rule objs_same_trans [OF _ rt_schedule_frame(1) [OF r(1)]])
      (simp add: k2_def k1_def objs_same_def rt_schedule_insert_thread_def Let_def)
  moreover have "tlists k' h = removeAll t (tlists k h)" if "\<forall>p. h \<noteq> Ready p" for h
    using sch(3) [OF that] res(3) [OF that] by (simp add: k1_def)
  moreover have "thread_core (threads k' u) = thread_core (threads k u)" if "u \<noteq> t" for u
    using sch(4) [of u] res(4) [OF that] that by (simp add: k1_def)
  moreover have "thread_stat k' u = 2" if "u \<noteq> t" "thread_stat k u = 2" for u
    using sch(5) [of u] res(4) [OF that(1)] that by (simp add: k1_def)
  ultimately show ?thesis using that r(2) by blast
qed

lemma rt_schedule_back:
  assumes "rt_schedule k = Some k'"
  shows "thread_stat k' t = 2 \<Longrightarrow> thread_stat k t = 2" "current_thread k \<noteq> None \<Longrightarrow> current_thread k' \<noteq> None"
  using assms
  by (auto simp: rt_schedule_def schedule_choice_def Let_def bind_eq_Some_conv insert_threads split: if_splits)

text \<open>\<open>rt_thread_sleep\<close>: the caller is suspended with its timer running, another thread runs.\<close>

lemma thread_sleep_spec:
  assumes inv: "kinv k" and c: "current_thread k = Some c" "thread_stat k c = 3"
    and tick: "tick < RT_TICK_MAX div 2"
  obtains k' where "rt_thread_sleep tick k = Some k'" "kinv k'" "thread_stat k' c = 2"
    "Thread_timer c \<in> set (timer_list k')" "tm_timeout_tick (timers k' (Thread_timer c)) = rt_tick k + tick"
    "timer_sorted (timers k) (rt_tick k) (timer_list k) \<Longrightarrow> timer_sorted (timers k') (rt_tick k) (timer_list k')"
    "ipc_same k k'" "\<And>i. i \<noteq> Thread_timer c \<Longrightarrow> timers k' i = timers k i"
    "set (timer_list k') = insert (Thread_timer c) (set (timer_list k))" "current_thread k' \<noteq> None"
proof -
  have s: "sched_inv k" and ok: "timer_ok {} k" using inv by (simp_all add: kinv_def)
  have nt: "Thread_timer c \<notin> set (timer_list k)" using timer_okD(6) [OF ok, of c] c by auto
  obtain k1 where k1: "rt_thread_suspend c k = Some (k1, 0)" "kinv k1" "thread_stat k1 c = 2"
    "current_thread k1 = current_thread k" "ipc_same k k1"
    and tl: "timer_list k1 = timer_list k" "timers k1 = timers k"
  proof -
    obtain k1 where a: "rt_thread_suspend c k = Some (k1, 0)" "kinv k1" "thread_stat k1 c = 2"
      "current_thread k1 = current_thread k" "ipc_same k k1"
      by (rule suspend_spec [OF inv, of c]) (use c in auto)
    moreover have "timer_list k1 = timer_list k \<and> timers k1 = timers k"
      using a(1) c timer_okD(5) [OF ok, of c] nt
      by (auto simp: rt_thread_suspend_def rt_timer_stop_def rt_schedule_remove_thread_def Let_def split: if_splits)
    ultimately show ?thesis using that by blast
  qed
  obtain k2 where k2: "start_thread_timer c tick k1 = Some k2" "kinv k2" "Thread_timer c \<in> set (timer_list k2)"
    "tm_timeout_tick (timers k2 (Thread_timer c)) = rt_tick k1 + tick"
    "timer_sorted (timers k1) (rt_tick k1) (timer_list k1) \<Longrightarrow> timer_sorted (timers k2) (rt_tick k1) (timer_list k2)"
    "threads k2 = threads k1" "current_thread k2 = current_thread k1" "ipc_same k1 k2"
    "\<And>i. i \<noteq> Thread_timer c \<Longrightarrow> timers k2 i = timers k1 i"
    "set (timer_list k2) = insert (Thread_timer c) (set (timer_list k1))"
    using start_thread_timer_spec [OF k1(2,3) tick] by metis
  have c2: "current_thread k2 = Some c" using k1 k2 c by simp
  obtain k3 where k3: "rt_schedule k2 = Some k3" "kinv k3" by (rule schedule_kinv_defined [OF k2(2) c2])
  have "sched_inv k3" using k3(2) by (simp add: kinv_def)
  note sch = schedule_kinv [OF k2(2) k3(1) this]
  have "rt_thread_sleep tick k = Some k3" using c k1 k2 k3 by (simp add: rt_thread_sleep_def)
  moreover have "ipc_same k k3" using k1(5) k2(8) sch(2) by (meson ipc_same_trans)
  moreover have "rt_tick k1 = rt_tick k" using k1(5) by (rule ipc_sameD)
  moreover have "current_thread k3 \<noteq> None" using rt_schedule_back(2) [OF k3(1)] c2 by simp
  ultimately show ?thesis using that [of k3] k1 k2 k3 sch tl by simp
qed

section \<open>The timer interrupt\<close>

text \<open>
  What the timer interrupt relies on of an application's timeout function: it returns, keeps the
  invariant, does not operate timers, does not set a thread's error code and does not suspend a
  thread.
\<close>

definition user_ok :: "user_functions \<Rightarrow> bool" where
  "user_ok usr \<longleftrightarrow> (\<forall>n k. kinv k \<and> current_thread k \<noteq> None \<longrightarrow>
     (\<exists>k'. usr n k = Some k' \<and> kinv k' \<and> current_thread k' \<noteq> None \<and> timers k' = timers k \<and>
        timer_list k' = timer_list k \<and> soft_timer_list k' = soft_timer_list k \<and>
        expiring_hard k' = expiring_hard k \<and> rt_tick k' = rt_tick k \<and>
        (\<forall>t. th_error (threads k' t) = th_error (threads k t)) \<and>
        (\<forall>t. thread_stat k' t = 2 \<longrightarrow> thread_stat k t = 2)))"

text \<open>
  A periodic timer has a period of at least one tick and less than half the range, and the timer
  of an application calls a function of the application.
\<close>

definition timer_good :: "(timer_id \<Rightarrow> rt_timer) \<Rightarrow> timer_id \<Rightarrow> bool" where
  "timer_good tms i \<longleftrightarrow>
     (tm_flag (tms i) AND 2 \<noteq> 0 \<longrightarrow> 0 < tm_init_tick (tms i) \<and> tm_init_tick (tms i) < RT_TICK_MAX div 2) \<and>
     (case i of Thread_timer _ \<Rightarrow> True
      | User_timer _ \<Rightarrow> (case tm_timeout_func (tms i) of User_timeout _ \<Rightarrow> True | _ \<Rightarrow> False))"

text \<open>The state between two rounds of the loop of \<open>rt_timer_check\<close>.\<close>

definition tick_inv :: "kernel \<Rightarrow> bool" where
  "tick_inv k \<longleftrightarrow> kinv k \<and> current_thread k \<noteq> None \<and> timer_sorted (timers k) (rt_tick k) (timer_list k) \<and>
     (\<forall>i \<in> set (timer_list k). timer_good (timers k) i)"

lemma timer_good_cong: "tms i = tms' i \<Longrightarrow> timer_good tms i = timer_good tms' i"
  unfolding timer_good_def by metis

lemma kinv_frame:
  assumes "kinv k" "threads k' = threads k" "tlists k' = tlists k"
    "ready_priority_group k' = ready_priority_group k" "current_thread k' = current_thread k"
    "timers k' = timers k" "timer_list k' = timer_list k" "soft_timer_list k' = soft_timer_list k"
  shows "kinv k'"
  using assms sched_inv_frame [of k k'] timer_ok_frame [of "{}" k k'] by (simp add: kinv_def)

lemma timer_sorted_tl: "timer_sorted tms n (i # l) \<Longrightarrow> timer_sorted tms n l"
  by (simp add: timer_sorted_def)

lemma timer_sorted_cong:
  assumes "timer_sorted tms n l" "\<And>i. i \<in> set l \<Longrightarrow> tm_timeout_tick (tms' i) = tm_timeout_tick (tms i)"
  shows "timer_sorted tms' n l"
proof -
  have e: "due tms' n i = due tms n i" if "i \<in> set l" for i using assms(2) [OF that] by (simp add: due_def)
  then have "map (due tms' n) l = map (due tms n) l" by simp
  with assms(1) e show ?thesis unfolding timer_sorted_def by metis
qed

lemma due_zero: "due tms n i = 0 \<longleftrightarrow> tm_timeout_tick (tms i) = n"
  by (simp add: due_def unat_eq_0)

text \<open>The test of the loop, for a timer that is not more than half the range away.\<close>

lemma overdue_iff:
  assumes "due tms n i < 2 ^ 31 - 1"
  shows "n - tm_timeout_tick (tms i) < RT_TICK_MAX div 2 \<longleftrightarrow> due tms n i = 0"
proof (cases "due tms n i = 0")
  case True
  then have "n - tm_timeout_tick (tms i) = 0" by (simp add: due_zero)
  with True show ?thesis by (simp add: RT_TICK_MAX_def)
next
  case False
  then have "unat (n - tm_timeout_tick (tms i)) = 2 ^ 32 - due tms n i"
    using unat_sub_if_size [of 0 "tm_timeout_tick (tms i) - n"] by (auto simp: due_def unat_eq_0 word_size)
  with False assms show ?thesis unfolding word_less_nat_alt half_tick by simp
qed

text \<open>The state in which the timeout function of a timer of the list is called.\<close>

definition expiring :: "timer_id \<Rightarrow> kernel \<Rightarrow> kernel" where
  "expiring i k =
     (let k1 = timer_remove i k;
          k2 = (if tm_flag (timers k1 i) AND 2 = 0
                then upd_timer i (\<lambda>t. t\<lparr>tm_flag := tm_flag t AND NOT 1\<rparr>) k1 else k1)
      in k2\<lparr>expiring_hard := [i]\<rparr>)"

lemma timer_expire_call: "timer_expire usr i k = call_timeout usr (tm_timeout_func (timers (expiring i k) i)) (expiring i k)"
  by (simp add: timer_expire_def expiring_def Let_def)

lemma expiring_spec:
  assumes inv: "tick_inv k" and l: "timer_list k = i # rest"
  defines "k1 \<equiv> expiring i k"
  shows "kinv k1" "current_thread k1 \<noteq> None" "timer_list k1 = rest" "rt_tick k1 = rt_tick k" "expiring_hard k1 = [i]"
    "threads k1 = threads k" "j \<noteq> i \<Longrightarrow> timers k1 j = timers k j"
    "tm_timeout_func (timers k1 i) = tm_timeout_func (timers k i)" "tm_init_tick (timers k1 i) = tm_init_tick (timers k i)"
    "tm_flag (timers k1 i) AND 2 = tm_flag (timers k i) AND 2"
    "tm_flag (timers k i) AND 2 \<noteq> 0 \<Longrightarrow> timers k1 = timers k" "i \<notin> set rest"
proof -
  have s: "sched_inv k" and ok: "timer_ok {} k" using inv by (simp_all add: tick_inv_def kinv_def)
  have "distinct (i # rest)" using ok l by (simp add: timer_ok_def)
  then show nr: "i \<notin> set rest" by simp
  then have r: "removeAll i (timer_list k) = rest" by (simp add: l)
  note d = k1_def expiring_def Let_def
  have s1: "sched_inv k1" by (rule sched_inv_frame [OF s]) (simp_all add: d)
  have ok1: "timer_ok {} k1"
  proof (cases "tm_flag (timers k i) AND 2 = 0")
    case True
    then show ?thesis using ok nr unfolding timer_ok_def by (auto simp: d r l)
  next
    case False
    then have "i \<noteq> Thread_timer t" for t using timer_okD(3) [OF ok, of t] by auto
    then have "Thread_timer t \<in> set rest \<longleftrightarrow> Thread_timer t \<in> set (timer_list k)" for t using l by (metis set_ConsD list.set_intros(2))
    then show ?thesis using ok nr False unfolding timer_ok_def by (simp add: d r) (simp add: l)
  qed
  from s1 ok1 show "kinv k1" by (simp add: kinv_def)
  show "current_thread k1 \<noteq> None" using inv by (simp add: d tick_inv_def)
  show "timer_list k1 = rest" "rt_tick k1 = rt_tick k" "expiring_hard k1 = [i]" "threads k1 = threads k"
    "tm_timeout_func (timers k1 i) = tm_timeout_func (timers k i)" "tm_init_tick (timers k1 i) = tm_init_tick (timers k i)"
    "tm_flag (timers k1 i) AND 2 = tm_flag (timers k i) AND 2"
    "tm_flag (timers k i) AND 2 \<noteq> 0 \<Longrightarrow> timers k1 = timers k"
    by (simp_all add: d r)
  show "timers k1 j = timers k j" if "j \<noteq> i" using that by (simp add: d)
qed

text \<open>The effect of one round on an expired timer, as the loop theorem needs it.\<close>

definition fired :: "timer_id \<Rightarrow> kernel \<Rightarrow> kernel \<Rightarrow> bool" where
  "fired i k k' \<longleftrightarrow>
     rt_tick k' = rt_tick k \<and>
     set (timer_list k') = (set (timer_list k) - {i}) \<union> (if tm_flag (timers k i) AND 2 = 0 then {} else {i}) \<and>
     (i \<in> set (timer_list k') \<longrightarrow> 0 < due (timers k') (rt_tick k) i) \<and>
     (\<forall>j. j \<noteq> i \<longrightarrow> timers k' j = timers k j) \<and>
     (\<forall>t. (if i = Thread_timer t then th_error (threads k' t) = - 2 else th_error (threads k' t) = th_error (threads k t))) \<and>
     (\<forall>t. thread_stat k' t = 2 \<longrightarrow> thread_stat k t = 2 \<and> i \<noteq> Thread_timer t)"

lemma rt_thread_timeout_back:
  assumes "rt_thread_timeout t k = Some k'"
  shows "thread_stat k' u = 2 \<Longrightarrow> thread_stat k u = 2" "current_thread k \<noteq> None \<Longrightarrow> current_thread k' \<noteq> None"
  using assms rt_schedule_back
  by (fastforce simp: rt_thread_timeout_def Let_def bind_eq_Some_conv insert_threads split: if_splits)+

lemma thread_timer_round:
  assumes inv: "tick_inv k" and l: "timer_list k = Thread_timer t # rest"
  obtains k1 k2 where "timer_expire usr (Thread_timer t) k = Some k1" "rt_tick k1 = rt_tick k"
    "expiring_hard k1 \<noteq> []" "timer_rearm (Thread_timer t) k1 = Some k2" "tick_inv k2" "fired (Thread_timer t) k k2"
proof -
  let ?i = "Thread_timer t" and ?e = "expiring (Thread_timer t) k"
  note e = expiring_spec [OF inv l]
  have ok: "timer_ok {} k" and so: "timer_sorted (timers k) (rt_tick k) (timer_list k)" and c: "current_thread k \<noteq> None"
    using inv by (simp_all add: tick_inv_def kinv_def)
  have s1: "sched_inv ?e" "timer_ok {} ?e" using e(1) by (simp_all add: kinv_def)
  have st: "thread_stat ?e t = 2" using timer_okD(6) [OF ok, of t] e(6) l by simp
  obtain c1 where c1: "current_thread ?e = Some c1" using e(2) by blast
  have np: "tm_flag (timers k ?i) AND 2 = 0" using timer_okD(3) [OF ok] .
  obtain k1 where k1: "rt_thread_timeout t ?e = Some k1" "kinv k1" "th_error (threads k1 t) = - 2" "thread_stat k1 t \<noteq> 2"
    and ot: "\<And>u. u \<noteq> t \<Longrightarrow> thread_core (threads k1 u) = thread_core (threads ?e u)" and ob: "objs_same ?e k1"
    by (rule thread_timeout_spec [OF s1 st c1]) (use e(3,12) in auto)
  note bk = rt_thread_timeout_back [OF k1(1)]
  have ob1: "timers k1 = timers ?e" "timer_list k1 = rest" "rt_tick k1 = rt_tick k" "expiring_hard k1 = [?i]"
    "soft_timer_list k1 = soft_timer_list ?e"
    using ob e by (simp_all add: objs_same_def)
  have run: "timer_expire usr ?i k = Some k1"
    using k1(1) e(8) timer_okD(1) [OF ok, of t] by (simp add: timer_expire_call call_timeout_def)
  define k2 where "k2 = timer_remove ?i k1"
  have rearm: "timer_rearm ?i k1 = Some k2" using e(10) np ob1 by (simp add: timer_rearm_def k2_def)
  have soft: "?i \<notin> set (soft_timer_list k1)"
    using k1(2) timer_okD(4) [of "{}" k1 t] unfolding kinv_def timer_ok_def by blast
  have k2: "timers k2 = timers ?e" "timer_list k2 = rest" "rt_tick k2 = rt_tick k" "threads k2 = threads k1"
    "current_thread k2 = current_thread k1"
    using ob1 e(12) by (simp_all add: k2_def)
  have "kinv k2" by (rule kinv_frame [OF k1(2)]) (use soft ob1 e(12) in \<open>simp_all add: k2_def\<close>)
  moreover have "timer_sorted (timers k2) (rt_tick k2) (timer_list k2)"
    unfolding k2 by (rule timer_sorted_cong [OF timer_sorted_tl [OF so [unfolded l]]]) (use e(7,12) in metis)
  moreover have "timer_good (timers k2) j" if "j \<in> set (timer_list k2)" for j
    using inv that e(7) [of j] e(12) l k2 timer_good_cong [of "timers k2" j "timers k"] unfolding tick_inv_def by auto
  ultimately have "tick_inv k2" using bk(2) e(2) k2 by (simp add: tick_inv_def)
  moreover have "th_error (threads k2 u) = th_error (threads k u)" if "u \<noteq> t" for u
    using thread_core_eqD(1) [OF ot [OF that]] e(6) k2 by simp
  then have "fired ?i k k2"
    using k1 bk(1) e(6,7,12) k2 np l by (auto simp: fired_def)
  ultimately show thesis using that run ob1 rearm by simp
qed

lemma user_timer_round:
  assumes inv: "tick_inv k" and l: "timer_list k = User_timer n # rest" and usr: "user_ok usr"
  obtains k1 k2 where "timer_expire usr (User_timer n) k = Some k1" "rt_tick k1 = rt_tick k"
    "expiring_hard k1 \<noteq> []" "timer_rearm (User_timer n) k1 = Some k2" "tick_inv k2" "fired (User_timer n) k k2"
proof -
  let ?i = "User_timer n" and ?e = "expiring (User_timer n) k"
  note e = expiring_spec [OF inv l]
  have ok: "timer_ok {} k" and so: "timer_sorted (timers k) (rt_tick k) (timer_list k)"
    and good: "\<And>j. j \<in> set (timer_list k) \<Longrightarrow> timer_good (timers k) j"
    using inv by (simp_all add: tick_inv_def kinv_def)
  obtain m where m: "tm_timeout_func (timers k ?i) = User_timeout m"
    using good [of ?i] l by (auto simp: timer_good_def split: timeout_fn.splits)
  have f4: "tm_flag (timers k ?i) AND 4 = 0" and f1: "tm_flag (timers k ?i) AND 1 \<noteq> 0" using ok l by (auto simp: timer_ok_def)
  obtain k1 where k1: "usr m ?e = Some k1" "kinv k1" "current_thread k1 \<noteq> None" "timers k1 = timers ?e"
      "timer_list k1 = rest" "expiring_hard k1 = [?i]" "rt_tick k1 = rt_tick k"
    and er: "\<And>t. th_error (threads k1 t) = th_error (threads k t)"
    and st: "\<And>t. thread_stat k1 t = 2 \<Longrightarrow> thread_stat k t = 2"
    using usr [unfolded user_ok_def, rule_format, of ?e m] e by auto
  have run: "timer_expire usr ?i k = Some k1" using k1(1) e(8) m by (simp add: timer_expire_call call_timeout_def)
  have softf: "\<And>j. j \<in> set (soft_timer_list k1) \<Longrightarrow> tm_flag (timers ?e j) AND 4 \<noteq> 0"
    using k1(2,4) unfolding kinv_def timer_ok_def by simp
  have soft: "?i \<notin> set (soft_timer_list k1)"
    using softf [of ?i] f4 by (cases "tm_flag (timers k ?i) AND 2 = 0") (auto simp: expiring_def)
  have rest_good: "timer_good (timers ?e) j" if "j \<in> set rest" for j
    using good [of j] e(7) [of j] e(12) l that timer_good_cong [of "timers ?e" j "timers k"] by auto
  have rest_sorted: "timer_sorted (timers ?e) (rt_tick k) rest"
    by (rule timer_sorted_cong [OF timer_sorted_tl [OF so [unfolded l]]]) (use e(7,12) in metis)
  show thesis
  proof (cases "tm_flag (timers k ?i) AND 2 = 0")
    case True
    define k2 where "k2 = timer_remove ?i k1"
    have rearm: "timer_rearm ?i k1 = Some k2" using e(10) True k1 by (simp add: timer_rearm_def k2_def)
    have k2: "timers k2 = timers ?e" "timer_list k2 = rest" "rt_tick k2 = rt_tick k" "threads k2 = threads k1"
      "current_thread k2 = current_thread k1"
      using k1 e(12) by (simp_all add: k2_def)
    have "kinv k2" by (rule kinv_frame [OF k1(2)]) (use soft k1 e(12) in \<open>simp_all add: k2_def\<close>)
    then have "tick_inv k2" using k1 k2 rest_good rest_sorted by (simp add: tick_inv_def)
    moreover have "fired ?i k k2"
      using er st e(7,12) k2 True l by (auto simp: fired_def)
    ultimately show thesis using that run k1 rearm by simp
  next
    case False
    then have te: "timers ?e = timers k" using e(11) by simp
    have ini: "0 < tm_init_tick (timers k ?i)" "tm_init_tick (timers k ?i) < RT_TICK_MAX div 2"
      using good [of ?i] l False by (auto simp: timer_good_def)
    define f where "f = tm_flag (timers k ?i) AND NOT 1"
    define tm where "tm = (timers k ?i)\<lparr>tm_flag := f, tm_timeout_tick := rt_tick k + tm_init_tick (timers k ?i)\<rparr>"
    define tms where "tms = (timers k)(?i := tm)"
    define k2 where "k2 = (timer_remove ?i k1)\<lparr>timers := tms(?i := tm\<lparr>tm_flag := f OR 1\<rparr>), timer_list := timer_insert tms ?i rest\<rparr>"
    have rearm: "timer_rearm ?i k1 = Some k2"
      using False ini f4 f1 k1 te e(12) 
      by (simp add: timer_rearm_def rt_timer_start_def k2_def tms_def tm_def f_def Let_def upd_timer_def timer_remove_def)
    have k2: "rt_tick k2 = rt_tick k" "threads k2 = threads k1" "current_thread k2 = current_thread k1"
      "timer_list k2 = timer_insert tms ?i rest"
      using k1 by (simp_all add: k2_def)
    have oth: "timers k2 j = timers k j" if "j \<noteq> ?i" for j using that by (simp add: k2_def tms_def)
    have tk2: "timers k2 = (timers k)(?i := tm\<lparr>tm_flag := f OR 1\<rparr>)" by (simp add: k2_def tms_def)
    have self: "timers k2 ?i = tm\<lparr>tm_flag := f OR 1\<rparr>" by (simp add: k2_def)
    have "sched_inv k2" by (rule sched_inv_frame [of k1]) (use k1 in \<open>simp_all add: k2_def kinv_def\<close>)
    moreover have "timer_ok {} k2"
    proof -
      have ok1: "timer_ok {} k1" using k1(2) by (simp add: kinv_def)
      have "distinct (timer_list k2)" using ok1 e(12) k1(5) by (simp add: k2 timer_insert_distinct timer_ok_def)
      moreover have "set (soft_timer_list k2) = set (soft_timer_list k1)" using soft by (simp add: k2_def)
      ultimately show ?thesis using ok1 f4 te k1(4,5) k2(2) soft unfolding timer_ok_def
        by (auto simp: k2(4) tk2 tm_def f_def)
    qed
    ultimately have kv: "kinv k2" by (simp add: kinv_def)
    have di: "due tms (rt_tick k) ?i = unat (tm_init_tick (timers k ?i))" by (simp add: due_def tms_def tm_def)
    have dn: "due tms (rt_tick k) ?i < 2 ^ 31 - 1" using ini(2) unfolding di word_less_nat_alt half_tick .
    have "timer_sorted tms (rt_tick k) rest"
      by (rule timer_sorted_cong [OF rest_sorted]) (use te e(12) in \<open>auto simp: tms_def\<close>)
    then have "timer_sorted tms (rt_tick k) (timer_list k2)" unfolding k2(4) by (rule timer_insert_sorted [OF _ dn])
    then have so2: "timer_sorted (timers k2) (rt_tick k2) (timer_list k2)"
      unfolding k2(1) by (rule timer_sorted_cong) (simp add: k2_def tms_def)
    have "timer_good (timers k2) ?i" using ini m by (simp add: timer_good_def self tm_def)
    then have "tick_inv k2"
      using kv so2 k1(3) k2 rest_good te oth timer_good_cong [where tms = "timers k2" and tms' = "timers k"]
      unfolding tick_inv_def by (metis insert_iff timer_insert_set)
    moreover have "0 < due (timers k2) (rt_tick k) ?i"
      using ini(1) by (simp add: due_def self tm_def word_less_nat_alt)
    then have "fired ?i k k2"
      using er st k2 l False oth by (auto simp: fired_def)
    ultimately show thesis using that run k1 rearm by simp
  qed
qed

text \<open>The loop ends, and what it has done.\<close>

definition due_now :: "kernel \<Rightarrow> timer_id set" where
  "due_now k = {i \<in> set (timer_list k). due (timers k) (rt_tick k) i = 0}"

lemma timer_round:
  assumes inv: "tick_inv k" and l: "timer_list k = i # rest" and usr: "user_ok usr"
  obtains k1 k2 where "timer_expire usr i k = Some k1" "rt_tick k1 = rt_tick k"
    "expiring_hard k1 \<noteq> []" "timer_rearm i k1 = Some k2" "tick_inv k2" "fired i k k2"
proof (cases i)
  case (Thread_timer t)
  then show thesis using thread_timer_round [OF inv l [unfolded Thread_timer]] that by metis
next
  case (User_timer n)
  then show thesis using user_timer_round [OF inv l [unfolded User_timer] usr] that by metis
qed

lemma fired_due_now:
  assumes f: "fired i k k'" and i: "i \<in> due_now k"
  shows "due_now k' = due_now k - {i}"
  using assms by (auto simp: fired_def due_now_def due_def unat_eq_0 split: if_splits)

text \<open>
  What the interrupt does between \<open>k\<close> and \<open>k'\<close>: no timer is due any more; the one-shot timers
  that were due are off the list and the other timers are as they were; the threads whose timer
  was due have the error \<open>-RT_ETIMEOUT\<close> and are not suspended; no other error code changes and no
  thread is suspended.
\<close>

definition timers_served :: "kernel \<Rightarrow> kernel \<Rightarrow> bool" where
  "timers_served k k' \<longleftrightarrow>
     rt_tick k' = rt_tick k \<and> due_now k' = {} \<and>
     (\<forall>i. i \<in> set (timer_list k') \<longleftrightarrow>
        i \<in> set (timer_list k) \<and> (i \<in> due_now k \<longrightarrow> tm_flag (timers k i) AND 2 \<noteq> 0)) \<and>
     (\<forall>i. i \<notin> due_now k \<longrightarrow> timers k' i = timers k i) \<and>
     (\<forall>t. th_error (threads k' t) = (if Thread_timer t \<in> due_now k then - 2 else th_error (threads k t))) \<and>
     (\<forall>t. thread_stat k' t = 2 \<longrightarrow> thread_stat k t = 2 \<and> Thread_timer t \<notin> due_now k)"

lemma timers_served_step:
  assumes f: "fired i k k2" and i: "i \<in> due_now k" and s: "timers_served k2 k'"
  shows "timers_served k k'"
proof -
  note dn = fired_due_now [OF f i]
  have t2: "rt_tick k2 = rt_tick k" using f by (simp add: fired_def)
  have ik: "i \<in> set (timer_list k)" using i by (simp add: due_now_def)
  have mem: "j \<in> set (timer_list k') \<longleftrightarrow> j \<in> set (timer_list k) \<and> (j \<in> due_now k \<longrightarrow> tm_flag (timers k j) AND 2 \<noteq> 0)" for j
    using f s ik i dn by (cases "j = i") (auto simp: fired_def timers_served_def split: if_splits)
  have "timers k' j = timers k j" if "j \<notin> due_now k" for j
    using f s i dn that by (cases "j = i") (auto simp: fired_def timers_served_def)
  moreover have "th_error (threads k' t) = (if Thread_timer t \<in> due_now k then - 2 else th_error (threads k t))" for t
    using f s i dn by (cases "i = Thread_timer t") (auto simp: fired_def timers_served_def)
  moreover have "thread_stat k t = 2 \<and> Thread_timer t \<notin> due_now k" if "thread_stat k' t = 2" for t
  proof -
    have "thread_stat k2 t = 2" "Thread_timer t \<notin> due_now k2" using s that unfolding timers_served_def by blast+
    moreover from this have "thread_stat k t = 2" "i \<noteq> Thread_timer t" using f unfolding fired_def by blast+
    ultimately show ?thesis unfolding dn by blast
  qed
  ultimately show ?thesis using mem s t2 by (simp add: timers_served_def)
qed

lemma timer_check_loop_result:
  assumes "tick_inv k" "user_ok usr"
  shows "\<exists>k'. timer_check_loop usr (rt_tick k) k = Some k' \<and> tick_inv k' \<and> timers_served k k'"
  using assms
proof (induction "card (due_now k)" arbitrary: k rule: less_induct)
  case less
  show ?case
  proof (cases "timer_list k")
    case Nil
    then show ?thesis using less.prems by (simp add: timer_check_loop.simps due_now_def timers_served_def)
  next
    case (Cons i rest)
    have so: "timer_sorted (timers k) (rt_tick k) (i # rest)" using less.prems Cons by (simp add: tick_inv_def)
    then have test: "rt_tick k - tm_timeout_tick (timers k i) < RT_TICK_MAX div 2 \<longleftrightarrow> due (timers k) (rt_tick k) i = 0"
      by (intro overdue_iff) (simp add: timer_sorted_def)
    show ?thesis
    proof (cases "due (timers k) (rt_tick k) i = 0")
      case False
      then have "due_now k = {}" using so Cons by (auto simp: due_now_def timer_sorted_def)
      then show ?thesis using less.prems False test Cons by (simp add: timer_check_loop.simps timers_served_def)
    next
      case True
      then have idue: "i \<in> due_now k" using Cons by (simp add: due_now_def)
      obtain k1 k2 where r: "timer_expire usr i k = Some k1" "rt_tick k1 = rt_tick k"
        "expiring_hard k1 \<noteq> []" "timer_rearm i k1 = Some k2" "tick_inv k2" "fired i k k2"
        by (rule timer_round [OF less.prems(1) Cons less.prems(2)])
      have dn: "due_now k2 = due_now k - {i}" by (rule fired_due_now [OF r(6) idue])
      have "finite (due_now k)" by (simp add: due_now_def)
      then have "card (due_now k2) < card (due_now k)" unfolding dn using idue by (rule card_Diff1_less)
      note IH = less.hyps [OF this r(5) less.prems(2)]
      have t2: "rt_tick k2 = rt_tick k" using r(6) by (simp add: fired_def)
      have "timer_check_loop usr (rt_tick k) k = timer_check_loop usr (rt_tick k2) k2"
        using Cons test True r t2 by (simp add: timer_check_loop.simps [of usr "rt_tick k" k])
      with IH show ?thesis using timers_served_step [OF r(6) idue] by auto
    qed
  qed
qed

subsection \<open>One tick\<close>

lemma due_next_tick:
  assumes "0 < due tms n i"
  shows "due tms (n + 1) i = due tms n i - 1"
proof -
  have "tm_timeout_tick (tms i) - (n + 1) = (tm_timeout_tick (tms i) - n) - 1" by simp
  moreover have "tm_timeout_tick (tms i) - n \<noteq> 0" using assms by (auto simp: due_def)
  ultimately show ?thesis using unat_minus_one [of "tm_timeout_tick (tms i) - n"] unfolding due_def by metis
qed

lemma timer_sorted_next_tick:
  assumes so: "timer_sorted tms n l" and pos: "\<And>i. i \<in> set l \<Longrightarrow> 0 < due tms n i"
  shows "timer_sorted tms (n + 1) l"
proof -
  have "map (due tms (n + 1)) l = map (\<lambda>d. d - 1) (map (due tms n) l)"
    using due_next_tick pos by simp
  moreover have "sorted (map (\<lambda>d. d - 1) (map (due tms n) l))"
    using so by (auto simp: timer_sorted_def sorted_map intro!: sorted_wrt_mono_rel [of _ "\<lambda>x y. due tms n x \<le> due tms n y"])
  ultimately have "sorted (map (due tms (n + 1)) l)" by metis
  then show ?thesis using so due_next_tick pos by (fastforce simp: timer_sorted_def)
qed

lemma kinv_upd_same:
  assumes inv: "kinv k" and f: "keeps_sched f"
  shows "kinv (upd_thread t f k)"
proof -
  have "timer_ok {} (upd_thread t f k)"
    by (rule timer_ok_frame [of _ k]) (use inv upd_keeps_sched [OF f] in \<open>simp_all add: kinv_def\<close>)
  then show ?thesis
    using inv qinv_upd_same [OF _ f] cur_inv_upd_same [OF _ f] by (simp add: kinv_def sched_inv_def)
qed

text \<open>The part of \<open>rt_tick_increase\<close> before the call of \<open>rt_timer_check\<close>.\<close>

lemma tick_slice:
  assumes inv: "tick_inv k" and no: "due_now k = {}"
  obtains k3 where "\<And>usr. rt_tick_increase usr k = rt_timer_check usr k3" "tick_inv k3" "timers k3 = timers k"
    "timer_list k3 = timer_list k" "rt_tick k3 = rt_tick k + 1"
    "\<And>t. thread_stat k t = 2 \<Longrightarrow> thread_stat k3 t = 2" "\<And>t. th_error (threads k3 t) = th_error (threads k t)"
proof -
  obtain c where c: "current_thread k = Some c" using inv by (auto simp: tick_inv_def)
  define k2 where "k2 = upd_thread c (\<lambda>th. th\<lparr>th_remaining_tick := th_remaining_tick th - 1\<rparr>) (k\<lparr>rt_tick := rt_tick k + 1\<rparr>)"
  define k2' where "k2' = upd_thread c (\<lambda>th. th\<lparr>th_remaining_tick := th_init_tick th, th_stat := th_stat th OR 8\<rparr>) k2"
  have "kinv (k\<lparr>rt_tick := rt_tick k + 1\<rparr>)" by (rule kinv_frame [of k]) (use inv in \<open>simp_all add: tick_inv_def\<close>)
  then have v2: "kinv k2" unfolding k2_def by (rule kinv_upd_same) simp_all
  then have v2': "kinv k2'" unfolding k2'_def by (rule kinv_upd_same) (simp add: keeps_sched_def)
  have c2: "current_thread k2' = Some c" using c by (simp add: k2'_def k2_def)
  have st2: "thread_stat k2 t = thread_stat k t" "thread_stat k2' t = thread_stat k t"
    "th_error (threads k2 t) = th_error (threads k t)" "th_error (threads k2' t) = th_error (threads k t)" for t
    by (simp_all add: k2_def k2'_def)
  obtain k2s where s: "rt_schedule k2' = Some k2s" "kinv k2s" by (rule schedule_kinv_defined [OF v2' c2])
  have "sched_inv k2s" using s(2) by (simp add: kinv_def)
  note sch = schedule_kinv [OF v2' s(1) this]
  define k3 where "k3 = (if th_remaining_tick (threads k2 c) = 0 then k2s else k2)"
  have k3: "timers k3 = timers k" "timer_list k3 = timer_list k" "rt_tick k3 = rt_tick k + 1" "kinv k3"
    "current_thread k3 \<noteq> None"
    using sch(6,7) ipc_sameD(7) [OF sch(2)] s(2) v2 c rt_schedule_back(2) [OF s(1)] c2
    by (simp_all add: k3_def k2'_def k2_def)
  have so: "timer_sorted (timers k3) (rt_tick k3) (timer_list k3)"
    unfolding k3 using inv no by (intro timer_sorted_next_tick) (auto simp: tick_inv_def due_now_def)
  show thesis
  proof (rule that [of k3])
    show "rt_tick_increase usr k = rt_timer_check usr k3" for usr
      using c s(1) by (simp add: rt_tick_increase_def k3_def k2'_def k2_def Let_def)
    show "tick_inv k3" using inv k3 so by (simp add: tick_inv_def)
    show "thread_stat k3 t = 2" if "thread_stat k t = 2" for t
      using sch(5) [of t] st2 that by (simp add: k3_def)
    show "th_error (threads k3 t) = th_error (threads k t)" for t
      using thread_core_eqD(1) [OF sch(4) [of t]] st2 by (simp add: k3_def)
  qed (simp_all add: k3)
qed

text \<open>A tick keeps the invariant of the timer list, and serves the timers that become due.\<close>

lemma tick_step:
  assumes inv: "tick_inv k" and no: "due_now k = {}" and usr: "user_ok usr"
  obtains k' where "rt_tick_increase usr k = Some k'" "tick_inv k'" "due_now k' = {}" "rt_tick k' = rt_tick k + 1"
    "\<And>t. Thread_timer t \<in> set (timer_list k) \<Longrightarrow> due (timers k) (rt_tick k) (Thread_timer t) = 1 \<Longrightarrow>
       thread_stat k' t \<noteq> 2 \<and> th_error (threads k' t) = - 2"
    "\<And>t. Thread_timer t \<in> set (timer_list k) \<Longrightarrow> due (timers k) (rt_tick k) (Thread_timer t) \<noteq> 1 \<Longrightarrow>
       Thread_timer t \<in> set (timer_list k') \<and>
       due (timers k') (rt_tick k') (Thread_timer t) = due (timers k) (rt_tick k) (Thread_timer t) - 1"
proof -
  obtain k3 where k3: "rt_tick_increase usr k = rt_timer_check usr k3" "tick_inv k3" "timers k3 = timers k"
    "timer_list k3 = timer_list k" "rt_tick k3 = rt_tick k + 1"
    by (rule tick_slice [OF inv no]) blast
  obtain k' where k': "timer_check_loop usr (rt_tick k3) k3 = Some k'" "tick_inv k'" "timers_served k3 k'"
    using timer_check_loop_result [OF k3(2) usr] by blast
  have pos: "0 < due (timers k) (rt_tick k) i" if "i \<in> set (timer_list k)" for i
    using no that by (auto simp: due_now_def)
  have dn: "i \<in> due_now k3 \<longleftrightarrow> due (timers k) (rt_tick k) i = 1" if "i \<in> set (timer_list k)" for i
    using due_next_tick [OF pos [OF that]] that pos [OF that] by (auto simp: due_now_def k3)
  show thesis
  proof (rule that [of k'])
    show "rt_tick_increase usr k = Some k'" using k3(1) k'(1) by (simp add: rt_timer_check_def)
    show "tick_inv k'" "due_now k' = {}" "rt_tick k' = rt_tick k + 1"
      using k' k3 by (simp_all add: timers_served_def)
    fix t assume t: "Thread_timer t \<in> set (timer_list k)"
    show "thread_stat k' t \<noteq> 2 \<and> th_error (threads k' t) = - 2"
      if "due (timers k) (rt_tick k) (Thread_timer t) = 1"
    proof -
      have "Thread_timer t \<in> due_now k3" using dn [OF t] that by simp
      then show ?thesis using k'(3) unfolding timers_served_def by (metis (full_types))
    qed
    assume "due (timers k) (rt_tick k) (Thread_timer t) \<noteq> 1"
    then have "Thread_timer t \<notin> due_now k3" using dn [OF t] by simp
    then have "Thread_timer t \<in> set (timer_list k')" "timers k' (Thread_timer t) = timers k (Thread_timer t)"
      "rt_tick k' = rt_tick k + 1"
      using k'(3) t k3 unfolding timers_served_def by auto
    then show "Thread_timer t \<in> set (timer_list k') \<and>
       due (timers k') (rt_tick k') (Thread_timer t) = due (timers k) (rt_tick k) (Thread_timer t) - 1"
      using due_next_tick [OF pos [OF t]] by (simp add: due_def)
  qed
qed

text \<open>A number of ticks in which nothing else happens.\<close>

fun run_ticks :: "user_functions \<Rightarrow> nat \<Rightarrow> kernel \<Rightarrow> kernel option" where
  "run_ticks usr 0 k = Some k"
| "run_ticks usr (Suc n) k = Option.bind (rt_tick_increase usr k) (run_ticks usr n)"

lemma run_ticks_wait:
  assumes "tick_inv k" "due_now k = {}" "user_ok usr" "Thread_timer t \<in> set (timer_list k)"
    and "n < due (timers k) (rt_tick k) (Thread_timer t)"
  obtains k' where "run_ticks usr n k = Some k'" "tick_inv k'" "due_now k' = {}" "thread_stat k' t = 2"
    "Thread_timer t \<in> set (timer_list k')"
    "due (timers k') (rt_tick k') (Thread_timer t) = due (timers k) (rt_tick k) (Thread_timer t) - n"
  using assms
proof (induction n arbitrary: k thesis)
  case 0
  then have "thread_stat k t = 2" using timer_okD(6) [of "{}" k t] by (simp add: tick_inv_def kinv_def)
  then show ?case using 0 by simp
next
  case (Suc n)
  obtain k1 where k1: "rt_tick_increase usr k = Some k1" "tick_inv k1" "due_now k1 = {}"
    "Thread_timer t \<in> set (timer_list k1)"
    "due (timers k1) (rt_tick k1) (Thread_timer t) = due (timers k) (rt_tick k) (Thread_timer t) - 1"
    by (rule tick_step [OF Suc.prems(2,3,4)]) (use Suc.prems in auto)
  obtain k' where k': "run_ticks usr n k1 = Some k'" "tick_inv k'" "due_now k' = {}" "thread_stat k' t = 2"
    "Thread_timer t \<in> set (timer_list k')"
    "due (timers k') (rt_tick k') (Thread_timer t) = due (timers k1) (rt_tick k1) (Thread_timer t) - n"
    by (rule Suc.IH [OF _ k1(2,3) Suc.prems(4) k1(4)]) (use k1(5) Suc.prems in auto)
  show ?case
    by (rule Suc.prems(1) [of k']) (use k1 k' in simp_all)
qed

lemma run_ticks_Suc: "run_ticks usr (Suc n) k = Option.bind (run_ticks usr n k) (rt_tick_increase usr)"
proof (induction n arbitrary: k)
  case (Suc n)
  show ?case
    by (subst (1 2) run_ticks.simps(2)) (cases "rt_tick_increase usr k", simp_all add: Suc.IH del: run_ticks.simps(2))
qed (simp split: Option.bind_split)

lemma run_ticks_wake:
  assumes "tick_inv k" "due_now k = {}" "user_ok usr" "Thread_timer t \<in> set (timer_list k)"
    and d: "d = due (timers k) (rt_tick k) (Thread_timer t)"
  shows "\<exists>k'. run_ticks usr d k = Some k' \<and> thread_stat k' t \<noteq> 2 \<and> th_error (threads k' t) = - 2 \<and> tick_inv k'"
proof -
  have "0 < d" using assms by (auto simp: due_now_def)
  then obtain n where n: "d = Suc n" by (cases d) auto
  then have "n < due (timers k) (rt_tick k) (Thread_timer t)" using d by simp
  then obtain k1 where k1: "run_ticks usr n k = Some k1" "tick_inv k1" "due_now k1 = {}"
    "Thread_timer t \<in> set (timer_list k1)"
    "due (timers k1) (rt_tick k1) (Thread_timer t) = due (timers k) (rt_tick k) (Thread_timer t) - n"
    by (rule run_ticks_wait [OF assms(1-4)])
  have "due (timers k1) (rt_tick k1) (Thread_timer t) = 1" using k1(5) n d by simp
  then obtain k' where "rt_tick_increase usr k1 = Some k'" "tick_inv k'"
     "thread_stat k' t \<noteq> 2 \<and> th_error (threads k' t) = - 2"
    using k1(4) by (metis tick_step [OF k1(2,3) assms(3)])
  then show ?thesis using k1(1) unfolding n run_ticks_Suc by auto
qed

lemma sleep_tick_inv:
  assumes inv: "tick_inv k" and no: "due_now k = {}" and c: "current_thread k = Some c" "thread_stat k c = 3"
    and tick: "0 < tick" "tick < RT_TICK_MAX div 2"
  obtains k1 where "rt_thread_sleep tick k = Some k1" "tick_inv k1" "due_now k1 = {}" "thread_stat k1 c = 2"
    "Thread_timer c \<in> set (timer_list k1)" "due (timers k1) (rt_tick k1) (Thread_timer c) = unat tick"
proof -
  have kv: "kinv k" and so: "timer_sorted (timers k) (rt_tick k) (timer_list k)"
    and good: "\<And>i. i \<in> set (timer_list k) \<Longrightarrow> timer_good (timers k) i" using inv by (simp_all add: tick_inv_def)
  obtain k1 where k1: "rt_thread_sleep tick k = Some k1" "kinv k1" "thread_stat k1 c = 2"
    "Thread_timer c \<in> set (timer_list k1)" "tm_timeout_tick (timers k1 (Thread_timer c)) = rt_tick k + tick"
    "timer_sorted (timers k1) (rt_tick k) (timer_list k1)" "ipc_same k k1"
    "current_thread k1 \<noteq> None"
    and oth: "\<And>i. i \<noteq> Thread_timer c \<Longrightarrow> timers k1 i = timers k i"
    and lst: "set (timer_list k1) = insert (Thread_timer c) (set (timer_list k))"
    using thread_sleep_spec [OF kv c tick(2)] so by metis
  have t1: "rt_tick k1 = rt_tick k" using k1(7) by (rule ipc_sameD)
  have d: "due (timers k1) (rt_tick k1) (Thread_timer c) = unat tick" by (simp add: due_def k1(5) t1)
  have "timer_ok {} k1" using k1(2) by (simp add: kinv_def)
  then have "timer_good (timers k1) (Thread_timer c)" using timer_okD(3) [of "{}" k1 c] by (simp add: timer_good_def)
  then have "timer_good (timers k1) i" if "i \<in> set (timer_list k1)" for i
    using that good oth lst timer_good_cong [where tms = "timers k1" and tms' = "timers k"] by (metis insert_iff)
  then have "tick_inv k1" using k1 t1 by (simp add: tick_inv_def)
  moreover have "due_now k1 = {}"
  proof -
    have "0 < due (timers k1) (rt_tick k1) i" if "i \<in> set (timer_list k1)" for i
      using no d lst oth [of i] t1 tick(1) that
      by (cases "i = Thread_timer c") (auto simp: due_now_def due_def word_less_nat_alt)
    then show ?thesis by (auto simp: due_now_def)
  qed
  ultimately show thesis using that k1 d by blast
qed

subsection \<open>A state for the witnesses\<close>

lemma k_demo_kinv: "kinv k_demo"
  using k_demo_inv by (simp add: kinv_def timer_ok_def k_demo_def)

lemma k_demo_lists [simp]: "timer_list k_demo = []" "rt_tick k_demo = 100"
  by (simp_all add: k_demo_def)

lemma no_functions_ok: "user_ok (\<lambda>n k. Some k)"
  by (simp add: user_ok_def)

section \<open>Properties\<close>

text \<open>
  C3. A thread that calls \<open>rt_thread_sleep(tick)\<close> with \<open>0 < tick < RT_TICK_MAX / 2\<close> is suspended, stays
  suspended for every smaller number of timer interrupts, and the interrupt number \<open>tick\<close> makes it
  ready again with the error \<open>-RT_ETIMEOUT\<close>; for any number of other hard timers, one-shot or
  periodic, and also when the tick counter wraps around. The interrupts themselves all return.
\<close>

theorem sleep_wakes_exactly:
  assumes inv: "tick_inv k" and no: "due_now k = {}" and c: "current_thread k = Some c" "thread_stat k c = 3"
    and tick: "0 < tick" "tick < RT_TICK_MAX div 2" and usr: "user_ok usr"
  shows "\<exists>k1. rt_thread_sleep tick k = Some k1 \<and> thread_stat k1 c = 2 \<and>
    (\<forall>n < unat tick. \<exists>k'. run_ticks usr n k1 = Some k' \<and> thread_stat k' c = 2) \<and>
    (\<exists>k'. run_ticks usr (unat tick) k1 = Some k' \<and> thread_stat k' c \<noteq> 2 \<and> th_error (threads k' c) = - 2)"
proof -
  have kv: "kinv k" and so: "timer_sorted (timers k) (rt_tick k) (timer_list k)" using inv by (simp_all add: tick_inv_def)
  obtain k1 where k1: "rt_thread_sleep tick k = Some k1" "tick_inv k1" "due_now k1 = {}" "thread_stat k1 c = 2"
    "Thread_timer c \<in> set (timer_list k1)" "due (timers k1) (rt_tick k1) (Thread_timer c) = unat tick"
    using sleep_tick_inv [OF inv no c tick] by metis
  have "\<exists>k'. run_ticks usr n k1 = Some k' \<and> thread_stat k' c = 2" if "n < unat tick" for n
    using run_ticks_wait [OF k1(2,3) usr k1(5), of n] that k1(6) by metis
  then show ?thesis using run_ticks_wake [OF k1(2,3) usr k1(5)] k1 by auto
qed

theorem sleep_wakes_exactly_witness:
  "\<exists>k1. rt_thread_sleep 3 k_demo = Some k1 \<and> thread_stat k1 1 = 2 \<and>
    (\<forall>n < unat (3::u32). \<exists>k'. run_ticks (\<lambda>n k. Some k) n k1 = Some k' \<and> thread_stat k' 1 = 2) \<and>
    (\<exists>k'. run_ticks (\<lambda>n k. Some k) (unat (3::u32)) k1 = Some k' \<and> thread_stat k' 1 \<noteq> 2 \<and> th_error (threads k' 1) = - 2)"
  by (rule sleep_wakes_exactly [OF _ _ _ _ _ _ no_functions_ok])
    (simp_all add: tick_inv_def k_demo_kinv timer_sorted_def due_now_def demo_threads_def demo_thread_def
      RT_TICK_MAX_def word_less_nat_alt)


definition k_demo_timer :: kernel where
  "k_demo_timer = k_demo\<lparr>timers := (timers k_demo)(User_timer 5 := \<lparr>tm_flag = 3, tm_timeout_func = User_timeout 5,
     tm_init_tick = 10, tm_timeout_tick = 100\<rparr>), timer_list := [User_timer 5]\<rparr>"

lemma k_demo_timer_inv: "tick_inv k_demo_timer"
proof -
  have "sched_inv k_demo_timer" by (rule sched_inv_frame [OF k_demo_inv]) (simp_all add: k_demo_timer_def)
  moreover have "timer_ok {} k_demo_timer" by (simp add: k_demo_timer_def timer_ok_def k_demo_def)
  ultimately show ?thesis
    by (simp add: tick_inv_def kinv_def k_demo_timer_def timer_sorted_def due_def timer_good_def RT_TICK_MAX_def)
qed


text \<open>
  C0. A periodic hard timer with a period of zero ticks keeps the timer interrupt in its loop for
  ever: once it is due and first in the list, \<open>rt_timer_check\<close> never returns, because the timer is
  started again for the current tick. Neither \<open>rt_timer_init\<close> nor \<open>rt_timer_start\<close> rejects the
  period.
\<close>

definition zero_period :: "nat \<Rightarrow> kernel \<Rightarrow> bool" where
  "zero_period n k \<longleftrightarrow>
     (\<exists>rest. timer_list k = User_timer n # rest \<and> User_timer n \<notin> set rest \<and>
        (\<forall>j \<in> set rest. rt_tick k \<noteq> tm_timeout_tick (timers k j) \<and> tm_timeout_tick (timers k j) - rt_tick k < RT_TICK_MAX div 2)) \<and>
     tm_flag (timers k (User_timer n)) = 3 \<and> tm_init_tick (timers k (User_timer n)) = 0 \<and>
     tm_timeout_tick (timers k (User_timer n)) = rt_tick k \<and>
     tm_timeout_func (timers k (User_timer n)) = User_timeout n"

lemma zero_period_round:
  assumes z: "zero_period n k" and u: "\<forall>k. usr n k = Some k"
  shows "\<exists>k1 k2. timer_expire usr (User_timer n) k = Some k1 \<and> rt_tick k1 = rt_tick k \<and> expiring_hard k1 \<noteq> [] \<and>
    timer_rearm (User_timer n) k1 = Some k2 \<and> zero_period n k2 \<and> rt_tick k2 = rt_tick k"
proof -
  let ?i = "User_timer n"
  obtain rest where rest: "timer_list k = ?i # rest" "?i \<notin> set rest"
    and later: "\<forall>j \<in> set rest. rt_tick k \<noteq> tm_timeout_tick (timers k j) \<and> tm_timeout_tick (timers k j) - rt_tick k < RT_TICK_MAX div 2"
    and f: "tm_flag (timers k ?i) = 3" "tm_init_tick (timers k ?i) = 0" "tm_timeout_tick (timers k ?i) = rt_tick k"
      "tm_timeout_func (timers k ?i) = User_timeout n"
    using z unfolding zero_period_def by blast
  define k1 where "k1 = (timer_remove ?i k)\<lparr>expiring_hard := [?i]\<rparr>"
  have e: "timer_expire usr ?i k = Some k1" using f u by (simp add: timer_expire_def k1_def Let_def call_timeout_def)
  define tms where "tms = (timers k)(?i := (timers k ?i)\<lparr>tm_flag := 2, tm_timeout_tick := rt_tick k\<rparr>)"
  define k2 where "k2 = (timer_remove ?i k1)\<lparr>timers := (timers k)(?i := (timers k ?i)\<lparr>tm_timeout_tick := rt_tick k, tm_flag := 3\<rparr>), timer_list := ?i # rest\<rparr>"
  have ins: "timer_insert tms ?i rest = ?i # rest"
    using later rest(2) f(3) by (cases rest) (auto simp: tms_def Let_def)
  have "timer_rearm ?i k1 = Some k2"
    using f rest ins
    by (simp add: timer_rearm_def rt_timer_start_def k2_def k1_def tms_def Let_def upd_timer_def timer_remove_def
        RT_TICK_MAX_def fun_upd_idem_iff)
  moreover have "zero_period n k2" unfolding zero_period_def using rest later f by (auto simp: k2_def k1_def)
  ultimately show ?thesis using e by (auto simp: k1_def k2_def)
qed

text \<open>
  When the first timer of the list is due, belongs to the application and has a period of zero
  ticks, and its function returns without changing anything, the loop of \<open>rt_timer_check\<close> restarts
  it as due for ever: the timer interrupt does not return.
\<close>

theorem zero_period_hangs:
  assumes "zero_period n k" "\<forall>k. usr n k = Some k"
  shows "rt_timer_check usr k = None"
proof -
  have "\<not> (zero_period n k \<and> (\<forall>k. usr n k = Some k) \<and> tk = rt_tick k)"
    if "timer_check_loop usr tk k = Some r" for usr tk k r
  proof (rule timer_check_loop.raw_induct [OF _ that,
        where P = "\<lambda>usr tk k r. \<not> (zero_period n k \<and> (\<forall>k. usr n k = Some k) \<and> tk = rt_tick k)"])
    fix loop usr tk k r
    assume 1: "\<And>usr tk k r. loop usr tk k = Some r \<Longrightarrow> \<not> (zero_period n k \<and> (\<forall>k. usr n k = Some k) \<and> tk = rt_tick k)"
      "(case timer_list k of [] \<Rightarrow> Some k
        | i # x \<Rightarrow> if tk - tm_timeout_tick (timers k i) < RT_TICK_MAX div 2
            then timer_expire usr i k \<bind> (\<lambda>k1. if expiring_hard k1 = [] then loop usr (rt_tick k1) k1
              else timer_rearm i k1 \<bind> loop usr (rt_tick k1))
            else Some k) = Some r"
    show "\<not> (zero_period n k \<and> (\<forall>k. usr n k = Some k) \<and> tk = rt_tick k)"
    proof
      assume a: "zero_period n k \<and> (\<forall>k. usr n k = Some k) \<and> tk = rt_tick k"
      then obtain rest where "timer_list k = User_timer n # rest" "tm_timeout_tick (timers k (User_timer n)) = rt_tick k"
        by (auto simp: zero_period_def)
      moreover obtain k1 k2 where "timer_expire usr (User_timer n) k = Some k1" "rt_tick k1 = rt_tick k"
        "expiring_hard k1 \<noteq> []" "timer_rearm (User_timer n) k1 = Some k2" "zero_period n k2" "rt_tick k2 = rt_tick k"
        using zero_period_round a by blast
      ultimately have "loop usr (rt_tick k) k2 = Some r" using 1(2) a by (simp add: RT_TICK_MAX_def)
      from 1(1) [OF this] show False using a \<open>zero_period n k2\<close> \<open>rt_tick k2 = rt_tick k\<close> by simp
    qed
  qed
  then have "timer_check_loop usr (rt_tick k) k \<noteq> Some r" for r using assms by metis
  then show ?thesis unfolding rt_timer_check_def by (metis not_Some_eq)
qed

definition k_demo_zero :: kernel where
  "k_demo_zero = k_demo_timer\<lparr>timers := (timers k_demo)(User_timer 5 := \<lparr>tm_flag = 3, tm_timeout_func = User_timeout 5,
     tm_init_tick = 0, tm_timeout_tick = 100\<rparr>)\<rparr>"

theorem zero_period_hangs_witness: "rt_timer_check (\<lambda>n k. Some k) k_demo_zero = None"
  by (rule zero_period_hangs [of 5]) (simp_all add: zero_period_def k_demo_zero_def k_demo_timer_def)

text \<open>
  \<open>rt_tick_from_millisecond\<close> with 1000 ticks per second gives one tick for every millisecond,
  for every non-negative 32-bit argument, without overflow; and a negative argument, documented as
  waiting for ever, makes \<open>rt_thread_mdelay\<close> fail the assertion of \<open>rt_timer_start\<close> (no return).
\<close>

theorem mdelay_ticks:
  assumes "kinv k" "current_thread k = Some c" "thread_stat k c = 3" "- (2 ^ 31) \<le> ms" "ms < 2 ^ 31"
  shows "if ms < 0 then rt_thread_mdelay ms k = None
         else uint (rt_tick_from_millisecond ms) = ms \<and> rt_thread_mdelay ms k = rt_thread_sleep (of_int ms) k"
proof (cases "ms < 0")
  case True
  obtain k1 where k1: "rt_thread_suspend c k = Some (k1, 0)"
    by (rule suspend_spec [OF assms(1), of c]) (use assms(3) in auto)
  have "\<not> (- 1 :: u32) < RT_TICK_MAX div 2" unfolding RT_TICK_MAX_def by simp
  then show ?thesis
    using True assms(2) k1
    by (simp add: rt_thread_mdelay_def rt_tick_from_millisecond_def rt_thread_sleep_def start_thread_timer_def
        rt_timer_control_def rt_timer_start_def Let_def)
next
  case False
  have "(1000 * m + 999) div 1000 = m" for m :: int by simp
  then have "rt_tick_from_millisecond ms = of_int (1000 * (ms div 1000) + ms mod 1000)"
    using False unfolding rt_tick_from_millisecond_def of_int_add by simp
  then have "rt_tick_from_millisecond ms = of_int ms" by (simp add: mult.commute)
  then show ?thesis using False assms(5) 
    by (simp add: rt_thread_mdelay_def unsigned_of_int take_bit_int_eq_self)
qed

theorem mdelay_ticks_witness:
  "rt_thread_mdelay (- 1) k_demo = None \<and> uint (rt_tick_from_millisecond 2500) = 2500"
proof -
  have c: "current_thread k_demo = Some 1" "thread_stat k_demo 1 = 3" by (simp_all add: demo_threads_def demo_thread_def)
  show ?thesis using mdelay_ticks [OF k_demo_kinv c, of "- 1"] mdelay_ticks [OF k_demo_kinv c, of 2500] by simp
qed

end
