(* ===== verification/Ipc_Queue.thy ===== *)
theory Ipc_Queue
  imports Clock
begin

text \<open>
  The wait queues of \<open>src/ipc.c\<close>: \<open>_ipc_list_suspend\<close>, \<open>_ipc_list_resume\<close> and
  \<open>_ipc_list_resume_all\<close>, and the suspension every blocking operation performs.

  A blocking operation is a definition up to and including its call of \<open>rt_schedule\<close>, with the
  result \<open>Wait\<close> when the caller was put on a wait queue; what it does when the caller runs again is
  a second definition with the suffix \<open>_return\<close>. \<open>None\<close> is a failed assertion or a null pointer.
\<close>

datatype 'a outcome =
    Return kernel 'a
  | Wait kernel u32    \<comment> \<open>the state, and the local \<open>tick_delta\<close>\<close>

definition in_thread_context :: "kernel \<Rightarrow> bool" where
  "in_thread_context k \<longleftrightarrow> current_thread k \<noteq> None \<and> interrupt_nest k = 0"

text \<open>The search loop of \<open>RT_IPC_FLAG_PRIO\<close>: before the first thread of strictly lower priority.\<close>

fun prio_insert :: "(tid \<Rightarrow> u8) \<Rightarrow> tid \<Rightarrow> tid list \<Rightarrow> tid list" where
  "prio_insert prio t [] = [t]"
| "prio_insert prio t (s # ss) = (if prio t < prio s then t # s # ss else s # prio_insert prio t ss)"

definition ipc_list_suspend :: "list_head \<Rightarrow> tid \<Rightarrow> u8 \<Rightarrow> kernel \<Rightarrow> kernel option" where
  "ipc_list_suspend h t flag k =
     do { (k1, _) \<leftarrow> rt_thread_suspend t k;
          if flag = RT_IPC_FLAG_FIFO then Some (tlist_append h t k1)
          else if flag = RT_IPC_FLAG_PRIO
          then Some (k1\<lparr>tlists := (tlists k1)(h := prio_insert (thread_prio k1) t (tlists k1 h))\<rparr>)
          else None }"

text \<open>The list must not be empty: the code would take the head for a thread.\<close>

definition ipc_list_resume :: "list_head \<Rightarrow> kernel \<Rightarrow> kernel option" where
  "ipc_list_resume h k =
     (case tlists k h of [] \<Rightarrow> None | t # _ \<Rightarrow> Some (fst (rt_thread_resume t k)))"

partial_function (option) ipc_list_resume_all :: "list_head \<Rightarrow> kernel \<Rightarrow> kernel option" where
  "ipc_list_resume_all h k =
     (case tlists k h of
        [] \<Rightarrow> Some k
      | t # _ \<Rightarrow> ipc_list_resume_all h
          (fst (rt_thread_resume t (upd_thread t (\<lambda>th. th\<lparr>th_error := - RT_ERROR\<rparr>) k))))"

text \<open>
  The common part of the blocking operations: the caller joins the wait queue, its timer is
  started for a positive \<open>time\<close> (an \<open>rt_int32_t\<close>), and the scheduler is called.
\<close>

definition ipc_block :: "list_head \<Rightarrow> tid \<Rightarrow> u8 \<Rightarrow> int \<Rightarrow> kernel \<Rightarrow> kernel option" where
  "ipc_block h t flag time k =
     do { k1 \<leftarrow> ipc_list_suspend h t flag k;
          k2 \<leftarrow> (if time > 0 then start_thread_timer t (of_int time) k1 else Some k1);
          rt_schedule k2 }"

text \<open>\<open>timeout -= tick_delta; if (timeout < 0) timeout = 0\<close> after a wait that began at \<open>start\<close>.\<close>

definition time_left :: "int \<Rightarrow> u32 \<Rightarrow> kernel \<Rightarrow> int" where
  "time_left timeout start k =
     (if timeout > 0 then max 0 (trunc_s 32 (timeout - uint (rt_tick k - start))) else timeout)"

definition tick_delta_after :: "int \<Rightarrow> u32 \<Rightarrow> kernel \<Rightarrow> u32" where
  "tick_delta_after timeout start k = (if timeout > 0 then rt_tick k - start else start)"

section \<open>The wait queues\<close>

abbreviation waiting_list :: "list_head \<Rightarrow> bool" where
  "waiting_list h \<equiv> (\<exists>s. h = Suspend s \<or> h = Suspend_sender s)"

lemma waiting_listD:
  assumes "waiting_list h"
  shows "\<forall>p. h \<noteq> Ready p" "list_stat h = 2"
  using assms by (auto simp: list_stat_def)

lemma prio_insert_set [simp]: "set (prio_insert prio t q) = insert t (set q)"
  by (induction q) auto

lemma prio_insert_distinct [simp]: "distinct (prio_insert prio t q) \<longleftrightarrow> t \<notin> set q \<and> distinct q"
  by (induction q) auto

lemma prio_insert_not_Nil [simp]: "prio_insert prio t q \<noteq> []"
  by (cases q) auto

text \<open>A queue in priority order stays in that order, and a thread goes behind those of its priority.\<close>

lemma prio_insert_sorted:
  "sorted (map prio q) \<Longrightarrow> sorted (map prio (prio_insert prio t q))"
  by (induction q) auto

lemma prio_insert_split:
  "sorted (map prio q) \<Longrightarrow> \<exists>a b. q = a @ b \<and> prio_insert prio t q = a @ t # b \<and>
     (\<forall>s \<in> set a. prio s \<le> prio t) \<and> (\<forall>s \<in> set b. prio t < prio s)"
proof (induction q)
  case (Cons s ss)
  show ?case
  proof (cases "prio t < prio s")
    case True
    then show ?thesis using Cons.prems by (intro exI [of _ "[]"] exI [of _ "s # ss"]) auto
  next
    case False
    obtain a b where "ss = a @ b" "prio_insert prio t ss = a @ t # b"
      "\<forall>s \<in> set a. prio s \<le> prio t" "\<forall>s \<in> set b. prio t < prio s"
      using Cons by auto
    then show ?thesis using False by (intro exI [of _ "s # a"] exI [of _ b]) auto
  qed
qed simp

text \<open>
  The contract of a wait queue discipline: where a thread that waits enters the queue, for the
  flag of the object.
\<close>

locale wait_queue =
  fixes enter :: "(tid \<Rightarrow> u8) \<Rightarrow> tid \<Rightarrow> tid list \<Rightarrow> tid list"
    and suspend_op :: "list_head \<Rightarrow> tid \<Rightarrow> kernel \<Rightarrow> kernel option"
  assumes enter_set: "set (enter prio t q) = insert t (set q)"
    and enter_distinct: "distinct (enter prio t q) \<longleftrightarrow> t \<notin> set q \<and> distinct q"
    and enter_suspend: "suspend_op h t k =
      map_option (\<lambda>(k1, _). k1\<lparr>tlists := (tlists k1)(h := enter (thread_prio k1) t (tlists k1 h))\<rparr>) (rt_thread_suspend t k)"
begin

lemma suspend_on:
  assumes inv: "kinv k" and c: "current_thread k = Some c" "thread_stat k c = 3" and h: "waiting_list h"
  obtains k' where "suspend_op h c k = Some k'" "kinv k'" "thread_stat k' c = 2"
    "tlists k' h = enter (thread_prio k) c (tlists k h)" "\<And>h'. h' \<noteq> h \<Longrightarrow> \<forall>p. h' \<noteq> Ready p \<Longrightarrow> tlists k' h' = tlists k h'"
    "\<And>u. thread_core (threads k' u) = thread_core (threads k u)" "current_thread k' = Some c" "ipc_same k k'"
    "Thread_timer c \<notin> set (timer_list k')" "timers k' = timers k" "timer_list k' = timer_list k"
proof -
  have s: "sched_inv k" and ok: "timer_ok {} k" using inv by (simp_all add: kinv_def)
  have nl: "c \<notin> set (tlists k h')" for h'
    using qinvD(2) [of "{}" k c h'] s c by (auto simp: sched_inv_def list_stat_def split: list_head.splits)
  obtain k1 where k1: "rt_thread_suspend c k = Some (k1, 0)" "kinv k1" "thread_stat k1 c = 2"
    "\<And>h. tlists k1 h = removeAll c (tlists k h)" "Thread_timer c \<notin> set (timer_list k1)"
    "\<And>u. thread_core (threads k1 u) = thread_core (threads k u)"
    "current_thread k1 = current_thread k" "ipc_same k k1"
    by (rule suspend_spec [OF inv, of c]) (use c in auto)
  have tl: "tlists k1 h' = tlists k h'" for h' using k1(4) nl by simp
  have pr: "thread_prio k1 = thread_prio k" using thread_core_eqD(2) [OF k1(6)] by (rule ext)
  define k' where "k' = k1\<lparr>tlists := (tlists k1)(h := enter (thread_prio k) c (tlists k h))\<rparr>"
  have run: "suspend_op h c k = Some k'" unfolding enter_suspend k1(1) by (simp add: k'_def pr tl)
  have s1: "sched_inv k1" "timer_ok {} k1" using k1(2) by (simp_all add: kinv_def)
  have q1: "qinv {} k1" using s1(1) by (simp add: sched_inv_def)
  have "qinv {c} k1" using q1 nl unfolding qinv_def tl by auto
  then have "qinv ({c} - {c}) k'"
    by (rule qinv_link [where h = h and xs = "enter (thread_prio k) c (tlists k h)"])
      (use waiting_listD [OF h] k1(3) qinvD(7) [OF q1, of c] enter_set enter_distinct tl nl qinvD(5) [OF q1, of h]
        in \<open>auto simp: k'_def\<close>)
  then have "sched_inv k'" using s1(1) by (simp add: sched_inv_def cur_inv_def k'_def)
  moreover have "timer_ok {} k'" by (rule timer_ok_frame [OF s1(2)]) (simp_all add: k'_def)
  moreover have "timers k1 = timers k" "timer_list k1 = timer_list k"
    using k1(1) c timer_okD(5,6) [OF ok, of c] 
    by (auto simp: rt_thread_suspend_def rt_timer_stop_def rt_schedule_remove_thread_def Let_def split: if_splits)
  ultimately show thesis
    using that [OF run] k1 c tl by (simp add: kinv_def k'_def ipc_same_def)
qed

lemma block_on:
  assumes inv: "kinv k" and c: "current_thread k = Some c" "thread_stat k c = 3" and h: "waiting_list h"
    and time: "of_int time < (RT_TICK_MAX div 2 :: u32) \<or> time \<le> 0"
  obtains k' where
    "do { k1 \<leftarrow> suspend_op h c k;
          k2 \<leftarrow> (if time > 0 then start_thread_timer c (of_int time) k1 else Some k1);
          rt_schedule k2 } = Some k'" "kinv k'" "thread_stat k' c = 2"
    "tlists k' h = enter (thread_prio k) c (tlists k h)" "\<And>h'. h' \<noteq> h \<Longrightarrow> \<forall>p. h' \<noteq> Ready p \<Longrightarrow> tlists k' h' = tlists k h'"
    "\<And>u. thread_core (threads k' u) = thread_core (threads k u)" "current_thread k' \<noteq> None" "ipc_same k k'"
    "Thread_timer c \<in> set (timer_list k') \<longleftrightarrow> 0 < time"
    "0 < time \<Longrightarrow> tm_timeout_tick (timers k' (Thread_timer c)) = rt_tick k + of_int time"
proof -
  obtain k1 where k1: "suspend_op h c k = Some k1" "kinv k1" "thread_stat k1 c = 2"
    "tlists k1 h = enter (thread_prio k) c (tlists k h)" "\<And>h'. h' \<noteq> h \<Longrightarrow> \<forall>p. h' \<noteq> Ready p \<Longrightarrow> tlists k1 h' = tlists k h'"
    "\<And>u. thread_core (threads k1 u) = thread_core (threads k u)" "current_thread k1 = Some c" "ipc_same k k1"
    "Thread_timer c \<notin> set (timer_list k1)"
    by (rule suspend_on [OF inv c h]) blast
  obtain k2 where k2: "(if time > 0 then start_thread_timer c (of_int time) k1 else Some k1) = Some k2" "kinv k2"
    "threads k2 = threads k1" "tlists k2 = tlists k1" "current_thread k2 = Some c" "ipc_same k1 k2"
    "Thread_timer c \<in> set (timer_list k2) \<longleftrightarrow> 0 < time"
    "0 < time \<Longrightarrow> tm_timeout_tick (timers k2 (Thread_timer c)) = rt_tick k1 + of_int time"
  proof (cases "0 < time")
    case True
    then have tm: "of_int time < (RT_TICK_MAX div 2 :: u32)" using time by simp
    from start_thread_timer_spec [OF k1(2,3) tm] obtain k2 where
      "start_thread_timer c (of_int time) k1 = Some k2" "kinv k2" "Thread_timer c \<in> set (timer_list k2)"
      "tm_timeout_tick (timers k2 (Thread_timer c)) = rt_tick k1 + of_int time"
      "threads k2 = threads k1" "tlists k2 = tlists k1" "current_thread k2 = current_thread k1" "ipc_same k1 k2"
      by metis
    with True that k1(7) show thesis by simp
  qed (use that k1 in simp)
  obtain k3 where k3: "rt_schedule k2 = Some k3" "kinv k3" by (rule schedule_kinv_defined [OF k2(2,5)])
  have "sched_inv k3" using k3(2) by (simp add: kinv_def)
  note sch = schedule_kinv [OF k2(2) k3(1) this]
  show thesis
  proof (rule that)
    show "do { k1 \<leftarrow> suspend_op h c k; k2 \<leftarrow> (if time > 0 then start_thread_timer c (of_int time) k1 else Some k1);
          rt_schedule k2 } = Some k3" using k1(1) k2(1) k3(1) by simp
    show "thread_stat k3 c = 2" using sch(5) k1(3) k2(3) by simp
    show "tlists k3 h = enter (thread_prio k) c (tlists k h)"
      using sch(3) [OF waiting_listD(1) [OF h]] k1(4) k2(4) by simp
    show "tlists k3 h' = tlists k h'" if "h' \<noteq> h" "\<forall>p. h' \<noteq> Ready p" for h'
      using sch(3) [OF that(2)] k1(5) [OF that] k2(4) by simp
    show "thread_core (threads k3 u) = thread_core (threads k u)" for u using sch(4) [of u] k1(6) k2(3) by simp
    show "current_thread k3 \<noteq> None" using rt_schedule_back(2) [OF k3(1)] k2(5) by simp
    show "ipc_same k k3" using ipc_same_trans [OF ipc_same_trans [OF k1(8) k2(6)] sch(2)] .
    show "Thread_timer c \<in> set (timer_list k3) \<longleftrightarrow> 0 < time" using sch(6) k2(7) by simp
    show "tm_timeout_tick (timers k3 (Thread_timer c)) = rt_tick k + of_int time" if "0 < time"
      using sch(7) k2(8) [OF that] ipc_sameD(7) [OF k1(8)] by simp
  qed (rule k3(2))
qed

end

interpretation fifo: wait_queue "\<lambda>prio t q. q @ [t]" "\<lambda>h t k. ipc_list_suspend h t 0 k"
proof unfold_locales
  show "ipc_list_suspend h t 0 k = map_option (\<lambda>(k1, _). k1\<lparr>tlists := (tlists k1)(h := tlists k1 h @ [t])\<rparr>) (rt_thread_suspend t k)"
    for h t k
    by (cases "rt_thread_suspend t k") (auto simp: ipc_list_suspend_def tlist_append_def)
qed auto

interpretation prio: wait_queue prio_insert "\<lambda>h t k. ipc_list_suspend h t 1 k"
proof unfold_locales
  show "ipc_list_suspend h t 1 k = map_option (\<lambda>(k1, _). k1\<lparr>tlists := (tlists k1)(h := prio_insert (thread_prio k1) t (tlists k1 h))\<rparr>)
      (rt_thread_suspend t k)"
    for h t k
    by (cases "rt_thread_suspend t k") (auto simp: ipc_list_suspend_def)
qed auto

text \<open>Where a waiting thread enters, for both flags.\<close>

definition enter_queue :: "u8 \<Rightarrow> (tid \<Rightarrow> u8) \<Rightarrow> tid \<Rightarrow> tid list \<Rightarrow> tid list" where
  "enter_queue flag prio t q = (if flag = RT_IPC_FLAG_PRIO then prio_insert prio t q else q @ [t])"

lemma enter_queue_set [simp]: "set (enter_queue flag prio t q) = insert t (set q)"
  by (simp add: enter_queue_def)

lemma ipc_block_spec:
  assumes "kinv k" "current_thread k = Some c" "thread_stat k c = 3" "waiting_list h"
    "of_int time < (RT_TICK_MAX div 2 :: u32) \<or> time \<le> 0" and f: "flag = 0 \<or> flag = 1"
  obtains k' where "ipc_block h c flag time k = Some k'" "kinv k'" "thread_stat k' c = 2"
    "tlists k' h = enter_queue flag (thread_prio k) c (tlists k h)"
    "\<And>h'. h' \<noteq> h \<Longrightarrow> \<forall>p. h' \<noteq> Ready p \<Longrightarrow> tlists k' h' = tlists k h'"
    "\<And>u. thread_core (threads k' u) = thread_core (threads k u)" "current_thread k' \<noteq> None" "ipc_same k k'"
    "Thread_timer c \<in> set (timer_list k') \<longleftrightarrow> 0 < time"
    "0 < time \<Longrightarrow> tm_timeout_tick (timers k' (Thread_timer c)) = rt_tick k + of_int time"
proof (cases "flag = 1")
  case True
  show thesis by (rule prio.block_on [OF assms(1-5)], rule that) (simp_all add: True enter_queue_def ipc_block_def)
next
  case False
  with f have z: "flag = 0" by simp
  show thesis by (rule fifo.block_on [OF assms(1-5)], rule that) (simp_all add: z enter_queue_def ipc_block_def)
qed

subsection \<open>Resuming\<close>

lemma ipc_resume_spec:
  assumes inv: "kinv k" and h: "waiting_list h" and q: "tlists k h = t # ts"
  obtains k' where "ipc_list_resume h k = Some k'" "kinv k'" "thread_stat k' t \<noteq> 2" "tlists k' h = ts"
    "\<And>h'. h' \<noteq> h \<Longrightarrow> \<forall>p. h' \<noteq> Ready p \<Longrightarrow> tlists k' h' = tlists k h'"
    "\<And>u. u \<noteq> t \<Longrightarrow> threads k' u = threads k u" "\<And>u. thread_core (threads k' u) = thread_core (threads k u)"
    "current_thread k' = current_thread k" "ipc_same k k'"
proof -
  have qi: "qinv {} k" using inv by (simp add: kinv_def sched_inv_def)
  have t: "t \<in> set (tlists k h)" using q by simp
  have st: "thread_stat k t = 2" using qinvD(2) [OF qi t] waiting_listD(2) [OF h] by simp
  have oth: "t \<notin> set (tlists k h')" if "h' \<noteq> h" for h' using qinvD(6) [OF qi t, of h'] that by blast
  have "distinct (t # ts)" using qinvD(5) [OF qi, of h] q by simp
  then have ts: "removeAll t (tlists k h) = ts" using q by simp
  note res = resume_spec [OF inv st refl]
  show thesis
  proof (rule that)
    show "ipc_list_resume h k = Some (fst (rt_thread_resume t k))" by (simp add: ipc_list_resume_def q)
    show "thread_stat (fst (rt_thread_resume t k)) t \<noteq> 2" using res(2) by simp
    show "tlists (fst (rt_thread_resume t k)) h = ts" using res(3) [OF waiting_listD(1) [OF h]] ts by simp
    show "tlists (fst (rt_thread_resume t k)) h' = tlists k h'" if "h' \<noteq> h" "\<forall>p. h' \<noteq> Ready p" for h'
      using res(3) [OF that(2)] oth [OF that(1)] by simp
  qed (use res in simp_all)
qed

text \<open>Everybody is woken up with the error \<open>-RT_ERROR\<close>, and the loop ends.\<close>

lemma ipc_resume_all_spec:
  assumes "kinv k" "waiting_list h"
  shows "\<exists>k'. ipc_list_resume_all h k = Some k' \<and> kinv k' \<and> tlists k' h = [] \<and>
    (\<forall>h'. h' \<noteq> h \<longrightarrow> (\<forall>p. h' \<noteq> Ready p) \<longrightarrow> tlists k' h' = tlists k h') \<and>
    (\<forall>t \<in> set (tlists k h). thread_stat k' t \<noteq> 2 \<and> th_error (threads k' t) = - 1) \<and>
    (\<forall>t. t \<notin> set (tlists k h) \<longrightarrow> threads k' t = threads k t) \<and>
    current_thread k' = current_thread k \<and> ipc_same k k'"
  using assms
proof (induction "tlists k h" arbitrary: k)
  case Nil
  then show ?case by (simp add: ipc_list_resume_all.simps [of h k])
next
  case (Cons t ts)
  define k1 where "k1 = upd_thread t (\<lambda>th. th\<lparr>th_error := - 1\<rparr>) k"
  have i1: "kinv k1" unfolding k1_def using Cons.prems(1) by (rule kinv_upd_same) simp
  have q1: "tlists k1 h = t # ts" using Cons.hyps(2) by (simp add: k1_def)
  obtain k2 where k2: "ipc_list_resume h k1 = Some k2" "kinv k2" "thread_stat k2 t \<noteq> 2" "tlists k2 h = ts"
    "\<And>h'. h' \<noteq> h \<Longrightarrow> \<forall>p. h' \<noteq> Ready p \<Longrightarrow> tlists k2 h' = tlists k1 h'"
    "\<And>u. u \<noteq> t \<Longrightarrow> threads k2 u = threads k1 u" "\<And>u. thread_core (threads k2 u) = thread_core (threads k1 u)"
    "current_thread k2 = current_thread k1" "ipc_same k1 k2"
    by (rule ipc_resume_spec [OF i1 Cons.prems(2) q1]) blast
  have "qinv {} k1" using i1 by (simp add: kinv_def sched_inv_def)
  then have d: "t \<notin> set ts" using qinvD(5) [of "{}" k1 h] q1 by simp
  have step: "ipc_list_resume_all h k = ipc_list_resume_all h k2"
    using k2(1) q1 Cons.hyps(2) [symmetric]
    by (simp add: ipc_list_resume_all.simps [of h k] ipc_list_resume_def k1_def)
  have er: "th_error (threads k2 t) = - 1" using thread_core_eqD(1) [OF k2(7) [of t]] by (simp add: k1_def)
  have same: "ipc_same k k1" by (simp add: k1_def ipc_same_def)
  obtain k' where k': "ipc_list_resume_all h k2 = Some k'" "kinv k'" "tlists k' h = []"
    "\<forall>h'. h' \<noteq> h \<longrightarrow> (\<forall>p. h' \<noteq> Ready p) \<longrightarrow> tlists k' h' = tlists k2 h'"
    "\<forall>t \<in> set ts. thread_stat k' t \<noteq> 2 \<and> th_error (threads k' t) = - 1"
    "\<forall>t. t \<notin> set ts \<longrightarrow> threads k' t = threads k2 t" "current_thread k' = current_thread k2" "ipc_same k2 k'"
    using Cons.hyps(1) [of k2] k2(2,4) Cons.prems(2) by auto
  have "thread_stat k' u \<noteq> 2 \<and> th_error (threads k' u) = - 1" if "u \<in> set (t # ts)" for u
    using k'(5,6) k2(3) er d that by (cases "u = t") auto
  moreover have "threads k' u = threads k u" if "u \<notin> set (t # ts)" for u
    using k'(6) k2(6) [of u] that by (auto simp: k1_def)
  moreover have "tlists k' h' = tlists k h'" if "h' \<noteq> h" "\<forall>p. h' \<noteq> Ready p" for h'
    using k'(4) k2(5) [OF that] that by (simp add: k1_def)
  moreover have "current_thread k' = current_thread k" using k'(7) k2(8) by (simp add: k1_def)
  ultimately show ?case
    using k'(1-3) step ipc_same_trans [OF ipc_same_trans [OF same k2(9)] k'(8)]
    unfolding Cons.hyps(2) [symmetric] by auto
qed

text \<open>An object with two queues, when both are woken.\<close>

lemma resume_both_spec:
  assumes inv: "kinv k"
  obtains k1 k2 where "ipc_list_resume_all (Suspend q) k = Some k1" "ipc_list_resume_all (Suspend_sender q) k1 = Some k2"
    "kinv k2" "current_thread k2 = current_thread k" "tlists k2 (Suspend q) = []" "tlists k2 (Suspend_sender q) = []"
    "\<forall>t \<in> set (tlists k (Suspend q)) \<union> set (tlists k (Suspend_sender q)). thread_stat k2 t \<noteq> 2 \<and> th_error (threads k2 t) = - 1"
    "ipc_same k k2"
proof -
  obtain k1 where k1: "ipc_list_resume_all (Suspend q) k = Some k1" "kinv k1" "tlists k1 (Suspend q) = []"
    "tlists k1 (Suspend_sender q) = tlists k (Suspend_sender q)"
    "\<forall>t \<in> set (tlists k (Suspend q)). thread_stat k1 t \<noteq> 2 \<and> th_error (threads k1 t) = - 1"
    "current_thread k1 = current_thread k" "ipc_same k k1"
    using ipc_resume_all_spec [OF inv, of "Suspend q"] by auto
  obtain k2 where k2: "ipc_list_resume_all (Suspend_sender q) k1 = Some k2" "kinv k2" "tlists k2 (Suspend_sender q) = []"
    "tlists k2 (Suspend q) = []"
    "\<forall>t \<in> set (tlists k1 (Suspend_sender q)). thread_stat k2 t \<noteq> 2 \<and> th_error (threads k2 t) = - 1"
    "\<forall>t. t \<notin> set (tlists k1 (Suspend_sender q)) \<longrightarrow> threads k2 t = threads k1 t"
    "current_thread k2 = current_thread k1" "ipc_same k1 k2"
    using ipc_resume_all_spec [OF k1(2), of "Suspend_sender q"] k1(3) by auto
  have "thread_stat k2 t \<noteq> 2 \<and> th_error (threads k2 t) = - 1"
    if "t \<in> set (tlists k (Suspend q)) \<union> set (tlists k (Suspend_sender q))" for t
    using that k1(4,5) k2(5,6) by (metis Un_iff)
  then show thesis using that k1 k2 ipc_same_trans [OF k1(7) k2(8)] by auto
qed

text \<open>What a call of the scheduler may do: the state of runnable threads, the ready lists and the running thread.\<close>

definition rescheduled :: "kernel \<Rightarrow> kernel \<Rightarrow> bool" where
  "rescheduled k k' \<longleftrightarrow>
     kinv k' \<and> current_thread k' \<noteq> None \<and> ipc_same k k' \<and> (\<forall>h. (\<forall>p. h \<noteq> Ready p) \<longrightarrow> tlists k' h = tlists k h) \<and>
     (\<forall>t. thread_core (threads k' t) = thread_core (threads k t) \<and> (thread_stat k' t = 2 \<longrightarrow> thread_stat k t = 2))"


lemma rt_schedule_rescheduled:
  assumes inv: "kinv k" and c: "current_thread k \<noteq> None"
  obtains k' where "rt_schedule k = Some k'" "rescheduled k k'"
proof -
  obtain t where t: "current_thread k = Some t" using c by auto
  obtain k' where k': "rt_schedule k = Some k'" "kinv k'" by (rule schedule_kinv_defined [OF inv t])
  have "sched_inv k'" using k'(2) by (simp add: kinv_def)
  note sch = schedule_kinv [OF inv k'(1) this]
  have "rescheduled k k'"
    unfolding rescheduled_def using k'(2) sch(2,3,4) rt_schedule_back [OF k'(1)] c by auto
  with k'(1) that show thesis by blast
qed

end
