(* ===== verification/Semaphore.thy ===== *)
theory Semaphore
  imports Ipc_Queue
begin

text \<open>
  The semaphores of \<open>src/ipc.c\<close>. The objects are named by their address; object registration and
  memory are not part of the state, and an allocation that fails is the argument \<open>obj_ok\<close>.
\<close>

abbreviation (input) RT_IPC_CMD_RESET :: int where "RT_IPC_CMD_RESET \<equiv> 1"
abbreviation (input) RT_SEM_VALUE_MAX :: u16 where "RT_SEM_VALUE_MAX \<equiv> 0xffff"

definition upd_sem :: "obj \<Rightarrow> (rt_semaphore \<Rightarrow> rt_semaphore) \<Rightarrow> kernel \<Rightarrow> kernel" where
  "upd_sem s f k = k\<lparr>semaphores := (semaphores k)(s := f (semaphores k s))\<rparr>"

text \<open>\<open>_ipc_object_init\<close>: an empty list of waiting threads.\<close>

definition ipc_object_init :: "list_head \<Rightarrow> kernel \<Rightarrow> kernel" where
  "ipc_object_init h k = k\<lparr>tlists := (tlists k)(h := [])\<rparr>"

definition rt_sem_init :: "obj \<Rightarrow> u32 \<Rightarrow> u8 \<Rightarrow> kernel \<Rightarrow> (kernel \<times> rt_err_t) option" where
  "rt_sem_init s value flag k =
     do { rt_assert (value < 0x10000);
          Some (upd_sem s (\<lambda>_. \<lparr>sem_flag = flag, sem_value = ucast value\<rparr>) (ipc_object_init (Suspend s) k), RT_EOK) }"

definition rt_sem_detach :: "obj \<Rightarrow> kernel \<Rightarrow> (kernel \<times> rt_err_t) option" where
  "rt_sem_detach s k = do { k1 \<leftarrow> ipc_list_resume_all (Suspend s) k; Some (k1, RT_EOK) }"

definition rt_sem_create :: "bool \<Rightarrow> obj \<Rightarrow> u32 \<Rightarrow> u8 \<Rightarrow> kernel \<Rightarrow> (kernel \<times> obj option) option" where
  "rt_sem_create obj_ok s value flag k =
     do { rt_assert (interrupt_nest k = 0);
          rt_assert (value < 0x10000);
          if \<not> obj_ok then Some (k, None)
          else Some (upd_sem s (\<lambda>_. \<lparr>sem_flag = flag, sem_value = ucast value\<rparr>) (ipc_object_init (Suspend s) k), Some s) }"

definition rt_sem_delete :: "obj \<Rightarrow> kernel \<Rightarrow> (kernel \<times> rt_err_t) option" where
  "rt_sem_delete s k =
     do { rt_assert (interrupt_nest k = 0);
          k1 \<leftarrow> ipc_list_resume_all (Suspend s) k;
          Some (k1, RT_EOK) }"

definition rt_sem_take :: "obj \<Rightarrow> int \<Rightarrow> kernel \<Rightarrow> rt_err_t outcome option" where
  "rt_sem_take s time k =
     (if sem_value (semaphores k s) > 0
      then Some (Return (upd_sem s (\<lambda>x. x\<lparr>sem_value := sem_value x - 1\<rparr>) k) RT_EOK)
      else if time = 0 then Some (Return k (- RT_ETIMEOUT))
      else do { rt_assert (in_thread_context k);
                t \<leftarrow> current_thread k;
                let k1 = upd_thread t (\<lambda>th. th\<lparr>th_error := RT_EOK\<rparr>) k;
                k2 \<leftarrow> ipc_block (Suspend s) t (sem_flag (semaphores k1 s)) time k1;
                Some (Wait k2 0) })"

definition rt_sem_take_return :: "tid \<Rightarrow> kernel \<Rightarrow> kernel \<times> rt_err_t" where
  "rt_sem_take_return t k =
     (if th_error (threads k t) \<noteq> RT_EOK then (k, th_error (threads k t)) else (k, RT_EOK))"

definition rt_sem_trytake :: "obj \<Rightarrow> kernel \<Rightarrow> rt_err_t outcome option" where
  "rt_sem_trytake s k = rt_sem_take s 0 k"

definition rt_sem_release :: "obj \<Rightarrow> kernel \<Rightarrow> (kernel \<times> rt_err_t) option" where
  "rt_sem_release s k =
     (if tlists k (Suspend s) \<noteq> []
      then do { k1 \<leftarrow> ipc_list_resume (Suspend s) k;
                k2 \<leftarrow> rt_schedule k1;
                Some (k2, RT_EOK) }
      else if sem_value (semaphores k s) < RT_SEM_VALUE_MAX
      then Some (upd_sem s (\<lambda>x. x\<lparr>sem_value := sem_value x + 1\<rparr>) k, RT_EOK)
      else Some (k, - RT_EFULL))"

definition rt_sem_control :: "obj \<Rightarrow> int \<Rightarrow> u32 \<Rightarrow> kernel \<Rightarrow> (kernel \<times> rt_err_t) option" where
  "rt_sem_control s cmd arg k =
     (if cmd = RT_IPC_CMD_RESET
      then do { k1 \<leftarrow> ipc_list_resume_all (Suspend s) k;
                k2 \<leftarrow> rt_schedule (upd_sem s (\<lambda>x. x\<lparr>sem_value := ucast arg\<rparr>) k1);
                Some (k2, RT_EOK) }
      else Some (k, - RT_ERROR))"

section \<open>Lemmas\<close>

lemma upd_sem_frame [simp]:
  "semaphores (upd_sem s f k) = (semaphores k)(s := f (semaphores k s))"
  "threads (upd_sem s f k) = threads k" "tlists (upd_sem s f k) = tlists k"
  "ready_priority_group (upd_sem s f k) = ready_priority_group k"
  "current_thread (upd_sem s f k) = current_thread k" "timers (upd_sem s f k) = timers k"
  "timer_list (upd_sem s f k) = timer_list k" "soft_timer_list (upd_sem s f k) = soft_timer_list k"
  "scheduler_lock_nest (upd_sem s f k) = scheduler_lock_nest k" "rt_tick (upd_sem s f k) = rt_tick k"
  "interrupt_nest (upd_sem s f k) = interrupt_nest k"
  by (simp_all add: upd_sem_def)

lemma kinv_upd_sem [simp]: "kinv (upd_sem s f k) \<longleftrightarrow> kinv k"
  using kinv_frame [of k "upd_sem s f k"] kinv_frame [of "upd_sem s f k" k] by auto

text \<open>The range of a time-out argument: an \<open>rt_int32_t\<close> other than the largest one.\<close>

definition timeout_ok :: "int \<Rightarrow> bool" where
  "timeout_ok time \<longleftrightarrow> - (2 ^ 31) \<le> time \<and> time < 2 ^ 31 - 1"

lemma timeout_ok_half: "timeout_ok time \<Longrightarrow> of_int time < (RT_TICK_MAX div 2 :: u32) \<or> time \<le> 0"
  by (auto simp: timeout_ok_def RT_TICK_MAX_def word_less_def unsigned_of_int take_bit_int_eq_self)

text \<open>Where a blocked caller finds itself: on the wait queue of the object, with its error cleared.\<close>

definition waits_on :: "list_head \<Rightarrow> tid \<Rightarrow> u8 \<Rightarrow> int \<Rightarrow> kernel \<Rightarrow> kernel \<Rightarrow> bool" where
  "waits_on h c flag time k k' \<longleftrightarrow>
     kinv k' \<and> thread_stat k' c = 2 \<and> th_error (threads k' c) = 0 \<and> thread_prio k' c = thread_prio k c \<and>
     tlists k' h = enter_queue flag (thread_prio k) c (tlists k h) \<and>
     (\<forall>h'. h' \<noteq> h \<longrightarrow> (\<forall>p. h' \<noteq> Ready p) \<longrightarrow> tlists k' h' = tlists k h') \<and>
     (\<forall>u. u \<noteq> c \<longrightarrow> thread_core (threads k' u) = thread_core (threads k u)) \<and>
     (Thread_timer c \<in> set (timer_list k') \<longleftrightarrow> 0 < time) \<and>
     (0 < time \<longrightarrow> tm_timeout_tick (timers k' (Thread_timer c)) = rt_tick k + of_int time) \<and>
     current_thread k' \<noteq> None \<and> ipc_same k k'"

lemma ipc_block_waits_on:
  assumes inv: "kinv k" and c: "current_thread k = Some c" "thread_stat k c = 3" and h: "waiting_list h"
    and time: "timeout_ok time" and f: "flag = 0 \<or> flag = 1"
    and kf: "kinv (upd_thread c f' k)" "\<And>th. th_stat (f' th) = th_stat th" "\<And>th. th_error (f' th) = 0"
      "\<And>th. th_current_priority (f' th) = th_current_priority th"
  obtains k' where "ipc_block h c flag time (upd_thread c f' k) = Some k'" "waits_on h c flag time k k'"
    "thread_core (threads k' c) = thread_core (f' (threads k c))"
proof -
  let ?k1 = "upd_thread c f' k"
  have st: "thread_stat ?k1 c = 3" "current_thread ?k1 = Some c" using c kf(2) by simp_all
  have pr: "thread_prio ?k1 = thread_prio k" using kf(4) by auto
  obtain k' where k': "ipc_block h c flag time ?k1 = Some k'" "kinv k'" "thread_stat k' c = 2"
    "tlists k' h = enter_queue flag (thread_prio ?k1) c (tlists ?k1 h)"
    "\<And>h'. h' \<noteq> h \<Longrightarrow> \<forall>p. h' \<noteq> Ready p \<Longrightarrow> tlists k' h' = tlists ?k1 h'"
    "\<And>u. thread_core (threads k' u) = thread_core (threads ?k1 u)" "current_thread k' \<noteq> None" "ipc_same ?k1 k'"
    "Thread_timer c \<in> set (timer_list k') \<longleftrightarrow> 0 < time"
    "0 < time \<Longrightarrow> tm_timeout_tick (timers k' (Thread_timer c)) = rt_tick ?k1 + of_int time"
    by (rule ipc_block_spec [OF kf(1) st(2,1) h timeout_ok_half [OF time] f]) blast
  have "th_error (threads k' c) = 0" using thread_core_eqD(1) [OF k'(6) [of c]] kf(3) by simp
  moreover have "thread_prio k' c = thread_prio k c" using thread_core_eqD(2) [OF k'(6) [of c]] kf(4) by simp
  moreover have "ipc_same k k'" using k'(8) by (simp add: ipc_same_def)
  ultimately have "waits_on h c flag time k k'"
    unfolding waits_on_def using k' pr by simp
  moreover have "thread_core (threads k' c) = thread_core (f' (threads k c))" using k'(6) [of c] by simp
  ultimately show thesis using that k'(1) by blast
qed

lemma block_error_cleared:
  assumes inv: "kinv k" and c: "current_thread k = Some c" "thread_stat k c = 3" and h: "waiting_list h"
    and f: "flag = 0 \<or> flag = 1" and time: "timeout_ok time"
  obtains k' where "ipc_block h c flag time (upd_thread c (\<lambda>th. th\<lparr>th_error := 0\<rparr>) k) = Some k'"
    "waits_on h c flag time k k'"
proof -
  have k1: "kinv (upd_thread c (\<lambda>th. th\<lparr>th_error := 0\<rparr>) k)" using inv by (rule kinv_upd_same) simp
  show thesis
    by (rule ipc_block_waits_on [OF inv c h time f k1]) (use that in auto)
qed

lemma rt_schedule_locked: "scheduler_lock_nest k \<noteq> 0 \<Longrightarrow> rt_schedule k = Some k"
  by (simp add: rt_schedule_def)

lemma ipc_list_suspend_current:
  "ipc_list_suspend h t flag k = Some k' \<Longrightarrow>
     current_thread k' = current_thread k \<and> scheduler_lock_nest k' = scheduler_lock_nest k"
  by (auto simp: ipc_list_suspend_def rt_thread_suspend_def rt_timer_stop_def Let_def bind_eq_Some_conv split: if_splits)

lemma resume_current:
  "current_thread (fst (rt_thread_resume t k)) = current_thread k"
  "scheduler_lock_nest (fst (rt_thread_resume t k)) = scheduler_lock_nest k"
  by (simp_all add: rt_thread_resume_def rt_timer_stop_def Let_def)

lemma start_thread_timer_locked:
  "start_thread_timer t time k = Some k' \<Longrightarrow> scheduler_lock_nest k \<noteq> 0 \<Longrightarrow>
     current_thread k' = current_thread k \<and> scheduler_lock_nest k' = scheduler_lock_nest k"
  by (auto simp: start_thread_timer_def rt_timer_control_def rt_timer_start_def Let_def bind_eq_Some_conv
      rt_schedule_locked resume_current split: if_splits)

lemma ipc_block_locked:
  assumes "ipc_block h t flag time k = Some k'" "scheduler_lock_nest k \<noteq> 0"
  shows "current_thread k' = current_thread k"
  using assms
  by (auto simp: ipc_block_def bind_eq_Some_conv rt_schedule_locked
      dest!: ipc_list_suspend_current start_thread_timer_locked split: if_splits)

lemma sem_take_blocks:
  assumes inv: "kinv k" and c: "current_thread k = Some c" "thread_stat k c = 3" and i: "interrupt_nest k = 0"
    and f: "sem_flag (semaphores k s) = 0 \<or> sem_flag (semaphores k s) = 1" and time: "timeout_ok time" "time \<noteq> 0"
    and v: "sem_value (semaphores k s) = 0"
  obtains k' where "rt_sem_take s time k = Some (Wait k' 0)"
    "waits_on (Suspend s) c (sem_flag (semaphores k s)) time k k'"
    "scheduler_lock_nest k \<noteq> 0 \<Longrightarrow> current_thread k' = Some c"
proof -
  let ?k1 = "upd_thread c (\<lambda>th. th\<lparr>th_error := 0\<rparr>) k" and ?f = "sem_flag (semaphores k s)"
  have k1: "kinv ?k1" using inv by (rule kinv_upd_same) simp
  obtain k' where k': "ipc_block (Suspend s) c ?f time ?k1 = Some k'" "waits_on (Suspend s) c ?f time k k'"
    by (rule ipc_block_waits_on [OF inv c _ time(1) f k1, of "Suspend s"]) auto
  show thesis
    by (rule that [of k']) (use k' c i v time ipc_block_locked [OF k'(1)] in
      \<open>simp_all add: rt_sem_take_def in_thread_context_def\<close>)
qed

text \<open>
  The effect of waking the first thread of a queue, if there is one: it leaves the queue and is no
  longer suspended; no error code, priority or event field of any thread changes, nor any other
  queue or object.
\<close>

definition woken :: "list_head \<Rightarrow> kernel \<Rightarrow> kernel \<Rightarrow> bool" where
  "woken h k k' \<longleftrightarrow>
     kinv k' \<and> tlists k' h = tl (tlists k h) \<and> (tlists k h \<noteq> [] \<longrightarrow> thread_stat k' (hd (tlists k h)) \<noteq> 2) \<and>
     (\<forall>u. thread_core (threads k' u) = thread_core (threads k u)) \<and>
     (\<forall>h'. h' \<noteq> h \<longrightarrow> (\<forall>p. h' \<noteq> Ready p) \<longrightarrow> tlists k' h' = tlists k h') \<and>
     current_thread k' \<noteq> None \<and> ipc_same k k'"

lemma woken_none: "kinv k \<Longrightarrow> current_thread k \<noteq> None \<Longrightarrow> tlists k h = [] \<Longrightarrow> woken h k k"
  by (simp add: woken_def)

lemma wake_spec:
  assumes inv: "kinv k" and c: "current_thread k \<noteq> None" and h: "waiting_list h" and ne: "tlists k h \<noteq> []"
  obtains k1 k' where "ipc_list_resume h k = Some k1" "rt_schedule k1 = Some k'" "woken h k k'"
proof -
  obtain t ts where q: "tlists k h = t # ts" using ne by (cases "tlists k h") auto
  obtain k1 where k1: "ipc_list_resume h k = Some k1" "kinv k1" "thread_stat k1 t \<noteq> 2" "tlists k1 h = ts"
    "\<And>h'. h' \<noteq> h \<Longrightarrow> \<forall>p. h' \<noteq> Ready p \<Longrightarrow> tlists k1 h' = tlists k h'"
    "\<And>u. thread_core (threads k1 u) = thread_core (threads k u)" "current_thread k1 = current_thread k" "ipc_same k k1"
    by (rule ipc_resume_spec [OF inv h q]) blast
  obtain c1 where c1: "current_thread k1 = Some c1" using k1(7) c by auto
  obtain k' where k': "rt_schedule k1 = Some k'" "kinv k'" by (rule schedule_kinv_defined [OF k1(2) c1])
  have "sched_inv k'" using k'(2) by (simp add: kinv_def)
  note sch = schedule_kinv [OF k1(2) k'(1) this]
  have "woken h k k'"
    unfolding woken_def
  proof (intro conjI allI impI)
    show "thread_core (threads k' u) = thread_core (threads k u)" for u using sch(4) [of u] k1(6) by simp
    show "tlists k' h = tl (tlists k h)" using sch(3) [OF waiting_listD(1) [OF h]] k1(4) q by simp
    show "thread_stat k' (hd (tlists k h)) \<noteq> 2" using rt_schedule_back(1) [OF k'(1), of t] k1(3) q by auto
    show "tlists k' h' = tlists k h'" if "h' \<noteq> h" "\<forall>p. h' \<noteq> Ready p" for h'
      using sch(3) [OF that(2)] k1(5) [OF that] by simp
    show "current_thread k' \<noteq> None" using rt_schedule_back(2) [OF k'(1)] c1 by simp
    show "ipc_same k k'" using ipc_same_trans [OF k1(8) sch(2)] .
  qed (rule k'(2))
  then show thesis using that k1(1) k'(1) by blast
qed

lemma woken_trans_upd:
  assumes "woken h k1 k'" "threads k1 = threads k" "tlists k1 = tlists k"
  shows "tlists k' h = tl (tlists k h)" "tlists k h \<noteq> [] \<Longrightarrow> thread_stat k' (hd (tlists k h)) \<noteq> 2"
    "thread_core (threads k' u) = thread_core (threads k u)"
    "h' \<noteq> h \<Longrightarrow> \<forall>p. h' \<noteq> Ready p \<Longrightarrow> tlists k' h' = tlists k h'"
  using assms by (simp_all add: woken_def)

section \<open>Properties\<close>

text \<open>
  C17. \<open>rt_sem_take\<close>, for a running thread and every time-out: a positive value is decremented and
  nothing else changes; with no waiting allowed the result is \<open>-RT_ETIMEOUT\<close> and nothing changes;
  otherwise the caller is suspended on the semaphore's queue, at the end (FIFO) or before the first
  waiter of lower priority (PRIO), with its timer running exactly for a positive time-out, the value
  stays zero, and the invariants of queues and timers hold.
\<close>

theorem sem_take_outcome:
  assumes inv: "kinv k" and c: "current_thread k = Some c" "thread_stat k c = 3" and i: "interrupt_nest k = 0"
    and f: "sem_flag (semaphores k s) = 0 \<or> sem_flag (semaphores k s) = 1" and time: "timeout_ok time"
  shows "if 0 < sem_value (semaphores k s)
         then rt_sem_take s time k = Some (Return (upd_sem s (\<lambda>x. x\<lparr>sem_value := sem_value x - 1\<rparr>) k) 0)
         else if time = 0 then rt_sem_take s time k = Some (Return k (- 2))
         else \<exists>k'. rt_sem_take s time k = Some (Wait k' 0) \<and>
                   waits_on (Suspend s) c (sem_flag (semaphores k s)) time k k'"
proof (cases "0 < sem_value (semaphores k s) \<or> time = 0")
  case True
  then show ?thesis by (auto simp: rt_sem_take_def)
next
  case False
  then have v: "sem_value (semaphores k s) = 0" "time \<noteq> 0" by (auto simp: not_less)
  obtain k' where "rt_sem_take s time k = Some (Wait k' 0)" "waits_on (Suspend s) c (sem_flag (semaphores k s)) time k k'"
    by (rule sem_take_blocks [OF inv c i f time v(2,1)])
  then show ?thesis using v by simp
qed

definition k_demo_sem0 :: kernel where
  "k_demo_sem0 = upd_sem 4 (\<lambda>_. \<lparr>sem_flag = 1, sem_value = 0\<rparr>) k_demo"

lemma k_demo_current: "current_thread k_demo = Some 1" "thread_stat k_demo 1 = 3" "interrupt_nest k_demo = 0"
  by (simp_all add: demo_threads_def demo_thread_def k_demo_def)

theorem sem_take_outcome_witness:
  "\<exists>k'. rt_sem_take 4 25 k_demo_sem0 = Some (Wait k' 0) \<and> waits_on (Suspend 4) 1 1 25 k_demo_sem0 k'"
  using sem_take_outcome [of k_demo_sem0 1 4 25] k_demo_kinv k_demo_current
  by (simp add: k_demo_sem0_def timeout_ok_def)

text \<open>
  C18. \<open>rt_sem_release\<close>: with a thread waiting, the first one of the queue is taken off it and made
  ready with its error code unchanged (so its \<open>rt_sem_take\<close> returns \<open>RT_EOK\<close>), the value is not
  touched, and the scheduler runs; without one the value is incremented, or the release is refused
  with \<open>-RT_EFULL\<close> at the maximum, never wrapping around.
\<close>

theorem sem_release_outcome:
  assumes inv: "kinv k" and c: "current_thread k \<noteq> None"
  shows "if tlists k (Suspend s) \<noteq> []
    then \<exists>k'. rt_sem_release s k = Some (k', 0) \<and> woken (Suspend s) k k' \<and>
           rt_sem_take_return (hd (tlists k (Suspend s))) k' = (k', th_error (threads k (hd (tlists k (Suspend s)))))
    else if sem_value (semaphores k s) < 0xffff
    then rt_sem_release s k = Some (upd_sem s (\<lambda>x. x\<lparr>sem_value := sem_value x + 1\<rparr>) k, 0) \<and>
         uint (sem_value (semaphores k s) + 1) = uint (sem_value (semaphores k s)) + 1
    else rt_sem_release s k = Some (k, - 3)"
proof (cases "tlists k (Suspend s) = []")
  case True
  have "uint (v + 1) = uint v + 1" if "v < 0xffff" for v :: u16
  proof -
    have "uint v + 1 < 2 ^ 16" using that by (simp add: word_less_def)
    then show ?thesis using uint_plus_if' [of v 1] by (simp add: word_size)
  qed
  then show ?thesis using True by (simp add: rt_sem_release_def)
next
  case False
  obtain k1 k' where k': "ipc_list_resume (Suspend s) k = Some k1" "rt_schedule k1 = Some k'" "woken (Suspend s) k k'"
    by (rule wake_spec [OF inv c _ False]) auto
  let ?t = "hd (tlists k (Suspend s))"
  have "thread_core (threads k' ?t) = thread_core (threads k ?t)" using k'(3) by (simp add: woken_def)
  note er = thread_core_eqD(1) [OF this]
  have "rt_sem_release s k = Some (k', 0)" using False k' by (simp add: rt_sem_release_def)
  moreover have "rt_sem_take_return ?t k' = (k', th_error (threads k ?t))"
    by (simp add: rt_sem_take_return_def er)
  ultimately show ?thesis using False k'(3) by simp
qed

lemma k_demo_wait_kinv: "kinv k_demo_wait"
proof -
  have "sched_inv k_demo_wait"
    using k_demo_wait_qinv by (auto simp: sched_inv_def cur_inv_def k_demo_wait_def demo_threads_def demo_thread_def)
  then show ?thesis by (simp add: kinv_def timer_ok_def k_demo_wait_def) (simp add: k_demo_def)
qed

theorem sem_release_outcome_witness:
  "\<exists>k'. rt_sem_release 7 k_demo_wait = Some (k', 0) \<and> woken (Suspend 7) k_demo_wait k' \<and>
     rt_sem_take_return 1 k' = (k', th_error (threads k_demo_wait 1))"
  using sem_release_outcome [OF k_demo_wait_kinv, of 7] by (simp add: k_demo_wait_def)

text \<open>
  While the scheduler is locked a blocking \<open>rt_sem_take\<close> reports success without taking
  anything: the caller is put on the wait queue, \<open>rt_schedule\<close> does nothing, and since the error is
  still \<open>RT_EOK\<close> the function returns \<open>RT_EOK\<close>, although the value is zero and the caller, still
  running, is left suspended on the queue.
\<close>

theorem sem_take_scheduler_locked:
  assumes inv: "kinv k" and c: "current_thread k = Some c" "thread_stat k c = 3" and i: "interrupt_nest k = 0"
    and f: "sem_flag (semaphores k s) = 0 \<or> sem_flag (semaphores k s) = 1"
    and time: "timeout_ok time" "time \<noteq> 0" and v: "sem_value (semaphores k s) = 0" and lock: "scheduler_lock_nest k \<noteq> 0"
  shows "\<exists>k'. rt_sem_take s time k = Some (Wait k' 0) \<and> current_thread k' = Some c \<and>
     rt_sem_take_return c k' = (k', 0) \<and> sem_value (semaphores k' s) = 0 \<and>
     c \<in> set (tlists k' (Suspend s)) \<and> thread_stat k' c = 2"
proof -
  obtain k' where k': "rt_sem_take s time k = Some (Wait k' 0)"
    "waits_on (Suspend s) c (sem_flag (semaphores k s)) time k k'" "current_thread k' = Some c"
    by (rule sem_take_blocks [OF inv c i f time v]) (use lock in blast)
  then show ?thesis using v by (auto simp: waits_on_def rt_sem_take_return_def ipc_same_def)
qed

theorem sem_take_scheduler_locked_witness:
  "\<exists>k'. rt_sem_take 4 (- 1) (rt_enter_critical k_demo_sem0) = Some (Wait k' 0) \<and> current_thread k' = Some 1 \<and>
     rt_sem_take_return 1 k' = (k', 0) \<and> sem_value (semaphores k' 4) = 0 \<and>
     1 \<in> set (tlists k' (Suspend 4)) \<and> thread_stat k' 1 = 2"
proof (rule sem_take_scheduler_locked)
  show "kinv (rt_enter_critical k_demo_sem0)"
    by (rule kinv_frame [of k_demo]) (simp_all add: k_demo_kinv rt_enter_critical_def k_demo_sem0_def)
qed (use k_demo_current in \<open>simp_all add: rt_enter_critical_def k_demo_sem0_def timeout_ok_def trunc_s_def\<close>)

end
