(* ===== verification/Mutex.thy ===== *)
theory Mutex
  imports Semaphore
begin

text \<open>
  The mutexes of \<open>src/ipc.c\<close>: recursive locks with priority inheritance. The owner is a thread or
  the null pointer.
\<close>

abbreviation (input) RT_MUTEX_HOLD_MAX :: u8 where "RT_MUTEX_HOLD_MAX \<equiv> 0xff"
abbreviation (input) RT_MUTEX_VALUE_MAX :: u16 where "RT_MUTEX_VALUE_MAX \<equiv> 0xffff"

definition upd_mutex :: "obj \<Rightarrow> (rt_mutex \<Rightarrow> rt_mutex) \<Rightarrow> kernel \<Rightarrow> kernel" where
  "upd_mutex m f k = k\<lparr>mutexes := (mutexes k)(m := f (mutexes k m))\<rparr>"

definition mutex_new :: rt_mutex where
  "mutex_new = \<lparr>mx_flag = RT_IPC_FLAG_PRIO, mx_value = 1, mx_original_priority = 0xff, mx_hold = 0, mx_owner = None\<rparr>"

definition rt_mutex_init :: "obj \<Rightarrow> u8 \<Rightarrow> kernel \<Rightarrow> kernel \<times> rt_err_t" where
  "rt_mutex_init m flag k = (upd_mutex m (\<lambda>_. mutex_new) (ipc_object_init (Suspend m) k), RT_EOK)"

definition rt_mutex_detach :: "obj \<Rightarrow> kernel \<Rightarrow> (kernel \<times> rt_err_t) option" where
  "rt_mutex_detach m k = do { k1 \<leftarrow> ipc_list_resume_all (Suspend m) k; Some (k1, RT_EOK) }"

definition rt_mutex_create :: "bool \<Rightarrow> obj \<Rightarrow> u8 \<Rightarrow> kernel \<Rightarrow> (kernel \<times> obj option) option" where
  "rt_mutex_create obj_ok m flag k =
     do { rt_assert (interrupt_nest k = 0);
          if \<not> obj_ok then Some (k, None)
          else Some (upd_mutex m (\<lambda>_. mutex_new) (ipc_object_init (Suspend m) k), Some m) }"

definition rt_mutex_delete :: "obj \<Rightarrow> kernel \<Rightarrow> (kernel \<times> rt_err_t) option" where
  "rt_mutex_delete m k =
     do { rt_assert (interrupt_nest k = 0);
          k1 \<leftarrow> ipc_list_resume_all (Suspend m) k;
          Some (k1, RT_EOK) }"

definition rt_mutex_take :: "obj \<Rightarrow> int \<Rightarrow> kernel \<Rightarrow> rt_err_t outcome option" where
  "rt_mutex_take m time k =
     do { rt_assert (in_thread_context k);
          t \<leftarrow> current_thread k;
          let k1 = upd_thread t (\<lambda>th. th\<lparr>th_error := RT_EOK\<rparr>) k;
          let mx = mutexes k1 m;
          if mx_owner mx = Some t
          then Some (if mx_hold mx < RT_MUTEX_HOLD_MAX
                     then Return (upd_mutex m (\<lambda>x. x\<lparr>mx_hold := mx_hold x + 1\<rparr>) k1) RT_EOK
                     else Return k1 (- RT_EFULL))
          else if mx_value mx > 0
          then let k2 = upd_mutex m (\<lambda>x. x\<lparr>mx_value := mx_value x - 1, mx_owner := Some t,
                          mx_original_priority := thread_prio k1 t\<rparr>) k1
               in Some (if mx_hold mx < RT_MUTEX_HOLD_MAX
                        then Return (upd_mutex m (\<lambda>x. x\<lparr>mx_hold := mx_hold x + 1\<rparr>) k2) RT_EOK
                        else Return k2 (- RT_EFULL))
          else if time = 0
          then Some (Return (upd_thread t (\<lambda>th. th\<lparr>th_error := - RT_ETIMEOUT\<rparr>) k1) (- RT_ETIMEOUT))
          else do { owner \<leftarrow> mx_owner mx;
                    k2 \<leftarrow> (if thread_prio k1 t < thread_prio k1 owner
                           then thread_change_priority owner (thread_prio k1 t) k1 else Some k1);
                    k3 \<leftarrow> ipc_block (Suspend m) t (mx_flag mx) time k2;
                    Some (Wait k3 0) } }"

definition rt_mutex_take_return :: "tid \<Rightarrow> kernel \<Rightarrow> kernel \<times> rt_err_t" where
  "rt_mutex_take_return t k =
     (if th_error (threads k t) \<noteq> RT_EOK then (k, th_error (threads k t)) else (k, RT_EOK))"

definition rt_mutex_trytake :: "obj \<Rightarrow> kernel \<Rightarrow> rt_err_t outcome option" where
  "rt_mutex_trytake m k = rt_mutex_take m 0 k"

definition rt_mutex_release :: "obj \<Rightarrow> kernel \<Rightarrow> (kernel \<times> rt_err_t) option" where
  "rt_mutex_release m k =
     do { rt_assert (in_thread_context k);
          t \<leftarrow> current_thread k;
          if mx_owner (mutexes k m) \<noteq> Some t
          then Some (upd_thread t (\<lambda>th. th\<lparr>th_error := - RT_ERROR\<rparr>) k, - RT_ERROR)
          else do {
            let k1 = upd_mutex m (\<lambda>x. x\<lparr>mx_hold := mx_hold x - 1\<rparr>) k;
            if mx_hold (mutexes k1 m) \<noteq> 0 then Some (k1, RT_EOK)
            else do {
              k2 \<leftarrow> (if mx_original_priority (mutexes k1 m) \<noteq> thread_prio k1 t
                     then thread_change_priority t (mx_original_priority (mutexes k1 m)) k1 else Some k1);
              (case tlists k2 (Suspend m) of
                 w # _ \<Rightarrow>
                   do { let k3 = upd_mutex m (\<lambda>x. x\<lparr>mx_owner := Some w, mx_original_priority := thread_prio k2 w\<rparr>) k2;
                        if mx_hold (mutexes k3 m) < RT_MUTEX_HOLD_MAX
                        then do { let k4 = upd_mutex m (\<lambda>x. x\<lparr>mx_hold := mx_hold x + 1\<rparr>) k3;
                                  k5 \<leftarrow> ipc_list_resume (Suspend m) k4;
                                  k6 \<leftarrow> rt_schedule k5;
                                  Some (k6, RT_EOK) }
                        else Some (k3, - RT_EFULL) }
               | [] \<Rightarrow>
                   if mx_value (mutexes k2 m) < RT_MUTEX_VALUE_MAX
                   then Some (upd_mutex m (\<lambda>x. x\<lparr>mx_value := mx_value x + 1, mx_owner := None,
                                mx_original_priority := 0xff\<rparr>) k2, RT_EOK)
                   else Some (k2, - RT_EFULL)) } } }"

definition rt_mutex_control :: "obj \<Rightarrow> int \<Rightarrow> kernel \<Rightarrow> kernel \<times> rt_err_t" where
  "rt_mutex_control m cmd k = (k, - RT_ERROR)"

section \<open>Lemmas\<close>

lemma upd_mutex_frame [simp]:
  "mutexes (upd_mutex m f k) = (mutexes k)(m := f (mutexes k m))"
  "threads (upd_mutex m f k) = threads k" "tlists (upd_mutex m f k) = tlists k"
  "ready_priority_group (upd_mutex m f k) = ready_priority_group k"
  "current_thread (upd_mutex m f k) = current_thread k" "timers (upd_mutex m f k) = timers k"
  "timer_list (upd_mutex m f k) = timer_list k" "soft_timer_list (upd_mutex m f k) = soft_timer_list k"
  "interrupt_nest (upd_mutex m f k) = interrupt_nest k" "scheduler_lock_nest (upd_mutex m f k) = scheduler_lock_nest k"
  by (simp_all add: upd_mutex_def)

lemma kinv_upd_mutex [simp]: "kinv (upd_mutex m f k) \<longleftrightarrow> kinv k"
  using kinv_frame [of k "upd_mutex m f k"] kinv_frame [of "upd_mutex m f k" k] by auto

text \<open>Changing the priority of a thread keeps the invariants, on every queue the thread may be on.\<close>

definition with_priority :: "u8 \<Rightarrow> rt_thread \<Rightarrow> rt_thread" where
  "with_priority p th = th\<lparr>th_current_priority := p, th_number_mask := prio_mask p\<rparr>"

lemma with_priority_simps [simp]:
  "th_current_priority (with_priority p th) = p" "th_stat (with_priority p th) = th_stat th"
  "th_error (with_priority p th) = th_error th" "p < 32 \<Longrightarrow> prio_ok (with_priority p th)"
  by (simp_all add: with_priority_def prio_ok_def)

lemma change_priority_spec:
  assumes inv: "kinv k" and p: "p < 32"
  obtains k' where "thread_change_priority t p k = Some k'" "kinv k'"
    "thread_core (threads k' t) = thread_core (with_priority p (threads k t))" "thread_stat k' t = thread_stat k t"
    "\<And>u. u \<noteq> t \<Longrightarrow> threads k' u = threads k u" "\<And>h. \<forall>p. h \<noteq> Ready p \<Longrightarrow> tlists k' h = tlists k h"
    "current_thread k' = current_thread k" "objs_same k k'"
proof -
  have s: "sched_inv k" and q: "qinv {} k" and cu: "cur_inv k" and ok: "timer_ok {} k"
    using inv by (simp_all add: kinv_def sched_inv_def)
  show thesis
  proof (cases "thread_stat k t = 1")
    case False
    define k' where "k' = upd_thread t (with_priority p) k"
    have nl: "t \<notin> set (tlists k (Ready r))" for r
      using qinvD(2) [OF q, of t "Ready r"] False by (auto simp: list_stat_def)
    have st: "thread_stat k' u = thread_stat k u" for u by (simp add: k'_def)
    have "qinv {} k'"
      using q nl p unfolding qinv_def st by (auto simp: k'_def)
    moreover have "cur_inv k'" using cu unfolding cur_inv_def st by (simp add: k'_def)
    moreover have "timer_ok {} k'" by (rule timer_ok_frame [OF ok]) (auto simp: k'_def)
    ultimately have "kinv k'" by (simp add: kinv_def sched_inv_def)
    then show thesis
      using that [of k'] False p by (simp add: thread_change_priority_def k'_def with_priority_def)
  next
    case True
    have po: "prio_ok (threads k t)" using qinvD(7) [OF q, of t] True by simp
    have nc: "current_thread k \<noteq> Some t" using cu True by (auto simp: cur_inv_def)
    define k1 where "k1 = upd_thread t (with_priority p) (rt_schedule_remove_thread t k)"
    define k' where "k' = rt_schedule_insert_thread t k1"
    have q1: "qinv {t} k1"
      unfolding k1_def by (rule qinv_upd_detached) (use qinv_remove [OF q po] in simp_all)
    have "qinv ({t} - {t}) k'"
      unfolding k'_def by (rule qinv_insert [OF q1]) (use nc p in \<open>simp_all add: k1_def\<close>)
    then have q': "qinv {} k'" by simp
    have st: "thread_stat k' u = thread_stat k u" for u using True nc by (simp add: k'_def k1_def insert_threads)
    have "cur_inv k'" using cu unfolding cur_inv_def st by (simp add: k'_def k1_def)
    moreover have "timer_ok {} k'"
      by (rule timer_ok_frame [OF ok])
        (use st in \<open>simp_all add: k'_def k1_def rt_schedule_insert_thread_def rt_schedule_remove_thread_def Let_def\<close>)
    ultimately have kv: "kinv k'" using q' by (simp add: kinv_def sched_inv_def)
    have nw: "t \<notin> set (tlists k h)" if "\<forall>p. h \<noteq> Ready p" for h
      using qinvD(2) [OF q, of t h] True that by (auto simp: list_stat_def split: list_head.splits)
    have lists: "tlists k' h = tlists k h" if "\<forall>p. h \<noteq> Ready p" for h
      using that nw [OF that] by (simp add: k'_def k1_def rt_schedule_insert_thread_def Let_def)
    have "objs_same k k'" unfolding k'_def k1_def
      by (intro objs_same_trans [OF _ objs_same_ops(5)] objs_same_trans [OF _ objs_same_ops(1)] objs_same_ops)
    moreover have "thread_change_priority t p k = Some k'"
      using True p by (simp add: thread_change_priority_def k'_def k1_def with_priority_def [abs_def])
    moreover have "threads k' u = threads k u" if "u \<noteq> t" for u
      using that by (simp add: k'_def k1_def insert_threads)
    moreover have "thread_core (threads k' t) = thread_core (with_priority p (threads k t))"
      by (simp add: k'_def k1_def)
    moreover have "current_thread k' = current_thread k" by (simp add: k'_def k1_def)
    ultimately show thesis using that kv st lists by blast
  qed
qed

text \<open>
  A mutex is free with no one waiting, or it has an owner who holds it at least once; the priority
  to restore is a valid one.
\<close>

definition mutex_inv :: "obj \<Rightarrow> kernel \<Rightarrow> bool" where
  "mutex_inv m k \<longleftrightarrow>
     (case mx_owner (mutexes k m) of
        None \<Rightarrow> mx_value (mutexes k m) = 1 \<and> mx_hold (mutexes k m) = 0 \<and> tlists k (Suspend m) = []
      | Some _ \<Rightarrow> mx_value (mutexes k m) = 0 \<and> 0 < mx_hold (mutexes k m) \<and> mx_original_priority (mutexes k m) < 32) \<and>
     mx_flag (mutexes k m) = 1"

definition boost_owner :: "obj \<Rightarrow> tid \<Rightarrow> kernel \<Rightarrow> kernel option" where
  "boost_owner m t k =
     (case mx_owner (mutexes k m) of
        None \<Rightarrow> Some k
      | Some owner \<Rightarrow> if thread_prio k t < thread_prio k owner then thread_change_priority owner (thread_prio k t) k else Some k)"

lemma running_prio:
  assumes "kinv k" "thread_stat k c = 3"
  shows "thread_prio k c < 32" "prio_ok (threads k c)"
proof -
  have "qinv {} k" using assms(1) by (simp add: kinv_def sched_inv_def)
  then show "prio_ok (threads k c)" using qinvD(7) [of "{}" k c] assms(2) by simp
  then show "thread_prio k c < 32" by (simp add: prio_ok_def)
qed

abbreviation cleared :: "tid \<Rightarrow> kernel \<Rightarrow> kernel" where
  "cleared c k \<equiv> upd_thread c (\<lambda>th. th\<lparr>th_error := 0\<rparr>) k"

lemma cleared_again:
  assumes "th_error (threads k c) = 0"
  shows "cleared c k = k"
proof -
  have "(threads k c)\<lparr>th_error := 0\<rparr> = threads k c" using assms by (cases "threads k c") simp
  then show ?thesis by (simp add: upd_thread_def fun_upd_triv)
qed

lemma boost_owner_spec:
  assumes inv: "kinv k" and p: "thread_prio k c < 32" and o: "mx_owner (mutexes k m) = Some owner" "owner \<noteq> c"
  obtains k1 where "boost_owner m c k = Some k1" "kinv k1"
    "thread_prio k1 owner = min (thread_prio k owner) (thread_prio k c)"
    "\<And>u. u \<noteq> owner \<Longrightarrow> threads k1 u = threads k u" "\<And>u. th_error (threads k1 u) = th_error (threads k u)"
    "\<And>h. \<forall>p. h \<noteq> Ready p \<Longrightarrow> tlists k1 h = tlists k h"
    "current_thread k1 = current_thread k" "objs_same k k1"
proof (cases "thread_prio k c < thread_prio k owner")
  case True
  obtain k1 where k1: "thread_change_priority owner (thread_prio k c) k = Some k1" "kinv k1"
    "thread_core (threads k1 owner) = thread_core (with_priority (thread_prio k c) (threads k owner))"
    "\<And>u. u \<noteq> owner \<Longrightarrow> threads k1 u = threads k u" "\<And>h. \<forall>p. h \<noteq> Ready p \<Longrightarrow> tlists k1 h = tlists k h"
    "current_thread k1 = current_thread k" "objs_same k k1"
    by (rule change_priority_spec [OF inv p]) blast
  have "th_error (threads k1 u) = th_error (threads k u)" for u
    using k1(4) thread_core_eqD(1) [OF k1(3)] by (cases "u = owner") simp_all
  moreover have "thread_prio k1 owner = thread_prio k c" using thread_core_eqD(2) [OF k1(3)] by simp
  moreover have "min (thread_prio k owner) (thread_prio k c) = thread_prio k c" unfolding min_def using True by (metis leD)
  ultimately show thesis using that [of k1] k1 True o by (simp add: boost_owner_def)
next
  case False
  then have "min (thread_prio k owner) (thread_prio k c) = thread_prio k owner" unfolding min_def by (metis not_le)
  with False show thesis using that [of k] inv o by (simp add: boost_owner_def)
qed

lemma mutex_take_blocks:
  assumes inv: "kinv k" and c: "current_thread k = Some c" "thread_stat k c = 3" and i: "interrupt_nest k = 0"
    and m: "mutex_inv m k" and o: "mx_owner (mutexes k m) = Some owner" "owner \<noteq> c"
    and time: "timeout_ok time" "time \<noteq> 0"
  obtains k1 k' where "boost_owner m c (cleared c k) = Some k1" "rt_mutex_take m time k = Some (Wait k' 0)"
    "waits_on (Suspend m) c 1 time k1 k'" "thread_prio k1 owner = min (thread_prio k owner) (thread_prio k c)"
    "\<And>u. u \<noteq> owner \<Longrightarrow> threads k1 u = threads (cleared c k) u" "objs_same k k1"
    "\<And>h. \<forall>p. h \<noteq> Ready p \<Longrightarrow> tlists k1 h = tlists k h"
proof -
  let ?k0 = "cleared c k"
  have k0: "kinv ?k0" using inv by (rule kinv_upd_same) simp
  have p0: "thread_prio ?k0 c < 32" using running_prio(1) [OF inv c(2)] by simp
  obtain k1 where k1: "boost_owner m c ?k0 = Some k1" "kinv k1"
    "thread_prio k1 owner = min (thread_prio ?k0 owner) (thread_prio ?k0 c)"
    "\<And>u. u \<noteq> owner \<Longrightarrow> threads k1 u = threads ?k0 u" "\<And>u. th_error (threads k1 u) = th_error (threads ?k0 u)"
    "\<And>h. \<forall>p. h \<noteq> Ready p \<Longrightarrow> tlists k1 h = tlists ?k0 h" "current_thread k1 = current_thread ?k0" "objs_same ?k0 k1"
    by (rule boost_owner_spec [OF k0 p0, of m owner]) (use o in simp_all)
  have c1: "current_thread k1 = Some c" "thread_stat k1 c = 3" using k1(4,7) c o by simp_all
  have e: "cleared c k1 = k1" by (rule cleared_again) (use k1(5) in simp)
  obtain k' where k': "ipc_block (Suspend m) c 1 time (cleared c k1) = Some k'" "waits_on (Suspend m) c 1 time k1 k'"
    by (rule block_error_cleared [OF k1(2) c1 _ _ time(1), of "Suspend m" 1]) auto
  have v: "mx_value (mutexes k m) = 0" "mx_flag (mutexes k m) = 1" using m o by (simp_all add: mutex_inv_def)
  have "rt_mutex_take m time k = Some (Wait k' 0)"
    using k1(1) k'(1) c i o time v unfolding e
    by (simp add: rt_mutex_take_def in_thread_context_def boost_owner_def Let_def)
  then show thesis
    using that [OF k1(1) _ k'(2)] k1(3,4,6,8) o by (simp add: objs_same_def)
qed

lemma hold_suc:
  fixes h :: u8
  assumes "h < 0xff"
  shows "uint (h + 1) = uint h + 1"
proof -
  have "uint h + 1 < 2 ^ 8" using assms by (simp add: word_less_def)
  then show ?thesis using uint_plus_if' [of h 1] by (simp add: word_size)
qed

lemma hold_max: "(h :: u8) < 0xff \<or> h = 0xff"
proof -
  have "uint h < 2 ^ 8" using unsigned_less [of h] by simp
  then show ?thesis by (auto simp: word_less_def word_uint_eq_iff)
qed

text \<open>The last release: the priority is restored, and the mutex is handed over or freed.\<close>

lemma restore_priority_spec:
  assumes inv: "kinv k" and p: "p < 32"
  obtains k' where "(if p \<noteq> thread_prio k t then thread_change_priority t p k else Some k) = Some k'" "kinv k'"
    "thread_prio k' t = p" "\<And>u. thread_stat k' u = thread_stat k u"
    "\<And>u. u \<noteq> t \<Longrightarrow> threads k' u = threads k u" "\<And>h. \<forall>p. h \<noteq> Ready p \<Longrightarrow> tlists k' h = tlists k h"
    "current_thread k' = current_thread k" "objs_same k k'"
proof (cases "p = thread_prio k t")
  case True
  show thesis by (rule that [of k]) (use True inv in simp_all)
next
  case False
  obtain k' where k': "thread_change_priority t p k = Some k'" "kinv k'"
    "thread_core (threads k' t) = thread_core (with_priority p (threads k t))" "thread_stat k' t = thread_stat k t"
    "\<And>u. u \<noteq> t \<Longrightarrow> threads k' u = threads k u" "\<And>h. \<forall>p. h \<noteq> Ready p \<Longrightarrow> tlists k' h = tlists k h"
    "current_thread k' = current_thread k" "objs_same k k'"
    by (rule change_priority_spec [OF inv p]) blast
  have "thread_stat k' u = thread_stat k u" for u using k'(4,5) by (cases "u = t") simp_all
  moreover have "thread_prio k' t = p" using thread_core_eqD(2) [OF k'(3)] by simp
  moreover have "(if p \<noteq> thread_prio k t then thread_change_priority t p k else Some k) = Some k'" using k'(1) False by simp
  ultimately show thesis using that k'(2,5-8) by blast
qed

lemma mutex_last_release:
  assumes inv: "kinv k" and c: "current_thread k = Some c" "thread_stat k c = 3" and i: "interrupt_nest k = 0"
    and m: "mutex_inv m k" and own: "mx_owner (mutexes k m) = Some c" and one: "mx_hold (mutexes k m) = 1"
  obtains k' where "rt_mutex_release m k = Some (k', 0) \<and> kinv k' \<and> mutex_inv m k' \<and>
       thread_prio k' c = mx_original_priority (mutexes k m) \<and>
       (\<forall>u. u \<noteq> c \<longrightarrow> thread_prio k' u = thread_prio k u) \<and> (\<forall>m'. m' \<noteq> m \<longrightarrow> mutexes k' m' = mutexes k m') \<and>
       (case tlists k (Suspend m) of
          [] \<Rightarrow> mx_owner (mutexes k' m) = None
        | w # ws \<Rightarrow> mx_owner (mutexes k' m) = Some w \<and> mx_hold (mutexes k' m) = 1 \<and> tlists k' (Suspend m) = ws \<and>
            thread_stat k' w \<noteq> 2)"
proof -
  let ?p = "mx_original_priority (mutexes k m)"
  have mv: "mx_value (mutexes k m) = 0" "mx_flag (mutexes k m) = 1" "?p < 32"
    using m own by (simp_all add: mutex_inv_def)
  define k1 where "k1 = upd_mutex m (\<lambda>x. x\<lparr>mx_hold := mx_hold x - 1\<rparr>) k"
  have i1: "kinv k1" using inv by (simp add: k1_def)
  obtain k2 where k2: "(if ?p \<noteq> thread_prio k1 c then thread_change_priority c ?p k1 else Some k1) = Some k2" "kinv k2"
    "thread_prio k2 c = ?p" "\<And>u. thread_stat k2 u = thread_stat k1 u"
    "\<And>u. u \<noteq> c \<Longrightarrow> threads k2 u = threads k1 u" "\<And>h. \<forall>p. h \<noteq> Ready p \<Longrightarrow> tlists k2 h = tlists k1 h"
    "current_thread k2 = current_thread k1" "objs_same k1 k2"
    by (rule restore_priority_spec [OF i1 mv(3), of c]) blast
  have mx2: "mutexes k2 = mutexes k1" using k2(8) by (simp add: objs_same_def)
  have q2: "tlists k2 (Suspend m) = tlists k (Suspend m)" using k2(6) by (simp add: k1_def)
  have pr2: "thread_prio k2 u = thread_prio k u" if "u \<noteq> c" for u using k2(5) [OF that] by (simp add: k1_def)
  have c2: "current_thread k2 = Some c" using k2(7) c by (simp add: k1_def)
  have run1: "rt_mutex_release m k = (case tlists k2 (Suspend m) of
       w # _ \<Rightarrow> do { k5 \<leftarrow> ipc_list_resume (Suspend m) (upd_mutex m (\<lambda>x. x\<lparr>mx_owner := Some w, mx_original_priority := thread_prio k2 w, mx_hold := 1\<rparr>) k2);
                     k6 \<leftarrow> rt_schedule k5; Some (k6, 0) }
     | [] \<Rightarrow> Some (upd_mutex m (\<lambda>x. x\<lparr>mx_value := 1, mx_owner := None, mx_original_priority := 0xff\<rparr>) k2, 0))"
    using own one c i k2(1) mv(1) mx2
    by (auto simp: rt_mutex_release_def in_thread_context_def Let_def k1_def upd_mutex_def comp_def split: list.splits)
  show thesis
  proof (cases "tlists k (Suspend m)")
    case Nil
    define k' where "k' = upd_mutex m (\<lambda>x. x\<lparr>mx_value := 1, mx_owner := None, mx_original_priority := 0xff\<rparr>) k2"
    have "rt_mutex_release m k = Some (k', 0)" using run1 q2 Nil by (simp add: k'_def)
    moreover have "kinv k'" using k2(2) by (simp add: k'_def)
    moreover have "mutex_inv m k'" using mv(2) Nil q2 mx2 one by (simp add: mutex_inv_def k'_def k1_def)
    ultimately show thesis
      by (intro that [of k'] conjI allI impI) (use k2(3) pr2 Nil mx2 in \<open>simp_all add: k'_def k1_def\<close>)
  next
    case (Cons w ws)
    define k3 where "k3 = upd_mutex m (\<lambda>x. x\<lparr>mx_owner := Some w, mx_original_priority := thread_prio k2 w, mx_hold := 1\<rparr>) k2"
    have i3: "kinv k3" "current_thread k3 \<noteq> None" "tlists k3 (Suspend m) = w # ws"
      using k2(2) c2 q2 Cons by (simp_all add: k3_def)
    obtain k4 k' where w: "ipc_list_resume (Suspend m) k3 = Some k4" "rt_schedule k4 = Some k'" "woken (Suspend m) k3 k'"
      by (rule wake_spec [OF i3(1,2), of "Suspend m"]) (use i3(3) in auto)
    have run: "rt_mutex_release m k = Some (k', 0)" using run1 q2 Cons w by (simp add: k3_def)
    have mx': "mutexes k' = mutexes k3" using w(3) by (simp add: woken_def ipc_same_def)
    have q: "qinv {} k2" using k2(2) by (simp add: kinv_def sched_inv_def)
    have "thread_stat k2 w = 2" using qinvD(2) [OF q, of w "Suspend m"] q2 Cons by (simp add: list_stat_def)
    then have pw: "thread_prio k2 w < 32" using qinvD(7) [OF q, of w] by (simp add: prio_ok_def)
    have "mutex_inv m k'" using mv pw mx2 by (simp add: mutex_inv_def mx' k3_def k1_def)
    moreover have "thread_prio k' u = thread_prio k2 u" for u
    proof -
      have "thread_core (threads k' u) = thread_core (threads k2 u)" using w(3) by (simp add: woken_def k3_def)
      then show ?thesis by (rule thread_core_eqD(2))
    qed
    moreover have "tlists k' (Suspend m) = ws" "thread_stat k' w \<noteq> 2" "kinv k'"
      using w(3) i3(3) by (simp_all add: woken_def)
    ultimately show thesis
      by (intro that [of k'] conjI allI impI) (use run k2(3) pr2 Cons mx' mx2 in \<open>simp_all add: k3_def k1_def\<close>)
  qed
qed

text \<open>Without a waiter nothing is rescheduled.\<close>

lemma mutex_release_uncontended:
  assumes inv: "kinv k" and c: "current_thread k = Some c" "thread_stat k c = 3" and i: "interrupt_nest k = 0"
    and m: "mutex_inv m k" and own: "mx_owner (mutexes k m) = Some c" and one: "mx_hold (mutexes k m) = 1"
    and q: "tlists k (Suspend m) = []" and r: "rt_mutex_release m k = Some (k', e)"
  shows "current_thread k' = current_thread k" "thread_stat k' c = thread_stat k c" "interrupt_nest k' = interrupt_nest k"
    "\<forall>p. h \<noteq> Ready p \<Longrightarrow> tlists k' h = tlists k h"
proof -
  let ?p = "mx_original_priority (mutexes k m)"
  have mv: "mx_value (mutexes k m) = 0" "?p < 32" using m own by (simp_all add: mutex_inv_def)
  define k1 where "k1 = upd_mutex m (\<lambda>x. x\<lparr>mx_hold := mx_hold x - 1\<rparr>) k"
  have i1: "kinv k1" using inv by (simp add: k1_def)
  obtain k2 where k2: "(if ?p \<noteq> thread_prio k1 c then thread_change_priority c ?p k1 else Some k1) = Some k2"
    "\<And>u. thread_stat k2 u = thread_stat k1 u"
    "\<And>h. \<forall>p. h \<noteq> Ready p \<Longrightarrow> tlists k2 h = tlists k1 h"
    "current_thread k2 = current_thread k1" "objs_same k1 k2"
    by (rule restore_priority_spec [OF i1 mv(2), of c]) blast
  have mx2: "mutexes k2 = mutexes k1" using k2(5) by (simp add: objs_same_def)
  have q2: "tlists k2 (Suspend m) = []" using k2(3) q by (simp add: k1_def)
  have "k' = upd_mutex m (\<lambda>x. x\<lparr>mx_value := mx_value x + 1, mx_owner := None, mx_original_priority := 0xff\<rparr>) k2"
  proof -
    have f1: "mx_hold (mutexes k1 m) = 0" "mx_original_priority (mutexes k1 m) = ?p" "mx_value (mutexes k1 m) = 0"
      using one mv by (simp_all add: k1_def)
    show ?thesis
      using own c i k2(1) mx2 q2 r f1
      by (simp add: rt_mutex_release_def in_thread_context_def Let_def flip: k1_def cong: if_cong)
  qed
  then show "current_thread k' = current_thread k" "thread_stat k' c = thread_stat k c" "interrupt_nest k' = interrupt_nest k"
    "\<forall>p. h \<noteq> Ready p \<Longrightarrow> tlists k' h = tlists k h"
    using k2 by (simp_all add: k1_def objs_same_def)
qed

section \<open>Properties\<close>

text \<open>
  C4. \<open>rt_mutex_take\<close>, for every time-out: the owner takes the mutex again, up to 255 times, after
  which it is refused with \<open>-RT_EFULL\<close>; a free mutex gets the caller as its owner; a mutex of another
  thread gives \<open>-RT_ETIMEOUT\<close> when no waiting is allowed, and otherwise the owner's priority is raised
  to the caller's if that is higher, and the caller waits in priority order. The mutex invariant is
  kept, so there is one owner at most, and threads wait only for a mutex that is held.
\<close>

theorem mutex_take_outcome:
  assumes inv: "kinv k" and c: "current_thread k = Some c" "thread_stat k c = 3" and i: "interrupt_nest k = 0"
    and m: "mutex_inv m k" and time: "timeout_ok time"
  shows "(case mx_owner (mutexes k m) of
      None \<Rightarrow> \<exists>k'. rt_mutex_take m time k = Some (Return k' 0) \<and> kinv k' \<and> mutex_inv m k' \<and>
        mx_owner (mutexes k' m) = Some c \<and> mx_hold (mutexes k' m) = 1 \<and> mx_original_priority (mutexes k' m) = thread_prio k c
    | Some owner \<Rightarrow>
        if owner = c
        then \<exists>k'. kinv k' \<and> mutex_inv m k' \<and> mx_owner (mutexes k' m) = Some c \<and>
          (if mx_hold (mutexes k m) < 0xff
           then rt_mutex_take m time k = Some (Return k' 0) \<and>
                uint (mx_hold (mutexes k' m)) = uint (mx_hold (mutexes k m)) + 1
           else rt_mutex_take m time k = Some (Return k' (- 3)) \<and> mutexes k' = mutexes k)
        else if time = 0
        then \<exists>k'. rt_mutex_take m time k = Some (Return k' (- 2)) \<and> kinv k' \<and> mutexes k' = mutexes k \<and> tlists k' = tlists k
        else \<exists>k1 k'. boost_owner m c (cleared c k) = Some k1 \<and> rt_mutex_take m time k = Some (Wait k' 0) \<and>
          waits_on (Suspend m) c 1 time k1 k' \<and> mutexes k' = mutexes k \<and> mutex_inv m k' \<and>
          thread_prio k' owner = min (thread_prio k owner) (thread_prio k c) \<and>
          (\<forall>u. u \<noteq> owner \<longrightarrow> thread_prio k' u = thread_prio k u))"
proof (cases "mx_owner (mutexes k m)")
  case None
  let ?k1 = "upd_thread c (\<lambda>th. th\<lparr>th_error := 0\<rparr>) k"
  have k1: "kinv ?k1" using inv by (rule kinv_upd_same) simp
  define k' where "k' = upd_mutex m (\<lambda>x. x\<lparr>mx_value := 0, mx_owner := Some c, mx_original_priority := thread_prio k c, mx_hold := 1\<rparr>) ?k1"
  have "rt_mutex_take m time k = Some (Return k' 0)"
    using None m c i by (simp add: rt_mutex_take_def in_thread_context_def mutex_inv_def k'_def upd_mutex_def Let_def)
  moreover have "kinv k'" "mutex_inv m k'" using k1 m running_prio(1) [OF inv c(2)] None by (simp_all add: k'_def mutex_inv_def)
  ultimately show ?thesis using None by (auto simp: k'_def)
next
  case (Some owner)
  let ?k1 = "cleared c k"
  have k1: "kinv ?k1" using inv by (rule kinv_upd_same) simp
  have mv: "mx_value (mutexes k m) = 0" "0 < mx_hold (mutexes k m)" "mx_flag (mutexes k m) = 1"
    "mx_original_priority (mutexes k m) < 32"
    using m Some by (simp_all add: mutex_inv_def)
  consider (full) "owner = c" "mx_hold (mutexes k m) = 0xff" | (again) "owner = c" "mx_hold (mutexes k m) < 0xff"
    | (try_only) "owner \<noteq> c" "time = 0" | (wait) "owner \<noteq> c" "time \<noteq> 0"
    using hold_max by metis
  then show ?thesis
  proof cases
    case full
    have "rt_mutex_take m time k = Some (Return ?k1 (- 3))"
      using Some c i full by (simp add: rt_mutex_take_def in_thread_context_def Let_def)
    then show ?thesis using Some full k1 m by (auto simp: mutex_inv_def)
  next
    case again
    define k' where "k' = upd_mutex m (\<lambda>x. x\<lparr>mx_hold := mx_hold x + 1\<rparr>) ?k1"
    have h: "uint (mx_hold (mutexes k m) + 1) = uint (mx_hold (mutexes k m)) + 1"
      by (rule hold_suc [OF again(2)])
    have "rt_mutex_take m time k = Some (Return k' 0)"
      using Some c i again by (simp add: rt_mutex_take_def in_thread_context_def Let_def k'_def)
    moreover have "mutex_inv m k'" using Some mv h by (simp add: mutex_inv_def k'_def word_less_def)
    ultimately show ?thesis using Some again k1 h by (auto simp: k'_def)
  next
    case try_only
    let ?k2 = "upd_thread c (\<lambda>th. th\<lparr>th_error := - 2\<rparr>) ?k1"
    have "kinv ?k2" using k1 by (rule kinv_upd_same) simp
    moreover have "rt_mutex_take m time k = Some (Return ?k2 (- 2))"
      using Some c i try_only mv by (simp add: rt_mutex_take_def in_thread_context_def Let_def)
    ultimately show ?thesis using Some try_only by auto
  next
    case wait
    obtain k1 k' where w: "boost_owner m c (cleared c k) = Some k1" "rt_mutex_take m time k = Some (Wait k' 0)"
      "waits_on (Suspend m) c 1 time k1 k'" "thread_prio k1 owner = min (thread_prio k owner) (thread_prio k c)"
      "\<And>u. u \<noteq> owner \<Longrightarrow> threads k1 u = threads (cleared c k) u" "objs_same k k1"
      by (rule mutex_take_blocks [OF inv c i m Some wait(1) time wait(2)]) blast
    have mx: "mutexes k' = mutexes k" using w(3,6) by (simp add: waits_on_def ipc_same_def objs_same_def)
    have pr: "thread_prio k' u = thread_prio k1 u" if "u \<noteq> c" for u
      using w(3) that thread_core_eqD(2) unfolding waits_on_def by blast
    have "thread_prio k' c = thread_prio k1 c" using w(3) by (simp add: waits_on_def)
    then have "thread_prio k' c = thread_prio k c" using w(5) [of c] wait(1) by simp
    then have "thread_prio k' u = thread_prio k u" if "u \<noteq> owner" for u
      using pr [of u] w(5) [OF that] that by (cases "u = c") auto
    moreover have "mutex_inv m k'" using Some m by (simp add: mutex_inv_def mx)
    ultimately show ?thesis using Some wait w mx pr [OF wait(1)] by auto
  qed
qed

definition k_demo_mutex :: kernel where
  "k_demo_mutex = upd_mutex 2 (\<lambda>mx. mx\<lparr>mx_value := 0, mx_owner := Some 0, mx_hold := 1, mx_original_priority := 31\<rparr>) k_demo"

lemma k_demo_mutex_simps: "kinv k_demo_mutex" "current_thread k_demo_mutex = Some 1" "thread_stat k_demo_mutex 1 = 3"
  "interrupt_nest k_demo_mutex = 0" "mutex_inv 2 k_demo_mutex" "mx_owner (mutexes k_demo_mutex 2) = Some 0"
  using k_demo_kinv k_demo_current by (simp_all add: k_demo_mutex_def mutex_inv_def) (simp add: k_demo_def)

theorem mutex_take_outcome_witness:
  "\<exists>k1 k'. boost_owner 2 1 (cleared 1 k_demo_mutex) = Some k1 \<and> rt_mutex_take 2 30 k_demo_mutex = Some (Wait k' 0) \<and>
     waits_on (Suspend 2) 1 1 30 k1 k' \<and> mutexes k' = mutexes k_demo_mutex \<and> mutex_inv 2 k' \<and>
     thread_prio k' 0 = min (thread_prio k_demo_mutex 0) (thread_prio k_demo_mutex 1) \<and>
     (\<forall>u. u \<noteq> 0 \<longrightarrow> thread_prio k' u = thread_prio k_demo_mutex u)"
  using mutex_take_outcome [OF k_demo_mutex_simps(1-5), of 30] k_demo_mutex_simps(6) by (simp add: timeout_ok_def)

text \<open>
  C5. \<open>rt_mutex_release\<close>: only the owner can release, anybody else gets \<open>-RT_ERROR\<close>; a nested hold
  is decremented; the last release gives the owner its original priority back and hands the mutex to
  the first waiter, who becomes its owner with one hold and is woken, or leaves it free. The mutex
  invariant is kept.
\<close>

theorem mutex_release_outcome:
  assumes inv: "kinv k" and c: "current_thread k = Some c" "thread_stat k c = 3" and i: "interrupt_nest k = 0"
    and m: "mutex_inv m k"
  shows "if mx_owner (mutexes k m) \<noteq> Some c
     then rt_mutex_release m k = Some (upd_thread c (\<lambda>th. th\<lparr>th_error := - 1\<rparr>) k, - 1)
     else if mx_hold (mutexes k m) \<noteq> 1
     then rt_mutex_release m k = Some (upd_mutex m (\<lambda>x. x\<lparr>mx_hold := mx_hold x - 1\<rparr>) k, 0) \<and>
       mutex_inv m (upd_mutex m (\<lambda>x. x\<lparr>mx_hold := mx_hold x - 1\<rparr>) k)
     else \<exists>k'. rt_mutex_release m k = Some (k', 0) \<and> kinv k' \<and> mutex_inv m k' \<and>
       thread_prio k' c = mx_original_priority (mutexes k m) \<and>
       (\<forall>u. u \<noteq> c \<longrightarrow> thread_prio k' u = thread_prio k u) \<and> (\<forall>m'. m' \<noteq> m \<longrightarrow> mutexes k' m' = mutexes k m') \<and>
       (case tlists k (Suspend m) of
          [] \<Rightarrow> mx_owner (mutexes k' m) = None
        | w # ws \<Rightarrow> mx_owner (mutexes k' m) = Some w \<and> mx_hold (mutexes k' m) = 1 \<and> tlists k' (Suspend m) = ws \<and>
            thread_stat k' w \<noteq> 2)"
proof (cases "mx_owner (mutexes k m) = Some c")
  case False
  then show ?thesis using c i by (simp add: rt_mutex_release_def in_thread_context_def)
next
  case own: True
  have mv: "mx_value (mutexes k m) = 0" "0 < mx_hold (mutexes k m)" "mx_flag (mutexes k m) = 1"
    "mx_original_priority (mutexes k m) < 32"
    using m own by (simp_all add: mutex_inv_def)
  show ?thesis
  proof (cases "mx_hold (mutexes k m) = 1")
    case False
    then have "mx_hold (mutexes k m) - 1 \<noteq> 0" by simp
    then show ?thesis using own c i mv False by (simp add: rt_mutex_release_def in_thread_context_def Let_def mutex_inv_def word_gt_0)
  next
    case True
    obtain k' where "rt_mutex_release m k = Some (k', 0) \<and> kinv k' \<and> mutex_inv m k' \<and>
       thread_prio k' c = mx_original_priority (mutexes k m) \<and>
       (\<forall>u. u \<noteq> c \<longrightarrow> thread_prio k' u = thread_prio k u) \<and> (\<forall>m'. m' \<noteq> m \<longrightarrow> mutexes k' m' = mutexes k m') \<and>
       (case tlists k (Suspend m) of
          [] \<Rightarrow> mx_owner (mutexes k' m) = None
        | w # ws \<Rightarrow> mx_owner (mutexes k' m) = Some w \<and> mx_hold (mutexes k' m) = 1 \<and> tlists k' (Suspend m) = ws \<and>
            thread_stat k' w \<noteq> 2)"
      by (rule mutex_last_release [OF inv c i m own True])
    then show ?thesis using own True by auto
  qed
qed

definition k_demo_own :: kernel where
  "k_demo_own = upd_mutex 2 (\<lambda>mx. mx\<lparr>mx_value := 0, mx_owner := Some 1, mx_hold := 1, mx_original_priority := 12\<rparr>) k_demo"

lemma k_demo_own_simps: "kinv k_demo_own" "current_thread k_demo_own = Some 1" "thread_stat k_demo_own 1 = 3"
  "interrupt_nest k_demo_own = 0" "mutex_inv 2 k_demo_own"
  using k_demo_kinv k_demo_current by (simp_all add: k_demo_own_def mutex_inv_def) (simp add: k_demo_def)

theorem mutex_release_outcome_witness:
  "\<exists>k'. rt_mutex_release 2 k_demo_own = Some (k', 0) \<and> kinv k' \<and> mutex_inv 2 k' \<and> thread_prio k' 1 = 12 \<and>
     mx_owner (mutexes k' 2) = None"
  using mutex_release_outcome [OF k_demo_own_simps]
  by (auto simp: k_demo_own_def demo_lists_def)

text \<open>
  The priority a mutex restores is the one its owner had when it took that mutex. A thread that
  takes a second mutex while its priority is raised on account of the first, and releases the first
  one first, ends up with the raised priority although it holds no mutex and nobody waits for it.
\<close>

theorem mutex_nested_priority_kept:
  assumes inv: "kinv k" and c: "current_thread k = Some c" "thread_stat k c = 3" and i: "interrupt_nest k = 0"
    and a: "mutex_inv a k" "mx_owner (mutexes k a) = Some c" "mx_hold (mutexes k a) = 1" "tlists k (Suspend a) = []"
    and b: "mutex_inv b k" "mx_owner (mutexes k b) = Some c" "mx_hold (mutexes k b) = 1" "tlists k (Suspend b) = []"
    and ab: "a \<noteq> b" and raised: "mx_original_priority (mutexes k b) < mx_original_priority (mutexes k a)"
  shows "\<exists>k1 k2. rt_mutex_release a k = Some (k1, 0) \<and> thread_prio k1 c = mx_original_priority (mutexes k a) \<and>
    rt_mutex_release b k1 = Some (k2, 0) \<and> thread_prio k2 c = mx_original_priority (mutexes k b) \<and>
    mx_owner (mutexes k2 a) = None \<and> mx_owner (mutexes k2 b) = None"
proof -
  obtain k1 where "rt_mutex_release a k = Some (k1, 0) \<and> kinv k1 \<and> mutex_inv a k1 \<and>
      thread_prio k1 c = mx_original_priority (mutexes k a) \<and> (\<forall>u. u \<noteq> c \<longrightarrow> thread_prio k1 u = thread_prio k u) \<and>
      (\<forall>m'. m' \<noteq> a \<longrightarrow> mutexes k1 m' = mutexes k m') \<and> mx_owner (mutexes k1 a) = None"
    by (rule mutex_last_release [OF inv c i a(1-3), unfolded a(4) list.case])
  then have k1: "rt_mutex_release a k = Some (k1, 0)" "kinv k1" "thread_prio k1 c = mx_original_priority (mutexes k a)"
    "mutexes k1 b = mutexes k b" "mx_owner (mutexes k1 a) = None"
    using ab by simp_all
  have fr: "current_thread k1 = Some c" "thread_stat k1 c = 3" "interrupt_nest k1 = 0" "tlists k1 (Suspend b) = []"
    using mutex_release_uncontended [OF inv c i a k1(1)] b(4) i c by simp_all
  have b1: "mutex_inv b k1" using b(1,2,4) fr(4) by (simp add: mutex_inv_def k1(4))
  have bo: "mx_owner (mutexes k1 b) = Some c" "mx_hold (mutexes k1 b) = 1" using b k1(4) by simp_all
  obtain k2 where "rt_mutex_release b k1 = Some (k2, 0) \<and> kinv k2 \<and> mutex_inv b k2 \<and>
      thread_prio k2 c = mx_original_priority (mutexes k1 b) \<and> (\<forall>u. u \<noteq> c \<longrightarrow> thread_prio k2 u = thread_prio k1 u) \<and>
      (\<forall>m'. m' \<noteq> b \<longrightarrow> mutexes k2 m' = mutexes k1 m') \<and> mx_owner (mutexes k2 b) = None"
    by (rule mutex_last_release [OF k1(2) fr(1-3) b1 bo, unfolded fr(4) list.case])
  then have k2: "rt_mutex_release b k1 = Some (k2, 0)" "thread_prio k2 c = mx_original_priority (mutexes k1 b)"
    "mutexes k2 a = mutexes k1 a" "mx_owner (mutexes k2 b) = None"
    using ab by simp_all
  show ?thesis using k1(1,3-5) k2 by simp
qed

definition k_demo_nested :: kernel where
  "k_demo_nested = upd_mutex 3 (\<lambda>mx. mx\<lparr>mx_value := 0, mx_owner := Some 1, mx_hold := 1, mx_original_priority := 10\<rparr>) k_demo_own"

theorem mutex_nested_priority_kept_witness:
  "\<exists>k1 k2. rt_mutex_release 2 k_demo_nested = Some (k1, 0) \<and> thread_prio k1 1 = 12 \<and>
    rt_mutex_release 3 k1 = Some (k2, 0) \<and> thread_prio k2 1 = 10 \<and>
    mx_owner (mutexes k2 2) = None \<and> mx_owner (mutexes k2 3) = None"
proof -
  have k: "kinv k_demo_nested" "current_thread k_demo_nested = Some 1" "thread_stat k_demo_nested 1 = 3"
    "interrupt_nest k_demo_nested = 0" "mutex_inv 2 k_demo_nested" "mutex_inv 3 k_demo_nested"
    using k_demo_own_simps by (simp_all add: k_demo_nested_def mutex_inv_def) (simp_all add: k_demo_def k_demo_own_def)
  show ?thesis
    using mutex_nested_priority_kept [OF k(1-5) _ _ _ k(6)]
    by (simp add: k_demo_nested_def k_demo_own_def demo_lists_def)
qed

text \<open>
  \<open>RT_THREAD_CTRL_CHANGE_PRIORITY\<close>, which priority inheritance uses, does not move a thread that
  waits on an object: the queue keeps its order of threads, so it is no longer in priority order
  once a waiting thread gets a higher priority than one before it.
\<close>

theorem priority_change_ignores_queue:
  assumes inv: "kinv k" and p: "p < 32" and q: "tlists k (Suspend s) = us @ t # vs"
    and u: "u \<in> set us" "p < thread_prio k u"
  shows "\<exists>k'. rt_thread_control t 2 p k = Some (k', 0) \<and> kinv k' \<and> thread_prio k' t = p \<and>
    tlists k' (Suspend s) = tlists k (Suspend s) \<and> \<not> sorted (map (thread_prio k') (tlists k' (Suspend s)))"
proof -
  obtain k' where k': "thread_change_priority t p k = Some k'" "kinv k'"
    "thread_core (threads k' t) = thread_core (with_priority p (threads k t))"
    "\<And>u. u \<noteq> t \<Longrightarrow> threads k' u = threads k u" "\<And>h. \<forall>p. h \<noteq> Ready p \<Longrightarrow> tlists k' h = tlists k h"
    by (rule change_priority_spec [OF inv p]) blast
  have "qinv {} k" using inv by (simp add: kinv_def sched_inv_def)
  then have "distinct (us @ t # vs)" using qinvD(5) [of "{}" k "Suspend s"] q by simp
  then have "u \<noteq> t" using u(1) by auto
  have pt: "thread_prio k' t = p" using thread_core_eqD(2) [OF k'(3)] by simp
  have "thread_prio k' u = thread_prio k u" using k'(4) [OF \<open>u \<noteq> t\<close>] by simp
  then have "\<not> sorted (map (thread_prio k') (us @ t # vs))"
    using u pt by (simp add: sorted_append) (metis leD)
  then show ?thesis using k'(1,2,5) pt q by (auto simp: rt_thread_control_def)
qed

definition k_demo_queue :: kernel where
  "k_demo_queue = k_demo_wait\<lparr>tlists := (tlists k_demo_wait)(Suspend 7 := [1, 3])\<rparr>"

lemma k_demo_queue_kinv: "kinv k_demo_queue"
proof -
  have s: "sched_inv k_demo_wait" "timer_ok {} k_demo_wait" using k_demo_wait_kinv by (simp_all add: kinv_def)
  have nl: "3 \<notin> set (tlists k_demo_wait h)" for h by (simp add: k_demo_wait_def demo_lists_def)
  have "qinv {3} k_demo_wait" using s(1) nl unfolding sched_inv_def qinv_def by auto
  then have "qinv ({3} - {3}) k_demo_queue"
    by (rule qinv_link [where h = "Suspend 7" and xs = "[1, 3]"])
      (auto simp: k_demo_queue_def k_demo_wait_def demo_threads_def demo_thread_def list_stat_def prio_ok_def)
  then have "sched_inv k_demo_queue" using s(1) by (simp add: sched_inv_def cur_inv_def k_demo_queue_def)
  moreover have "timer_ok {} k_demo_queue" by (rule timer_ok_frame [OF s(2)]) (simp_all add: k_demo_queue_def)
  ultimately show ?thesis by (simp add: kinv_def)
qed

theorem priority_change_ignores_queue_witness:
  "\<exists>k'. rt_thread_control 3 2 2 k_demo_queue = Some (k', 0) \<and> kinv k' \<and> thread_prio k' 3 = 2 \<and>
    tlists k' (Suspend 7) = tlists k_demo_queue (Suspend 7) \<and> \<not> sorted (map (thread_prio k') (tlists k' (Suspend 7)))"
  by (rule priority_change_ignores_queue [OF k_demo_queue_kinv, of 2 7 "[1]" 3 "[]" 1])
    (simp_all add: k_demo_queue_def k_demo_wait_def demo_threads_def demo_thread_def)

end
