(* ===== verification/Event.thy ===== *)
theory Event
  imports Semaphore
begin

text \<open>The event sets of \<open>src/ipc.c\<close>.\<close>

abbreviation (input) RT_EVENT_FLAG_AND :: u8 where "RT_EVENT_FLAG_AND \<equiv> 1"
abbreviation (input) RT_EVENT_FLAG_OR :: u8 where "RT_EVENT_FLAG_OR \<equiv> 2"
abbreviation (input) RT_EVENT_FLAG_CLEAR :: u8 where "RT_EVENT_FLAG_CLEAR \<equiv> 4"

definition upd_event :: "obj \<Rightarrow> (rt_event \<Rightarrow> rt_event) \<Rightarrow> kernel \<Rightarrow> kernel" where
  "upd_event e f k = k\<lparr>events := (events k)(e := f (events k e))\<rparr>"

definition rt_event_init :: "obj \<Rightarrow> u8 \<Rightarrow> kernel \<Rightarrow> kernel \<times> rt_err_t" where
  "rt_event_init e flag k = (upd_event e (\<lambda>_. \<lparr>ev_flag = flag, ev_set = 0\<rparr>) (ipc_object_init (Suspend e) k), RT_EOK)"

definition rt_event_detach :: "obj \<Rightarrow> kernel \<Rightarrow> (kernel \<times> rt_err_t) option" where
  "rt_event_detach e k = do { k1 \<leftarrow> ipc_list_resume_all (Suspend e) k; Some (k1, RT_EOK) }"

definition rt_event_create :: "bool \<Rightarrow> obj \<Rightarrow> u8 \<Rightarrow> kernel \<Rightarrow> (kernel \<times> obj option) option" where
  "rt_event_create obj_ok e flag k =
     do { rt_assert (interrupt_nest k = 0);
          if \<not> obj_ok then Some (k, None)
          else Some (upd_event e (\<lambda>_. \<lparr>ev_flag = flag, ev_set = 0\<rparr>) (ipc_object_init (Suspend e) k), Some e) }"

definition rt_event_delete :: "obj \<Rightarrow> kernel \<Rightarrow> (kernel \<times> rt_err_t) option" where
  "rt_event_delete e k =
     do { rt_assert (interrupt_nest k = 0);
          k1 \<leftarrow> ipc_list_resume_all (Suspend e) k;
          Some (k1, RT_EOK) }"

text \<open>
  One waiting thread in the loop of \<open>rt_event_send\<close>: \<open>None\<close> for the early return with
  \<open>-RT_EINVAL\<close>; otherwise the state and whether a thread was resumed.
\<close>

definition event_check_waiter :: "obj \<Rightarrow> tid \<Rightarrow> kernel \<Rightarrow> (kernel \<times> bool) option" where
  "event_check_waiter e t k =
     (let info = th_event_info (threads k t); want = th_event_set (threads k t); have_set = ev_set (events k e) in
      if info AND RT_EVENT_FLAG_AND \<noteq> 0
      then if want AND have_set = want
           then let k1 = (if info AND RT_EVENT_FLAG_CLEAR \<noteq> 0
                          then upd_event e (\<lambda>x. x\<lparr>ev_set := ev_set x AND NOT want\<rparr>) k else k)
                in Some (fst (rt_thread_resume t k1), True)
           else Some (k, False)
      else if info AND RT_EVENT_FLAG_OR \<noteq> 0
      then if want AND have_set \<noteq> 0
           then let k1 = upd_thread t (\<lambda>th. th\<lparr>th_event_set := want AND have_set\<rparr>) k;
                    k2 = (if info AND RT_EVENT_FLAG_CLEAR \<noteq> 0
                          then upd_event e (\<lambda>x. x\<lparr>ev_set := ev_set x AND NOT (want AND have_set)\<rparr>) k1 else k1)
                in Some (fst (rt_thread_resume t k2), True)
           else Some (k, False)
      else None)"

text \<open>The loop over the waiting threads, with the next node read before a thread leaves the list.\<close>

fun event_send_loop :: "obj \<Rightarrow> tid list \<Rightarrow> bool \<Rightarrow> kernel \<Rightarrow> kernel \<times> bool \<times> rt_err_t" where
  "event_send_loop e [] need k = (k, need, RT_EOK)"
| "event_send_loop e (t # ts) need k =
     (case event_check_waiter e t k of
        None \<Rightarrow> (k, need, - RT_EINVAL)
      | Some (k1, resumed) \<Rightarrow> event_send_loop e ts (need \<or> resumed) k1)"

definition rt_event_send :: "obj \<Rightarrow> u32 \<Rightarrow> kernel \<Rightarrow> (kernel \<times> rt_err_t) option" where
  "rt_event_send e bits k =
     (if bits = 0 then Some (k, - RT_ERROR)
      else let k1 = upd_event e (\<lambda>x. x\<lparr>ev_set := ev_set x OR bits\<rparr>) k in
           (case event_send_loop e (tlists k1 (Suspend e)) False k1 of
              (k2, need, err) \<Rightarrow>
                if err \<noteq> RT_EOK then Some (k2, err)
                else if need then do { k3 \<leftarrow> rt_schedule k2; Some (k3, RT_EOK) }
                else Some (k2, RT_EOK)))"

text \<open>\<open>rt_event_recv\<close>; the word \<open>*recved\<close> is part of the result (\<open>None\<close>: not written).\<close>

definition rt_event_recv :: "obj \<Rightarrow> u32 \<Rightarrow> u8 \<Rightarrow> int \<Rightarrow> kernel \<Rightarrow> (u32 option \<times> rt_err_t) outcome option" where
  "rt_event_recv e bits opt timeout k =
     do { rt_assert (in_thread_context k);
          t \<leftarrow> current_thread k;
          if bits = 0 then Some (Return k (None, - RT_ERROR))
          else do {
            let k1 = upd_thread t (\<lambda>th. th\<lparr>th_error := RT_EOK\<rparr>) k;
            let have_set = ev_set (events k1 e);
            rt_assert (opt AND RT_EVENT_FLAG_AND \<noteq> 0 \<or> opt AND RT_EVENT_FLAG_OR \<noteq> 0);
            if (if opt AND RT_EVENT_FLAG_AND \<noteq> 0 then have_set AND bits = bits else have_set AND bits \<noteq> 0)
            then let k2 = upd_thread t (\<lambda>th. th\<lparr>th_event_set := have_set AND bits, th_event_info := opt\<rparr>) k1;
                     k3 = (if opt AND RT_EVENT_FLAG_CLEAR \<noteq> 0
                           then upd_event e (\<lambda>x. x\<lparr>ev_set := ev_set x AND NOT bits\<rparr>) k2 else k2)
                 in Some (Return k3 (Some (have_set AND bits), th_error (threads k3 t)))
            else if timeout = 0
            then Some (Return (upd_thread t (\<lambda>th. th\<lparr>th_error := - RT_ETIMEOUT\<rparr>) k1) (None, - RT_ETIMEOUT))
            else do {
              let k2 = upd_thread t (\<lambda>th. th\<lparr>th_event_set := bits, th_event_info := opt\<rparr>) k1;
              k3 \<leftarrow> ipc_block (Suspend e) t (ev_flag (events k2 e)) timeout k2;
              Some (Wait k3 0) } } }"

definition rt_event_recv_return :: "tid \<Rightarrow> kernel \<Rightarrow> kernel \<times> u32 option \<times> rt_err_t" where
  "rt_event_recv_return t k =
     (if th_error (threads k t) \<noteq> RT_EOK then (k, None, th_error (threads k t))
      else (k, Some (th_event_set (threads k t)), th_error (threads k t)))"

definition rt_event_control :: "obj \<Rightarrow> int \<Rightarrow> kernel \<Rightarrow> (kernel \<times> rt_err_t) option" where
  "rt_event_control e cmd k =
     (if cmd = RT_IPC_CMD_RESET
      then do { k1 \<leftarrow> ipc_list_resume_all (Suspend e) k;
                k2 \<leftarrow> rt_schedule (upd_event e (\<lambda>x. x\<lparr>ev_set := 0\<rparr>) k1);
                Some (k2, RT_EOK) }
      else Some (k, - RT_ERROR))"

section \<open>Lemmas\<close>

lemma upd_event_frame [simp]:
  "events (upd_event e f k) = (events k)(e := f (events k e))"
  "threads (upd_event e f k) = threads k" "tlists (upd_event e f k) = tlists k"
  "ready_priority_group (upd_event e f k) = ready_priority_group k"
  "current_thread (upd_event e f k) = current_thread k" "timers (upd_event e f k) = timers k"
  "timer_list (upd_event e f k) = timer_list k" "soft_timer_list (upd_event e f k) = soft_timer_list k"
  "scheduler_lock_nest (upd_event e f k) = scheduler_lock_nest k" "rt_tick (upd_event e f k) = rt_tick k"
  "interrupt_nest (upd_event e f k) = interrupt_nest k"
  by (simp_all add: upd_event_def)

lemma kinv_upd_event [simp]: "kinv (upd_event e f k) \<longleftrightarrow> kinv k"
  using kinv_frame [of k "upd_event e f k"] kinv_frame [of "upd_event e f k" k] by auto

text \<open>
  What \<open>rt_event_send\<close> promises, without the kernel: the waiting threads are looked at in the order
  of the queue, with the bits still set; a thread is served when all (AND) or some (OR) of the bits it
  waits for are set, it receives those of them that are set, and with the CLEAR option they are
  cleared before the next thread is looked at.
\<close>

definition event_valid :: "u8 \<Rightarrow> bool" where
  "event_valid info \<longleftrightarrow> info AND RT_EVENT_FLAG_AND \<noteq> 0 \<or> info AND RT_EVENT_FLAG_OR \<noteq> 0"

definition event_match :: "u8 \<Rightarrow> u32 \<Rightarrow> u32 \<Rightarrow> bool" where
  "event_match info want s \<longleftrightarrow>
     (if info AND RT_EVENT_FLAG_AND \<noteq> 0 then want AND s = want else want AND s \<noteq> 0)"

definition event_left :: "u8 \<Rightarrow> u32 \<Rightarrow> u32 \<Rightarrow> u32" where
  "event_left info want s = (if info AND RT_EVENT_FLAG_CLEAR \<noteq> 0 then s AND NOT (want AND s) else s)"

fun event_delivery :: "(tid \<Rightarrow> rt_thread) \<Rightarrow> tid list \<Rightarrow> u32 \<Rightarrow> u32 \<times> (tid \<times> u32) list" where
  "event_delivery thr [] s = (s, [])"
| "event_delivery thr (t # ts) s =
     (let info = th_event_info (thr t); want = th_event_set (thr t) in
      if event_match info want s
      then let (s', ds) = event_delivery thr ts (event_left info want s) in (s', (t, want AND s) # ds)
      else event_delivery thr ts s)"

lemma event_delivery_cong:
  "(\<And>t. t \<in> set ts \<Longrightarrow> thr t = thr' t) \<Longrightarrow> event_delivery thr ts s = event_delivery thr' ts s"
  by (induction ts arbitrary: s) (simp_all add: Let_def)

lemma event_delivery_threads: "event_delivery thr ts s = (s', ds) \<Longrightarrow> fst ` set ds \<subseteq> set ts"
  by (induction ts arbitrary: s s' ds) (auto simp: Let_def split: if_splits prod.splits, fastforce+)

text \<open>Bits are only ever cleared, so who is not served when looked at is not served at the end.\<close>

lemma event_match_antimono:
  assumes "event_match info want (s AND m)"
  shows "event_match info want s"
proof (cases "info AND 1 = 0")
  case True
  have "want AND (s AND m) = (want AND s) AND m" by (simp add: and.assoc)
  then show ?thesis using assms True by (auto simp: event_match_def)
next
  case False
  then have e: "want AND (s AND m) = want" using assms by (simp add: event_match_def)
  have "want AND s = (want AND (s AND m)) AND s" by (simp add: e)
  also have "\<dots> = want AND (s AND m)" by (simp add: and.assoc and.left_commute and.commute [of m s])
  finally show ?thesis using e False by (simp add: event_match_def)
qed

lemma event_left_subset: "\<exists>m. event_left info want s = s AND m"
  unfolding event_left_def by (metis and.idem)

lemma event_delivery_subset: "event_delivery thr ts s = (s', ds) \<Longrightarrow> \<exists>m. s' = s AND m"
proof (induction ts arbitrary: s s' ds)
  case Nil
  then show ?case by (metis and.idem event_delivery.simps(1) prod.inject)
next
  case (Cons t ts)
  let ?info = "th_event_info (thr t)" and ?want = "th_event_set (thr t)"
  show ?case
  proof (cases "event_match ?info ?want s")
    case True
    then obtain ds' where "event_delivery thr ts (event_left ?info ?want s) = (s', ds')"
      using Cons.prems by (auto simp: Let_def split: prod.splits)
    from Cons.IH [OF this] event_left_subset [of ?info ?want s] show ?thesis by (metis and.assoc)
  next
    case False
    then have "event_delivery thr ts s = (s', ds)" using Cons.prems by (simp add: Let_def)
    then show ?thesis by (rule Cons.IH)
  qed
qed

lemma event_delivery_complete:
  "event_delivery thr ts s = (s', ds) \<Longrightarrow> t \<in> set ts \<Longrightarrow> t \<notin> fst ` set ds \<Longrightarrow>
     \<not> event_match (th_event_info (thr t)) (th_event_set (thr t)) s'"
proof (induction ts arbitrary: s ds)
  case (Cons u us)
  let ?info = "th_event_info (thr u)" and ?want = "th_event_set (thr u)"
  show ?case
  proof (cases "event_match ?info ?want s")
    case True
    then obtain ds' where d: "event_delivery thr us (event_left ?info ?want s) = (s', ds')" "ds = (u, ?want AND s) # ds'"
      using Cons.prems(1) by (auto simp: Let_def split: prod.splits)
    then show ?thesis using Cons.IH [OF d(1)] Cons.prems by auto
  next
    case False
    then have d: "event_delivery thr us s = (s', ds)" using Cons.prems(1) by (simp add: Let_def)
    obtain m where "s' = s AND m" using event_delivery_subset [OF d] by blast
    then have "\<not> event_match ?info ?want s'" using False event_match_antimono by blast
    then show ?thesis using Cons.IH [OF d] Cons.prems(2,3) by auto
  qed
qed simp

subsection \<open>The loop of \<open>rt_event_send\<close>\<close>

lemma upd_thread_event_set_id: "upd_thread t (\<lambda>th. th\<lparr>th_event_set := th_event_set (threads k t)\<rparr>) k = k"
  by (simp add: upd_thread_def)

lemma event_check_waiter_eq:
  assumes "event_valid (th_event_info (threads k t))"
  shows "event_check_waiter e t k =
    (let info = th_event_info (threads k t); want = th_event_set (threads k t); s = ev_set (events k e) in
     if event_match info want s
     then Some (fst (rt_thread_resume t (upd_event e (\<lambda>x. x\<lparr>ev_set := event_left info want s\<rparr>)
            (upd_thread t (\<lambda>th. th\<lparr>th_event_set := want AND s\<rparr>) k))), True)
     else Some (k, False))"
proof (cases "th_event_info (threads k t) AND 1 = 0")
  case True
  have "(upd_thread t f k)\<lparr>events := events k\<rparr> = upd_thread t f k" for f by (simp add: upd_thread_def)
  note id = this
  show ?thesis
    using True assms
    by (auto simp: id event_check_waiter_def event_match_def event_left_def event_valid_def Let_def upd_event_def)
next
  case False
  let ?want = "th_event_set (threads k t)" and ?s = "ev_set (events k e)"
  have id: "upd_event e (\<lambda>x. x\<lparr>ev_set := ?s\<rparr>) k = k" by (simp add: upd_event_def)
  have m: "upd_event e (\<lambda>x. x\<lparr>ev_set := ev_set x AND m\<rparr>) k = upd_event e (\<lambda>x. x\<lparr>ev_set := ?s AND m\<rparr>) k" for m
    by (simp add: upd_event_def)
  show ?thesis
  proof (cases "?want AND ?s = ?want")
    case True
    have "event_check_waiter e t k = Some (fst (rt_thread_resume t (upd_event e
        (\<lambda>x. x\<lparr>ev_set := event_left (th_event_info (threads k t)) ?want ?s\<rparr>) k)), True)"
      using False True id by (simp add: event_check_waiter_def event_left_def m Let_def)
    then show ?thesis
      using False True by (simp add: event_match_def Let_def upd_thread_event_set_id)
  qed (use False in \<open>simp add: event_check_waiter_def event_match_def Let_def\<close>)
qed

definition event_served :: "obj \<Rightarrow> u32 \<Rightarrow> (tid \<times> u32) list \<Rightarrow> kernel \<Rightarrow> kernel \<Rightarrow> bool" where
  "event_served e s ds k k' \<longleftrightarrow>
     kinv k' \<and> ev_set (events k' e) = s \<and> (\<forall>e'. e' \<noteq> e \<longrightarrow> events k' e' = events k e') \<and>
     tlists k' (Suspend e) = filter (\<lambda>t. t \<notin> fst ` set ds) (tlists k (Suspend e)) \<and>
     (\<forall>h. h \<noteq> Suspend e \<longrightarrow> (\<forall>p. h \<noteq> Ready p) \<longrightarrow> tlists k' h = tlists k h) \<and>
     (\<forall>(t, got) \<in> set ds. thread_stat k' t \<noteq> 2 \<and> th_event_set (threads k' t) = got) \<and>
     (\<forall>t. t \<notin> fst ` set ds \<longrightarrow> thread_core (threads k' t) = thread_core (threads k t) \<and>
        (thread_stat k' t = 2 \<longrightarrow> thread_stat k t = 2)) \<and>
     (\<forall>t. th_error (threads k' t) = th_error (threads k t))"

lemma event_check_waiter_spec:
  assumes inv: "kinv k" and t: "t \<in> set (tlists k (Suspend e))"
    and v: "event_valid (th_event_info (threads k t))"
    and m: "event_match (th_event_info (threads k t)) (th_event_set (threads k t)) (ev_set (events k e))"
    and s: "s = event_left (th_event_info (threads k t)) (th_event_set (threads k t)) (ev_set (events k e))"
    and got: "got = th_event_set (threads k t) AND ev_set (events k e)"
  obtains k1 where "event_check_waiter e t k = Some (k1, True)" "event_served e s [(t, got)] k k1"
    "\<And>u. u \<noteq> t \<Longrightarrow> threads k1 u = threads k u" "current_thread k1 = current_thread k"
proof -
  let ?k0 = "upd_event e (\<lambda>x. x\<lparr>ev_set := s\<rparr>) (upd_thread t (\<lambda>th. th\<lparr>th_event_set := got\<rparr>) k)"
  define k1 where "k1 = fst (rt_thread_resume t ?k0)"
  have i: "kinv (upd_thread t (\<lambda>th. th\<lparr>th_event_set := got\<rparr>) k)" using inv by (rule kinv_upd_same) simp
  then have i0: "kinv ?k0" by simp
  have qi: "qinv {} k" using inv by (simp add: kinv_def sched_inv_def)
  have st: "thread_stat k t = 2" using qinvD(2) [OF qi t] by (simp add: list_stat_def)
  have st0: "thread_stat ?k0 t = 2" using st by simp
  note res = resume_spec [OF i0 st0 k1_def]
  have oth: "t \<notin> set (tlists k h)" if "h \<noteq> Suspend e" for h using qinvD(6) [OF qi t, of h] that by blast
  have l1: "tlists k1 (Suspend e) = removeAll t (tlists k (Suspend e))"
    using res(3) [of "Suspend e"] by simp
  have l2: "tlists k1 h = tlists k h" if "h \<noteq> Suspend e" "\<forall>p. h \<noteq> Ready p" for h
    using res(3) [OF that(2)] oth [OF that(1)] by simp
  have rest: "threads k1 u = threads k u" if "u \<noteq> t" for u using res(4) [OF that] that by simp
  have core: "thread_core (threads k1 t) = thread_core ((threads k t)\<lparr>th_event_set := got\<rparr>)"
    using res(5) [of t] by simp
  note cD = thread_core_eqD [OF core]
  have er: "th_error (threads k1 u) = th_error (threads k u)" for u
    by (cases "u = t") (simp_all add: cD(1) rest)
  have "event_served e s [(t, got)] k k1"
    unfolding event_served_def
  proof (intro conjI allI impI ballI)
    show "kinv k1" by (rule res(1))
    show "ev_set (events k1 e) = s" "\<And>e'. e' \<noteq> e \<Longrightarrow> events k1 e' = events k e'"
      using ipc_sameD(3) [OF res(7)] by simp_all
    show "tlists k1 (Suspend e) = filter (\<lambda>u. u \<notin> fst ` set [(t, got)]) (tlists k (Suspend e))"
      using l1 by (simp add: removeAll_filter_not_eq neq_commute)
    show "case p of (u, g) \<Rightarrow> thread_stat k1 u \<noteq> 2 \<and> th_event_set (threads k1 u) = g" if "p \<in> set [(t, got)]" for p
      using that res(2) cD(4) by (simp split: if_splits)
    show "thread_core (threads k1 u) = thread_core (threads k u)" "thread_stat k1 u = 2 \<Longrightarrow> thread_stat k u = 2"
      if "u \<notin> fst ` set [(t, got)]" for u
      using rest [of u] that by simp_all
  qed (use l2 er in simp_all)
  moreover have "event_check_waiter e t k = Some (k1, True)"
    unfolding event_check_waiter_eq [OF v] Let_def k1_def s got using m by simp
  ultimately show thesis using that rest res(6) by simp
qed

lemma event_send_loop_spec:
  assumes "kinv k" "distinct ts" "set ts \<subseteq> set (tlists k (Suspend e))"
    "\<forall>t \<in> set ts. event_valid (th_event_info (threads k t))"
    "event_delivery (threads k) ts (ev_set (events k e)) = (s, ds)"
  shows "\<exists>k'. event_send_loop e ts need k = (k', need \<or> ds \<noteq> [], 0) \<and> event_served e s ds k k' \<and>
    current_thread k' = current_thread k"
  using assms
proof (induction ts arbitrary: k ds need)
  case Nil
  then show ?case by (auto simp: event_served_def)
next
  case (Cons t ts)
  let ?info = "th_event_info (threads k t)" and ?want = "th_event_set (threads k t)" and ?s = "ev_set (events k e)"
  have v: "event_valid ?info" using Cons.prems(4) by simp
  show ?case
  proof (cases "event_match ?info ?want ?s")
    case False
    then have "event_delivery (threads k) ts ?s = (s, ds)" "event_check_waiter e t k = Some (k, False)"
      using Cons.prems(5) by (simp_all add: Let_def event_check_waiter_eq [OF v])
    then show ?thesis using Cons.IH [of k ds need] Cons.prems by simp
  next
    case True
    obtain ds' where d: "event_delivery (threads k) ts (event_left ?info ?want ?s) = (s, ds')"
      "ds = (t, ?want AND ?s) # ds'"
      using True Cons.prems(5) by (auto simp: Let_def split: prod.splits)
    obtain k1 where k1: "event_check_waiter e t k = Some (k1, True)"
      "event_served e (event_left ?info ?want ?s) [(t, ?want AND ?s)] k k1"
      "\<And>u. u \<noteq> t \<Longrightarrow> threads k1 u = threads k u" "current_thread k1 = current_thread k"
      by (rule event_check_waiter_spec [OF Cons.prems(1) _ v True refl refl]) (use Cons.prems(3) in auto)
    note sv = k1(2) [unfolded event_served_def, simplified]
    have nt: "u \<noteq> t" if "u \<in> set ts" for u using that Cons.prems(2) by auto
    have "event_delivery (threads k1) ts (ev_set (events k1 e)) = (s, ds')"
      using d(1) sv event_delivery_cong [of ts "threads k1" "threads k"] k1(3) nt by simp
    moreover have "set ts \<subseteq> set (tlists k1 (Suspend e))" using Cons.prems(3) nt sv by auto
    moreover have "\<forall>u \<in> set ts. event_valid (th_event_info (threads k1 u))" using Cons.prems(4) k1(3) nt by simp
    ultimately obtain k' where k': "event_send_loop e ts True k1 = (k', True, 0)"
      "event_served e s ds' k1 k'" "current_thread k' = current_thread k1"
      using Cons.IH [of k1 ds' True] Cons.prems(2) sv by auto
    have nd: "t \<notin> fst ` set ds'" using event_delivery_threads [OF d(1)] Cons.prems(2) by auto
    note sv' = k'(2) [unfolded event_served_def]
    have core: "thread_core (threads k' t) = thread_core (threads k1 t)" "thread_stat k' t \<noteq> 2"
      using sv' sv nd by auto
    have "event_served e s ds k k'"
      unfolding event_served_def d(2)
    proof (intro conjI allI impI ballI)
      show "tlists k' (Suspend e) = filter (\<lambda>u. u \<notin> fst ` set ((t, ?want AND ?s) # ds')) (tlists k (Suspend e))"
        using sv sv' by (auto simp: intro!: filter_cong)
      show "case p of (u, got) \<Rightarrow> thread_stat k' u \<noteq> 2 \<and> th_event_set (threads k' u) = got"
        if "p \<in> set ((t, ?want AND ?s) # ds')" for p
        using that sv' core(2) thread_core_eqD(4) [OF core(1)] sv by (cases p) auto
      show "thread_core (threads k' u) = thread_core (threads k u)" "thread_stat k' u = 2 \<Longrightarrow> thread_stat k u = 2"
        if "u \<notin> fst ` set ((t, ?want AND ?s) # ds')" for u
      proof -
        have u: "u \<noteq> t" "u \<notin> fst ` set ds'" using that by auto
        show "thread_core (threads k' u) = thread_core (threads k u)" "thread_stat k' u = 2 \<Longrightarrow> thread_stat k u = 2"
          using k1(3) [OF u(1)] sv' u(2) by auto
      qed
    qed (simp_all add: sv sv')
    then show ?thesis using k1(1,4) k'(1,3) d(2) by simp
  qed
qed


lemma event_served_schedule:
  assumes sv: "event_served e s ds k k1" and r: "rt_schedule k1 = Some k2" and i2: "kinv k2"
  shows "event_served e s ds k k2"
proof -
  note sv1 = sv [unfolded event_served_def]
  have "sched_inv k2" using i2 by (simp add: kinv_def)
  note sch = schedule_kinv [OF _ r this]
  have k1: "kinv k1" using sv1 by simp
  have core: "thread_core (threads k2 t) = thread_core (threads k1 t)" for t by (rule sch(4) [OF k1])
  note bk = rt_schedule_back(1) [OF r]
  show ?thesis
    unfolding event_served_def
  proof (intro conjI allI impI ballI)
    show "tlists k2 (Suspend e) = filter (\<lambda>t. t \<notin> fst ` set ds) (tlists k (Suspend e))"
      using sch(3) [OF k1, of "Suspend e"] sv1 by simp
    show "tlists k2 h = tlists k h" if "h \<noteq> Suspend e" "\<forall>p. h \<noteq> Ready p" for h
      using sch(3) [OF k1 that(2)] sv1 that by simp
    show "case p of (t, got) \<Rightarrow> thread_stat k2 t \<noteq> 2 \<and> th_event_set (threads k2 t) = got" if "p \<in> set ds" for p
      using sv1 that bk [of "fst p"] thread_core_eqD(4) [OF core [of "fst p"]] by (cases p) auto
    show "thread_core (threads k2 t) = thread_core (threads k t)" if "t \<notin> fst ` set ds" for t
      using sv1 that core [of t] by simp
    show "thread_stat k t = 2" if "t \<notin> fst ` set ds" "thread_stat k2 t = 2" for t
      using sv1 that(1) bk [OF that(2)] by blast
    show "th_error (threads k2 t) = th_error (threads k t)" for t
      using thread_core_eqD(1) [OF core [of t]] sv1 by simp
  qed (use sv1 i2 ipc_sameD(3) [OF sch(2) [OF k1]] in simp_all)
qed

lemma event_left_eq: "event_left info want s = (if info AND 4 \<noteq> 0 then s AND NOT want else s)"
  unfolding event_left_def by (auto intro!: bit_eqI simp: bit_simps)

text \<open>Only valid options wait: \<open>rt_event_recv\<close> asserts it.\<close>

definition event_inv :: "obj \<Rightarrow> kernel \<Rightarrow> bool" where
  "event_inv e k \<longleftrightarrow> (\<forall>t \<in> set (tlists k (Suspend e)). event_valid (th_event_info (threads k t)))"

section \<open>Properties\<close>

text \<open>
  C27. \<open>rt_event_send\<close> serves the waiting threads as the abstract delivery says: with the bits added to
  the set, every thread of the queue whose condition holds when its turn comes is made ready and
  finds the bits it received, the set is left with the bits no CLEAR option took, and the others
  stay in the queue in their order. Nobody whose condition holds is left waiting.
\<close>

theorem event_send_outcome:
  assumes inv: "kinv k" and c: "current_thread k \<noteq> None" and ev: "event_inv e k"
    and del: "event_delivery (threads k) (tlists k (Suspend e)) (ev_set (events k e) OR bits) = (s, ds)"
  shows "if bits = 0 then rt_event_send e bits k = Some (k, - 1)
     else \<exists>k'. rt_event_send e bits k = Some (k', 0) \<and> event_served e s ds k k' \<and> event_inv e k' \<and>
       (\<forall>(t, got) \<in> set ds. rt_event_recv_return t k' =
          (if th_error (threads k t) = 0 then (k', Some got, 0) else (k', None, th_error (threads k t)))) \<and>
       (\<forall>t \<in> set (tlists k' (Suspend e)). \<not> event_match (th_event_info (threads k' t)) (th_event_set (threads k' t)) s)"
proof (cases "bits = 0")
  case False
  let ?k0 = "upd_event e (\<lambda>x. x\<lparr>ev_set := ev_set x OR bits\<rparr>) k"
  have qi: "qinv {} k" using inv by (simp add: kinv_def sched_inv_def)
  obtain k1 where k1: "event_send_loop e (tlists k (Suspend e)) False ?k0 = (k1, ds \<noteq> [], 0)"
    "event_served e s ds ?k0 k1" "current_thread k1 = current_thread k"
    using event_send_loop_spec [of ?k0 "tlists k (Suspend e)" e s ds False] inv ev del qinvD(5) [OF qi, of "Suspend e"]
    by (auto simp: event_inv_def)
  have sv1: "event_served e s ds k k1" using k1(2) by (simp add: event_served_def)
  obtain k' where k': "rt_event_send e bits k = Some (k', 0)" "event_served e s ds k k'"
  proof (cases "ds = []")
    case True
    then show thesis using that [of k1] k1(1) sv1 False by (simp add: rt_event_send_def)
  next
    case ds: False
    have i1: "kinv k1" using sv1 by (simp add: event_served_def)
    obtain c1 where c1: "current_thread k1 = Some c1" using k1(3) c by auto
    obtain k2 where k2: "rt_schedule k1 = Some k2" "kinv k2" by (rule schedule_kinv_defined [OF i1 c1])
    have "rt_event_send e bits k = Some (k2, 0)" using False ds k1(1) k2(1) by (simp add: rt_event_send_def)
    moreover have "event_served e s ds k k2" using event_served_schedule [OF sv1 k2] .
    ultimately show thesis by (rule that)
  qed
  note sv = k'(2) [unfolded event_served_def]
  have left: "event_valid (th_event_info (threads k' t)) \<and>
      \<not> event_match (th_event_info (threads k' t)) (th_event_set (threads k' t)) s"
    if "t \<in> set (tlists k' (Suspend e))" for t
  proof -
    have t: "t \<in> set (tlists k (Suspend e))" "t \<notin> fst ` set ds" using that sv by auto
    then have "thread_core (threads k' t) = thread_core (threads k t)" using sv by blast
    note cD = thread_core_eqD(4,5) [OF this]
    show ?thesis
      unfolding cD using event_delivery_complete [OF del t] t(1) ev by (simp add: event_inv_def)
  qed
  have "rt_event_recv_return t k' =
      (if th_error (threads k t) = 0 then (k', Some got, 0) else (k', None, th_error (threads k t)))"
    if "(t, got) \<in> set ds" for t got
  proof -
    have "th_error (threads k' t) = th_error (threads k t)" "th_event_set (threads k' t) = got" using that sv by auto
    then show ?thesis by (simp add: rt_event_recv_return_def)
  qed
  then show ?thesis using False k' left by (auto simp: event_inv_def)
qed (simp add: rt_event_send_def)

definition k_demo_event :: kernel where
  "k_demo_event = upd_event 7 (\<lambda>_. \<lparr>ev_flag = 0, ev_set = 1\<rparr>)
     (upd_thread 1 (\<lambda>th. th\<lparr>th_event_set := 3, th_event_info := 5\<rparr>) k_demo_wait)"

lemma k_demo_event_kinv: "kinv k_demo_event"
  using kinv_upd_same [OF k_demo_wait_kinv, of "\<lambda>th. th\<lparr>th_event_set := 3, th_event_info := 5\<rparr>" 1]
  by (simp add: k_demo_event_def)

lemma k_demo_event_facts:
  "current_thread k_demo_event \<noteq> None" "event_inv 7 k_demo_event"
  "event_delivery (threads k_demo_event) (tlists k_demo_event (Suspend 7)) (ev_set (events k_demo_event 7) OR 2) = (0, [(1, 3)])"
  by (simp_all add: k_demo_event_def k_demo_wait_def event_inv_def event_valid_def event_match_def event_left_def Let_def)

theorem event_send_outcome_witness:
  "\<exists>k'. rt_event_send 7 2 k_demo_event = Some (k', 0) \<and> event_served 7 0 [(1, 3)] k_demo_event k'"
  using event_send_outcome [OF k_demo_event_kinv k_demo_event_facts] by auto

text \<open>
  C28. \<open>rt_event_recv\<close>, for every option and time-out: no bits are an error, an option without AND and
  OR fails the assertion; when the condition holds the bits that are set are delivered, the asked-for
  ones are cleared with the CLEAR option, and the queues are left alone; otherwise the call times out
  at once, or the caller joins the queue with what it waits for recorded, so that the queue still
  holds valid options only.
\<close>

theorem event_recv_outcome:
  assumes inv: "kinv k" and c: "current_thread k = Some c" "thread_stat k c = 3" and i: "interrupt_nest k = 0"
    and ev: "event_inv e k" and f: "ev_flag (events k e) = 0 \<or> ev_flag (events k e) = 1" and time: "timeout_ok timeout"
  shows "if bits = 0 then rt_event_recv e bits opt timeout k = Some (Return k (None, - 1))
     else if \<not> event_valid opt then rt_event_recv e bits opt timeout k = None
     else if event_match opt bits (ev_set (events k e))
     then \<exists>k'. rt_event_recv e bits opt timeout k = Some (Return k' (Some (ev_set (events k e) AND bits), 0)) \<and>
       kinv k' \<and> tlists k' = tlists k \<and> ev_set (events k' e) = event_left opt bits (ev_set (events k e)) \<and>
       (\<forall>e'. e' \<noteq> e \<longrightarrow> events k' e' = events k e') \<and> (\<forall>u. u \<noteq> c \<longrightarrow> threads k' u = threads k u)
     else if timeout = 0
     then rt_event_recv e bits opt timeout k =
       Some (Return (upd_thread c (\<lambda>th. th\<lparr>th_error := - 2\<rparr>) k) (None, - 2))
     else \<exists>k'. rt_event_recv e bits opt timeout k = Some (Wait k' 0) \<and>
       waits_on (Suspend e) c (ev_flag (events k e)) timeout k k' \<and> event_inv e k' \<and>
       th_event_set (threads k' c) = bits \<and> th_event_info (threads k' c) = opt"
proof (cases "bits = 0 \<or> \<not> event_valid opt \<or> event_match opt bits (ev_set (events k e)) \<or> timeout = 0")
  case True
  let ?k2 = "upd_thread c (\<lambda>th. th\<lparr>th_event_set := ev_set (events k e) AND bits, th_event_info := opt\<rparr>)
      (upd_thread c (\<lambda>th. th\<lparr>th_error := 0\<rparr>) k)"
  define k3 where "k3 = (if opt AND 4 \<noteq> 0 then upd_event e (\<lambda>x. x\<lparr>ev_set := ev_set x AND NOT bits\<rparr>) ?k2 else ?k2)"
  have "kinv (upd_thread c (\<lambda>th. th\<lparr>th_error := 0\<rparr>) k)" using inv by (rule kinv_upd_same) simp
  then have "kinv ?k2" by (rule kinv_upd_same) simp
  then have i3: "kinv k3" by (simp add: k3_def)
  have s: "ev_set (events k3 e) = event_left opt bits (ev_set (events k e))" "tlists k3 = tlists k"
    "\<forall>e'. e' \<noteq> e \<longrightarrow> events k3 e' = events k e'" "\<forall>u. u \<noteq> c \<longrightarrow> threads k3 u = threads k u"
    by (simp_all add: event_left_eq k3_def)
  show ?thesis
  proof (cases "bits \<noteq> 0 \<and> event_valid opt \<and> event_match opt bits (ev_set (events k e))")
    case m: True
    then have "rt_event_recv e bits opt timeout k = Some (Return k3 (Some (ev_set (events k e) AND bits), 0))"
      using c i by (simp add: rt_event_recv_def in_thread_context_def event_valid_def event_match_def and.commute Let_def k3_def)
    then show ?thesis using m i3 s by auto
  next
    case False
    have "upd_thread c (\<lambda>th. th\<lparr>th_error := - 2\<rparr>) (upd_thread c (\<lambda>th. th\<lparr>th_error := 0\<rparr>) k) =
        upd_thread c (\<lambda>th. th\<lparr>th_error := - 2\<rparr>) k" by (simp add: upd_thread_def)
    then show ?thesis
      using True False c i
      by (auto simp: rt_event_recv_def in_thread_context_def event_valid_def event_match_def and.commute Let_def)
  qed
next
  case False
  let ?f = "\<lambda>th. th\<lparr>th_error := 0, th_event_set := bits, th_event_info := opt\<rparr>"
  have k1: "kinv (upd_thread c ?f k)" using inv by (rule kinv_upd_same) (simp add: keeps_sched_def)
  obtain k' where k': "ipc_block (Suspend e) c (ev_flag (events k e)) timeout (upd_thread c ?f k) = Some k'"
    "waits_on (Suspend e) c (ev_flag (events k e)) timeout k k'"
    "thread_core (threads k' c) = thread_core (?f (threads k c))"
    by (rule ipc_block_waits_on [OF inv c _ time f k1, of "Suspend e"]) auto
  note cD = thread_core_eqD(4,5) [OF k'(3), simplified]
  have e: "upd_thread c (\<lambda>th. th\<lparr>th_event_set := bits, th_event_info := opt\<rparr>)
      (upd_thread c (\<lambda>th. th\<lparr>th_error := 0\<rparr>) k) = upd_thread c ?f k" by (simp add: upd_thread_def)
  have "rt_event_recv e bits opt timeout k = Some (Wait k' 0)"
    using False c i k'(1)
    by (simp add: rt_event_recv_def in_thread_context_def event_valid_def event_match_def and.commute [of "ev_set (events k e)"] Let_def e split: if_splits)
  moreover have "event_inv e k'"
    unfolding event_inv_def
  proof
    fix t assume t: "t \<in> set (tlists k' (Suspend e))"
    show "event_valid (th_event_info (threads k' t))"
    proof (cases "t = c")
      case False
      then have "thread_core (threads k' t) = thread_core (threads k t)" "t \<in> set (tlists k (Suspend e))"
        using k'(2) t by (auto simp: waits_on_def)
      then show ?thesis using ev thread_core_eqD(5) [of "threads k' t" "threads k t"] by (auto simp: event_inv_def)
    qed (use cD False in simp)
  qed
  ultimately show ?thesis using False k'(2) cD by simp
qed

theorem event_recv_outcome_witness:
  "(\<exists>k'. rt_event_recv 7 6 2 30 (upd_event 7 (\<lambda>_. \<lparr>ev_flag = 1, ev_set = 1\<rparr>) k_demo) = Some (Wait k' 0) \<and>
     waits_on (Suspend 7) 1 1 30 (upd_event 7 (\<lambda>_. \<lparr>ev_flag = 1, ev_set = 1\<rparr>) k_demo) k' \<and>
     th_event_set (threads k' 1) = 6)"
  using event_recv_outcome [of "upd_event 7 (\<lambda>_. \<lparr>ev_flag = 1, ev_set = 1\<rparr>) k_demo" 1 7 30 6 2] k_demo_kinv k_demo_current
  by (auto simp: timeout_ok_def event_inv_def event_valid_def event_match_def k_demo_def demo_lists_def)

end
