(* ===== verification/Channel.thy ===== *)
theory Channel
  imports Semaphore
begin

text \<open>
  What the clients of a mailbox, of a message queue or of a data queue rely on: a bounded sequence of
  messages, to which a message is added at the end (\<open>put\<close>) while it is not full, and whose first
  message is taken (\<open>get\<close>). \<open>carries s m x\<close> relates a message as it is sent to the form in which it
  is stored and received.
\<close>

text \<open>Positions of a ring of \<open>n\<close> cells, counted from \<open>b\<close>.\<close>

lemma mod_add_inj:
  assumes "(b + i) mod n = (b + j) mod n" "i < n" "j < (n::nat)"
  shows "i = j"
proof -
  have "x = y" if "(b + x) mod n = (b + y) mod n" "y < n" "x \<le> y" for x y
  proof -
    have "n dvd (b + y) - (b + x)" using mod_eq_dvd_iff_nat [of "b + x" "b + y" n] that by simp
    then have "n dvd y - x" by simp
    then show ?thesis using that(2,3) by (metis dvd_imp_le diff_is_0_eq le_antisym less_imp_diff_less not_less not_gr_zero)
  qed
  with assms show ?thesis by (metis nle_le)
qed

locale fifo_channel =
  fixes ok :: "'s \<Rightarrow> bool" and content :: "'s \<Rightarrow> 'x list" and capacity :: "'s \<Rightarrow> nat"
    and valid :: "'s \<Rightarrow> 'm \<Rightarrow> bool" and carries :: "'s \<Rightarrow> 'm \<Rightarrow> 'x \<Rightarrow> bool"
    and put :: "'m \<Rightarrow> 's \<Rightarrow> 's option" and get :: "'s \<Rightarrow> ('s \<times> 'x) option"
  assumes put_law: "ok s \<Longrightarrow> valid s m \<Longrightarrow> length (content s) < capacity s \<Longrightarrow>
      \<exists>s' x. put m s = Some s' \<and> ok s' \<and> content s' = content s @ [x] \<and> carries s m x \<and>
        capacity s' = capacity s \<and> valid s' = valid s \<and> carries s' = carries s"
    and get_law: "ok s \<Longrightarrow> content s \<noteq> [] \<Longrightarrow>
      \<exists>s'. get s = Some (s', hd (content s)) \<and> ok s' \<and> content s' = tl (content s) \<and>
        capacity s' = capacity s \<and> valid s' = valid s \<and> carries s' = carries s"
    and content_bound: "ok s \<Longrightarrow> length (content s) \<le> capacity s"
begin

fun put_all :: "'m list \<Rightarrow> 's \<Rightarrow> 's option" where
  "put_all [] s = Some s"
| "put_all (m # ms) s = Option.bind (put m s) (put_all ms)"

fun get_all :: "nat \<Rightarrow> 's \<Rightarrow> ('s \<times> 'x list) option" where
  "get_all 0 s = Some (s, [])"
| "get_all (Suc n) s = Option.bind (get s) (\<lambda>(s1, x). map_option (\<lambda>(s2, xs). (s2, x # xs)) (get_all n s1))"

lemma put_all_spec:
  "ok s \<Longrightarrow> \<forall>m \<in> set ms. valid s m \<Longrightarrow> length (content s) + length ms \<le> capacity s \<Longrightarrow>
    \<exists>s' xs. put_all ms s = Some s' \<and> ok s' \<and> content s' = content s @ xs \<and> list_all2 (carries s) ms xs"
proof (induction ms arbitrary: s)
  case (Cons m ms)
  have "length (content s) < capacity s" "valid s m" using Cons.prems by simp_all
  then obtain s1 x where s1: "put m s = Some s1" "ok s1" "content s1 = content s @ [x]" "carries s m x"
      "capacity s1 = capacity s" "valid s1 = valid s" "carries s1 = carries s"
    using put_law [OF Cons.prems(1)] by blast
  obtain s' xs where "put_all ms s1 = Some s'" "ok s'" "content s' = content s1 @ xs" "list_all2 (carries s1) ms xs"
    using Cons.IH [OF s1(2)] Cons.prems s1 by auto
  with s1 have "put_all (m # ms) s = Some s' \<and> ok s' \<and> content s' = content s @ (x # xs) \<and> list_all2 (carries s) (m # ms) (x # xs)"
    by simp
  then show ?case by blast
qed simp

lemma put_all_capacity:
  "ok s \<Longrightarrow> \<forall>m \<in> set ms. valid s m \<Longrightarrow> length (content s) + length ms \<le> capacity s \<Longrightarrow>
    put_all ms s = Some s' \<Longrightarrow> capacity s' = capacity s \<and> valid s' = valid s \<and> carries s' = carries s"
proof (induction ms arbitrary: s)
  case (Cons m ms)
  have "length (content s) < capacity s" "valid s m" using Cons.prems by simp_all
  then obtain s1 x where "put m s = Some s1" "ok s1" "content s1 = content s @ [x]" "capacity s1 = capacity s" "valid s1 = valid s"
      "carries s1 = carries s"
    using put_law [OF Cons.prems(1)] by blast
  then show ?case using Cons by auto
qed simp

lemma get_all_spec:
  "ok s \<Longrightarrow> n \<le> length (content s) \<Longrightarrow>
    \<exists>s'. get_all n s = Some (s', take n (content s)) \<and> ok s' \<and> content s' = drop n (content s)"
proof (induction n arbitrary: s)
  case (Suc n)
  then obtain x xs where c: "content s = x # xs" by (cases "content s") auto
  obtain s1 where s1: "get s = Some (s1, x)" "ok s1" "content s1 = xs"
    using get_law [OF Suc.prems(1)] c by auto
  obtain s' where "get_all n s1 = Some (s', take n xs)" "ok s'" "content s' = drop n xs"
    using Suc.IH [OF s1(2)] s1(3) Suc.prems(2) c by auto
  then show ?case using s1(1) c by simp
qed simp

text \<open>Messages come out in the order they went in.\<close>

lemma put_get_order:
  assumes s: "ok s" "content s = []" and ms: "\<forall>m \<in> set ms. valid s m" "length ms \<le> capacity s"
  shows "\<exists>s1 s2 xs. put_all ms s = Some s1 \<and> get_all (length ms) s1 = Some (s2, xs) \<and> content s2 = [] \<and>
    list_all2 (carries s) ms xs"
proof -
  obtain s1 xs where p: "put_all ms s = Some s1" "ok s1" "content s1 = xs" "list_all2 (carries s) ms xs"
    using put_all_spec [OF s(1) ms(1)] s(2) ms(2) by auto
  then have "length xs = length ms" by (simp add: list_all2_lengthD)
  then obtain s2 where "get_all (length ms) s1 = Some (s2, xs)" "content s2 = []"
    using get_all_spec [OF p(2), of "length ms"] p(3) by auto
  with p show ?thesis by blast
qed

end

text \<open>The channels of \<open>src/ipc.c\<close> also take a message at the front, which overtakes all the others.\<close>

locale bounded_channel = fifo_channel ok content capacity valid carries put get
  for ok :: "'s \<Rightarrow> bool" and content :: "'s \<Rightarrow> 'x list" and capacity :: "'s \<Rightarrow> nat"
    and valid :: "'s \<Rightarrow> 'm \<Rightarrow> bool" and carries :: "'s \<Rightarrow> 'm \<Rightarrow> 'x \<Rightarrow> bool"
    and put :: "'m \<Rightarrow> 's \<Rightarrow> 's option" and urgent :: "'m \<Rightarrow> 's \<Rightarrow> 's option" and get :: "'s \<Rightarrow> ('s \<times> 'x) option" +
  assumes urgent_law: "ok s \<Longrightarrow> valid s m \<Longrightarrow> length (content s) < capacity s \<Longrightarrow>
      \<exists>s' x. urgent m s = Some s' \<and> ok s' \<and> content s' = x # content s \<and> carries s m x \<and>
        capacity s' = capacity s \<and> valid s' = valid s \<and> carries s' = carries s"
begin

lemma urgent_first:
  assumes s: "ok s" "valid s m" "length (content s) < capacity s"
  shows "\<exists>s1 s2 x. urgent m s = Some s1 \<and> get s1 = Some (s2, x) \<and> carries s m x \<and> content s2 = content s \<and> ok s2"
proof -
  obtain s1 x where s1: "urgent m s = Some s1" "ok s1" "content s1 = x # content s" "carries s m x"
    using urgent_law [OF s] by blast
  then show ?thesis using get_law [OF s1(2)] by auto
qed

end

end
