(* ===== verification/Mailbox.thy ===== *)
theory Mailbox
  imports Channel
begin

text \<open>
  The mailboxes of \<open>src/ipc.c\<close>: a ring of words with a wait queue of receivers and one of senders.
  A store or load outside the pool is \<open>None\<close>.
\<close>

abbreviation (input) RT_MB_ENTRY_MAX :: u16 where "RT_MB_ENTRY_MAX \<equiv> 0xffff"

definition upd_mb :: "obj \<Rightarrow> (rt_mailbox \<Rightarrow> rt_mailbox) \<Rightarrow> kernel \<Rightarrow> kernel" where
  "upd_mb m f k = k\<lparr>mailboxes := (mailboxes k)(m := f (mailboxes k m))\<rparr>"

definition mb_new :: "u32 list \<Rightarrow> u32 \<Rightarrow> u8 \<Rightarrow> rt_mailbox" where
  "mb_new pool sz flag =
     \<lparr>mb_flag = flag, mb_msg_pool = pool, mb_size = ucast sz, mb_entry = 0, mb_in_offset = 0, mb_out_offset = 0\<rparr>"

definition rt_mb_init :: "obj \<Rightarrow> u32 list \<Rightarrow> u32 \<Rightarrow> u8 \<Rightarrow> kernel \<Rightarrow> kernel \<times> rt_err_t" where
  "rt_mb_init m pool sz flag k =
     (upd_mb m (\<lambda>_. mb_new pool sz flag) (ipc_object_init (Suspend_sender m) (ipc_object_init (Suspend m) k)), RT_EOK)"

definition rt_mb_detach :: "obj \<Rightarrow> kernel \<Rightarrow> (kernel \<times> rt_err_t) option" where
  "rt_mb_detach m k =
     do { k1 \<leftarrow> ipc_list_resume_all (Suspend m) k;
          k2 \<leftarrow> ipc_list_resume_all (Suspend_sender m) k1;
          Some (k2, RT_EOK) }"

text \<open>
  \<open>rt_mb_create\<close>: \<open>pool\<close> is the allocated block, of \<open>mb->size\<close> words, or \<open>None\<close> when the allocation
  fails, after which the object is deleted.
\<close>

definition rt_mb_create :: "bool \<Rightarrow> (nat \<Rightarrow> u32 list option) \<Rightarrow> obj \<Rightarrow> u32 \<Rightarrow> u8 \<Rightarrow> kernel \<Rightarrow> (kernel \<times> obj option) option" where
  "rt_mb_create obj_ok malloc m sz flag k =
     do { rt_assert (interrupt_nest k = 0);
          if \<not> obj_ok then Some (k, None)
          else (case malloc (unat (ucast sz :: u16)) of
                  None \<Rightarrow> Some (k, None)
                | Some pool \<Rightarrow>
                    Some (upd_mb m (\<lambda>_. mb_new pool sz flag)
                      (ipc_object_init (Suspend_sender m) (ipc_object_init (Suspend m) k)), Some m)) }"

definition rt_mb_delete :: "obj \<Rightarrow> kernel \<Rightarrow> (kernel \<times> rt_err_t) option" where
  "rt_mb_delete m k =
     do { rt_assert (interrupt_nest k = 0);
          k1 \<leftarrow> ipc_list_resume_all (Suspend m) k;
          k2 \<leftarrow> ipc_list_resume_all (Suspend_sender m) k1;
          Some (k2, RT_EOK) }"

text \<open>\<open>if (++ offset >= size) offset = 0\<close>.\<close>

definition mb_advance :: "u16 \<Rightarrow> u16 \<Rightarrow> u16" where
  "mb_advance sz off = (if off + 1 \<ge> sz then 0 else off + 1)"

text \<open>
  The part of \<open>rt_mb_send_wait\<close> that stores the value: \<open>msg_pool[in_offset] = value\<close>, the advance of
  the offset and the count.
\<close>

definition mb_store :: "u32 \<Rightarrow> rt_mailbox \<Rightarrow> rt_mailbox option" where
  "mb_store v mb =
     do { pool \<leftarrow> store_at (mb_msg_pool mb) (uint (mb_in_offset mb)) v;
          Some (mb\<lparr>mb_msg_pool := pool, mb_in_offset := mb_advance (mb_size mb) (mb_in_offset mb),
            mb_entry := (if mb_entry mb < RT_MB_ENTRY_MAX then mb_entry mb + 1 else mb_entry mb)\<rparr>) }"

text \<open>The tail of \<open>rt_mb_send_wait\<close>, from the store of the value on.\<close>

definition mb_put :: "obj \<Rightarrow> u32 \<Rightarrow> kernel \<Rightarrow> (kernel \<times> rt_err_t) option" where
  "mb_put m v k =
     do { mb \<leftarrow> mb_store v (mailboxes k m);
          let k1 = upd_mb m (\<lambda>_. mb) k;
          if mb_entry (mailboxes k m) < RT_MB_ENTRY_MAX
          then if tlists k1 (Suspend m) \<noteq> []
               then do { k2 \<leftarrow> ipc_list_resume (Suspend m) k1; k3 \<leftarrow> rt_schedule k2; Some (k3, RT_EOK) }
               else Some (k1, RT_EOK)
          else Some (k1, - RT_EFULL) }"

text \<open>The loop of \<open>rt_mb_send_wait\<close>, up to the next wait.\<close>

definition mb_send_loop :: "obj \<Rightarrow> u32 \<Rightarrow> int \<Rightarrow> u32 \<Rightarrow> kernel \<Rightarrow> rt_err_t outcome option" where
  "mb_send_loop m v timeout tick_delta k =
     (if mb_entry (mailboxes k m) = mb_size (mailboxes k m)
      then do { t \<leftarrow> current_thread k;
                let k1 = upd_thread t (\<lambda>th. th\<lparr>th_error := RT_EOK\<rparr>) k;
                if timeout = 0 then Some (Return k1 (- RT_EFULL))
                else do { rt_assert (in_thread_context k1);
                          k2 \<leftarrow> ipc_block (Suspend_sender m) t (mb_flag (mailboxes k1 m)) timeout k1;
                          Some (Wait k2 (if timeout > 0 then rt_tick k1 else tick_delta)) } }
      else do { (k1, err) \<leftarrow> mb_put m v k; Some (Return k1 err) })"

definition rt_mb_send_wait :: "obj \<Rightarrow> u32 \<Rightarrow> int \<Rightarrow> kernel \<Rightarrow> rt_err_t outcome option" where
  "rt_mb_send_wait m v timeout k =
     (if mb_entry (mailboxes k m) = mb_size (mailboxes k m) \<and> timeout = 0 then Some (Return k (- RT_EFULL))
      else mb_send_loop m v timeout 0 k)"

definition rt_mb_send_wait_return :: "tid \<Rightarrow> obj \<Rightarrow> u32 \<Rightarrow> int \<Rightarrow> u32 \<Rightarrow> kernel \<Rightarrow> rt_err_t outcome option" where
  "rt_mb_send_wait_return t m v timeout tick_delta k =
     (if th_error (threads k t) \<noteq> RT_EOK then Some (Return k (th_error (threads k t)))
      else mb_send_loop m v (time_left timeout tick_delta k) (tick_delta_after timeout tick_delta k) k)"

definition rt_mb_send :: "obj \<Rightarrow> u32 \<Rightarrow> kernel \<Rightarrow> rt_err_t outcome option" where
  "rt_mb_send m v k = rt_mb_send_wait m v 0 k"

text \<open>The store of \<open>rt_mb_urgent\<close>, at the decremented \<open>out_offset\<close>.\<close>

definition mb_store_front :: "u32 \<Rightarrow> rt_mailbox \<Rightarrow> rt_mailbox option" where
  "mb_store_front v mb =
     do { let off = (if mb_out_offset mb > 0 then mb_out_offset mb - 1 else mb_size mb - 1);
          pool \<leftarrow> store_at (mb_msg_pool mb) (uint off) v;
          Some (mb\<lparr>mb_out_offset := off, mb_msg_pool := pool, mb_entry := mb_entry mb + 1\<rparr>) }"

definition rt_mb_urgent :: "obj \<Rightarrow> u32 \<Rightarrow> kernel \<Rightarrow> (kernel \<times> rt_err_t) option" where
  "rt_mb_urgent m v k =
     (if mb_entry (mailboxes k m) = mb_size (mailboxes k m) then Some (k, - RT_EFULL)
      else do {
        mb \<leftarrow> mb_store_front v (mailboxes k m);
        let k1 = upd_mb m (\<lambda>_. mb) k;
        if tlists k1 (Suspend m) \<noteq> []
        then do { k2 \<leftarrow> ipc_list_resume (Suspend m) k1; k3 \<leftarrow> rt_schedule k2; Some (k3, RT_EOK) }
        else Some (k1, RT_EOK) })"

text \<open>The load of \<open>rt_mb_recv\<close>, with the advance of \<open>out_offset\<close> and the count.\<close>

definition mb_load :: "rt_mailbox \<Rightarrow> (rt_mailbox \<times> u32) option" where
  "mb_load mb =
     do { v \<leftarrow> load_at (mb_msg_pool mb) (uint (mb_out_offset mb));
          Some (mb\<lparr>mb_out_offset := mb_advance (mb_size mb) (mb_out_offset mb),
            mb_entry := (if mb_entry mb > 0 then mb_entry mb - 1 else mb_entry mb)\<rparr>, v) }"

text \<open>
  The tail of \<open>rt_mb_recv\<close>; \<open>dst\<close> tells whether the destination pointer is valid, the value stored
  there is part of the result.
\<close>

definition mb_get :: "obj \<Rightarrow> bool \<Rightarrow> kernel \<Rightarrow> (kernel \<times> u32 option \<times> rt_err_t) option" where
  "mb_get m dst k =
     do { (mb, v) \<leftarrow> mb_load (mailboxes k m);
          rt_assert dst;
          let k1 = upd_mb m (\<lambda>_. mb) k;
          if tlists k1 (Suspend_sender m) \<noteq> []
          then do { k2 \<leftarrow> ipc_list_resume (Suspend_sender m) k1; k3 \<leftarrow> rt_schedule k2; Some (k3, Some v, RT_EOK) }
          else Some (k1, Some v, RT_EOK) }"

definition mb_recv_loop :: "obj \<Rightarrow> bool \<Rightarrow> int \<Rightarrow> u32 \<Rightarrow> kernel \<Rightarrow> (u32 option \<times> rt_err_t) outcome option" where
  "mb_recv_loop m dst timeout tick_delta k =
     (if mb_entry (mailboxes k m) = 0
      then do { t \<leftarrow> current_thread k;
                let k1 = upd_thread t (\<lambda>th. th\<lparr>th_error := RT_EOK\<rparr>) k;
                if timeout = 0
                then Some (Return (upd_thread t (\<lambda>th. th\<lparr>th_error := - RT_ETIMEOUT\<rparr>) k1) (None, - RT_ETIMEOUT))
                else do { rt_assert (in_thread_context k1);
                          k2 \<leftarrow> ipc_block (Suspend m) t (mb_flag (mailboxes k1 m)) timeout k1;
                          Some (Wait k2 (if timeout > 0 then rt_tick k1 else tick_delta)) } }
      else do { (k1, v, err) \<leftarrow> mb_get m dst k; Some (Return k1 (v, err)) })"

definition rt_mb_recv :: "obj \<Rightarrow> bool \<Rightarrow> int \<Rightarrow> kernel \<Rightarrow> (u32 option \<times> rt_err_t) outcome option" where
  "rt_mb_recv m dst timeout k =
     (if mb_entry (mailboxes k m) = 0 \<and> timeout = 0 then Some (Return k (None, - RT_ETIMEOUT))
      else mb_recv_loop m dst timeout 0 k)"

definition rt_mb_recv_return :: "tid \<Rightarrow> obj \<Rightarrow> bool \<Rightarrow> int \<Rightarrow> u32 \<Rightarrow> kernel \<Rightarrow> (u32 option \<times> rt_err_t) outcome option" where
  "rt_mb_recv_return t m dst timeout tick_delta k =
     (if th_error (threads k t) \<noteq> RT_EOK then Some (Return k (None, th_error (threads k t)))
      else mb_recv_loop m dst (time_left timeout tick_delta k) (tick_delta_after timeout tick_delta k) k)"

definition rt_mb_control :: "obj \<Rightarrow> int \<Rightarrow> kernel \<Rightarrow> (kernel \<times> rt_err_t) option" where
  "rt_mb_control m cmd k =
     (if cmd = RT_IPC_CMD_RESET
      then do { k1 \<leftarrow> ipc_list_resume_all (Suspend m) k;
                k2 \<leftarrow> ipc_list_resume_all (Suspend_sender m) k1;
                k3 \<leftarrow> rt_schedule (upd_mb m (\<lambda>x. x\<lparr>mb_entry := 0, mb_in_offset := 0, mb_out_offset := 0\<rparr>) k2);
                Some (k3, RT_EOK) }
      else Some (k, - RT_ERROR))"

section \<open>The ring of words\<close>

text \<open>The pending messages, oldest first, and the well-formed mailboxes.\<close>

definition mb_content :: "rt_mailbox \<Rightarrow> u32 list" where
  "mb_content mb = map (\<lambda>j. mb_msg_pool mb ! ((unat (mb_out_offset mb) + j) mod unat (mb_size mb))) [0..<unat (mb_entry mb)]"

definition mb_ok :: "rt_mailbox \<Rightarrow> bool" where
  "mb_ok mb \<longleftrightarrow>
     0 < mb_size mb \<and> unat (mb_size mb) \<le> length (mb_msg_pool mb) \<and> mb_entry mb \<le> mb_size mb \<and>
     mb_out_offset mb < mb_size mb \<and>
     unat (mb_in_offset mb) = (unat (mb_out_offset mb) + unat (mb_entry mb)) mod unat (mb_size mb)"

lemma mb_content_length [simp]: "length (mb_content mb) = unat (mb_entry mb)"
  by (simp add: mb_content_def)

lemma mb_advance_unat:
  assumes "off < sz"
  shows "unat (mb_advance sz off) = (unat off + 1) mod unat sz"
proof -
  have lt: "unat off < unat sz" "unat sz < 2 ^ 16" using assms unsigned_less [of sz] by (simp_all add: word_less_nat_alt)
  then have u: "unat (off + 1) = unat off + 1" by (simp add: unat_plus_if' word_size)
  show ?thesis
  proof (cases "unat off + 1 = unat sz")
    case True
    then show ?thesis using u by (simp add: mb_advance_def word_le_nat_alt)
  next
    case False
    then show ?thesis using u lt by (simp add: mb_advance_def word_le_nat_alt)
  qed
qed

lemma mb_okD:
  assumes "mb_ok mb"
  shows "0 < unat (mb_size mb)" "unat (mb_size mb) \<le> length (mb_msg_pool mb)" "unat (mb_entry mb) \<le> unat (mb_size mb)"
    "unat (mb_out_offset mb) < unat (mb_size mb)"
    "unat (mb_in_offset mb) = (unat (mb_out_offset mb) + unat (mb_entry mb)) mod unat (mb_size mb)"
    "mb_in_offset mb < mb_size mb" "mb_out_offset mb < mb_size mb"
  using assms by (simp_all add: mb_ok_def word_less_nat_alt word_le_nat_alt)

lemma mb_entry_suc:
  assumes ok: "mb_ok mb" and room: "mb_entry mb \<noteq> mb_size mb"
  shows "unat (mb_entry mb + 1) = unat (mb_entry mb) + 1" "mb_entry mb < 0xffff" "unat (mb_entry mb) < unat (mb_size mb)"
proof -
  show lt: "unat (mb_entry mb) < unat (mb_size mb)"
    using mb_okD(3) [OF ok] room by (metis le_neq_implies_less word_unat_eq_iff)
  have "unat (mb_size mb) < 2 ^ 16" using unsigned_less [of "mb_size mb"] by simp
  with lt show "unat (mb_entry mb + 1) = unat (mb_entry mb) + 1" "mb_entry mb < 0xffff"
    by (simp_all add: unat_plus_if' word_size word_less_nat_alt)
qed

lemma mb_store_spec:
  assumes ok: "mb_ok mb" and room: "mb_entry mb \<noteq> mb_size mb"
  shows "\<exists>mb'. mb_store v mb = Some mb' \<and> mb_ok mb' \<and> mb_content mb' = mb_content mb @ [v] \<and>
     mb_size mb' = mb_size mb \<and> mb_flag mb' = mb_flag mb"
proof -
  let ?n = "unat (mb_size mb)" and ?o = "unat (mb_out_offset mb)" and ?e = "unat (mb_entry mb)" and ?i = "unat (mb_in_offset mb)"
  note okD = mb_okD [OF ok]
  note es = mb_entry_suc [OF ok room]
  define mb' where "mb' = mb\<lparr>mb_msg_pool := (mb_msg_pool mb)[?i := v], mb_in_offset := mb_advance (mb_size mb) (mb_in_offset mb),
    mb_entry := mb_entry mb + 1\<rparr>"
  have il: "?i < ?n" using okD(6) by (simp add: word_less_nat_alt)
  have run: "mb_store v mb = Some mb'"
    using il okD(2) es(2) by (simp add: mb_store_def store_at_def mb'_def uint_nat del: of_nat_unat)
  have "unat (mb_advance (mb_size mb) (mb_in_offset mb)) = (?o + (?e + 1)) mod ?n"
    using mb_advance_unat [OF okD(6)] okD(5) by (simp add: mod_Suc_eq)
  then have ok': "mb_ok mb'"
    using ok es by (simp add: mb_ok_def mb'_def word_le_nat_alt)
  have old: "(mb_msg_pool mb)[?i := v] ! ((?o + j) mod ?n) = mb_msg_pool mb ! ((?o + j) mod ?n)" if "j < ?e" for j
  proof -
    have "?i \<noteq> (?o + j) mod ?n" using mod_add_inj [of ?o j ?n ?e] that es(3) okD(5) by auto
    then show ?thesis by simp
  qed
  have new: "(mb_msg_pool mb)[?i := v] ! ((?o + ?e) mod ?n) = v" using il okD(2,5) by simp
  have "mb_content mb' = map (\<lambda>j. (mb_msg_pool mb)[?i := v] ! ((?o + j) mod ?n)) ([0..<?e] @ [?e])"
    using es(1) by (simp add: mb_content_def mb'_def)
  also have "\<dots> = mb_content mb @ [v]" using old new by (simp add: mb_content_def)
  finally show ?thesis using run ok' by (auto simp: mb'_def)
qed

lemma mb_store_front_spec:
  assumes ok: "mb_ok mb" and room: "mb_entry mb \<noteq> mb_size mb"
  shows "\<exists>mb'. mb_store_front v mb = Some mb' \<and> mb_ok mb' \<and> mb_content mb' = v # mb_content mb \<and>
     mb_size mb' = mb_size mb \<and> mb_flag mb' = mb_flag mb"
proof -
  let ?n = "unat (mb_size mb)" and ?o = "unat (mb_out_offset mb)" and ?e = "unat (mb_entry mb)"
  note okD = mb_okD [OF ok]
  note es = mb_entry_suc [OF ok room]
  define off where "off = (if mb_out_offset mb > 0 then mb_out_offset mb - 1 else mb_size mb - 1)"
  let ?p = "unat off"
  have p: "?p < ?n" "(?p + 1) mod ?n = ?o"
  proof -
    have "?p < ?n \<and> (?p + 1) mod ?n = ?o"
    proof (cases "mb_out_offset mb = 0")
      case True
      have "mb_size mb \<noteq> 0" using okD(1) by auto
      from unat_minus_one [OF this] show ?thesis using True okD(1) by (simp add: off_def)
    next
      case False
      from unat_minus_one [OF this] have "?p = ?o - 1" using False by (simp add: off_def word_gt_0)
      moreover have "0 < ?o" using False by (simp add: unat_gt_0)
      ultimately show ?thesis using okD(4) by simp
    qed
    then show "?p < ?n" "(?p + 1) mod ?n = ?o" by simp_all
  qed
  define mb' where "mb' = mb\<lparr>mb_out_offset := off, mb_msg_pool := (mb_msg_pool mb)[?p := v], mb_entry := mb_entry mb + 1\<rparr>"
  have run: "mb_store_front v mb = Some mb'"
    using p okD(2) by (simp add: mb_store_front_def store_at_def mb'_def Let_def uint_nat flip: off_def del: of_nat_unat)
  have shift: "(?p + Suc j) mod ?n = (?o + j) mod ?n" for j
    using p(2) by (metis add.commute add_Suc_right add_Suc_shift mod_add_left_eq Suc_eq_plus1)
  have "mb_ok mb'" using ok es p shift [of ?e] by (simp add: mb_ok_def mb'_def word_le_nat_alt word_less_nat_alt)
  moreover have "mb_content mb' = v # mb_content mb"
  proof -
    have "(mb_msg_pool mb)[?p := v] ! ((?p + Suc j) mod ?n) = mb_msg_pool mb ! ((?o + j) mod ?n)" if "j < ?e" for j
    proof -
      have "?p \<noteq> (?p + Suc j) mod ?n"
        using mod_add_inj [of ?p "Suc j" ?n 0] that es(3) p(1) by auto
      then show ?thesis using shift by simp
    qed
    moreover have "[0..<Suc ?e] = 0 # map Suc [0..<?e]" by (simp add: map_Suc_upt upt_conv_Cons del: upt_Suc)
    moreover have "(mb_msg_pool mb)[?p := v] ! ((?p + 0) mod ?n) = v" using p(1) okD(2) by simp
    ultimately show ?thesis using es(1) by (simp add: mb_content_def mb'_def del: upt_Suc)
  qed
  ultimately show ?thesis using run by (auto simp: mb'_def)
qed

lemma mb_load_spec:
  assumes ok: "mb_ok mb" and ne: "mb_entry mb \<noteq> 0"
  shows "\<exists>mb'. mb_load mb = Some (mb', hd (mb_content mb)) \<and> mb_ok mb' \<and> mb_content mb' = tl (mb_content mb) \<and>
     mb_size mb' = mb_size mb \<and> mb_flag mb' = mb_flag mb"
proof -
  let ?n = "unat (mb_size mb)" and ?o = "unat (mb_out_offset mb)" and ?e = "unat (mb_entry mb)"
  note okD = mb_okD [OF ok]
  have e: "0 < ?e" using ne by (simp add: unat_gt_0)
  have em: "unat (mb_entry mb - 1) = ?e - 1" using ne by (simp add: unat_minus_one)
  define mb' where "mb' = mb\<lparr>mb_out_offset := mb_advance (mb_size mb) (mb_out_offset mb), mb_entry := mb_entry mb - 1\<rparr>"
  have up: "[0..<?e] = 0 # map Suc [0..<?e - 1]" using e by (cases ?e) (simp_all add: map_Suc_upt upt_conv_Cons del: upt_Suc)
  have hd: "hd (mb_content mb) = mb_msg_pool mb ! ?o" using okD(4) unfolding mb_content_def up by simp
  have run: "mb_load mb = Some (mb', hd (mb_content mb))"
    using okD(2,4) ne hd by (simp add: mb_load_def load_at_def mb'_def uint_nat word_gt_0 del: of_nat_unat)
  have adv: "unat (mb_advance (mb_size mb) (mb_out_offset mb)) = (?o + 1) mod ?n" by (rule mb_advance_unat [OF okD(7)])
  have "mb_ok mb'"
  proof -
    have "((?o + 1) mod ?n + (?e - 1)) mod ?n = (?o + ?e) mod ?n" 
    proof -
      have "((?o + 1) mod ?n + (?e - 1)) mod ?n = (?o + 1 + (?e - 1)) mod ?n" by (rule mod_add_left_eq)
      then show ?thesis using e by simp
    qed
    moreover have "?e - 1 \<le> ?n" using okD(3) by simp
    ultimately show ?thesis using ok adv em okD(1) by (simp add: mb_ok_def mb'_def word_le_nat_alt word_less_nat_alt)
  qed
  moreover have "mb_content mb' = tl (mb_content mb)"
  proof -
    have "((?o + 1) mod ?n + j) mod ?n = (?o + Suc j) mod ?n" for j by (simp add: mod_add_left_eq)
    then show ?thesis unfolding mb_content_def up mb'_def using adv em by simp
  qed
  ultimately show ?thesis using run by (auto simp: mb'_def)
qed

text \<open>The mailbox is a bounded channel of words.\<close>

interpretation mailbox: bounded_channel mb_ok mb_content "\<lambda>mb. unat (mb_size mb)" "\<lambda>_ _. True" "\<lambda>_ v x. x = v"
    mb_store mb_store_front mb_load
proof unfold_locales
  fix mb :: rt_mailbox and v :: u32
  assume ok: "mb_ok mb"
  show "length (mb_content mb) \<le> unat (mb_size mb)" using mb_okD(3) [OF ok] by simp
  show "\<exists>mb' x. mb_store v mb = Some mb' \<and> mb_ok mb' \<and> mb_content mb' = mb_content mb @ [x] \<and> x = v \<and>
      unat (mb_size mb') = unat (mb_size mb) \<and> (\<lambda>_. True) = (\<lambda>_. True) \<and> (\<lambda>v x. x = v) = (\<lambda>v x. x = v)"
    if "length (mb_content mb) < unat (mb_size mb)"
    using mb_store_spec [OF ok] that by fastforce
  show "\<exists>mb' x. mb_store_front v mb = Some mb' \<and> mb_ok mb' \<and> mb_content mb' = x # mb_content mb \<and> x = v \<and>
      unat (mb_size mb') = unat (mb_size mb) \<and> (\<lambda>_. True) = (\<lambda>_. True) \<and> (\<lambda>v x. x = v) = (\<lambda>v x. x = v)"
    if "length (mb_content mb) < unat (mb_size mb)"
    using mb_store_front_spec [OF ok] that by fastforce
  show "\<exists>mb'. mb_load mb = Some (mb', hd (mb_content mb)) \<and> mb_ok mb' \<and> mb_content mb' = tl (mb_content mb) \<and>
      unat (mb_size mb') = unat (mb_size mb) \<and> (\<lambda>_. True) = (\<lambda>_. True) \<and> (\<lambda>v x. x = v) = (\<lambda>v x. x = v)"
    if "mb_content mb \<noteq> []"
    using mb_load_spec [OF ok] that by (fastforce simp: mb_content_def)
qed

subsection \<open>The operations on the kernel\<close>

lemma upd_mb_frame [simp]:
  "mailboxes (upd_mb m f k) = (mailboxes k)(m := f (mailboxes k m))"
  "threads (upd_mb m f k) = threads k" "tlists (upd_mb m f k) = tlists k"
  "ready_priority_group (upd_mb m f k) = ready_priority_group k"
  "current_thread (upd_mb m f k) = current_thread k" "timers (upd_mb m f k) = timers k"
  "semaphores (upd_mb m f k) = semaphores k" "mutexes (upd_mb m f k) = mutexes k" "events (upd_mb m f k) = events k"
  "messagequeues (upd_mb m f k) = messagequeues k"
  "timer_list (upd_mb m f k) = timer_list k" "soft_timer_list (upd_mb m f k) = soft_timer_list k"
  by (simp_all add: upd_mb_def)

lemma kinv_upd_mb [simp]: "kinv (upd_mb m f k) \<longleftrightarrow> kinv k"
  using kinv_frame [of k "upd_mb m f k"] kinv_frame [of "upd_mb m f k" k] by auto

text \<open>
  What a completed operation does: mailbox \<open>m\<close> gets the given contents, the other mailboxes stay as
  they are, and the first thread of the queue \<open>h\<close>, if there is one, is woken.
\<close>

definition mb_done :: "list_head \<Rightarrow> obj \<Rightarrow> u32 list \<Rightarrow> kernel \<Rightarrow> kernel \<Rightarrow> bool" where
  "mb_done h m ms k k' \<longleftrightarrow>
     kinv k' \<and> current_thread k' \<noteq> None \<and> mb_ok (mailboxes k' m) \<and> mb_content (mailboxes k' m) = ms \<and>
     mb_size (mailboxes k' m) = mb_size (mailboxes k m) \<and>
     (\<forall>m'. m' \<noteq> m \<longrightarrow> mailboxes k' m' = mailboxes k m') \<and> semaphores k' = semaphores k \<and>
     mutexes k' = mutexes k \<and> events k' = events k \<and> messagequeues k' = messagequeues k \<and>
     tlists k' h = tl (tlists k h) \<and> (tlists k h \<noteq> [] \<longrightarrow> thread_stat k' (hd (tlists k h)) \<noteq> 2) \<and>
     (\<forall>h'. h' \<noteq> h \<longrightarrow> (\<forall>p. h' \<noteq> Ready p) \<longrightarrow> tlists k' h' = tlists k h') \<and>
     (\<forall>u. thread_core (threads k' u) = thread_core (threads k u))"

lemma mb_done_wake:
  assumes inv: "kinv k" and c: "current_thread k \<noteq> None" and h: "waiting_list h"
    and mb: "mb_ok mb" "mb_content mb = ms" "mb_size mb = mb_size (mailboxes k m)"
  defines "k1 \<equiv> upd_mb m (\<lambda>_. mb) k"
  obtains k' where "(if tlists k1 h \<noteq> [] then do { k2 \<leftarrow> ipc_list_resume h k1; k3 \<leftarrow> rt_schedule k2; Some (k3, r) } else Some (k1, r)) = Some (k', r)"
    "mb_done h m ms k k'"
proof (cases "tlists k h = []")
  case True
  then have "mb_done h m ms k k1" using inv c mb by (simp add: mb_done_def k1_def)
  with True that show thesis by (simp add: k1_def)
next
  case False
  have i1: "kinv k1" "current_thread k1 \<noteq> None" "tlists k1 h \<noteq> []" using inv c False by (simp_all add: k1_def)
  obtain k2 k' where w: "ipc_list_resume h k1 = Some k2" "rt_schedule k2 = Some k'" "woken h k1 k'"
    by (rule wake_spec [OF i1(1,2) h i1(3)])
  have "mb_done h m ms k k'"
    using w(3) mb by (simp add: mb_done_def woken_def k1_def ipc_same_def)
  with w i1(3) that show thesis by simp
qed

lemma mb_put_spec:
  assumes inv: "kinv k" and c: "current_thread k \<noteq> None" and ok: "mb_ok (mailboxes k m)"
    and room: "mb_entry (mailboxes k m) \<noteq> mb_size (mailboxes k m)"
  shows "\<exists>k'. mb_put m v k = Some (k', 0) \<and> mb_done (Suspend m) m (mb_content (mailboxes k m) @ [v]) k k'"
proof -
  obtain mb where mb: "mb_store v (mailboxes k m) = Some mb" "mb_ok mb" "mb_content mb = mb_content (mailboxes k m) @ [v]"
    "mb_size mb = mb_size (mailboxes k m)"
    using mb_store_spec [OF ok room] by blast
  obtain k' where "(if tlists (upd_mb m (\<lambda>_. mb) k) (Suspend m) \<noteq> []
      then do { k2 \<leftarrow> ipc_list_resume (Suspend m) (upd_mb m (\<lambda>_. mb) k); k3 \<leftarrow> rt_schedule k2; Some (k3, 0::int) }
      else Some (upd_mb m (\<lambda>_. mb) k, 0)) = Some (k', 0)"
    "mb_done (Suspend m) m (mb_content (mailboxes k m) @ [v]) k k'"
    by (rule mb_done_wake [OF inv c _ mb(2-4), of "Suspend m"]) auto
  then show ?thesis using mb(1) mb_entry_suc(2) [OF ok room] by (simp add: mb_put_def)
qed

lemma mb_get_spec:
  assumes inv: "kinv k" and c: "current_thread k \<noteq> None" and ok: "mb_ok (mailboxes k m)"
    and ne: "mb_entry (mailboxes k m) \<noteq> 0"
  shows "\<exists>k'. mb_get m True k = Some (k', Some (hd (mb_content (mailboxes k m))), 0) \<and>
     mb_done (Suspend_sender m) m (tl (mb_content (mailboxes k m))) k k'"
proof -
  obtain mb where mb: "mb_load (mailboxes k m) = Some (mb, hd (mb_content (mailboxes k m)))" "mb_ok mb"
    "mb_content mb = tl (mb_content (mailboxes k m))" "mb_size mb = mb_size (mailboxes k m)"
    using mb_load_spec [OF ok ne] by blast
  obtain k' where "(if tlists (upd_mb m (\<lambda>_. mb) k) (Suspend_sender m) \<noteq> []
      then do { k2 \<leftarrow> ipc_list_resume (Suspend_sender m) (upd_mb m (\<lambda>_. mb) k); k3 \<leftarrow> rt_schedule k2;
                Some (k3, Some (hd (mb_content (mailboxes k m))), 0::int) }
      else Some (upd_mb m (\<lambda>_. mb) k, Some (hd (mb_content (mailboxes k m))), 0)) =
        Some (k', Some (hd (mb_content (mailboxes k m))), 0)"
    "mb_done (Suspend_sender m) m (tl (mb_content (mailboxes k m))) k k'"
    by (rule mb_done_wake [OF inv c _ mb(2-4), of "Suspend_sender m"]) auto
  then show ?thesis using mb(1) by (simp add: mb_get_def)
qed

text \<open>Blocking on a mailbox; the flag of the object decides the place in the queue.\<close>

lemma waits_on_mailboxes: "waits_on h c flag time k k' \<Longrightarrow> mailboxes k' = mailboxes k"
  by (simp add: waits_on_def ipc_same_def)

section \<open>Properties\<close>

text \<open>
  C19. \<open>rt_mb_send_wait\<close>, for every time-out: with room in the mailbox the word is appended to the
  pending ones, the first waiting receiver is woken and the result is \<open>RT_EOK\<close>; a full mailbox is
  refused with \<open>-RT_EFULL\<close> and no change when no waiting is allowed, and otherwise the caller is
  suspended on the queue of senders with the mailbox unchanged.
\<close>

theorem mb_send_outcome:
  assumes inv: "kinv k" and c: "current_thread k = Some c" "thread_stat k c = 3" and i: "interrupt_nest k = 0"
    and ok: "mb_ok (mailboxes k m)" and f: "mb_flag (mailboxes k m) = 0 \<or> mb_flag (mailboxes k m) = 1"
    and time: "timeout_ok timeout"
  shows "if length (mb_content (mailboxes k m)) < unat (mb_size (mailboxes k m))
     then \<exists>k'. rt_mb_send_wait m v timeout k = Some (Return k' 0) \<and>
            mb_done (Suspend m) m (mb_content (mailboxes k m) @ [v]) k k'
     else if timeout = 0 then rt_mb_send_wait m v timeout k = Some (Return k (- 3))
     else \<exists>k' d. rt_mb_send_wait m v timeout k = Some (Wait k' d) \<and> mailboxes k' = mailboxes k \<and>
            waits_on (Suspend_sender m) c (mb_flag (mailboxes k m)) timeout k k'"
proof (cases "mb_entry (mailboxes k m) = mb_size (mailboxes k m)")
  case True
  obtain k' where "ipc_block (Suspend_sender m) c (mb_flag (mailboxes k m)) timeout (upd_thread c (\<lambda>th. th\<lparr>th_error := 0\<rparr>) k) = Some k'"
    "waits_on (Suspend_sender m) c (mb_flag (mailboxes k m)) timeout k k'"
    by (rule block_error_cleared [OF inv c _ f time, of "Suspend_sender m"]) auto
  then show ?thesis
    using True c i waits_on_mailboxes by (auto simp: rt_mb_send_wait_def mb_send_loop_def in_thread_context_def Let_def)
next
  case False
  then have "length (mb_content (mailboxes k m)) < unat (mb_size (mailboxes k m))" using mb_entry_suc(3) [OF ok] by simp
  moreover obtain k' where "mb_put m v k = Some (k', 0)" "mb_done (Suspend m) m (mb_content (mailboxes k m) @ [v]) k k'"
    using mb_put_spec [OF inv _ ok False] c by blast
  ultimately show ?thesis using False by (auto simp: rt_mb_send_wait_def mb_send_loop_def)
qed

lemma k_demo_mb: "mb_ok (mailboxes k_demo m)" "mb_content (mailboxes k_demo m) = []" "mb_flag (mailboxes k_demo m) = 0"
    "mb_size (mailboxes k_demo m) = 2"
  by (simp_all add: k_demo_def mb_ok_def mb_content_def)

theorem mb_send_outcome_witness:
  "\<exists>k'. rt_mb_send_wait 3 99 (- 1) k_demo = Some (Return k' 0) \<and> mb_done (Suspend 3) 3 [99] k_demo k'"
  using mb_send_outcome [OF k_demo_kinv k_demo_current k_demo_mb(1), of 3 "- 1" 99] k_demo_mb
  by (simp add: timeout_ok_def)

text \<open>
  C20. \<open>rt_mb_recv\<close>, for every time-out: with a word pending the oldest one is delivered and removed,
  the first waiting sender is woken and the result is \<open>RT_EOK\<close>; an empty mailbox gives
  \<open>-RT_ETIMEOUT\<close> and no change when no waiting is allowed, and otherwise the caller is suspended on
  the queue of receivers. A receive into a null pointer never completes once a word is pending.
\<close>

theorem mb_recv_outcome:
  assumes inv: "kinv k" and c: "current_thread k = Some c" "thread_stat k c = 3" and i: "interrupt_nest k = 0"
    and ok: "mb_ok (mailboxes k m)" and f: "mb_flag (mailboxes k m) = 0 \<or> mb_flag (mailboxes k m) = 1"
    and time: "timeout_ok timeout"
  shows "if mb_content (mailboxes k m) \<noteq> []
     then (\<exists>k'. rt_mb_recv m True timeout k = Some (Return k' (Some (hd (mb_content (mailboxes k m))), 0)) \<and>
            mb_done (Suspend_sender m) m (tl (mb_content (mailboxes k m))) k k') \<and>
          rt_mb_recv m False timeout k = None
     else if timeout = 0 then rt_mb_recv m dst timeout k = Some (Return k (None, - 2))
     else \<exists>k' d. rt_mb_recv m dst timeout k = Some (Wait k' d) \<and> mailboxes k' = mailboxes k \<and>
            waits_on (Suspend m) c (mb_flag (mailboxes k m)) timeout k k'"
proof (cases "mb_entry (mailboxes k m) = 0")
  case True
  obtain k' where "ipc_block (Suspend m) c (mb_flag (mailboxes k m)) timeout (upd_thread c (\<lambda>th. th\<lparr>th_error := 0\<rparr>) k) = Some k'"
    "waits_on (Suspend m) c (mb_flag (mailboxes k m)) timeout k k'"
    by (rule block_error_cleared [OF inv c _ f time, of "Suspend m"]) auto
  moreover have "mb_content (mailboxes k m) = []" using True by (simp add: mb_content_def)
  ultimately show ?thesis
    using True c i waits_on_mailboxes by (auto simp: rt_mb_recv_def mb_recv_loop_def in_thread_context_def Let_def)
next
  case False
  then have "length (mb_content (mailboxes k m)) \<noteq> 0" by (simp add: unat_eq_0)
  then have "mb_content (mailboxes k m) \<noteq> []" by (metis length_0_conv)
  moreover obtain k' where "mb_get m True k = Some (k', Some (hd (mb_content (mailboxes k m))), 0)"
      "mb_done (Suspend_sender m) m (tl (mb_content (mailboxes k m))) k k'"
    using mb_get_spec [OF inv _ ok False] c by blast
  moreover have "mb_get m False k = None" by (auto simp: mb_get_def bind_eq_None_conv)
  ultimately show ?thesis using False by (auto simp: rt_mb_recv_def mb_recv_loop_def)
qed

theorem mb_recv_outcome_witness:
  "\<exists>k' d. rt_mb_recv 3 False 7 k_demo = Some (Wait k' d) \<and> mailboxes k' = mailboxes k_demo \<and>
     waits_on (Suspend 3) 1 0 7 k_demo k'"
  using mb_recv_outcome [OF k_demo_kinv k_demo_current k_demo_mb(1), of 3 7 False] k_demo_mb
  by (simp add: timeout_ok_def)

text \<open>
  From \<open>rt_mb_init\<close> on: words sent while there is room are received in the order they were
  sent, and a word sent by \<open>rt_mb_urgent\<close> is received before all of them; the mailbox is empty
  afterwards. No access is outside the pool, for every pool of at least \<open>size\<close> words.
\<close>

theorem mailbox_order:
  fixes m :: obj and flag :: u8 and k :: kernel and sz :: u32
  assumes sz: "0 < sz" "sz < 0x10000" "unat sz \<le> length pool" and ms: "length ms < unat sz"
  defines "mb0 \<equiv> mailboxes (fst (rt_mb_init m pool sz flag k)) m"
  shows "\<exists>mb1 mb2 mb3. mailbox.put_all ms mb0 = Some mb1 \<and> mb_store_front u mb1 = Some mb2 \<and>
    mailbox.get_all (Suc (length ms)) mb2 = Some (mb3, u # ms) \<and> mb_content mb3 = []"
proof -
  have usz: "unat (ucast sz :: u16) = unat sz"
    using sz(2) by (simp add: unsigned_ucast_eq word_less_nat_alt take_bit_nat_eq_self)
  have e: "mb0 = mb_new pool sz flag" by (simp add: mb0_def rt_mb_init_def ipc_object_init_def)
  have ok: "mb_ok mb0" "mb_content mb0 = []" "unat (mb_size mb0) = unat sz"
    using sz usz by (simp_all add: e mb_ok_def mb_new_def mb_content_def word_less_nat_alt word_le_nat_alt)
  obtain mb1 xs where mb1: "mailbox.put_all ms mb0 = Some mb1" "mb_ok mb1" "mb_content mb1 = xs"
      "list_all2 (\<lambda>v x. x = v) ms xs"
    using mailbox.put_all_spec [OF ok(1), of ms] ok ms by auto
  then have xs: "xs = ms" by (simp add: list_all2_conv_all_nth list_eq_iff_nth_eq)
  have s1: "unat (mb_size mb1) = unat sz" using mailbox.put_all_capacity [OF ok(1) _ _ mb1(1)] ok ms by simp
  obtain mb2 where mb2: "mb_store_front u mb1 = Some mb2" "mb_ok mb2" "mb_content mb2 = u # ms"
    using mailbox.urgent_law [OF mb1(2), of u] mb1(3) xs s1 ms by auto
  have "\<exists>mb3. mailbox.get_all (Suc (length ms)) mb2 = Some (mb3, u # ms) \<and> mb_content mb3 = []"
    using mailbox.get_all_spec [OF mb2(2), of "Suc (length ms)"] mb2(3) by auto
  with mb1(1) mb2(1) show ?thesis by blast
qed

theorem mailbox_order_witness:
  "\<exists>mb1 mb2 mb3. mailbox.put_all [10, 11] (mailboxes (fst (rt_mb_init 3 [0, 0, 0, 0] 3 0 k_demo)) 3) = Some mb1 \<and>
    mb_store_front 12 mb1 = Some mb2 \<and>
    mailbox.get_all (Suc (length [10 :: u32, 11])) mb2 = Some (mb3, 12 # [10, 11]) \<and> mb_content mb3 = []"
  by (rule mailbox_order) simp_all

end
