(* ===== verification/Message_Queue.thy ===== *)
theory Message_Queue
  imports Channel
begin

text \<open>
  The message queues of \<open>src/ipc.c\<close>: a pool of blocks, each a link word and \<open>msg_size\<close> bytes,
  chained into a list of pending messages (head and tail) and a list of free blocks. Blocks are
  numbered by their position in the pool, \<open>None\<close> is the null link. The copies of the message, which
  the code makes with interrupts enabled, are part of the step.
\<close>

abbreviation (input) RT_MQ_ENTRY_MAX :: u16 where "RT_MQ_ENTRY_MAX \<equiv> 0xffff"

definition upd_mq :: "obj \<Rightarrow> (rt_messagequeue \<Rightarrow> rt_messagequeue) \<Rightarrow> kernel \<Rightarrow> kernel" where
  "upd_mq q f k = k\<lparr>messagequeues := (messagequeues k)(q := f (messagequeues k q))\<rparr>"

text \<open>\<open>RT_ALIGN(msg_size, 4)\<close>, stored into 16 bits.\<close>

definition mq_align :: "u32 \<Rightarrow> u16" where
  "mq_align n = ucast ((n + 3) AND NOT 3)"

text \<open>The loop that links all the blocks into the free list, the last block first.\<close>

definition mq_free_chain :: "nat \<Rightarrow> (nat \<Rightarrow> nat option) \<times> nat option" where
  "mq_free_chain n = fold (\<lambda>i (nxt, free). (nxt(i := free), Some i)) [0..<n] ((\<lambda>_. None), None)"

definition mq_new :: "(nat \<Rightarrow> u8 list) \<Rightarrow> u16 \<Rightarrow> u16 \<Rightarrow> u8 \<Rightarrow> rt_messagequeue" where
  "mq_new data msg_size max_msgs flag =
     \<lparr>mq_flag = flag, mq_msg_size = msg_size, mq_max_msgs = max_msgs, mq_entry = 0, mq_head = None, mq_tail = None,
       mq_free = snd (mq_free_chain (unat max_msgs)), mq_next = fst (mq_free_chain (unat max_msgs)), mq_data = data\<rparr>"

definition rt_mq_init :: "obj \<Rightarrow> (nat \<Rightarrow> u8 list) \<Rightarrow> u32 \<Rightarrow> u32 \<Rightarrow> u8 \<Rightarrow> kernel \<Rightarrow> kernel \<times> rt_err_t" where
  "rt_mq_init q data msg_size pool_size flag k =
     (let sz = mq_align msg_size; n = ucast (pool_size div (ucast sz + 4)) in
      (upd_mq q (\<lambda>_. mq_new data sz n flag) (ipc_object_init (Suspend_sender q) (ipc_object_init (Suspend q) k)), RT_EOK))"

definition rt_mq_detach :: "obj \<Rightarrow> kernel \<Rightarrow> (kernel \<times> rt_err_t) option" where
  "rt_mq_detach q k =
     do { k1 \<leftarrow> ipc_list_resume_all (Suspend q) k;
          k2 \<leftarrow> ipc_list_resume_all (Suspend_sender q) k1;
          Some (k2, RT_EOK) }"

text \<open>\<open>malloc n\<close> gives the block of \<open>n\<close> bytes as the contents of the messages, or fails.\<close>

definition rt_mq_create ::
    "bool \<Rightarrow> (nat \<Rightarrow> (nat \<Rightarrow> u8 list) option) \<Rightarrow> obj \<Rightarrow> u32 \<Rightarrow> u32 \<Rightarrow> u8 \<Rightarrow> kernel \<Rightarrow> (kernel \<times> obj option) option" where
  "rt_mq_create obj_ok malloc q msg_size max_msgs flag k =
     do { rt_assert (interrupt_nest k = 0);
          if \<not> obj_ok then Some (k, None)
          else let sz = mq_align msg_size; n = ucast max_msgs :: u16 in
               (case malloc ((unat sz + 4) * unat n) of
                  None \<Rightarrow> Some (k, None)
                | Some data \<Rightarrow>
                    Some (upd_mq q (\<lambda>_. mq_new data sz n flag)
                      (ipc_object_init (Suspend_sender q) (ipc_object_init (Suspend q) k)), Some q)) }"

definition rt_mq_delete :: "obj \<Rightarrow> kernel \<Rightarrow> (kernel \<times> rt_err_t) option" where
  "rt_mq_delete q k =
     do { rt_assert (interrupt_nest k = 0);
          k1 \<leftarrow> ipc_list_resume_all (Suspend q) k;
          k2 \<leftarrow> ipc_list_resume_all (Suspend_sender q) k1;
          Some (k2, RT_EOK) }"

text \<open>The part of \<open>rt_mq_send_wait\<close> after the loop: block \<open>i\<close> leaves the free list, is filled and
  linked behind the tail.\<close>

definition mq_append :: "nat \<Rightarrow> u8 list \<Rightarrow> u32 \<Rightarrow> rt_messagequeue \<Rightarrow> rt_messagequeue option" where
  "mq_append i buf n mq =
     do { data \<leftarrow> memcpy (mq_data mq i) 0 buf 0 (uint n);
          let mq1 = mq\<lparr>mq_free := mq_next mq i, mq_next := (mq_next mq)(i := None), mq_data := (mq_data mq)(i := data)\<rparr>;
          let mq2 = (case mq_tail mq1 of Some j \<Rightarrow> mq1\<lparr>mq_next := (mq_next mq1)(j := Some i)\<rparr> | None \<Rightarrow> mq1);
          let mq3 = mq2\<lparr>mq_tail := Some i\<rparr>;
          let mq4 = (if mq_head mq3 = None then mq3\<lparr>mq_head := Some i\<rparr> else mq3);
          Some (mq4\<lparr>mq_entry := (if mq_entry mq4 < RT_MQ_ENTRY_MAX then mq_entry mq4 + 1 else mq_entry mq4)\<rparr>) }"

text \<open>The same for \<open>rt_mq_urgent\<close>: the block is linked before the head.\<close>

definition mq_prepend :: "nat \<Rightarrow> u8 list \<Rightarrow> u32 \<Rightarrow> rt_messagequeue \<Rightarrow> rt_messagequeue option" where
  "mq_prepend i buf n mq =
     do { data \<leftarrow> memcpy (mq_data mq i) 0 buf 0 (uint n);
          let mq1 = mq\<lparr>mq_free := mq_next mq i, mq_data := (mq_data mq)(i := data)\<rparr>;
          let mq2 = mq1\<lparr>mq_next := (mq_next mq1)(i := mq_head mq1), mq_head := Some i\<rparr>;
          let mq3 = (if mq_tail mq2 = None then mq2\<lparr>mq_tail := Some i\<rparr> else mq2);
          Some (mq3\<lparr>mq_entry := (if mq_entry mq3 < RT_MQ_ENTRY_MAX then mq_entry mq3 + 1 else mq_entry mq3)\<rparr>) }"

text \<open>
  The end of both, in the state with the message linked; \<open>entry\<close> is the count before, which is not
  incremented past its maximum. A waiting receiver is resumed.
\<close>

definition mq_posted :: "obj \<Rightarrow> u16 \<Rightarrow> kernel \<Rightarrow> (kernel \<times> rt_err_t) option" where
  "mq_posted q entry k =
     (if entry < RT_MQ_ENTRY_MAX
      then if tlists k (Suspend q) \<noteq> []
           then do { k1 \<leftarrow> ipc_list_resume (Suspend q) k; k2 \<leftarrow> rt_schedule k1; Some (k2, RT_EOK) }
           else Some (k, RT_EOK)
      else Some (k, - RT_EFULL))"

definition mq_send_loop :: "obj \<Rightarrow> u8 list \<Rightarrow> u32 \<Rightarrow> int \<Rightarrow> u32 \<Rightarrow> kernel \<Rightarrow> rt_err_t outcome option" where
  "mq_send_loop q buf n timeout tick_delta k =
     (case mq_free (messagequeues k q) of
        None \<Rightarrow>
          do { t \<leftarrow> current_thread k;
               let k1 = upd_thread t (\<lambda>th. th\<lparr>th_error := RT_EOK\<rparr>) k;
               if timeout = 0 then Some (Return k1 (- RT_EFULL))
               else do { rt_assert (in_thread_context k1);
                         k2 \<leftarrow> ipc_block (Suspend_sender q) t (mq_flag (messagequeues k1 q)) timeout k1;
                         Some (Wait k2 (if timeout > 0 then rt_tick k1 else tick_delta)) } }
      | Some i \<Rightarrow>
          do { mq \<leftarrow> mq_append i buf n (messagequeues k q);
               (k1, err) \<leftarrow> mq_posted q (mq_entry (messagequeues k q)) (upd_mq q (\<lambda>_. mq) k);
               Some (Return k1 err) })"

definition rt_mq_send_wait :: "obj \<Rightarrow> u8 list \<Rightarrow> u32 \<Rightarrow> int \<Rightarrow> kernel \<Rightarrow> rt_err_t outcome option" where
  "rt_mq_send_wait q buf n timeout k =
     do { rt_assert (n \<noteq> 0);
          if n > ucast (mq_msg_size (messagequeues k q)) then Some (Return k (- RT_ERROR))
          else if mq_free (messagequeues k q) = None \<and> timeout = 0 then Some (Return k (- RT_EFULL))
          else mq_send_loop q buf n timeout 0 k }"

definition rt_mq_send_wait_return ::
    "tid \<Rightarrow> obj \<Rightarrow> u8 list \<Rightarrow> u32 \<Rightarrow> int \<Rightarrow> u32 \<Rightarrow> kernel \<Rightarrow> rt_err_t outcome option" where
  "rt_mq_send_wait_return t q buf n timeout tick_delta k =
     (if th_error (threads k t) \<noteq> RT_EOK then Some (Return k (th_error (threads k t)))
      else mq_send_loop q buf n (time_left timeout tick_delta k) (tick_delta_after timeout tick_delta k) k)"

definition rt_mq_send :: "obj \<Rightarrow> u8 list \<Rightarrow> u32 \<Rightarrow> kernel \<Rightarrow> rt_err_t outcome option" where
  "rt_mq_send q buf n k = rt_mq_send_wait q buf n 0 k"

definition rt_mq_urgent :: "obj \<Rightarrow> u8 list \<Rightarrow> u32 \<Rightarrow> kernel \<Rightarrow> (kernel \<times> rt_err_t) option" where
  "rt_mq_urgent q buf n k =
     do { rt_assert (n \<noteq> 0);
          if n > ucast (mq_msg_size (messagequeues k q)) then Some (k, - RT_ERROR)
          else (case mq_free (messagequeues k q) of
                  None \<Rightarrow> Some (k, - RT_EFULL)
                | Some i \<Rightarrow> do { mq \<leftarrow> mq_prepend i buf n (messagequeues k q); mq_posted q (mq_entry (messagequeues k q)) (upd_mq q (\<lambda>_. mq) k) }) }"

text \<open>
  Taking the first message: it leaves the list and its block is freed; the second component is the
  contents of the block, from which the message is copied out.
\<close>

definition mq_take_first :: "rt_messagequeue \<Rightarrow> (rt_messagequeue \<times> u8 list) option" where
  "mq_take_first mq =
     do { i \<leftarrow> mq_head mq;
          let mq1 = mq\<lparr>mq_head := mq_next mq i\<rparr>;
          let mq2 = (if mq_tail mq1 = Some i then mq1\<lparr>mq_tail := None\<rparr> else mq1);
          let mq3 = (if mq_entry mq2 > 0 then mq2\<lparr>mq_entry := mq_entry mq2 - 1\<rparr> else mq2);
          Some (mq3\<lparr>mq_next := (mq_next mq3)(i := mq_free mq3), mq_free := Some i\<rparr>, mq_data mq3 i) }"

definition mq_recv_loop :: "obj \<Rightarrow> u8 list \<Rightarrow> u32 \<Rightarrow> int \<Rightarrow> u32 \<Rightarrow> kernel \<Rightarrow> (u8 list \<times> rt_err_t) outcome option" where
  "mq_recv_loop q buf n timeout tick_delta k =
     (if mq_entry (messagequeues k q) = 0
      then do { rt_assert (in_thread_context k);
                t \<leftarrow> current_thread k;
                let k1 = upd_thread t (\<lambda>th. th\<lparr>th_error := RT_EOK\<rparr>) k;
                if timeout = 0
                then Some (Return (upd_thread t (\<lambda>th. th\<lparr>th_error := - RT_ETIMEOUT\<rparr>) k1) (buf, - RT_ETIMEOUT))
                else do { k2 \<leftarrow> ipc_block (Suspend q) t (mq_flag (messagequeues k1 q)) timeout k1;
                          Some (Wait k2 (if timeout > 0 then rt_tick k1 else tick_delta)) } }
      else do { (mq, data) \<leftarrow> mq_take_first (messagequeues k q);
                out \<leftarrow> memcpy buf 0 data 0 (min (uint n) (uint (mq_msg_size mq)));
                let k1 = upd_mq q (\<lambda>_. mq) k;
                if tlists k1 (Suspend_sender q) \<noteq> []
                then do { k2 \<leftarrow> ipc_list_resume (Suspend_sender q) k1; k3 \<leftarrow> rt_schedule k2;
                          Some (Return k3 (out, RT_EOK)) }
                else Some (Return k1 (out, RT_EOK)) })"

definition rt_mq_recv :: "obj \<Rightarrow> u8 list \<Rightarrow> u32 \<Rightarrow> int \<Rightarrow> kernel \<Rightarrow> (u8 list \<times> rt_err_t) outcome option" where
  "rt_mq_recv q buf n timeout k =
     do { rt_assert (n \<noteq> 0);
          if mq_entry (messagequeues k q) = 0 \<and> timeout = 0 then Some (Return k (buf, - RT_ETIMEOUT))
          else mq_recv_loop q buf n timeout 0 k }"

definition rt_mq_recv_return ::
    "tid \<Rightarrow> obj \<Rightarrow> u8 list \<Rightarrow> u32 \<Rightarrow> int \<Rightarrow> u32 \<Rightarrow> kernel \<Rightarrow> (u8 list \<times> rt_err_t) outcome option" where
  "rt_mq_recv_return t q buf n timeout tick_delta k =
     (if th_error (threads k t) \<noteq> RT_EOK then Some (Return k (buf, th_error (threads k t)))
      else mq_recv_loop q buf n (time_left timeout tick_delta k) (tick_delta_after timeout tick_delta k) k)"

text \<open>The loop of \<open>rt_mq_control\<close> that frees all pending messages.\<close>

partial_function (option) mq_reset_loop :: "rt_messagequeue \<Rightarrow> rt_messagequeue option" where
  "mq_reset_loop mq =
     (case mq_head mq of
        None \<Rightarrow> Some mq
      | Some i \<Rightarrow>
          let mq1 = mq\<lparr>mq_head := mq_next mq i\<rparr>;
              mq2 = (if mq_tail mq1 = Some i then mq1\<lparr>mq_tail := None\<rparr> else mq1)
          in mq_reset_loop (mq2\<lparr>mq_next := (mq_next mq2)(i := mq_free mq2), mq_free := Some i\<rparr>))"

definition rt_mq_control :: "obj \<Rightarrow> int \<Rightarrow> kernel \<Rightarrow> (kernel \<times> rt_err_t) option" where
  "rt_mq_control q cmd k =
     (if cmd = RT_IPC_CMD_RESET
      then do { k1 \<leftarrow> ipc_list_resume_all (Suspend q) k;
                k2 \<leftarrow> ipc_list_resume_all (Suspend_sender q) k1;
                mq \<leftarrow> mq_reset_loop (messagequeues k2 q);
                k3 \<leftarrow> rt_schedule (upd_mq q (\<lambda>_. mq\<lparr>mq_entry := 0\<rparr>) k2);
                Some (k3, RT_EOK) }
      else Some (k, - RT_ERROR))"

section \<open>The lists of blocks\<close>

text \<open>\<open>chain nxt p l\<close>: following the links from \<open>p\<close> visits the blocks \<open>l\<close> and ends.\<close>

fun chain :: "(nat \<Rightarrow> nat option) \<Rightarrow> nat option \<Rightarrow> nat list \<Rightarrow> bool" where
  "chain nxt p [] \<longleftrightarrow> p = None"
| "chain nxt p (i # l) \<longleftrightarrow> p = Some i \<and> chain nxt (nxt i) l"

fun walk :: "(nat \<Rightarrow> nat option) \<Rightarrow> nat \<Rightarrow> nat option \<Rightarrow> nat list" where
  "walk nxt 0 p = []"
| "walk nxt (Suc n) p = (case p of None \<Rightarrow> [] | Some i \<Rightarrow> i # walk nxt n (nxt i))"

lemma chain_walk: "chain nxt p l \<Longrightarrow> walk nxt (length l) p = l"
  by (induction l arbitrary: p) auto

lemma chain_upd [simp]: "i \<notin> set l \<Longrightarrow> chain (nxt(i := x)) p l = chain nxt p l"
  by (induction l arbitrary: p) auto

lemma chain_upd_fun [simp]: "i \<notin> set l \<Longrightarrow> chain (\<lambda>a. if a = i then x else nxt a) p l = chain nxt p l"
  using chain_upd [of i l nxt x p] unfolding fun_upd_def by blast

lemma chain_snoc:
  "chain nxt p l \<Longrightarrow> l \<noteq> [] \<Longrightarrow> distinct (l @ [i]) \<Longrightarrow> chain (nxt(i := None, last l := Some i)) p (l @ [i])"
proof (induction l arbitrary: p)
  case (Cons j l)
  then show ?case
  proof (cases "l = []")
    case False
    have c: "chain (nxt(i := None, last l := Some i)) (nxt j) (l @ [i])"
      by (rule Cons.IH) (use Cons.prems False in auto)
    have "last l \<noteq> j" "i \<noteq> j" using Cons.prems(3) False by auto
    then have e: "(nxt(i := None, last l := Some i)) j = nxt j" by simp
    show ?thesis
      unfolding append_Cons chain.simps last_ConsR [OF False] e using c Cons.prems(1) by (meson chain.simps(2))
  qed auto
qed simp

text \<open>
  A well-formed queue: \<open>pend\<close> are the blocks of the pending messages in order, \<open>free\<close> the free
  ones, and together they are all the blocks of the pool.
\<close>

definition mq_lists :: "rt_messagequeue \<Rightarrow> nat list \<Rightarrow> nat list \<Rightarrow> bool" where
  "mq_lists mq pend free \<longleftrightarrow>
     chain (mq_next mq) (mq_head mq) pend \<and> chain (mq_next mq) (mq_free mq) free \<and>
     distinct (pend @ free) \<and> set (pend @ free) = {..<unat (mq_max_msgs mq)} \<and>
     mq_tail mq = (if pend = [] then None else Some (last pend)) \<and> unat (mq_entry mq) = length pend"

definition mq_ok :: "rt_messagequeue \<Rightarrow> bool" where
  "mq_ok mq \<longleftrightarrow> (\<exists>pend free. mq_lists mq pend free) \<and>
     (\<forall>i < unat (mq_max_msgs mq). length (mq_data mq i) = unat (mq_msg_size mq))"

lemma mq_okI:
  "mq_lists mq pend free \<Longrightarrow> \<forall>i < unat (mq_max_msgs mq). length (mq_data mq i) = unat (mq_msg_size mq) \<Longrightarrow> mq_ok mq"
  unfolding mq_ok_def by blast

definition mq_content :: "rt_messagequeue \<Rightarrow> u8 list list" where
  "mq_content mq = map (mq_data mq) (walk (mq_next mq) (unat (mq_entry mq)) (mq_head mq))"

lemma mq_content_lists: "mq_lists mq pend free \<Longrightarrow> mq_content mq = map (mq_data mq) pend"
  using chain_walk by (fastforce simp: mq_content_def mq_lists_def)

lemma mq_lists_length:
  assumes "mq_lists mq pend free"
  shows "length pend + length free = unat (mq_max_msgs mq)"
proof -
  have "length (pend @ free) = card (set (pend @ free))" using assms unfolding mq_lists_def by (metis distinct_card)
  also have "\<dots> = unat (mq_max_msgs mq)" using assms unfolding mq_lists_def by simp
  finally show ?thesis by simp
qed

text \<open>A message of \<open>n\<close> bytes as it is sent, and as it lies in a block.\<close>

definition mq_valid :: "rt_messagequeue \<Rightarrow> u8 list \<times> u32 \<Rightarrow> bool" where
  "mq_valid mq = (\<lambda>(buf, n). unat n \<le> length buf \<and> unat n \<le> unat (mq_msg_size mq))"

definition mq_carries :: "rt_messagequeue \<Rightarrow> u8 list \<times> u32 \<Rightarrow> u8 list \<Rightarrow> bool" where
  "mq_carries mq = (\<lambda>(buf, n) x. length x = unat (mq_msg_size mq) \<and> take (unat n) x = take (unat n) buf)"

lemma message_copied:
  assumes "mq_valid mq (buf, n)" "length old = unat (mq_msg_size mq)"
  obtains x where "memcpy old 0 buf 0 (uint n) = Some x" "mq_carries mq (buf, n) x"
proof -
  have le: "unat n \<le> length buf" "unat n \<le> length old" using assms by (simp_all add: mq_valid_def)
  let ?x = "take (unat n) buf @ drop (unat n) old"
  have "memcpy old 0 buf 0 (uint n) = Some ?x" using le by (simp add: memcpy_def uint_nat del: of_nat_unat)
  moreover have "mq_carries mq (buf, n) ?x" using le assms(2) by (simp add: mq_carries_def)
  ultimately show thesis using that by blast
qed

lemma mq_entry_suc:
  assumes l: "mq_lists mq pend (i # free)"
  shows "unat (mq_entry mq + 1) = length pend + 1" "mq_entry mq < 0xffff"
proof -
  have "length pend < unat (mq_max_msgs mq)" using mq_lists_length [OF l] by simp
  moreover have "unat (mq_max_msgs mq) < 2 ^ 16" using unsigned_less [of "mq_max_msgs mq"] by simp
  ultimately show "unat (mq_entry mq + 1) = length pend + 1" "mq_entry mq < 0xffff"
    using l by (simp_all add: mq_lists_def unat_plus_if' word_size word_less_nat_alt)
qed

lemma mq_append_spec:
  assumes l: "mq_lists mq pend (i # free)" and d: "\<forall>i < unat (mq_max_msgs mq). length (mq_data mq i) = unat (mq_msg_size mq)"
    and v: "mq_valid mq (buf, n)"
  shows "\<exists>mq' x. mq_append i buf n mq = Some mq' \<and> mq_lists mq' (pend @ [i]) free \<and> mq_ok mq' \<and>
    mq_content mq' = mq_content mq @ [x] \<and> mq_carries mq (buf, n) x \<and>
    mq_max_msgs mq' = mq_max_msgs mq \<and> mq_msg_size mq' = mq_msg_size mq \<and> mq_flag mq' = mq_flag mq"
proof -
  note es = mq_entry_suc [OF l]
  have c: "chain (mq_next mq) (mq_head mq) pend" "chain (mq_next mq) (mq_free mq) (i # free)"
    and dis: "distinct (pend @ i # free)" and all: "set (pend @ i # free) = {..<unat (mq_max_msgs mq)}"
    and tl: "mq_tail mq = (if pend = [] then None else Some (last pend))" and en: "unat (mq_entry mq) = length pend"
    using l by (simp_all add: mq_lists_def)
  have i: "i < unat (mq_max_msgs mq)" using all by auto
  obtain x where x: "memcpy (mq_data mq i) 0 buf 0 (uint n) = Some x" "mq_carries mq (buf, n) x"
    by (rule message_copied [OF v]) (use d i in auto)
  define nxt where "nxt = (case mq_tail mq of Some j \<Rightarrow> (mq_next mq)(i := None, j := Some i) | None \<Rightarrow> (mq_next mq)(i := None))"
  define mq' where "mq' = mq\<lparr>mq_free := mq_next mq i, mq_next := nxt, mq_data := (mq_data mq)(i := x), mq_tail := Some i,
    mq_head := (if mq_head mq = None then Some i else mq_head mq), mq_entry := mq_entry mq + 1\<rparr>"
  have run: "mq_append i buf n mq = Some mq'"
    using x(1) es(2) by (auto simp: mq_append_def Let_def mq'_def nxt_def split: option.splits)
  have "chain nxt (mq_head mq') (pend @ [i])"
  proof (cases "pend = []")
    case True
    then show ?thesis using c(1) tl by (simp add: nxt_def mq'_def)
  next
    case False
    then have "mq_head mq' = mq_head mq" using c(1) by (cases pend) (auto simp: mq'_def)
    then show ?thesis using chain_snoc [OF c(1) False, of i] dis tl False by (simp add: nxt_def)
  qed
  moreover have "chain nxt (mq_next mq i) free"
  proof (cases "pend = []")
    case False
    then have "last pend \<notin> set free" using dis last_in_set [OF False] by (auto simp: disjoint_iff)
    then show ?thesis using c(2) dis tl False by (auto simp: nxt_def)
  qed (use c(2) dis tl in \<open>simp add: nxt_def\<close>)
  ultimately have l': "mq_lists mq' (pend @ [i]) free"
    using dis all es by (simp add: mq_lists_def mq'_def)
  have "length x = unat (mq_msg_size mq)" using x(2) by (simp add: mq_carries_def)
  then have "mq_ok mq'" using d by (intro mq_okI [OF l']) (simp add: mq'_def)
  moreover have "mq_content mq' = mq_content mq @ [x]"
    unfolding mq_content_lists [OF l'] mq_content_lists [OF l] using dis by (auto simp: mq'_def)
  ultimately show ?thesis using run l' x(2) by (auto simp: mq'_def)
qed

lemma mq_prepend_spec:
  assumes l: "mq_lists mq pend (i # free)" and d: "\<forall>i < unat (mq_max_msgs mq). length (mq_data mq i) = unat (mq_msg_size mq)"
    and v: "mq_valid mq (buf, n)"
  shows "\<exists>mq' x. mq_prepend i buf n mq = Some mq' \<and> mq_lists mq' (i # pend) free \<and> mq_ok mq' \<and>
    mq_content mq' = x # mq_content mq \<and> mq_carries mq (buf, n) x \<and>
    mq_max_msgs mq' = mq_max_msgs mq \<and> mq_msg_size mq' = mq_msg_size mq \<and> mq_flag mq' = mq_flag mq"
proof -
  note es = mq_entry_suc [OF l]
  have c: "chain (mq_next mq) (mq_head mq) pend" "chain (mq_next mq) (mq_free mq) (i # free)"
    and dis: "distinct (pend @ i # free)" and all: "set (pend @ i # free) = {..<unat (mq_max_msgs mq)}"
    and tl: "mq_tail mq = (if pend = [] then None else Some (last pend))" and en: "unat (mq_entry mq) = length pend"
    using l by (simp_all add: mq_lists_def)
  have i: "i < unat (mq_max_msgs mq)" using all by auto
  obtain x where x: "memcpy (mq_data mq i) 0 buf 0 (uint n) = Some x" "mq_carries mq (buf, n) x"
    by (rule message_copied [OF v]) (use d i in auto)
  define mq' where "mq' = mq\<lparr>mq_free := mq_next mq i, mq_data := (mq_data mq)(i := x), mq_next := (mq_next mq)(i := mq_head mq),
    mq_head := Some i, mq_tail := (if mq_tail mq = None then Some i else mq_tail mq), mq_entry := mq_entry mq + 1\<rparr>"
  have run: "mq_prepend i buf n mq = Some mq'"
    using x(1) es(2) by (auto simp: mq_prepend_def Let_def mq'_def)
  have l': "mq_lists mq' (i # pend) free"
    using c dis all es tl by (auto simp: mq_lists_def mq'_def)
  have "length x = unat (mq_msg_size mq)" using x(2) by (simp add: mq_carries_def)
  then have "mq_ok mq'" using d by (intro mq_okI [OF l']) (simp add: mq'_def)
  moreover have "mq_content mq' = x # mq_content mq"
    unfolding mq_content_lists [OF l'] mq_content_lists [OF l] using dis by (auto simp: mq'_def)
  ultimately show ?thesis using run l' x(2) by (auto simp: mq'_def)
qed

lemma mq_take_first_spec:
  assumes l: "mq_lists mq (i # pend) free" and d: "\<forall>i < unat (mq_max_msgs mq). length (mq_data mq i) = unat (mq_msg_size mq)"
  shows "\<exists>mq'. mq_take_first mq = Some (mq', hd (mq_content mq)) \<and> mq_lists mq' pend (i # free) \<and> mq_ok mq' \<and>
    mq_content mq' = tl (mq_content mq) \<and>
    mq_max_msgs mq' = mq_max_msgs mq \<and> mq_msg_size mq' = mq_msg_size mq \<and> mq_flag mq' = mq_flag mq"
proof -
  have c: "chain (mq_next mq) (mq_head mq) (i # pend)" "chain (mq_next mq) (mq_free mq) free"
    and dis: "distinct ((i # pend) @ free)" and all: "set ((i # pend) @ free) = {..<unat (mq_max_msgs mq)}"
    and tl: "mq_tail mq = Some (last (i # pend))" and en: "unat (mq_entry mq) = Suc (length pend)"
    using l by (simp_all add: mq_lists_def)
  have ne: "mq_entry mq \<noteq> 0" using en by auto
  have em: "unat (mq_entry mq - 1) = length pend" using unat_minus_one [OF ne] en by simp
  define mq' where "mq' = mq\<lparr>mq_head := mq_next mq i, mq_tail := (if mq_tail mq = Some i then None else mq_tail mq),
    mq_entry := mq_entry mq - 1, mq_next := (mq_next mq)(i := mq_free mq), mq_free := Some i\<rparr>"
  have run: "mq_take_first mq = Some (mq', mq_data mq i)"
    using c(1) ne by (auto simp: mq_take_first_def Let_def mq'_def word_gt_0)
  have lst: "last (i # pend) = i \<longleftrightarrow> pend = []" using dis by (cases pend rule: rev_cases) auto
  have l': "mq_lists mq' pend (i # free)"
    using c dis all em tl lst by (auto simp: mq_lists_def mq'_def)
  have "mq_ok mq'" using d by (intro mq_okI [OF l']) (simp add: mq'_def)
  moreover have "mq_content mq' = tl (mq_content mq)" "hd (mq_content mq) = mq_data mq i"
    unfolding mq_content_lists [OF l'] mq_content_lists [OF l] by (simp_all add: mq'_def)
  ultimately show ?thesis using run l' by (auto simp: mq'_def)
qed

subsection \<open>The queue as a bounded channel\<close>

text \<open>Adding with a block of the free list, as the sending operations do.\<close>

definition mq_put :: "u8 list \<times> u32 \<Rightarrow> rt_messagequeue \<Rightarrow> rt_messagequeue option" where
  "mq_put = (\<lambda>(buf, n) mq. Option.bind (mq_free mq) (\<lambda>i. mq_append i buf n mq))"

definition mq_put_front :: "u8 list \<times> u32 \<Rightarrow> rt_messagequeue \<Rightarrow> rt_messagequeue option" where
  "mq_put_front = (\<lambda>(buf, n) mq. Option.bind (mq_free mq) (\<lambda>i. mq_prepend i buf n mq))"

lemma mq_cong:
  "mq_msg_size mq' = mq_msg_size mq \<Longrightarrow> mq_valid mq' = mq_valid mq \<and> mq_carries mq' = mq_carries mq"
  by (simp add: mq_valid_def mq_carries_def fun_eq_iff)

lemma mq_okE:
  assumes "mq_ok mq"
  obtains pend free where "mq_lists mq pend free" "length (mq_content mq) = length pend"
    "length pend + length free = unat (mq_max_msgs mq)"
    "\<forall>i < unat (mq_max_msgs mq). length (mq_data mq i) = unat (mq_msg_size mq)"
  using assms mq_lists_length mq_content_lists unfolding mq_ok_def by (metis length_map)

lemma mq_free_iff:
  assumes ok: "mq_ok mq"
  shows "mq_free mq = None \<longleftrightarrow> length (mq_content mq) = unat (mq_max_msgs mq)"
    "mq_entry mq = 0 \<longleftrightarrow> mq_content mq = []" "length (mq_content mq) \<le> unat (mq_max_msgs mq)"
    "length (mq_content mq) = unat (mq_entry mq)"
proof -
  obtain pend free where l: "mq_lists mq pend free" "length (mq_content mq) = length pend"
    "length pend + length free = unat (mq_max_msgs mq)"
    using ok by (rule mq_okE)
  show "mq_free mq = None \<longleftrightarrow> length (mq_content mq) = unat (mq_max_msgs mq)"
    using l by (cases free) (auto simp: mq_lists_def)
  show e: "length (mq_content mq) = unat (mq_entry mq)" using l by (simp add: mq_lists_def)
  show "mq_entry mq = 0 \<longleftrightarrow> mq_content mq = []" using e by (metis length_0_conv unat_eq_0)
  show "length (mq_content mq) \<le> unat (mq_max_msgs mq)" using l by simp
qed

lemma mq_put_spec:
  assumes ok: "mq_ok mq" and v: "mq_valid mq (buf, n)" and i: "mq_free mq = Some i"
  shows "\<exists>mq' x. mq_append i buf n mq = Some mq' \<and> mq_ok mq' \<and> mq_content mq' = mq_content mq @ [x] \<and>
     mq_carries mq (buf, n) x \<and> mq_max_msgs mq' = mq_max_msgs mq \<and> mq_msg_size mq' = mq_msg_size mq \<and>
     mq_flag mq' = mq_flag mq \<and> mq_entry mq < 0xffff"
    "\<exists>mq' x. mq_prepend i buf n mq = Some mq' \<and> mq_ok mq' \<and> mq_content mq' = x # mq_content mq \<and>
     mq_carries mq (buf, n) x \<and> mq_max_msgs mq' = mq_max_msgs mq \<and> mq_msg_size mq' = mq_msg_size mq \<and>
     mq_flag mq' = mq_flag mq \<and> mq_entry mq < 0xffff"
proof -
  obtain pend free where l: "mq_lists mq pend free"
      "\<forall>i < unat (mq_max_msgs mq). length (mq_data mq i) = unat (mq_msg_size mq)"
    using ok by (rule mq_okE)
  obtain fs where f: "free = i # fs" using l(1) i by (cases free) (auto simp: mq_lists_def)
  show "\<exists>mq' x. mq_append i buf n mq = Some mq' \<and> mq_ok mq' \<and> mq_content mq' = mq_content mq @ [x] \<and>
     mq_carries mq (buf, n) x \<and> mq_max_msgs mq' = mq_max_msgs mq \<and> mq_msg_size mq' = mq_msg_size mq \<and>
     mq_flag mq' = mq_flag mq \<and> mq_entry mq < 0xffff"
    using mq_append_spec [OF l(1) [unfolded f] l(2) v] mq_entry_suc(2) [OF l(1) [unfolded f]] by blast
  show "\<exists>mq' x. mq_prepend i buf n mq = Some mq' \<and> mq_ok mq' \<and> mq_content mq' = x # mq_content mq \<and>
     mq_carries mq (buf, n) x \<and> mq_max_msgs mq' = mq_max_msgs mq \<and> mq_msg_size mq' = mq_msg_size mq \<and>
     mq_flag mq' = mq_flag mq \<and> mq_entry mq < 0xffff"
    using mq_prepend_spec [OF l(1) [unfolded f] l(2) v] mq_entry_suc(2) [OF l(1) [unfolded f]] by blast
qed

lemma mq_get_spec:
  assumes ok: "mq_ok mq" and ne: "mq_content mq \<noteq> []"
  shows "\<exists>mq'. mq_take_first mq = Some (mq', hd (mq_content mq)) \<and> mq_ok mq' \<and> mq_content mq' = tl (mq_content mq) \<and>
    mq_max_msgs mq' = mq_max_msgs mq \<and> mq_msg_size mq' = mq_msg_size mq \<and> mq_flag mq' = mq_flag mq"
proof -
  obtain pend free where l: "mq_lists mq pend free" "length (mq_content mq) = length pend"
      "\<forall>i < unat (mq_max_msgs mq). length (mq_data mq i) = unat (mq_msg_size mq)"
    using ok by (rule mq_okE)
  obtain i ps where p: "pend = i # ps" using l(2) ne by (cases pend) auto
  show ?thesis using mq_take_first_spec [OF l(1) [unfolded p] l(3)] by blast
qed

lemma mq_content_size:
  assumes ok: "mq_ok mq" and ne: "mq_content mq \<noteq> []"
  shows "length (hd (mq_content mq)) = unat (mq_msg_size mq)"
proof -
  obtain pend free where l: "mq_lists mq pend free" "length (mq_content mq) = length pend"
      "\<forall>i < unat (mq_max_msgs mq). length (mq_data mq i) = unat (mq_msg_size mq)"
    using ok by (rule mq_okE)
  obtain i ps where p: "pend = i # ps" using l(2) ne by (cases pend) auto
  have "i \<in> set (pend @ free)" by (simp add: p)
  then have "i < unat (mq_max_msgs mq)" using l(1) unfolding mq_lists_def by blast
  then show ?thesis using l(3) mq_content_lists [OF l(1)] p by simp
qed

interpretation msgqueue: bounded_channel mq_ok mq_content "\<lambda>mq. unat (mq_max_msgs mq)" mq_valid mq_carries
    mq_put mq_put_front mq_take_first
proof unfold_locales
  fix mq :: rt_messagequeue and m :: "u8 list \<times> u32"
  assume ok: "mq_ok mq"
  obtain buf n where m: "m = (buf, n)" by (cases m)
  note fr = mq_free_iff [OF ok]
  show "length (mq_content mq) \<le> unat (mq_max_msgs mq)" by (rule fr(3))
  {
    assume v: "mq_valid mq m" and room: "length (mq_content mq) < unat (mq_max_msgs mq)"
    then obtain i where i: "mq_free mq = Some i" using fr(1) by (cases "mq_free mq") auto
    show "\<exists>mq' x. mq_put m mq = Some mq' \<and> mq_ok mq' \<and> mq_content mq' = mq_content mq @ [x] \<and> mq_carries mq m x \<and>
        unat (mq_max_msgs mq') = unat (mq_max_msgs mq) \<and> mq_valid mq' = mq_valid mq \<and> mq_carries mq' = mq_carries mq"
    proof -
      obtain mq' x where p: "mq_append i buf n mq = Some mq'" "mq_ok mq'" "mq_content mq' = mq_content mq @ [x]"
        "mq_carries mq (buf, n) x" "mq_max_msgs mq' = mq_max_msgs mq" "mq_msg_size mq' = mq_msg_size mq"
        using mq_put_spec(1) [OF ok v [unfolded m] i] by blast
      have "mq_put m mq = Some mq'" using p(1) i by (simp add: m mq_put_def)
      then show ?thesis using p(2-5) mq_cong [OF p(6)] by (auto simp: m)
    qed
    show "\<exists>mq' x. mq_put_front m mq = Some mq' \<and> mq_ok mq' \<and> mq_content mq' = x # mq_content mq \<and> mq_carries mq m x \<and>
        unat (mq_max_msgs mq') = unat (mq_max_msgs mq) \<and> mq_valid mq' = mq_valid mq \<and> mq_carries mq' = mq_carries mq"
    proof -
      obtain mq' x where p: "mq_prepend i buf n mq = Some mq'" "mq_ok mq'" "mq_content mq' = x # mq_content mq"
        "mq_carries mq (buf, n) x" "mq_max_msgs mq' = mq_max_msgs mq" "mq_msg_size mq' = mq_msg_size mq"
        using mq_put_spec(2) [OF ok v [unfolded m] i] by blast
      have "mq_put_front m mq = Some mq'" using p(1) i by (simp add: m mq_put_front_def)
      then show ?thesis using p(2-5) mq_cong [OF p(6)] by (auto simp: m)
    qed
  }
  show "\<exists>mq'. mq_take_first mq = Some (mq', hd (mq_content mq)) \<and> mq_ok mq' \<and> mq_content mq' = tl (mq_content mq) \<and>
      unat (mq_max_msgs mq') = unat (mq_max_msgs mq) \<and> mq_valid mq' = mq_valid mq \<and> mq_carries mq' = mq_carries mq"
    if "mq_content mq \<noteq> []"
    using mq_get_spec [OF ok that] mq_cong by metis
qed

subsection \<open>Initialisation and reset\<close>

lemma mq_free_chain_spec:
  "chain (fst (mq_free_chain n)) (snd (mq_free_chain n)) (rev [0..<n])"
proof (induction n)
  case 0
  then show ?case by (simp add: mq_free_chain_def)
next
  case (Suc n)
  have "mq_free_chain (Suc n) = ((fst (mq_free_chain n))(n := snd (mq_free_chain n)), Some n)"
    by (simp add: mq_free_chain_def case_prod_beta)
  with Suc show ?case by simp
qed

lemma mq_new_ok:
  assumes "\<forall>i < unat n. length (data i) = unat sz"
  shows "mq_ok (mq_new data sz n flag)" "mq_content (mq_new data sz n flag) = []"
proof -
  have "mq_lists (mq_new data sz n flag) [] (rev [0..<unat n])"
    using mq_free_chain_spec by (auto simp: mq_lists_def mq_new_def)
  from mq_okI [OF this] show "mq_ok (mq_new data sz n flag)" using assms by (simp add: mq_new_def)
  show "mq_content (mq_new data sz n flag) = []" by (simp add: mq_content_def mq_new_def)
qed

text \<open>The reset loop ends, with all the blocks on the free list.\<close>

lemma mq_reset_spec:
  assumes "chain (mq_next mq) (mq_head mq) pend" "chain (mq_next mq) (mq_free mq) free" "distinct (pend @ free)"
    "mq_tail mq = (if pend = [] then None else Some (last pend))"
  shows "\<exists>mq'. mq_reset_loop mq = Some mq' \<and> chain (mq_next mq') (mq_free mq') (rev pend @ free) \<and>
     mq_head mq' = None \<and> mq_tail mq' = None \<and> mq_data mq' = mq_data mq \<and> mq_max_msgs mq' = mq_max_msgs mq \<and>
     mq_msg_size mq' = mq_msg_size mq \<and> mq_flag mq' = mq_flag mq"
  using assms
proof (induction pend arbitrary: mq free)
  case Nil
  then show ?case by (simp add: mq_reset_loop.simps [of mq])
next
  case (Cons i pend)
  define mq1 where "mq1 = mq\<lparr>mq_head := mq_next mq i, mq_tail := (if mq_tail mq = Some i then None else mq_tail mq),
    mq_next := (mq_next mq)(i := mq_free mq), mq_free := Some i\<rparr>"
  have lst: "last (i # pend) = i \<longleftrightarrow> pend = []" using Cons.prems(3) by (cases pend rule: rev_cases) auto
  have "mq_reset_loop mq = mq_reset_loop mq1"
    using Cons.prems(1) by (auto simp: mq_reset_loop.simps [of mq] mq1_def)
  moreover have "\<exists>mq'. mq_reset_loop mq1 = Some mq' \<and> chain (mq_next mq') (mq_free mq') (rev pend @ i # free) \<and>
     mq_head mq' = None \<and> mq_tail mq' = None \<and> mq_data mq' = mq_data mq1 \<and> mq_max_msgs mq' = mq_max_msgs mq1 \<and>
     mq_msg_size mq' = mq_msg_size mq1 \<and> mq_flag mq' = mq_flag mq1"
    by (rule Cons.IH) (use Cons.prems lst in \<open>auto simp: mq1_def\<close>)
  ultimately show ?case by (auto simp: mq1_def)
qed

lemma mq_reset_ok:
  assumes ok: "mq_ok mq"
  shows "\<exists>mq'. mq_reset_loop mq = Some mq' \<and> mq_ok (mq'\<lparr>mq_entry := 0\<rparr>) \<and> mq_content (mq'\<lparr>mq_entry := 0\<rparr>) = [] \<and>
     mq_max_msgs mq' = mq_max_msgs mq \<and> mq_msg_size mq' = mq_msg_size mq"
proof -
  obtain pend free where l: "mq_lists mq pend free"
      "\<forall>i < unat (mq_max_msgs mq). length (mq_data mq i) = unat (mq_msg_size mq)"
    using ok by (rule mq_okE)
  then obtain mq' where mq': "mq_reset_loop mq = Some mq'" "chain (mq_next mq') (mq_free mq') (rev pend @ free)"
     "mq_head mq' = None" "mq_tail mq' = None" "mq_data mq' = mq_data mq" "mq_max_msgs mq' = mq_max_msgs mq"
     "mq_msg_size mq' = mq_msg_size mq"
    using mq_reset_spec [of mq pend free] unfolding mq_lists_def by metis
  have "mq_lists (mq'\<lparr>mq_entry := 0\<rparr>) [] (rev pend @ free)" using l(1) mq' by (simp add: mq_lists_def)
  from mq_okI [OF this] have "mq_ok (mq'\<lparr>mq_entry := 0\<rparr>)" using l(2) mq' by simp
  then show ?thesis using mq' by (simp add: mq_content_def)
qed

subsection \<open>The operations on the kernel\<close>

lemma upd_mq_frame [simp]:
  "messagequeues (upd_mq q f k) = (messagequeues k)(q := f (messagequeues k q))"
  "threads (upd_mq q f k) = threads k" "tlists (upd_mq q f k) = tlists k"
  "ready_priority_group (upd_mq q f k) = ready_priority_group k"
  "current_thread (upd_mq q f k) = current_thread k" "timers (upd_mq q f k) = timers k"
  "timer_list (upd_mq q f k) = timer_list k" "soft_timer_list (upd_mq q f k) = soft_timer_list k"
  by (simp_all add: upd_mq_def)

lemma kinv_upd_mq [simp]: "kinv (upd_mq q f k) \<longleftrightarrow> kinv k"
  using kinv_frame [of k "upd_mq q f k"] kinv_frame [of "upd_mq q f k" k] by auto

text \<open>
  A completed operation: queue \<open>q\<close> is well-formed with the given messages, and compared with the
  state that only differs in this, the first thread of \<open>h\<close> is woken.
\<close>

definition mq_done :: "list_head \<Rightarrow> obj \<Rightarrow> u8 list list \<Rightarrow> kernel \<Rightarrow> kernel \<Rightarrow> bool" where
  "mq_done h q ms k k' \<longleftrightarrow>
     (let mq = messagequeues k' q in
      mq_ok mq \<and> mq_content mq = ms \<and> mq_max_msgs mq = mq_max_msgs (messagequeues k q) \<and>
      mq_msg_size mq = mq_msg_size (messagequeues k q) \<and> woken h (upd_mq q (\<lambda>_. mq) k) k')"

lemma mq_done_wake:
  assumes inv: "kinv k" and c: "current_thread k \<noteq> None" and h: "waiting_list h"
    and mq: "mq_ok mq" "mq_content mq = ms" "mq_max_msgs mq = mq_max_msgs (messagequeues k q)"
      "mq_msg_size mq = mq_msg_size (messagequeues k q)"
  defines "k1 \<equiv> upd_mq q (\<lambda>_. mq) k"
  obtains k' where "mq_done h q ms k k'"
    "(if tlists k1 h \<noteq> [] then do { k2 \<leftarrow> ipc_list_resume h k1; k3 \<leftarrow> rt_schedule k2; Some (f k3) } else Some (f k1)) = Some (f k')"
proof -
  have i1: "kinv k1" "current_thread k1 \<noteq> None" using inv c by (simp_all add: k1_def)
  show thesis
  proof (cases "tlists k1 h = []")
    case True
    have "mq_done h q ms k k1" using mq woken_none [OF i1 True] by (simp add: mq_done_def k1_def)
    with True that show thesis by simp
  next
    case False
    obtain k2 k' where w: "ipc_list_resume h k1 = Some k2" "rt_schedule k2 = Some k'" "woken h k1 k'"
      by (rule wake_spec [OF i1 h False])
    have "messagequeues k' = messagequeues k1" using w(3) by (simp add: woken_def ipc_same_def)
    then have "messagequeues k' q = mq" by (simp add: k1_def)
    then have "mq_done h q ms k k'" using w(3) mq by (simp add: mq_done_def k1_def)
    with w False that show thesis by simp
  qed
qed

lemma waits_on_messagequeues: "waits_on h c flag time k k' \<Longrightarrow> messagequeues k' = messagequeues k"
  by (simp add: waits_on_def ipc_same_def)

lemma ucast_16_32: "unat (ucast (w :: u16) :: u32) = unat w"
proof -
  have "unat w < 2 ^ 16" using unsigned_less [of w] by simp
  then show ?thesis by (simp add: unsigned_ucast_eq take_bit_nat_eq_self)
qed

section \<open>Properties\<close>

text \<open>
  C29. \<open>rt_mq_send_wait\<close>, for every time-out: a message that is too long is refused with
  \<open>-RT_ERROR\<close>; with a free block the message is appended, its bytes as given, the first waiting
  receiver is woken and the result is \<open>RT_EOK\<close>; a full queue is refused with \<open>-RT_EFULL\<close> and no change
  when no waiting is allowed, and otherwise the caller is suspended on the queue of senders. No
  block is lost: the queue stays well-formed.
\<close>

theorem mq_send_outcome:
  assumes inv: "kinv k" and c: "current_thread k = Some c" "thread_stat k c = 3" and i: "interrupt_nest k = 0"
    and ok: "mq_ok (messagequeues k q)" and f: "mq_flag (messagequeues k q) = 0 \<or> mq_flag (messagequeues k q) = 1"
    and time: "timeout_ok timeout" and n: "0 < n" "unat n \<le> length buf"
  shows "if unat (mq_msg_size (messagequeues k q)) < unat n
     then rt_mq_send_wait q buf n timeout k = Some (Return k (- 1))
     else if length (mq_content (messagequeues k q)) < unat (mq_max_msgs (messagequeues k q))
     then \<exists>k' x. rt_mq_send_wait q buf n timeout k = Some (Return k' 0) \<and> mq_carries (messagequeues k q) (buf, n) x \<and>
            mq_done (Suspend q) q (mq_content (messagequeues k q) @ [x]) k k'
     else if timeout = 0 then rt_mq_send_wait q buf n timeout k = Some (Return k (- 3))
     else \<exists>k' d. rt_mq_send_wait q buf n timeout k = Some (Wait k' d) \<and> messagequeues k' = messagequeues k \<and>
            waits_on (Suspend_sender q) c (mq_flag (messagequeues k q)) timeout k k'"
proof -
  let ?mq = "messagequeues k q"
  have us: "unat (ucast (mq_msg_size ?mq) :: u32) = unat (mq_msg_size ?mq)"
    by (rule ucast_16_32)
  have long: "ucast (mq_msg_size ?mq) < n \<longleftrightarrow> unat (mq_msg_size ?mq) < unat n" by (simp add: word_less_nat_alt us)
  have n0: "n \<noteq> 0" using n(1) by auto
  note fr = mq_free_iff [OF ok]
  show ?thesis
  proof (cases "unat (mq_msg_size ?mq) < unat n")
    case True
    then show ?thesis using n0 long by (simp add: rt_mq_send_wait_def)
  next
    case False
    show ?thesis
    proof (cases "mq_free ?mq")
      case None
      obtain k' where "ipc_block (Suspend_sender q) c (mq_flag ?mq) timeout (upd_thread c (\<lambda>th. th\<lparr>th_error := 0\<rparr>) k) = Some k'"
        "waits_on (Suspend_sender q) c (mq_flag ?mq) timeout k k'"
        by (rule block_error_cleared [OF inv c _ f time, of "Suspend_sender q"]) auto
      then show ?thesis
        using None c i n0 False long fr(1) waits_on_messagequeues
        by (auto simp: rt_mq_send_wait_def mq_send_loop_def in_thread_context_def Let_def)
    next
      case (Some b)
      have "mq_valid ?mq (buf, n)" using n False by (simp add: mq_valid_def)
      from mq_put_spec(1) [OF ok this Some] obtain mq x where mq: "mq_append b buf n ?mq = Some mq" "mq_ok mq"
        "mq_content mq = mq_content ?mq @ [x]" "mq_carries ?mq (buf, n) x" "mq_max_msgs mq = mq_max_msgs ?mq"
        "mq_msg_size mq = mq_msg_size ?mq" "mq_entry ?mq < 0xffff"
        by blast
      obtain k' where k': "mq_done (Suspend q) q (mq_content ?mq @ [x]) k k'"
        "(if tlists (upd_mq q (\<lambda>_. mq) k) (Suspend q) \<noteq> []
          then do { k2 \<leftarrow> ipc_list_resume (Suspend q) (upd_mq q (\<lambda>_. mq) k); k3 \<leftarrow> rt_schedule k2; Some (k3, 0::int) }
          else Some (upd_mq q (\<lambda>_. mq) k, 0)) = Some (k', 0)"
        by (rule mq_done_wake [OF inv _ _ mq(2,3,5,6), of "Suspend q" "\<lambda>k. (k, 0)"]) (use c in auto)
      have "length (mq_content ?mq) < unat (mq_max_msgs ?mq)" using fr(1,3) Some by (metis le_neq_implies_less option.distinct(1))
      then show ?thesis
        using k' mq(1,4,7) Some n0 False long
        by (simp add: rt_mq_send_wait_def mq_send_loop_def mq_posted_def) blast
    qed
  qed
qed

lemma k_demo_mq: "mq_ok (messagequeues k_demo q)" "mq_content (messagequeues k_demo q) = []"
    "mq_flag (messagequeues k_demo q) = 0" "mq_msg_size (messagequeues k_demo q) = 4" "mq_max_msgs (messagequeues k_demo q) = 2"
proof -
  have "mq_lists (messagequeues k_demo q) [] [1, 0]"
    by (auto simp: mq_lists_def k_demo_def)
  from mq_okI [OF this] show "mq_ok (messagequeues k_demo q)" by (simp add: k_demo_def)
qed (simp_all add: k_demo_def mq_content_def)

theorem mq_send_outcome_witness:
  "\<exists>k' x. rt_mq_send_wait 6 [1, 2, 3] 3 0 k_demo = Some (Return k' 0) \<and> mq_carries (messagequeues k_demo 6) ([1, 2, 3], 3) x \<and>
     mq_done (Suspend 6) 6 ([] @ [x]) k_demo k'"
  using mq_send_outcome [OF k_demo_kinv k_demo_current k_demo_mq(1), of 6 0 3 "[1, 2, 3]"] k_demo_mq
  by (simp add: timeout_ok_def)

text \<open>
  C30. \<open>rt_mq_recv\<close>, for every time-out and a buffer of \<open>n\<close> bytes: with a message pending the oldest
  one is removed, at most \<open>n\<close> bytes and at most the message size are copied to the start of the
  buffer, its block is free again, the first waiting sender is woken and the result is \<open>RT_EOK\<close>; an
  empty queue gives \<open>-RT_ETIMEOUT\<close> and no change when no waiting is allowed, and otherwise the caller
  is suspended on the queue of receivers.
\<close>

theorem mq_recv_outcome:
  assumes inv: "kinv k" and c: "current_thread k = Some c" "thread_stat k c = 3" and i: "interrupt_nest k = 0"
    and ok: "mq_ok (messagequeues k q)" and f: "mq_flag (messagequeues k q) = 0 \<or> mq_flag (messagequeues k q) = 1"
    and time: "timeout_ok timeout" and n: "0 < n" "unat n \<le> length buf"
  shows "if mq_content (messagequeues k q) \<noteq> []
     then \<exists>k'. let m = min (unat n) (unat (mq_msg_size (messagequeues k q))) in
            rt_mq_recv q buf n timeout k =
              Some (Return k' (take m (hd (mq_content (messagequeues k q))) @ drop m buf, 0)) \<and>
            mq_done (Suspend_sender q) q (tl (mq_content (messagequeues k q))) k k'
     else if timeout = 0 then rt_mq_recv q buf n timeout k = Some (Return k (buf, - 2))
     else \<exists>k' d. rt_mq_recv q buf n timeout k = Some (Wait k' d) \<and> messagequeues k' = messagequeues k \<and>
            waits_on (Suspend q) c (mq_flag (messagequeues k q)) timeout k k'"
proof -
  let ?mq = "messagequeues k q"
  have n0: "n \<noteq> 0" using n(1) by auto
  note fr = mq_free_iff [OF ok]
  show ?thesis
  proof (cases "mq_content ?mq = []")
    case True
    obtain k' where "ipc_block (Suspend q) c (mq_flag ?mq) timeout (upd_thread c (\<lambda>th. th\<lparr>th_error := 0\<rparr>) k) = Some k'"
      "waits_on (Suspend q) c (mq_flag ?mq) timeout k k'"
      by (rule block_error_cleared [OF inv c _ f time, of "Suspend q"]) auto
    then show ?thesis
      using True c i n0 fr(2) waits_on_messagequeues
      by (auto simp: rt_mq_recv_def mq_recv_loop_def in_thread_context_def Let_def)
  next
    case False
    from mq_get_spec [OF ok this] obtain mq where mq: "mq_take_first ?mq = Some (mq, hd (mq_content ?mq))" "mq_ok mq"
      "mq_content mq = tl (mq_content ?mq)" "mq_max_msgs mq = mq_max_msgs ?mq" "mq_msg_size mq = mq_msg_size ?mq"
      by blast
    let ?m = "min (unat n) (unat (mq_msg_size ?mq))"
    have len: "length (hd (mq_content ?mq)) = unat (mq_msg_size ?mq)" by (rule mq_content_size [OF ok False])
    have cp: "memcpy buf 0 (hd (mq_content ?mq)) 0 (min (uint n) (uint (mq_msg_size mq))) =
        Some (take ?m (hd (mq_content ?mq)) @ drop ?m buf)"
    proof -
      have e: "min (uint n) (uint (mq_msg_size mq)) = int ?m" by (simp add: mq(5) uint_nat min_def del: of_nat_unat)
      have "?m \<le> length buf" "?m \<le> length (hd (mq_content ?mq))" using n(2) len by simp_all
      then show ?thesis unfolding e by (simp add: memcpy_Some del: of_nat_min min_le_iff_disj)
    qed
    obtain k' where k': "mq_done (Suspend_sender q) q (tl (mq_content ?mq)) k k'"
      "(if tlists (upd_mq q (\<lambda>_. mq) k) (Suspend_sender q) \<noteq> []
        then do { k2 \<leftarrow> ipc_list_resume (Suspend_sender q) (upd_mq q (\<lambda>_. mq) k); k3 \<leftarrow> rt_schedule k2;
                  Some (Return k3 (take ?m (hd (mq_content ?mq)) @ drop ?m buf, 0 :: int)) }
        else Some (Return (upd_mq q (\<lambda>_. mq) k) (take ?m (hd (mq_content ?mq)) @ drop ?m buf, 0))) =
          Some (Return k' (take ?m (hd (mq_content ?mq)) @ drop ?m buf, 0))"
      by (rule mq_done_wake [OF inv _ _ mq(2-5), of "Suspend_sender q" "\<lambda>k. Return k (take ?m (hd (mq_content ?mq)) @ drop ?m buf, 0)"])
        (use c in auto)
    have "rt_mq_recv q buf n timeout k = Some (Return k' (take ?m (hd (mq_content ?mq)) @ drop ?m buf, 0))"
      using k'(2) n0 False fr(2) by (simp add: rt_mq_recv_def mq_recv_loop_def mq(1) cp Let_def)
    then show ?thesis using False k'(1) by (auto simp: Let_def)
  qed
qed

definition k_demo_mq1 :: kernel where
  "k_demo_mq1 = upd_mq 6 (\<lambda>mq. mq\<lparr>mq_head := Some 1, mq_tail := Some 1, mq_entry := 1, mq_free := Some 0,
     mq_next := (\<lambda>_. None), mq_data := (\<lambda>_. [9, 8, 7, 6])\<rparr>) k_demo"

theorem mq_recv_outcome_witness:
  "\<exists>k'. rt_mq_recv 6 [0, 0, 0] 2 100 k_demo_mq1 = Some (Return k' ([9, 8, 0], 0)) \<and>
     mq_done (Suspend_sender 6) 6 [] k_demo_mq1 k'"
proof -
  have l: "mq_lists (messagequeues k_demo_mq1 6) [1] [0]" by (auto simp: mq_lists_def k_demo_mq1_def k_demo_def)
  from mq_okI [OF this] have ok: "mq_ok (messagequeues k_demo_mq1 6)" by (simp add: k_demo_mq1_def)  (simp add: k_demo_def)
  have inv: "kinv k_demo_mq1" "current_thread k_demo_mq1 = Some 1" "thread_stat k_demo_mq1 1 = 3" "interrupt_nest k_demo_mq1 = 0"
    using k_demo_kinv k_demo_current by (simp_all add: k_demo_mq1_def) (simp add: upd_mq_def)
  have co: "mq_content (messagequeues k_demo_mq1 6) = [[9, 8, 7, 6]]" unfolding mq_content_lists [OF l] by (simp add: k_demo_mq1_def)
  show ?thesis
    using mq_recv_outcome [OF inv ok, of 100 2 "[0, 0, 0]"] co by (simp add: timeout_ok_def k_demo_mq1_def k_demo_mq Let_def)
qed

text \<open>
  C31. From \<open>rt_mq_init\<close> on: messages sent while there are free blocks are received in the order they
  were sent, and one sent by \<open>rt_mq_urgent\<close> before all of them, each with the bytes that were sent;
  every block of the pool is then free again. The pool is large enough for all its blocks.
\<close>

theorem message_order:
  fixes q :: obj and data :: "nat \<Rightarrow> u8 list" and msg_size pool_size :: u32 and flag :: u8 and k :: kernel
  defines "mq0 \<equiv> messagequeues (fst (rt_mq_init q data msg_size pool_size flag k)) q"
  assumes d: "\<forall>i. length (data i) = unat (mq_align msg_size)"
    and room: "length ms < unat (mq_max_msgs mq0)" and ms: "\<forall>m \<in> set (u # ms). mq_valid mq0 m"
  shows "(\<exists>mq1 mq2 mq3 x xs. msgqueue.put_all ms mq0 = Some mq1 \<and> mq_put_front u mq1 = Some mq2 \<and>
      msgqueue.get_all (Suc (length ms)) mq2 = Some (mq3, x # xs) \<and> mq_carries mq0 u x \<and>
      list_all2 (mq_carries mq0) ms xs \<and> mq_content mq3 = [] \<and> mq_ok mq3) \<and>
    unat (mq_max_msgs mq0) * (unat (mq_msg_size mq0) + 4) \<le> unat pool_size"
proof
  have e: "mq0 = mq_new data (mq_align msg_size) (mq_max_msgs mq0) flag"
    by (simp add: mq0_def rt_mq_init_def Let_def ipc_object_init_def mq_new_def)
  have ok: "mq_ok mq0" "mq_content mq0 = []"
    using mq_new_ok [of "mq_max_msgs mq0" data "mq_align msg_size" flag] d unfolding e [symmetric] by blast+
  have len: "length (mq_content mq0) + length ms \<le> unat (mq_max_msgs mq0)" using ok(2) room by simp
  have v: "\<forall>m \<in> set ms. mq_valid mq0 m" using ms by simp
  obtain mq1 xs where mq1: "msgqueue.put_all ms mq0 = Some mq1" "mq_ok mq1" "mq_content mq1 = xs"
    "list_all2 (mq_carries mq0) ms xs"
    using msgqueue.put_all_spec [OF ok(1) v len] ok(2) by auto
  have c1: "unat (mq_max_msgs mq1) = unat (mq_max_msgs mq0)" "mq_valid mq1 = mq_valid mq0" "mq_carries mq1 = mq_carries mq0"
    using msgqueue.put_all_capacity [OF ok(1) v len mq1(1)] by simp_all
  have lx: "length xs = length ms" using mq1(4) by (simp add: list_all2_lengthD)
  have "mq_valid mq1 u" "length (mq_content mq1) < unat (mq_max_msgs mq1)" using c1 ms mq1(3) room lx by simp_all
  from msgqueue.urgent_law [OF mq1(2) this] obtain mq2 x where mq2: "mq_put_front u mq1 = Some mq2" "mq_ok mq2"
    "mq_content mq2 = x # xs" "mq_carries mq0 u x"
    unfolding c1(3) mq1(3) by blast
  have "\<exists>mq3. msgqueue.get_all (Suc (length ms)) mq2 = Some (mq3, x # xs) \<and> mq_content mq3 = [] \<and> mq_ok mq3"
    using msgqueue.get_all_spec [OF mq2(2), of "Suc (length ms)"] mq2(3) lx by auto
  with mq1(1,4) mq2(1,4) show "\<exists>mq1 mq2 mq3 x xs. msgqueue.put_all ms mq0 = Some mq1 \<and> mq_put_front u mq1 = Some mq2 \<and>
      msgqueue.get_all (Suc (length ms)) mq2 = Some (mq3, x # xs) \<and> mq_carries mq0 u x \<and>
      list_all2 (mq_carries mq0) ms xs \<and> mq_content mq3 = [] \<and> mq_ok mq3"
    by blast
next
  define s where "s = mq_align msg_size"
  have "unat s < 2 ^ 16" using unsigned_less [of s] by simp
  then have sz: "unat (ucast s + 4 :: u32) = unat s + 4" by (simp add: unat_plus_if' word_size ucast_16_32)
  have "unat (ucast (pool_size div (ucast s + 4)) :: u16) \<le> unat (pool_size div (ucast s + 4))"
    by (simp add: unsigned_ucast_eq take_bit_nat_less_eq_self)
  also have "\<dots> = unat pool_size div (unat s + 4)" by (simp add: unat_div sz)
  finally have "unat (mq_max_msgs mq0) \<le> unat pool_size div (unat s + 4)"
    by (simp add: mq0_def rt_mq_init_def Let_def mq_new_def s_def)
  moreover have "unat (mq_msg_size mq0) = unat s" by (simp add: mq0_def rt_mq_init_def Let_def mq_new_def s_def)
  ultimately show "unat (mq_max_msgs mq0) * (unat (mq_msg_size mq0) + 4) \<le> unat pool_size"
    by (metis div_times_less_eq_dividend mult_le_mono1 order_trans)
qed

theorem message_order_witness:
  "(\<exists>mq1 mq2 mq3 x xs. msgqueue.put_all [([1, 2, 3], 3), ([4, 5], 2)] (messagequeues (fst (rt_mq_init 6 (\<lambda>_. [0, 0, 0, 0]) 3 30 0 k_demo)) 6) = Some mq1 \<and>
      mq_put_front ([7], 1) mq1 = Some mq2 \<and>
      msgqueue.get_all (Suc (length [([1 :: u8, 2, 3], 3 :: u32), ([4, 5], 2)])) mq2 = Some (mq3, x # xs) \<and>
      mq_carries (messagequeues (fst (rt_mq_init 6 (\<lambda>_. [0, 0, 0, 0]) 3 30 0 k_demo)) 6) ([7], 1) x \<and>
      list_all2 (mq_carries (messagequeues (fst (rt_mq_init 6 (\<lambda>_. [0, 0, 0, 0]) 3 30 0 k_demo)) 6))
        [([1, 2, 3], 3), ([4, 5], 2)] xs \<and> mq_content mq3 = [] \<and> mq_ok mq3) \<and>
    unat (mq_max_msgs (messagequeues (fst (rt_mq_init 6 (\<lambda>_. [0, 0, 0, 0]) 3 30 0 k_demo)) 6)) *
      (unat (mq_msg_size (messagequeues (fst (rt_mq_init 6 (\<lambda>_. [0, 0, 0, 0]) 3 30 0 k_demo)) 6)) + 4) \<le> unat (30 :: u32)"
  by (rule message_order)
    (simp_all add: mq_align_def rt_mq_init_def mq_new_def mq_valid_def)

text \<open>
  C32. \<open>rt_mq_control\<close> with \<open>RT_IPC_CMD_RESET\<close> returns, whatever is pending and whoever waits: every
  waiting receiver and sender is woken with the error \<open>-RT_ERROR\<close>, no message is left, and all the
  blocks of the pool are free again.
\<close>

theorem mq_reset_outcome:
  assumes inv: "kinv k" and c: "current_thread k \<noteq> None" and ok: "mq_ok (messagequeues k q)"
  shows "\<exists>k'. rt_mq_control q RT_IPC_CMD_RESET k = Some (k', 0) \<and> kinv k' \<and>
    mq_ok (messagequeues k' q) \<and> mq_content (messagequeues k' q) = [] \<and>
    tlists k' (Suspend q) = [] \<and> tlists k' (Suspend_sender q) = [] \<and>
    (\<forall>t \<in> set (tlists k (Suspend q)) \<union> set (tlists k (Suspend_sender q)).
       thread_stat k' t \<noteq> 2 \<and> th_error (threads k' t) = - 1)"
proof -
  obtain k1 k2 where k2: "ipc_list_resume_all (Suspend q) k = Some k1" "ipc_list_resume_all (Suspend_sender q) k1 = Some k2"
    "kinv k2" "current_thread k2 = current_thread k" "tlists k2 (Suspend q) = []" "tlists k2 (Suspend_sender q) = []"
    "\<forall>t \<in> set (tlists k (Suspend q)) \<union> set (tlists k (Suspend_sender q)). thread_stat k2 t \<noteq> 2 \<and> th_error (threads k2 t) = - 1"
    "ipc_same k k2"
    by (rule resume_both_spec [OF inv])
  obtain mq where mq: "mq_reset_loop (messagequeues k2 q) = Some mq" "mq_ok (mq\<lparr>mq_entry := 0\<rparr>)"
    "mq_content (mq\<lparr>mq_entry := 0\<rparr>) = []"
    using mq_reset_ok [OF ok] ipc_sameD(5) [OF k2(8)] by auto
  define k3 where "k3 = upd_mq q (\<lambda>_. mq\<lparr>mq_entry := 0\<rparr>) k2"
  have i3: "kinv k3" "current_thread k3 \<noteq> None" using k2(3,4) c by (simp_all add: k3_def)
  obtain k4 where k4: "rt_schedule k3 = Some k4" "rescheduled k3 k4" by (rule rt_schedule_rescheduled [OF i3])
  have mqs: "messagequeues k4 q = mq\<lparr>mq_entry := 0\<rparr>" using k4(2) by (simp add: rescheduled_def ipc_same_def k3_def)
  have er: "th_error (threads k4 t) = th_error (threads k2 t)" for t
    using k4(2) thread_core_eqD(1) [of "threads k4 t" "threads k3 t"] by (simp add: rescheduled_def k3_def)
  have "rt_mq_control q 1 k = Some (k4, 0)"
    using k2(1,2) mq(1) k4(1) by (simp add: rt_mq_control_def k3_def)
  moreover have "\<forall>t \<in> set (tlists k (Suspend q)) \<union> set (tlists k (Suspend_sender q)).
      thread_stat k4 t \<noteq> 2 \<and> th_error (threads k4 t) = - 1"
    using k2(7) er k4(2) by (auto simp: rescheduled_def k3_def)
  ultimately show ?thesis using k4(2) mq mqs k2(5,6) by (simp add: rescheduled_def k3_def)
qed

theorem mq_reset_outcome_witness:
  "\<exists>k'. rt_mq_control 6 RT_IPC_CMD_RESET k_demo = Some (k', 0) \<and> kinv k' \<and>
    mq_ok (messagequeues k' 6) \<and> mq_content (messagequeues k' 6) = [] \<and>
    tlists k' (Suspend 6) = [] \<and> tlists k' (Suspend_sender 6) = [] \<and>
    (\<forall>t \<in> set (tlists k_demo (Suspend 6)) \<union> set (tlists k_demo (Suspend_sender 6)).
       thread_stat k' t \<noteq> 2 \<and> th_error (threads k' t) = - 1)"
  by (rule mq_reset_outcome [OF k_demo_kinv _ k_demo_mq(1)]) simp

end
