(* ===== verification/Completion.thy ===== *)
theory Completion
  imports Semaphore
begin

text \<open>
  The objects device drivers wait on, beside the kernel's state, and the first of them: the completions
  of \<open>components/drivers/src/completion.c\<close>. The list of threads that wait for a completion, or to pop from
  a data queue, is the wait list \<open>Suspend\<close> of the object, that of threads that wait to push is
  \<open>Suspend_sender\<close>. As in \<open>Ipc_Queue\<close> a blocking call is a definition up to its call of the scheduler,
  and a second one for what follows. The calls of \<open>evt_notify\<close> are a log.
\<close>

type_synonym u15 = "15 word"

record rt_data_queue =
  dq_magic :: u32
  dq_size :: u16
  dq_lwm :: u16
  dq_get_index :: u15
  dq_is_empty :: bool
  dq_put_index :: u15
  dq_is_full :: bool
  dq_queue :: "(u32 \<times> u32) list"     \<comment> \<open>the items: pointer and size\<close>
  dq_evt_notify :: bool               \<comment> \<open>whether \<open>evt_notify\<close> is set\<close>

record devipc =
  ker :: kernel
  completions :: "obj \<Rightarrow> u32"        \<comment> \<open>the field \<open>flag\<close>\<close>
  data_queues :: "obj \<Rightarrow> rt_data_queue"
  dq_events :: "(obj \<times> u32) list"     \<comment> \<open>the calls of \<open>evt_notify\<close> so far, latest first\<close>

datatype 'a dev_outcome =
    Dev_return devipc 'a
  | Dev_wait devipc

abbreviation (input) RT_COMPLETED :: u32 where "RT_COMPLETED \<equiv> 1"
abbreviation (input) RT_UNCOMPLETED :: u32 where "RT_UNCOMPLETED \<equiv> 0"

text \<open>The caller clears its error, joins the end of a list, and calls the scheduler.\<close>

definition dev_block :: "list_head \<Rightarrow> int \<Rightarrow> devipc \<Rightarrow> 'a dev_outcome option" where
  "dev_block h timeout s =
     do { rt_assert (in_thread_context (ker s));
          t \<leftarrow> current_thread (ker s);
          k \<leftarrow> ipc_block h t RT_IPC_FLAG_FIFO timeout (upd_thread t (\<lambda>th. th\<lparr>th_error := RT_EOK\<rparr>) (ker s));
          Some (Dev_wait (s\<lparr>ker := k\<rparr>)) }"

text \<open>The first thread of a list, if there is one, is resumed and the scheduler called.\<close>

definition dev_wake :: "list_head \<Rightarrow> devipc \<Rightarrow> devipc option" where
  "dev_wake h s =
     (if tlists (ker s) h \<noteq> []
      then do { k1 \<leftarrow> ipc_list_resume h (ker s);
                k2 \<leftarrow> rt_schedule k1;
                Some (s\<lparr>ker := k2\<rparr>) }
      else Some s)"

definition set_completion :: "obj \<Rightarrow> u32 \<Rightarrow> devipc \<Rightarrow> devipc" where
  "set_completion c v s = s\<lparr>completions := (completions s)(c := v)\<rparr>"

definition rt_completion_init :: "obj \<Rightarrow> devipc \<Rightarrow> devipc" where
  "rt_completion_init c s = set_completion c RT_UNCOMPLETED (s\<lparr>ker := ipc_object_init (Suspend c) (ker s)\<rparr>)"

definition rt_completion_wait :: "obj \<Rightarrow> int \<Rightarrow> devipc \<Rightarrow> rt_err_t dev_outcome option" where
  "rt_completion_wait c timeout s =
     (if completions s c \<noteq> RT_COMPLETED
      then do { rt_assert (tlists (ker s) (Suspend c) = []);
                if timeout = 0 then Some (Dev_return s (- RT_ETIMEOUT))
                else dev_block (Suspend c) timeout s }
      else Some (Dev_return (set_completion c RT_UNCOMPLETED s) RT_EOK))"

definition rt_completion_wait_return :: "tid \<Rightarrow> obj \<Rightarrow> devipc \<Rightarrow> devipc \<times> rt_err_t" where
  "rt_completion_wait_return t c s = (set_completion c RT_UNCOMPLETED s, th_error (threads (ker s) t))"

definition rt_completion_done :: "obj \<Rightarrow> devipc \<Rightarrow> devipc option" where
  "rt_completion_done c s =
     (if completions s c = RT_COMPLETED then Some s
      else dev_wake (Suspend c) (set_completion c RT_COMPLETED s))"

section \<open>Waiting and waking\<close>

lemma dev_block_spec:
  assumes inv: "kinv (ker s)" and t: "current_thread (ker s) = Some t" "thread_stat (ker s) t = 3"
    and i: "interrupt_nest (ker s) = 0" and h: "waiting_list h" and time: "timeout_ok timeout"
  obtains k' where "dev_block h timeout s = Some (Dev_wait (s\<lparr>ker := k'\<rparr>))" "waits_on h t 0 timeout (ker s) k'"
proof -
  obtain k' where "ipc_block h t 0 timeout (upd_thread t (\<lambda>th. th\<lparr>th_error := 0\<rparr>) (ker s)) = Some k'"
    "waits_on h t 0 timeout (ker s) k'"
    by (rule block_error_cleared [OF inv t h _ time, of 0]) auto
  then show thesis using that t i by (simp add: dev_block_def in_thread_context_def)
qed

lemma dev_wake_spec:
  assumes inv: "kinv (ker s)" and t: "current_thread (ker s) \<noteq> None" and h: "waiting_list h"
  obtains k' where "dev_wake h s = Some (s\<lparr>ker := k'\<rparr>)" "woken h (ker s) k'"
proof (cases "tlists (ker s) h = []")
  case True
  then show thesis using that [of "ker s"] woken_none [OF inv t] by (simp add: dev_wake_def)
next
  case False
  obtain k1 k' where "ipc_list_resume h (ker s) = Some k1" "rt_schedule k1 = Some k'" "woken h (ker s) k'"
    by (rule wake_spec [OF inv t h False])
  then show thesis using that False by (simp add: dev_wake_def)
qed

lemma set_completion_frame [simp]:
  "ker (set_completion c v s) = ker s" "completions (set_completion c v s) = (completions s)(c := v)"
  "data_queues (set_completion c v s) = data_queues s" "dq_events (set_completion c v s) = dq_events s"
  by (simp_all add: set_completion_def)

section \<open>Properties\<close>

text \<open>
  C37. The two sides of a completion. A wait for one that is done returns \<open>RT_EOK\<close> at once and clears
  it; no second thread may wait; with no waiting allowed the result is \<open>-RT_ETIMEOUT\<close> and nothing
  changes. Otherwise the caller is suspended, alone on the list, with its timer running for a positive
  time-out, and the next \<open>rt_completion_done\<close>, from whatever thread runs, makes it runnable: its wait
  returns \<open>RT_EOK\<close>, and the completion is left cleared with nobody waiting.
\<close>

theorem completion_handshake:
  assumes inv: "kinv (ker s)" and t: "current_thread (ker s) = Some t" "thread_stat (ker s) t = 3"
    and i: "interrupt_nest (ker s) = 0" and time: "timeout_ok timeout"
  shows "if completions s c = 1 then rt_completion_wait c timeout s = Some (Dev_return (set_completion c 0 s) 0)
     else if tlists (ker s) (Suspend c) \<noteq> [] then rt_completion_wait c timeout s = None
     else if timeout = 0 then rt_completion_wait c timeout s = Some (Dev_return s (- 2))
     else \<exists>s1 s2. rt_completion_wait c timeout s = Some (Dev_wait s1) \<and> waits_on (Suspend c) t 0 timeout (ker s) (ker s1) \<and>
            tlists (ker s1) (Suspend c) = [t] \<and> completions s1 = completions s \<and>
            rt_completion_done c s1 = Some s2 \<and> kinv (ker s2) \<and> thread_stat (ker s2) t \<noteq> 2 \<and> tlists (ker s2) (Suspend c) = [] \<and>
            rt_completion_wait_return t c s2 = (set_completion c 0 s2, 0)"
proof (cases "completions s c = 1 \<or> tlists (ker s) (Suspend c) \<noteq> [] \<or> timeout = 0")
  case True
  then show ?thesis by (auto simp: rt_completion_wait_def)
next
  case False
  obtain k1 where k1: "(dev_block (Suspend c) timeout s :: rt_err_t dev_outcome option) = Some (Dev_wait (s\<lparr>ker := k1\<rparr>))" "waits_on (Suspend c) t 0 timeout (ker s) k1"
    by (rule dev_block_spec [OF inv t i _ time, of "Suspend c"]) auto
  let ?s1 = "s\<lparr>ker := k1\<rparr>"
  have w: "kinv k1" "current_thread k1 \<noteq> None" "tlists k1 (Suspend c) = [t]" "th_error (threads k1 t) = 0"
    using k1(2) False by (simp_all add: waits_on_def enter_queue_def)
  obtain k2 where k2: "dev_wake (Suspend c) (set_completion c 1 ?s1) = Some ((set_completion c 1 ?s1)\<lparr>ker := k2\<rparr>)" "woken (Suspend c) k1 k2"
    using dev_wake_spec [of "set_completion c 1 ?s1" "Suspend c"] w by auto
  have "th_error (threads k2 t) = th_error (threads k1 t)" using k2(2) by (auto simp: woken_def intro: thread_core_eqD(1))
  then have "kinv k2 \<and> thread_stat k2 t \<noteq> 2 \<and> tlists k2 (Suspend c) = [] \<and> th_error (threads k2 t) = 0"
    using k2(2) w by (simp add: woken_def)
  moreover have "rt_completion_wait c timeout s = Some (Dev_wait ?s1)" using False k1(1) by (simp add: rt_completion_wait_def)
  moreover have "rt_completion_done c ?s1 = Some ((set_completion c 1 ?s1)\<lparr>ker := k2\<rparr>)"
    using False k2(1) by (simp add: rt_completion_done_def)
  ultimately have "\<exists>s1 s2. rt_completion_wait c timeout s = Some (Dev_wait s1) \<and> waits_on (Suspend c) t 0 timeout (ker s) (ker s1) \<and>
      tlists (ker s1) (Suspend c) = [t] \<and> completions s1 = completions s \<and>
      rt_completion_done c s1 = Some s2 \<and> kinv (ker s2) \<and> thread_stat (ker s2) t \<noteq> 2 \<and> tlists (ker s2) (Suspend c) = [] \<and>
      rt_completion_wait_return t c s2 = (set_completion c 0 s2, 0)"
    using k1(2) w(3)
    by (intro exI [of _ ?s1] exI [of _ "(set_completion c 1 ?s1)\<lparr>ker := k2\<rparr>"]) (simp add: rt_completion_wait_return_def)
  with False show ?thesis by simp
qed

definition s_demo :: devipc where
  "s_demo = \<lparr>ker = k_demo, completions = (\<lambda>_. 0),
     data_queues = (\<lambda>_. \<lparr>dq_magic = 0xbead0e0e, dq_size = 2, dq_lwm = 1, dq_get_index = 0, dq_is_empty = True,
        dq_put_index = 0, dq_is_full = False, dq_queue = [(0, 0), (0, 0)], dq_evt_notify = True\<rparr>),
     dq_events = []\<rparr>"

theorem completion_handshake_witness:
  "\<exists>s1 s2. rt_completion_wait 5 100 s_demo = Some (Dev_wait s1) \<and> waits_on (Suspend 5) 1 0 100 (ker s_demo) (ker s1) \<and>
     tlists (ker s1) (Suspend 5) = [1] \<and> completions s1 = completions s_demo \<and>
     rt_completion_done 5 s1 = Some s2 \<and> kinv (ker s2) \<and> thread_stat (ker s2) 1 \<noteq> 2 \<and> tlists (ker s2) (Suspend 5) = [] \<and>
     rt_completion_wait_return 1 5 s2 = (set_completion 5 0 s2, 0)"
  using completion_handshake [of s_demo 1 100 5] k_demo_kinv k_demo_current
  by (simp add: s_demo_def timeout_ok_def k_demo_def demo_lists_def)

text \<open>
  A completion signalled while nobody waits is remembered, once: the next wait returns at once, the
  one after that does not.
\<close>

theorem completion_remembered:
  assumes "kinv (ker s)" "current_thread (ker s) \<noteq> None" "completions s c \<noteq> 1" "tlists (ker s) (Suspend c) = []"
  shows "\<exists>s1 s2. rt_completion_done c s = Some s1 \<and> rt_completion_done c s1 = Some s1 \<and>
     rt_completion_wait c timeout s1 = Some (Dev_return s2 0) \<and> rt_completion_wait c 0 s2 = Some (Dev_return s2 (- 2))"
  using assms by (simp add: rt_completion_done_def rt_completion_wait_def dev_wake_def)

text \<open>
  A thread whose wait has timed out, but which has not run since, is no longer on the list; a
  completion signalled before it runs is cleared by it, although its wait reports the time-out.
\<close>

theorem completion_lost:
  assumes "completions s c \<noteq> 1" "tlists (ker s) (Suspend c) = []" "th_error (threads (ker s) t) = - 2"
  shows "\<exists>s1 s2. rt_completion_done c s = Some s1 \<and> completions s1 c = 1 \<and>
     rt_completion_wait_return t c s1 = (s2, - 2) \<and> completions s2 c = 0"
  using assms by (simp add: rt_completion_done_def rt_completion_wait_return_def dev_wake_def)

end
