(* ===== verification/Data_Queue.thy ===== *)
theory Data_Queue
  imports Completion Channel
begin

text \<open>
  The data queues of \<open>components/drivers/src/dataqueue.c\<close>: a ring of items with 15-bit indexes and two flags that
  tell full from empty, a wait list of poppers and one of pushers, a low water mark and a callback. An access
  outside the array is \<open>None\<close>.
\<close>

abbreviation (input) DATAQUEUE_MAGIC :: u32 where "DATAQUEUE_MAGIC \<equiv> 0xbead0e0e"
abbreviation (input) RT_DATAQUEUE_EVENT_POP :: u32 where "RT_DATAQUEUE_EVENT_POP \<equiv> 1"
abbreviation (input) RT_DATAQUEUE_EVENT_PUSH :: u32 where "RT_DATAQUEUE_EVENT_PUSH \<equiv> 2"
abbreviation (input) RT_DATAQUEUE_EVENT_LWM :: u32 where "RT_DATAQUEUE_EVENT_LWM \<equiv> 3"
abbreviation (input) RT_EEMPTY :: int where "RT_EEMPTY \<equiv> 4"

definition upd_dq :: "obj \<Rightarrow> (rt_data_queue \<Rightarrow> rt_data_queue) \<Rightarrow> devipc \<Rightarrow> devipc" where
  "upd_dq q f s = s\<lparr>data_queues := (data_queues s)(q := f (data_queues s q))\<rparr>"

text \<open>\<open>malloc n\<close>: the block \<open>rt_malloc\<close> returns for \<open>n\<close> items, or \<open>None\<close> when the allocation fails.\<close>

definition rt_data_queue_init :: "(nat \<Rightarrow> (u32 \<times> u32) list option) \<Rightarrow> obj \<Rightarrow> u16 \<Rightarrow> u16 \<Rightarrow> bool \<Rightarrow> devipc \<Rightarrow> (devipc \<times> rt_err_t) option" where
  "rt_data_queue_init malloc q sz lwm notify s =
     do { rt_assert (sz > 0);
          let s1 = upd_dq q (\<lambda>_. \<lparr>dq_magic = DATAQUEUE_MAGIC, dq_size = sz, dq_lwm = lwm, dq_get_index = 0, dq_is_empty = True,
                                   dq_put_index = 0, dq_is_full = False, dq_queue = [], dq_evt_notify = notify\<rparr>) s;
          let s2 = s1\<lparr>ker := ipc_object_init (Suspend q) (ipc_object_init (Suspend_sender q) (ker s1))\<rparr>;
          case malloc (unat sz) of
            None \<Rightarrow> Some (s2, - RT_ENOMEM)
          | Some items \<Rightarrow> Some (upd_dq q (\<lambda>d. d\<lparr>dq_queue := items\<rparr>) s2, RT_EOK) }"

definition dq_next :: "u15 \<Rightarrow> u16 \<Rightarrow> u15" where
  "dq_next i sz = (if ucast (i + 1) = sz then 0 else i + 1)"

text \<open>The store of \<open>rt_data_queue_push\<close>, and the load of \<open>rt_data_queue_pop\<close>.\<close>

definition dq_store :: "u32 \<times> u32 \<Rightarrow> rt_data_queue \<Rightarrow> rt_data_queue option" where
  "dq_store item d =
     do { rt_assert (unat (dq_put_index d) < length (dq_queue d));
          let put = dq_next (dq_put_index d) (dq_size d);
          Some (d\<lparr>dq_queue := (dq_queue d)[unat (dq_put_index d) := item], dq_put_index := put, dq_is_empty := False,
                  dq_is_full := (dq_is_full d \<or> put = dq_get_index d)\<rparr>) }"

definition dq_load :: "rt_data_queue \<Rightarrow> (rt_data_queue \<times> u32 \<times> u32) option" where
  "dq_load d =
     do { rt_assert (unat (dq_get_index d) < length (dq_queue d));
          let get = dq_next (dq_get_index d) (dq_size d);
          Some (d\<lparr>dq_get_index := get, dq_is_full := False, dq_is_empty := (dq_is_empty d \<or> dq_put_index d = get)\<rparr>,
                dq_queue d ! unat (dq_get_index d)) }"

definition rt_data_queue_len :: "rt_data_queue \<Rightarrow> u16 option" where
  "rt_data_queue_len d =
     do { rt_assert (dq_magic d = DATAQUEUE_MAGIC);
          Some (if dq_is_empty d then 0
                else if dq_put_index d > dq_get_index d then ucast (dq_put_index d) - ucast (dq_get_index d)
                else dq_size d + ucast (dq_put_index d) - ucast (dq_get_index d)) }"

definition notify :: "obj \<Rightarrow> u32 \<Rightarrow> devipc \<Rightarrow> devipc" where
  "notify q event s = (if dq_evt_notify (data_queues s q) then s\<lparr>dq_events := (q, event) # dq_events s\<rparr> else s)"

definition dq_push_loop :: "obj \<Rightarrow> u32 \<times> u32 \<Rightarrow> int \<Rightarrow> devipc \<Rightarrow> rt_err_t dev_outcome option" where
  "dq_push_loop q item timeout s =
     (if dq_is_full (data_queues s q)
      then (if timeout = 0 then Some (Dev_return s (- RT_ETIMEOUT)) else dev_block (Suspend_sender q) timeout s)
      else do { d \<leftarrow> dq_store item (data_queues s q);
                let s1 = upd_dq q (\<lambda>_. d) s;
                if tlists (ker s1) (Suspend q) \<noteq> []
                then do { s2 \<leftarrow> dev_wake (Suspend q) s1; Some (Dev_return s2 RT_EOK) }
                else Some (Dev_return (notify q RT_DATAQUEUE_EVENT_PUSH s1) RT_EOK) })"

definition rt_data_queue_push :: "obj \<Rightarrow> u32 \<times> u32 \<Rightarrow> int \<Rightarrow> devipc \<Rightarrow> rt_err_t dev_outcome option" where
  "rt_data_queue_push q item timeout s =
     do { rt_assert (dq_magic (data_queues s q) = DATAQUEUE_MAGIC); dq_push_loop q item timeout s }"

definition rt_data_queue_push_return :: "tid \<Rightarrow> obj \<Rightarrow> u32 \<times> u32 \<Rightarrow> int \<Rightarrow> devipc \<Rightarrow> rt_err_t dev_outcome option" where
  "rt_data_queue_push_return t q item timeout s =
     (if th_error (threads (ker s) t) \<noteq> RT_EOK then Some (Dev_return s (th_error (threads (ker s) t)))
      else dq_push_loop q item timeout s)"

text \<open>The result of \<open>rt_data_queue_pop\<close>: the item, when one was stored to the caller's variables, and the error.\<close>

definition dq_pop_loop :: "obj \<Rightarrow> int \<Rightarrow> devipc \<Rightarrow> ((u32 \<times> u32) option \<times> rt_err_t) dev_outcome option" where
  "dq_pop_loop q timeout s =
     (if dq_is_empty (data_queues s q)
      then (if timeout = 0 then Some (Dev_return s (None, - RT_ETIMEOUT)) else dev_block (Suspend q) timeout s)
      else do { (d, item) \<leftarrow> dq_load (data_queues s q);
                let s1 = upd_dq q (\<lambda>_. d) s;
                len \<leftarrow> rt_data_queue_len d;
                if len \<le> dq_lwm d
                then do { s2 \<leftarrow> dev_wake (Suspend_sender q) s1;
                          Some (Dev_return (notify q RT_DATAQUEUE_EVENT_LWM s2) (Some item, RT_EOK)) }
                else Some (Dev_return (notify q RT_DATAQUEUE_EVENT_POP s1) (Some item, RT_EOK)) })"

definition rt_data_queue_pop :: "obj \<Rightarrow> int \<Rightarrow> devipc \<Rightarrow> ((u32 \<times> u32) option \<times> rt_err_t) dev_outcome option" where
  "rt_data_queue_pop q timeout s =
     do { rt_assert (dq_magic (data_queues s q) = DATAQUEUE_MAGIC); dq_pop_loop q timeout s }"

definition rt_data_queue_pop_return :: "tid \<Rightarrow> obj \<Rightarrow> int \<Rightarrow> devipc \<Rightarrow> ((u32 \<times> u32) option \<times> rt_err_t) dev_outcome option" where
  "rt_data_queue_pop_return t q timeout s =
     (if th_error (threads (ker s) t) \<noteq> RT_EOK then Some (Dev_return s (None, th_error (threads (ker s) t)))
      else dq_pop_loop q timeout s)"

definition rt_data_queue_peek :: "obj \<Rightarrow> devipc \<Rightarrow> ((u32 \<times> u32) option \<times> rt_err_t) option" where
  "rt_data_queue_peek q s =
     (let d = data_queues s q in
      do { rt_assert (dq_magic d = DATAQUEUE_MAGIC);
           if dq_is_empty d then Some (None, - RT_EEMPTY)
           else do { rt_assert (unat (dq_get_index d) < length (dq_queue d));
                     Some (Some (dq_queue d ! unat (dq_get_index d)), RT_EOK) } })"

definition rt_data_queue_reset :: "obj \<Rightarrow> devipc \<Rightarrow> devipc option" where
  "rt_data_queue_reset q s =
     do { rt_assert (dq_magic (data_queues s q) = DATAQUEUE_MAGIC);
          let s1 = upd_dq q (\<lambda>d. d\<lparr>dq_get_index := 0, dq_put_index := 0, dq_is_empty := True, dq_is_full := False\<rparr>) s;
          k1 \<leftarrow> ipc_list_resume_all (Suspend q) (rt_enter_critical (ker s1));
          k2 \<leftarrow> ipc_list_resume_all (Suspend_sender q) k1;
          k3 \<leftarrow> rt_exit_critical k2;
          k4 \<leftarrow> rt_schedule k3;
          Some (s1\<lparr>ker := k4\<rparr>) }"

definition rt_data_queue_deinit :: "obj \<Rightarrow> devipc \<Rightarrow> (devipc \<times> rt_err_t) option" where
  "rt_data_queue_deinit q s =
     do { s1 \<leftarrow> rt_data_queue_reset q s;
          Some (upd_dq q (\<lambda>d. d\<lparr>dq_magic := 0, dq_queue := []\<rparr>) s1, RT_EOK) }"

section \<open>The ring of items\<close>

text \<open>
  The pending items, oldest first, and the well-formed queues. 15 bits hold the indexes of at most
  32768 items.
\<close>

definition dq_count :: "rt_data_queue \<Rightarrow> nat" where
  "dq_count d =
     (let g = unat (dq_get_index d); p = unat (dq_put_index d) in
      if dq_is_empty d then 0 else if g < p then p - g else unat (dq_size d) + p - g)"

definition dq_content :: "rt_data_queue \<Rightarrow> (u32 \<times> u32) list" where
  "dq_content d = map (\<lambda>j. dq_queue d ! ((unat (dq_get_index d) + j) mod unat (dq_size d))) [0..<dq_count d]"

definition dq_shape :: "nat \<Rightarrow> rt_data_queue \<Rightarrow> bool" where
  "dq_shape n d \<longleftrightarrow>
     dq_magic d = DATAQUEUE_MAGIC \<and> 0 < unat (dq_size d) \<and> unat (dq_size d) \<le> 32768 \<and> length (dq_queue d) = unat (dq_size d) \<and>
     unat (dq_get_index d) < unat (dq_size d) \<and> n \<le> unat (dq_size d) \<and>
     unat (dq_put_index d) = (unat (dq_get_index d) + n) mod unat (dq_size d) \<and>
     dq_is_empty d = (n = 0) \<and> dq_is_full d = (n = unat (dq_size d))"

definition dq_ok :: "rt_data_queue \<Rightarrow> bool" where
  "dq_ok d \<longleftrightarrow> dq_shape (dq_count d) d"

lemma dq_content_length [simp]: "length (dq_content d) = dq_count d"
  by (simp add: dq_content_def)

lemma dq_shape_count:
  assumes "dq_shape n d"
  shows "dq_count d = n"
proof -
  let ?g = "unat (dq_get_index d)" and ?m = "unat (dq_size d)"
  have a: "?g < ?m" "n \<le> ?m" "unat (dq_put_index d) = (?g + n) mod ?m" "dq_is_empty d = (n = 0)"
    using assms by (simp_all add: dq_shape_def)
  show ?thesis
  proof (cases "?g + n < ?m")
    case True
    then show ?thesis using a by (simp add: dq_count_def Let_def)
  next
    case False
    then have "(?g + n) mod ?m = ?g + n - ?m" using a(1,2) by (simp add: mod_if)
    then show ?thesis using a False by (auto simp: dq_count_def Let_def)
  qed
qed

lemma dq_shape_ok: "dq_shape n d \<Longrightarrow> dq_ok d"
  by (simp add: dq_ok_def dq_shape_count)

lemma dq_next_unat:
  assumes "unat i < unat sz" "unat sz \<le> 32768"
  shows "unat (dq_next i sz) = (unat i + 1) mod unat sz"
proof (cases "unat i + 1 = 32768")
  case True
  then have "unat (i + 1) = 0" by (simp add: unat_plus_if' word_size)
  then have z: "i + 1 = 0" by (simp add: unat_eq_zero)
  have "unat sz = 32768" using True assms by simp
  then show ?thesis using True z by (auto simp: dq_next_def)
next
  case False
  then have u: "unat (i + 1) = unat i + 1" using assms by (simp add: unat_plus_if' word_size)
  have "ucast (i + 1) = sz \<longleftrightarrow> unat i + 1 = unat sz"
    using u assms by (simp add: word_unat_eq_iff unsigned_ucast_eq take_bit_nat_eq_self)
  then show ?thesis using u assms by (auto simp: dq_next_def)
qed

lemma dq_okD:
  assumes "dq_ok d"
  shows "dq_magic d = DATAQUEUE_MAGIC" "0 < unat (dq_size d)" "unat (dq_size d) \<le> 32768" "length (dq_queue d) = unat (dq_size d)"
    "unat (dq_get_index d) < unat (dq_size d)" "dq_count d \<le> unat (dq_size d)"
    "unat (dq_put_index d) = (unat (dq_get_index d) + dq_count d) mod unat (dq_size d)"
    "dq_is_empty d \<longleftrightarrow> dq_content d = []" "dq_is_full d \<longleftrightarrow> length (dq_content d) = unat (dq_size d)"
  using assms by (simp_all add: dq_ok_def dq_shape_def dq_content_def)

lemma dq_store_spec:
  assumes ok: "dq_ok d" and room: "\<not> dq_is_full d"
  shows "\<exists>d'. dq_store x d = Some d' \<and> dq_ok d' \<and> dq_content d' = dq_content d @ [x] \<and>
     dq_size d' = dq_size d \<and> dq_lwm d' = dq_lwm d \<and> dq_evt_notify d' = dq_evt_notify d"
proof -
  let ?n = "unat (dq_size d)" and ?g = "unat (dq_get_index d)" and ?p = "unat (dq_put_index d)" and ?e = "dq_count d"
  note okD = dq_okD [OF ok]
  have e: "?e < ?n" using okD(6,9) room by simp
  have p: "?p < ?n" using okD(2,7) by simp
  define d' where "d' = d\<lparr>dq_queue := (dq_queue d)[?p := x], dq_put_index := dq_next (dq_put_index d) (dq_size d), dq_is_empty := False,
                  dq_is_full := (dq_is_full d \<or> dq_next (dq_put_index d) (dq_size d) = dq_get_index d)\<rparr>"
  have run: "dq_store x d = Some d'" using p okD(4) by (simp add: dq_store_def d'_def Let_def)
  have nx: "unat (dq_next (dq_put_index d) (dq_size d)) = (?g + Suc ?e) mod ?n"
    using dq_next_unat [OF p okD(3)] okD(7) by (simp add: mod_Suc_eq)
  have "dq_next (dq_put_index d) (dq_size d) = dq_get_index d \<longleftrightarrow> Suc ?e = ?n"
  proof -
    have "dq_next (dq_put_index d) (dq_size d) = dq_get_index d \<longleftrightarrow> (?g + Suc ?e) mod ?n = (?g + 0) mod ?n"
      using nx okD(5) by (simp add: word_unat_eq_iff)
    also have "\<dots> \<longleftrightarrow> Suc ?e = ?n"
      using mod_add_inj [of ?g "Suc ?e" ?n 0] e okD(5) by (cases "Suc ?e = ?n") auto
    finally show ?thesis .
  qed
  then have sh: "dq_shape (Suc ?e) d'" using okD nx e room by (simp add: dq_shape_def d'_def)
  have old: "(dq_queue d)[?p := x] ! ((?g + j) mod ?n) = dq_queue d ! ((?g + j) mod ?n)" if "j < ?e" for j
  proof -
    have "?p \<noteq> (?g + j) mod ?n" using mod_add_inj [of ?g j ?n ?e] that e okD(7) by auto
    then show ?thesis by simp
  qed
  have new: "(dq_queue d)[?p := x] ! ((?g + ?e) mod ?n) = x" using p okD(4,7) by simp
  have "dq_content d' = map (\<lambda>j. (dq_queue d)[?p := x] ! ((?g + j) mod ?n)) ([0..<?e] @ [?e])"
    using dq_shape_count [OF sh] by (simp add: dq_content_def d'_def)
  also have "\<dots> = dq_content d @ [x]" using old new by (simp add: dq_content_def)
  finally show ?thesis using run dq_shape_ok [OF sh] by (auto simp: d'_def)
qed

lemma dq_load_spec:
  assumes ok: "dq_ok d" and ne: "\<not> dq_is_empty d"
  shows "\<exists>d'. dq_load d = Some (d', hd (dq_content d)) \<and> dq_ok d' \<and> dq_content d' = tl (dq_content d) \<and>
     dq_size d' = dq_size d \<and> dq_lwm d' = dq_lwm d \<and> dq_evt_notify d' = dq_evt_notify d"
proof -
  let ?n = "unat (dq_size d)" and ?g = "unat (dq_get_index d)" and ?p = "unat (dq_put_index d)" and ?e = "dq_count d"
  note okD = dq_okD [OF ok]
  obtain e' where e': "?e = Suc e'" using ne okD(8) by (cases ?e) (auto simp: dq_content_def)
  define d' where "d' = d\<lparr>dq_get_index := dq_next (dq_get_index d) (dq_size d), dq_is_full := False,
      dq_is_empty := (dq_is_empty d \<or> dq_put_index d = dq_next (dq_get_index d) (dq_size d))\<rparr>"
  have up: "[0..<?e] = 0 # map Suc [0..<e']" by (simp add: e' map_Suc_upt upt_conv_Cons del: upt_Suc)
  have hd: "hd (dq_content d) = dq_queue d ! ?g" using okD(5) unfolding dq_content_def up by simp
  have run: "dq_load d = Some (d', hd (dq_content d))" using okD(4,5) hd by (simp add: dq_load_def d'_def Let_def)
  have nx: "unat (dq_next (dq_get_index d) (dq_size d)) = (?g + 1) mod ?n" by (rule dq_next_unat [OF okD(5,3)])
  have shift: "((?g + 1) mod ?n + j) mod ?n = (?g + Suc j) mod ?n" for j by (simp add: mod_add_left_eq)
  have "dq_put_index d = dq_next (dq_get_index d) (dq_size d) \<longleftrightarrow> e' = 0"
  proof -
    have "dq_put_index d = dq_next (dq_get_index d) (dq_size d) \<longleftrightarrow> (Suc ?g + e') mod ?n = (Suc ?g + 0) mod ?n"
      using nx okD(7) by (simp add: word_unat_eq_iff e')
    then show ?thesis using mod_add_inj [of "Suc ?g" e' ?n 0] okD(6) e' by auto
  qed
  then have sh: "dq_shape e' d'" using okD nx e' ne shift [of e'] by (simp add: dq_shape_def d'_def)
  have "dq_content d' = tl (dq_content d)"
    unfolding dq_content_def up dq_shape_count [OF sh] using nx shift by (simp add: d'_def)
  then show ?thesis using run dq_shape_ok [OF sh] by (auto simp: d'_def)
qed

text \<open>The data queue is a channel of items.\<close>

interpretation data_queue: fifo_channel dq_ok dq_content "\<lambda>d. unat (dq_size d)" "\<lambda>_ _. True" "\<lambda>_ v x. x = v" dq_store dq_load
proof unfold_locales
  fix d :: rt_data_queue and v :: "u32 \<times> u32"
  assume ok: "dq_ok d"
  show "length (dq_content d) \<le> unat (dq_size d)" using dq_okD(6) [OF ok] by simp
  show "\<exists>d' x. dq_store v d = Some d' \<and> dq_ok d' \<and> dq_content d' = dq_content d @ [x] \<and> x = v \<and>
      unat (dq_size d') = unat (dq_size d) \<and> (\<lambda>_. True) = (\<lambda>_. True) \<and> (\<lambda>v x. x = v) = (\<lambda>v x. x = v)"
    if "length (dq_content d) < unat (dq_size d)"
    using dq_store_spec [OF ok] dq_okD(9) [OF ok] that by fastforce
  show "\<exists>d'. dq_load d = Some (d', hd (dq_content d)) \<and> dq_ok d' \<and> dq_content d' = tl (dq_content d) \<and>
      unat (dq_size d') = unat (dq_size d) \<and> (\<lambda>_. True) = (\<lambda>_. True) \<and> (\<lambda>v x. x = v) = (\<lambda>v x. x = v)"
    if "dq_content d \<noteq> []"
    using dq_load_spec [OF ok] dq_okD(8) [OF ok] that by fastforce
qed

text \<open>The length the code computes in 16 bits is the number of pending items.\<close>

lemma dq_len_spec:
  assumes ok: "dq_ok d"
  shows "rt_data_queue_len d = Some (of_nat (length (dq_content d)))"
proof -
  note okD = dq_okD [OF ok]
  have "of_nat (unat (dq_put_index d)) = (ucast (dq_put_index d) :: u16)" "of_nat (unat (dq_get_index d)) = (ucast (dq_get_index d) :: u16)"
    by (simp_all add: unsigned_ucast_eq)
  then show ?thesis
    using okD(1,2,3,5) by (auto simp: rt_data_queue_len_def dq_count_def Let_def word_less_nat_alt of_nat_diff)
qed

subsection \<open>The operations beside the kernel\<close>

lemma upd_dq_frame [simp]:
  "data_queues (upd_dq q f s) = (data_queues s)(q := f (data_queues s q))" "ker (upd_dq q f s) = ker s"
  "completions (upd_dq q f s) = completions s" "dq_events (upd_dq q f s) = dq_events s"
  by (simp_all add: upd_dq_def)

lemma notify_frame [simp]:
  "data_queues (notify q e s) = data_queues s" "ker (notify q e s) = ker s" "completions (notify q e s) = completions s"
  "dq_events (notify q e s) = (if dq_evt_notify (data_queues s q) then (q, e) # dq_events s else dq_events s)"
  by (simp_all add: notify_def)

text \<open>Queue \<open>q\<close> holds the items \<open>xs\<close>; its parameters and all the other objects are as they were.\<close>

definition dq_holds :: "obj \<Rightarrow> (u32 \<times> u32) list \<Rightarrow> devipc \<Rightarrow> devipc \<Rightarrow> bool" where
  "dq_holds q xs s s' \<longleftrightarrow>
     dq_ok (data_queues s' q) \<and> dq_content (data_queues s' q) = xs \<and>
     dq_size (data_queues s' q) = dq_size (data_queues s q) \<and> dq_lwm (data_queues s' q) = dq_lwm (data_queues s q) \<and>
     dq_evt_notify (data_queues s' q) = dq_evt_notify (data_queues s q) \<and>
     (\<forall>q'. q' \<noteq> q \<longrightarrow> data_queues s' q' = data_queues s q') \<and> completions s' = completions s"

text \<open>A push with room: the item is appended, and the first popper woken or else the callback called.\<close>

lemma dq_push_spec:
  assumes inv: "kinv (ker s)" and t: "current_thread (ker s) \<noteq> None" and ok: "dq_ok (data_queues s q)"
    and room: "length (dq_content (data_queues s q)) < unat (dq_size (data_queues s q))"
  obtains s' where "dq_push_loop q x timeout s = Some (Dev_return s' 0)" "dq_holds q (dq_content (data_queues s q) @ [x]) s s'"
    "woken (Suspend q) (ker s) (ker s')"
    "dq_events s' = (if tlists (ker s) (Suspend q) = [] \<and> dq_evt_notify (data_queues s q) then (q, 2) # dq_events s else dq_events s)"
proof -
  have nf: "\<not> dq_is_full (data_queues s q)" using dq_okD(9) [OF ok] room by simp
  obtain d where d: "dq_store x (data_queues s q) = Some d" "dq_ok d" "dq_content d = dq_content (data_queues s q) @ [x]"
    "dq_size d = dq_size (data_queues s q)" "dq_lwm d = dq_lwm (data_queues s q)" "dq_evt_notify d = dq_evt_notify (data_queues s q)"
    using dq_store_spec [OF ok nf] by blast
  let ?s1 = "upd_dq q (\<lambda>_. d) s"
  obtain k' where k': "dev_wake (Suspend q) ?s1 = Some (?s1\<lparr>ker := k'\<rparr>)" "woken (Suspend q) (ker s) k'"
    using dev_wake_spec [of ?s1 "Suspend q"] inv t by auto
  show thesis
  proof (cases "tlists (ker s) (Suspend q) = []")
    case True
    show thesis
      by (rule that [of "notify q 2 ?s1"]) (use True nf d woken_none [OF inv t True] in \<open>simp_all add: dq_push_loop_def dq_holds_def\<close>)
  next
    case False
    show thesis
      by (rule that [of "?s1\<lparr>ker := k'\<rparr>"]) (use False nf d k' in \<open>simp_all add: dq_push_loop_def dq_holds_def\<close>)
  qed
qed

text \<open>
  A pop of a pending item: it is the oldest one, and it is removed. At the low water mark the first
  pusher is woken and the callback called for \<open>RT_DATAQUEUE_EVENT_LWM\<close>, above it nobody is woken.
\<close>

lemma dq_pop_spec:
  assumes inv: "kinv (ker s)" and t: "current_thread (ker s) \<noteq> None" and ok: "dq_ok (data_queues s q)"
    and ne: "dq_content (data_queues s q) \<noteq> []"
  defines "low \<equiv> length (tl (dq_content (data_queues s q))) \<le> unat (dq_lwm (data_queues s q))"
  obtains s' where "dq_pop_loop q timeout s = Some (Dev_return s' (Some (hd (dq_content (data_queues s q))), 0))"
    "dq_holds q (tl (dq_content (data_queues s q))) s s'"
    "if low then woken (Suspend_sender q) (ker s) (ker s') else ker s' = ker s"
    "dq_events s' = (if dq_evt_notify (data_queues s q) then (q, if low then 3 else 1) # dq_events s else dq_events s)"
proof -
  have nem: "\<not> dq_is_empty (data_queues s q)" using dq_okD(8) [OF ok] ne by simp
  obtain d where d: "dq_load (data_queues s q) = Some (d, hd (dq_content (data_queues s q)))" "dq_ok d"
    "dq_content d = tl (dq_content (data_queues s q))"
    "dq_size d = dq_size (data_queues s q)" "dq_lwm d = dq_lwm (data_queues s q)" "dq_evt_notify d = dq_evt_notify (data_queues s q)"
    using dq_load_spec [OF ok nem] by blast
  let ?s1 = "upd_dq q (\<lambda>_. d) s"
  obtain k' where k': "dev_wake (Suspend_sender q) ?s1 = Some (?s1\<lparr>ker := k'\<rparr>)" "woken (Suspend_sender q) (ker s) k'"
    using dev_wake_spec [of ?s1 "Suspend_sender q"] inv t by auto
  have "dq_count d \<le> 32768" using dq_okD(3,6) [OF d(2)] by simp
  then have u: "unat (of_nat (dq_count d) :: u16) = dq_count d" by (simp add: unsigned_of_nat take_bit_nat_eq_self)
  have "length (tl (dq_content (data_queues s q))) = dq_count d" using d(3) dq_content_length [of d] by simp
  with u have len: "rt_data_queue_len d = Some (of_nat (dq_count d))" "(of_nat (dq_count d) \<le> dq_lwm d) = low"
    using dq_len_spec [OF d(2)] d(5) by (simp_all add: low_def word_le_nat_alt)
  show thesis
  proof (cases low)
    case True
    show thesis
      by (rule that [of "notify q 3 (?s1\<lparr>ker := k'\<rparr>)"]) (use True nem d k' len in \<open>simp_all add: dq_pop_loop_def dq_holds_def\<close>)
  next
    case False
    show thesis
      by (rule that [of "notify q 1 ?s1"]) (use False nem d len in \<open>simp_all add: dq_pop_loop_def dq_holds_def\<close>)
  qed
qed

text \<open>A full queue to push to, an empty one to pop from.\<close>

lemma dq_push_full:
  assumes "dq_ok (data_queues s q)" "length (dq_content (data_queues s q)) = unat (dq_size (data_queues s q))"
  shows "dq_push_loop q x timeout s =
     (if timeout = 0 then Some (Dev_return s (- 2)) else dev_block (Suspend_sender q) timeout s)"
  using assms dq_okD(9) [of "data_queues s q"] by (simp add: dq_push_loop_def)

lemma dq_pop_empty:
  assumes "dq_ok (data_queues s q)" "dq_content (data_queues s q) = []"
  shows "dq_pop_loop q timeout s =
     (if timeout = 0 then Some (Dev_return s (None, - 2)) else dev_block (Suspend q) timeout s)"
  using assms dq_okD(8) [of "data_queues s q"] by (simp add: dq_pop_loop_def)

lemma kinv_lock [simp]: "kinv (k\<lparr>scheduler_lock_nest := n\<rparr>) \<longleftrightarrow> kinv k"
  using kinv_frame [of k "k\<lparr>scheduler_lock_nest := n\<rparr>"] kinv_frame [of "k\<lparr>scheduler_lock_nest := n\<rparr>" k] by auto

lemma rt_exit_critical_rescheduled:
  assumes inv: "kinv k" and c: "current_thread k \<noteq> None"
  obtains k' n where "rt_exit_critical k = Some k'" "rescheduled (k\<lparr>scheduler_lock_nest := n\<rparr>) k'"
proof (cases "trunc_s 16 (scheduler_lock_nest k - 1) \<le> 0")
  case True
  obtain k1 where "rt_schedule (k\<lparr>scheduler_lock_nest := 0\<rparr>) = Some k1" "rescheduled (k\<lparr>scheduler_lock_nest := 0\<rparr>) k1"
    by (rule rt_schedule_rescheduled [of "k\<lparr>scheduler_lock_nest := 0\<rparr>"]) (use inv c in auto)
  then show thesis using that True c by (auto simp: rt_exit_critical_def Let_def)
next
  case False
  let ?n = "trunc_s 16 (scheduler_lock_nest k - 1)"
  show thesis
    by (rule that [of "k\<lparr>scheduler_lock_nest := ?n\<rparr>" ?n]) (use False inv c in \<open>simp_all add: rt_exit_critical_def rescheduled_def\<close>)
qed

text \<open>A reset empties the queue and wakes every waiting thread with the error \<open>-RT_ERROR\<close>.\<close>

lemma dq_reset_spec:
  assumes inv: "kinv (ker s)" and c: "current_thread (ker s) \<noteq> None" and ok: "dq_ok (data_queues s q)"
  obtains s' where "rt_data_queue_reset q s = Some s'" "dq_holds q [] s s'" "dq_events s' = dq_events s"
    "kinv (ker s')" "current_thread (ker s') \<noteq> None" "tlists (ker s') (Suspend q) = []" "tlists (ker s') (Suspend_sender q) = []"
    "\<forall>t \<in> set (tlists (ker s) (Suspend q)) \<union> set (tlists (ker s) (Suspend_sender q)).
       thread_stat (ker s') t \<noteq> 2 \<and> th_error (threads (ker s') t) = - 1"
proof -
  note okD = dq_okD [OF ok]
  define s1 where "s1 = upd_dq q (\<lambda>d. d\<lparr>dq_get_index := 0, dq_put_index := 0, dq_is_empty := True, dq_is_full := False\<rparr>) s"
  let ?k0 = "rt_enter_critical (ker s1)"
  have k0: "kinv ?k0" "current_thread ?k0 \<noteq> None" "tlists ?k0 = tlists (ker s)" "threads ?k0 = threads (ker s)"
    using inv c by (simp_all add: s1_def rt_enter_critical_def)
  obtain k1 k2 where k2: "ipc_list_resume_all (Suspend q) ?k0 = Some k1" "ipc_list_resume_all (Suspend_sender q) k1 = Some k2"
    "kinv k2" "current_thread k2 = current_thread ?k0" "tlists k2 (Suspend q) = []" "tlists k2 (Suspend_sender q) = []"
    "\<forall>t \<in> set (tlists ?k0 (Suspend q)) \<union> set (tlists ?k0 (Suspend_sender q)). thread_stat k2 t \<noteq> 2 \<and> th_error (threads k2 t) = - 1"
    by (rule resume_both_spec [OF k0(1)])
  have c2: "current_thread k2 \<noteq> None" using k2(4) k0(2) by simp
  obtain k3 n where k3: "rt_exit_critical k2 = Some k3" "rescheduled (k2\<lparr>scheduler_lock_nest := n\<rparr>) k3" by (rule rt_exit_critical_rescheduled [OF k2(3) c2])
  then have i3: "kinv k3" "current_thread k3 \<noteq> None" by (simp_all add: rescheduled_def)
  obtain k4 where k4: "rt_schedule k3 = Some k4" "rescheduled k3 k4" by (rule rt_schedule_rescheduled [OF i3])
  have r: "kinv k4" "current_thread k4 \<noteq> None" "\<And>h. \<forall>p. h \<noteq> Ready p \<Longrightarrow> tlists k4 h = tlists k2 h"
    "\<And>t. thread_core (threads k4 t) = thread_core (threads k2 t)" "\<And>t. thread_stat k4 t = 2 \<Longrightarrow> thread_stat k2 t = 2"
    using k3(2) k4(2) by (simp_all add: rescheduled_def)
  have er: "th_error (threads k4 t) = th_error (threads k2 t)" for t
    by (rule thread_core_eqD(1) [OF r(4)])
  have sh: "dq_shape 0 (data_queues s1 q)"
    using okD by (simp add: s1_def dq_shape_def)
  show thesis
  proof (rule that [of "s1\<lparr>ker := k4\<rparr>"])
    show "rt_data_queue_reset q s = Some (s1\<lparr>ker := k4\<rparr>)"
      using okD(1) k2(1,2) k3(1) k4(1) by (simp add: rt_data_queue_reset_def Let_def flip: s1_def)
    have "dq_content (data_queues s1 q) = []" by (simp add: dq_content_def dq_shape_count [OF sh])
    then show "dq_holds q [] s (s1\<lparr>ker := k4\<rparr>)"
      using dq_shape_ok [OF sh] by (simp add: dq_holds_def) (simp add: s1_def)
    show "\<forall>t \<in> set (tlists (ker s) (Suspend q)) \<union> set (tlists (ker s) (Suspend_sender q)).
       thread_stat (ker (s1\<lparr>ker := k4\<rparr>)) t \<noteq> 2 \<and> th_error (threads (ker (s1\<lparr>ker := k4\<rparr>)) t) = - 1"
      using k2(7) k0(3) er r(5) by auto
  qed (use r k2(5,6) in \<open>simp_all add: s1_def\<close>)
qed

section \<open>A bounded queue\<close>

text \<open>
  The specification: a list of at most \<open>n\<close> items. The calls that do not wait, with what each returns:
  the item, if one is stored to the caller's variables, and the error or the length.
\<close>

datatype dq_op = Push "u32 \<times> u32" | Pop | Peek | Len | Reset

fun dq_spec :: "nat \<Rightarrow> dq_op \<Rightarrow> (u32 \<times> u32) list \<Rightarrow> (u32 \<times> u32) list \<times> (u32 \<times> u32) option \<times> int" where
  "dq_spec n (Push x) xs = (if length xs < n then (xs @ [x], None, RT_EOK) else (xs, None, - RT_ETIMEOUT))"
| "dq_spec n Pop xs = (case xs of [] \<Rightarrow> ([], None, - RT_ETIMEOUT) | y # ys \<Rightarrow> (ys, Some y, RT_EOK))"
| "dq_spec n Peek xs = (case xs of [] \<Rightarrow> ([], None, - RT_EEMPTY) | y # ys \<Rightarrow> (xs, Some y, RT_EOK))"
| "dq_spec n Len xs = (xs, None, int (length xs))"
| "dq_spec n Reset xs = ([], None, RT_EOK)"

fun dq_specs :: "nat \<Rightarrow> dq_op list \<Rightarrow> (u32 \<times> u32) list \<Rightarrow> (u32 \<times> u32) list \<times> ((u32 \<times> u32) option \<times> int) list" where
  "dq_specs n [] xs = (xs, [])"
| "dq_specs n (c # cs) xs = (let (ys, r) = dq_spec n c xs; (zs, rs) = dq_specs n cs ys in (zs, r # rs))"

fun returned :: "'a dev_outcome \<Rightarrow> (devipc \<times> 'a) option" where
  "returned (Dev_return s r) = Some (s, r)"
| "returned (Dev_wait s) = None"

fun dq_call :: "obj \<Rightarrow> dq_op \<Rightarrow> devipc \<Rightarrow> (devipc \<times> (u32 \<times> u32) option \<times> int) option" where
  "dq_call q (Push x) s = do { r \<leftarrow> rt_data_queue_push q x 0 s; (s', err) \<leftarrow> returned r; Some (s', None, err) }"
| "dq_call q Pop s = do { r \<leftarrow> rt_data_queue_pop q 0 s; returned r }"
| "dq_call q Peek s = do { r \<leftarrow> rt_data_queue_peek q s; Some (s, r) }"
| "dq_call q Len s = do { n \<leftarrow> rt_data_queue_len (data_queues s q); Some (s, None, uint n) }"
| "dq_call q Reset s = do { s' \<leftarrow> rt_data_queue_reset q s; Some (s', None, RT_EOK) }"

fun dq_calls :: "obj \<Rightarrow> dq_op list \<Rightarrow> devipc \<Rightarrow> (devipc \<times> ((u32 \<times> u32) option \<times> int) list) option" where
  "dq_calls q [] s = Some (s, [])"
| "dq_calls q (c # cs) s = do { (s1, r) \<leftarrow> dq_call q c s; (s2, rs) \<leftarrow> dq_calls q cs s1; Some (s2, r # rs) }"

lemma dq_holds_refl: "dq_ok (data_queues s q) \<Longrightarrow> dq_holds q (dq_content (data_queues s q)) s s"
  by (simp add: dq_holds_def)

lemma dq_holds_trans: "dq_holds q xs s s1 \<Longrightarrow> dq_holds q ys s1 s2 \<Longrightarrow> dq_holds q ys s s2"
  by (simp add: dq_holds_def)

lemma dq_call_refines:
  assumes inv: "kinv (ker s)" and t: "current_thread (ker s) \<noteq> None" and ok: "dq_ok (data_queues s q)"
    and xs: "dq_content (data_queues s q) = xs" and n: "unat (dq_size (data_queues s q)) = n"
  shows "\<exists>s'. dq_call q c s = Some (s', snd (dq_spec n c xs)) \<and> dq_holds q (fst (dq_spec n c xs)) s s' \<and>
     kinv (ker s') \<and> current_thread (ker s') \<noteq> None"
proof (cases c)
  case (Push x)
  show ?thesis
  proof (cases "length xs < n")
    case True
    then have "length (dq_content (data_queues s q)) < unat (dq_size (data_queues s q))" using xs n by simp
    from dq_push_spec [OF inv t ok this, of x 0] obtain s' where
      "dq_push_loop q x 0 s = Some (Dev_return s' 0)" "dq_holds q (xs @ [x]) s s'" "woken (Suspend q) (ker s) (ker s')"
      using xs by metis
    then show ?thesis using True Push dq_okD(1) [OF ok] by (simp add: rt_data_queue_push_def woken_def)
  next
    case False
    then have "dq_push_loop q x 0 s = Some (Dev_return s (- 2))"
      using dq_push_full [OF ok, of x 0] dq_okD(6) [OF ok] xs n dq_content_length [of "data_queues s q"] by simp
    then show ?thesis
      using False Push dq_okD(1) [OF ok] dq_holds_refl [OF ok] xs inv t by (simp add: rt_data_queue_push_def)
  qed
next
  case Pop
  show ?thesis
  proof (cases xs)
    case Nil
    then show ?thesis
      using Pop dq_pop_empty [OF ok, of 0] dq_okD(1) [OF ok] dq_holds_refl [OF ok] xs inv t by (simp add: rt_data_queue_pop_def)
  next
    case (Cons y ys)
    then have ne: "dq_content (data_queues s q) \<noteq> []" using xs by simp
    obtain s' where s': "dq_pop_loop q 0 s = Some (Dev_return s' (Some (hd (dq_content (data_queues s q))), 0))"
      "dq_holds q (tl (dq_content (data_queues s q))) s s'"
      "if length (tl (dq_content (data_queues s q))) \<le> unat (dq_lwm (data_queues s q))
       then woken (Suspend_sender q) (ker s) (ker s') else ker s' = ker s"
      by (rule dq_pop_spec [OF inv t ok ne])
    then have "kinv (ker s') \<and> current_thread (ker s') \<noteq> None" using inv t by (auto simp: woken_def split: if_splits)
    then show ?thesis using s'(1,2) Pop Cons xs dq_okD(1) [OF ok] by (simp add: rt_data_queue_pop_def)
  qed
next
  case Peek
  have "dq_queue (data_queues s q) ! unat (dq_get_index (data_queues s q)) = hd xs" if "xs \<noteq> []"
  proof -
    have "0 < dq_count (data_queues s q)" using that xs dq_content_length [of "data_queues s q"] by (metis length_greater_0_conv)
    then show ?thesis using that dq_okD(5) [OF ok] by (simp add: hd_conv_nth dq_content_def flip: xs)
  qed
  then show ?thesis
    using Peek dq_okD(1,4,5,8) [OF ok] dq_holds_refl [OF ok] xs inv t by (cases xs) (simp_all add: rt_data_queue_peek_def Let_def)
next
  case Len
  have "length xs \<le> 32768" using dq_okD(3,6) [OF ok] dq_content_length [of "data_queues s q"] xs by simp
  then have "uint (of_nat (length xs) :: u16) = int (length xs)" by (simp add: unsigned_of_nat take_bit_nat_eq_self uint_nat)
  then show ?thesis using Len dq_len_spec [OF ok] dq_holds_refl [OF ok] xs inv t by simp
next
  case Reset
  obtain s' where "rt_data_queue_reset q s = Some s'" "dq_holds q [] s s'" "kinv (ker s')" "current_thread (ker s') \<noteq> None"
    by (rule dq_reset_spec [OF inv t ok])
  then show ?thesis using Reset by simp
qed

text \<open>The life of a queue: \<open>rt_data_queue_init\<close> makes an empty one, after \<open>rt_data_queue_deinit\<close> every call fails its assertion.\<close>

lemma dq_init_spec:
  assumes sz: "0 < sz" "sz \<le> 32768" and mem: "malloc (unat sz) = Some items" "length items = unat sz"
  shows "\<exists>s'. rt_data_queue_init malloc q sz lwm evt s = Some (s', 0) \<and> dq_ok (data_queues s' q) \<and>
     dq_content (data_queues s' q) = [] \<and> dq_size (data_queues s' q) = sz \<and> dq_lwm (data_queues s' q) = lwm"
  using assms
  by (simp add: rt_data_queue_init_def Let_def dq_ok_def dq_shape_def dq_count_def dq_content_def word_less_nat_alt word_le_nat_alt)

lemma dq_deinit_spec:
  assumes "kinv (ker s)" "current_thread (ker s) \<noteq> None" "dq_ok (data_queues s q)"
  shows "\<exists>s'. rt_data_queue_deinit q s = Some (s', 0) \<and> kinv (ker s') \<and> (\<forall>c. dq_call q c s' = None)"
proof -
  obtain s1 where s1: "rt_data_queue_reset q s = Some s1" "kinv (ker s1)" by (rule dq_reset_spec [OF assms])
  define s2 where "s2 = upd_dq q (\<lambda>d. d\<lparr>dq_magic := 0, dq_queue := []\<rparr>) s1"
  have "dq_call q c s2 = None" for c
    by (cases c) (simp_all add: s2_def rt_data_queue_push_def rt_data_queue_pop_def rt_data_queue_peek_def rt_data_queue_len_def
        rt_data_queue_reset_def Let_def)
  then show ?thesis using s1 by (simp add: rt_data_queue_deinit_def s2_def)
qed

section \<open>Properties\<close>

text \<open>
  C35. Every sequence of calls that do not wait does with a data queue what it does with a list of at
  most \<open>size\<close> items: the same items come out, in the order they went in, with the same error codes
  and lengths; no access is outside the array, and neither another queue nor a completion changes,
  whoever waits on the queue and is woken.
\<close>

theorem data_queue_refines:
  assumes inv: "kinv (ker s)" and t: "current_thread (ker s) \<noteq> None" and ok: "dq_ok (data_queues s q)"
  defines "n \<equiv> unat (dq_size (data_queues s q))" and "xs \<equiv> dq_content (data_queues s q)"
  shows "\<exists>s'. dq_calls q cs s = Some (s', snd (dq_specs n cs xs)) \<and> dq_holds q (fst (dq_specs n cs xs)) s s' \<and>
     kinv (ker s') \<and> current_thread (ker s') \<noteq> None"
  using inv t ok unfolding n_def xs_def
proof (induction cs arbitrary: s)
  case Nil
  then show ?case by (simp add: dq_holds_refl)
next
  case (Cons c cs)
  let ?n = "unat (dq_size (data_queues s q))" and ?xs = "dq_content (data_queues s q)"
  obtain s1 where s1: "dq_call q c s = Some (s1, snd (dq_spec ?n c ?xs))" "dq_holds q (fst (dq_spec ?n c ?xs)) s s1"
    "kinv (ker s1)" "current_thread (ker s1) \<noteq> None"
    using dq_call_refines [OF Cons.prems refl refl] by blast
  have h: "dq_ok (data_queues s1 q)" "dq_content (data_queues s1 q) = fst (dq_spec ?n c ?xs)"
    "unat (dq_size (data_queues s1 q)) = ?n" using s1(2) by (simp_all add: dq_holds_def)
  obtain s2 where "dq_calls q cs s1 = Some (s2, snd (dq_specs ?n cs (fst (dq_spec ?n c ?xs))))"
    "dq_holds q (fst (dq_specs ?n cs (fst (dq_spec ?n c ?xs)))) s1 s2" "kinv (ker s2)" "current_thread (ker s2) \<noteq> None"
    using Cons.IH [OF s1(3,4) h(1)] unfolding h(2,3) by blast
  then show ?case using s1(1,2) dq_holds_trans by (auto simp: split_def Let_def)
qed

lemma s_demo_ok: "dq_ok (data_queues s_demo 5)" "dq_content (data_queues s_demo 5) = []" "dq_size (data_queues s_demo 5) = 2"
  by (simp_all add: s_demo_def dq_ok_def dq_shape_def dq_count_def dq_content_def)

lemma s_demo_ker:
  "kinv (ker s_demo)" "current_thread (ker s_demo) = Some 1" "thread_stat (ker s_demo) 1 = 3" "interrupt_nest (ker s_demo) = 0"
  "tlists (ker s_demo) (Suspend 5) = []"
  using k_demo_kinv k_demo_current by (simp_all add: s_demo_def) (simp add: k_demo_def demo_lists_def)

theorem data_queue_refines_witness:
  "\<exists>s'. dq_calls 5 [Push (1, 4), Push (2, 8), Push (3, 9), Pop, Len, Push (4, 1), Peek, Pop, Pop, Pop] s_demo =
       Some (s', [(None, 0), (None, 0), (None, - 2), (Some (1, 4), 0), (None, 1), (None, 0), (Some (2, 8), 0),
                  (Some (2, 8), 0), (Some (4, 1), 0), (None, - 2)]) \<and>
     dq_holds 5 [] s_demo s' \<and> kinv (ker s') \<and> current_thread (ker s') \<noteq> None"
  using data_queue_refines [of s_demo 5 "[Push (1, 4), Push (2, 8), Push (3, 9), Pop, Len, Push (4, 1), Peek, Pop, Pop, Pop]"]
    s_demo_ker s_demo_ok
  by (simp del: dq_calls.simps)

text \<open>
  C36. A pop from an empty queue suspends its caller at the end of the list of poppers, with its timer
  running for a positive time-out, and the queue as it was; the next push, from whatever thread runs,
  makes it runnable, and when it runs its pop returns the pushed item and leaves the queue empty.
\<close>

theorem data_queue_hand_over:
  assumes inv: "kinv (ker s)" and t: "current_thread (ker s) = Some t" "thread_stat (ker s) t = 3"
    and i: "interrupt_nest (ker s) = 0" and time: "timeout_ok timeout" "timeout \<noteq> 0"
    and ok: "dq_ok (data_queues s q)" and empty: "dq_content (data_queues s q) = []" "tlists (ker s) (Suspend q) = []"
  shows "\<exists>s1 s2 s3. rt_data_queue_pop q timeout s = Some (Dev_wait s1) \<and> waits_on (Suspend q) t 0 timeout (ker s) (ker s1) \<and>
     data_queues s1 = data_queues s \<and>
     rt_data_queue_push q x time' s1 = Some (Dev_return s2 0) \<and> thread_stat (ker s2) t \<noteq> 2 \<and> tlists (ker s2) (Suspend q) = [] \<and>
     dq_content (data_queues s2 q) = [x] \<and>
     rt_data_queue_pop_return t q timeout s2 = Some (Dev_return s3 (Some x, 0)) \<and> dq_ok (data_queues s3 q) \<and>
     dq_content (data_queues s3 q) = [] \<and> kinv (ker s3)"
proof -
  obtain k1 where k1: "(dev_block (Suspend q) timeout s :: ((u32 \<times> u32) option \<times> rt_err_t) dev_outcome option) = Some (Dev_wait (s\<lparr>ker := k1\<rparr>))"
    "waits_on (Suspend q) t 0 timeout (ker s) k1"
    by (rule dev_block_spec [OF inv t i _ time(1), of "Suspend q"]) auto
  let ?s1 = "s\<lparr>ker := k1\<rparr>"
  have w: "kinv (ker ?s1)" "current_thread (ker ?s1) \<noteq> None" "tlists k1 (Suspend q) = [t]" "th_error (threads k1 t) = 0"
    using k1(2) empty(2) by (simp_all add: waits_on_def enter_queue_def)
  have ok1: "dq_ok (data_queues ?s1 q)" "length (dq_content (data_queues ?s1 q)) < unat (dq_size (data_queues ?s1 q))"
    using ok empty(1) dq_okD(2) [OF ok] by simp_all
  obtain s2 where s2: "dq_push_loop q x time' ?s1 = Some (Dev_return s2 0)" "dq_holds q [x] ?s1 s2" "woken (Suspend q) k1 (ker s2)"
    using dq_push_spec [OF w(1,2) ok1, of x time'] empty(1) by auto
  have "thread_core (threads (ker s2) t) = thread_core (threads k1 t)" using s2(3) by (simp add: woken_def)
  from thread_core_eqD(1) [OF this] have er: "th_error (threads (ker s2) t) = 0" using w(4) by simp
  have i2: "kinv (ker s2)" "current_thread (ker s2) \<noteq> None" "thread_stat (ker s2) t \<noteq> 2" "tlists (ker s2) (Suspend q) = []"
    using s2(3) w(3) by (simp_all add: woken_def)
  have h2: "dq_ok (data_queues s2 q)" "dq_content (data_queues s2 q) = [x]" using s2(2) by (simp_all add: dq_holds_def)
  obtain s3 where s3: "dq_pop_loop q timeout s2 = Some (Dev_return s3 (Some x, 0))" "dq_holds q [] s2 s3" "kinv (ker s3)"
  proof (rule dq_pop_spec [OF i2(1,2) h2(1), of timeout])
    fix s3
    assume "dq_pop_loop q timeout s2 = Some (Dev_return s3 (Some (hd (dq_content (data_queues s2 q))), 0))"
      "dq_holds q (tl (dq_content (data_queues s2 q))) s2 s3"
      "if length (tl (dq_content (data_queues s2 q))) \<le> unat (dq_lwm (data_queues s2 q))
       then woken (Suspend_sender q) (ker s2) (ker s3) else ker s3 = ker s2"
    then show thesis using that [of s3] by (simp add: h2(2) woken_def)
  qed (simp add: h2(2))
  then have "rt_data_queue_pop_return t q timeout s2 = Some (Dev_return s3 (Some x, 0))" using er by (simp add: rt_data_queue_pop_return_def)
  moreover have "rt_data_queue_pop q timeout s = Some (Dev_wait ?s1)"
    using k1(1) dq_pop_empty [OF ok empty(1)] time(2) dq_okD(1) [OF ok] by (simp add: rt_data_queue_pop_def)
  moreover have "rt_data_queue_push q x time' ?s1 = Some (Dev_return s2 0)"
    using s2(1) dq_okD(1) [OF ok] by (simp add: rt_data_queue_push_def)
  ultimately show ?thesis using k1(2) i2 h2 s3 by (intro exI [of _ ?s1] exI [of _ s2] exI [of _ s3]) (simp add: dq_holds_def)
qed

theorem data_queue_hand_over_witness:
  "\<exists>s1 s2 s3. rt_data_queue_pop 5 30 s_demo = Some (Dev_wait s1) \<and> waits_on (Suspend 5) 1 0 30 (ker s_demo) (ker s1) \<and>
     data_queues s1 = data_queues s_demo \<and>
     rt_data_queue_push 5 (7, 9) 0 s1 = Some (Dev_return s2 0) \<and> thread_stat (ker s2) 1 \<noteq> 2 \<and> tlists (ker s2) (Suspend 5) = [] \<and>
     dq_content (data_queues s2 5) = [(7, 9)] \<and>
     rt_data_queue_pop_return 1 5 30 s2 = Some (Dev_return s3 (Some (7, 9), 0)) \<and> dq_ok (data_queues s3 5) \<and>
     dq_content (data_queues s3 5) = [] \<and> kinv (ker s3)"
  by (rule data_queue_hand_over [OF s_demo_ker(1-4) _ _ s_demo_ok(1,2) s_demo_ker(5)]) (simp_all add: timeout_ok_def)

text \<open>A queue of more than 32768 items, which \<open>rt_data_queue_init\<close> accepts, is full with 32768, and reports more.\<close>

theorem data_queue_index_wraps:
  assumes d: "dq_magic d = DATAQUEUE_MAGIC" "32768 < unat (dq_size d)" "length (dq_queue d) = unat (dq_size d)"
    and p: "dq_get_index d = 0" "unat (dq_put_index d) = 32767"
  shows "\<exists>d'. dq_store x d = Some d' \<and> dq_is_full d' \<and> dq_put_index d' = 0 \<and> rt_data_queue_len d' = Some (dq_size d)"
proof -
  have "unat (dq_put_index d + 1) = 0" using p(2) by (simp add: unat_plus_if' word_size)
  then have z: "dq_put_index d + 1 = 0" by (simp add: unat_eq_zero)
  then have "dq_next (dq_put_index d) (dq_size d) = 0" using d(2) by (auto simp: dq_next_def)
  then show ?thesis using d p by (simp add: dq_store_def rt_data_queue_len_def Let_def)
qed

text \<open>
  A push or pop that is woken and finds the queue full or empty again waits for its whole time-out once
  more, where the calls of \<open>src/ipc.c\<close> deduct the time that has passed.
\<close>

theorem data_queue_waits_again:
  assumes inv: "kinv (ker s)" and t: "current_thread (ker s) = Some t" "thread_stat (ker s) t = 3" "th_error (threads (ker s) t) = 0"
    and i: "interrupt_nest (ker s) = 0" and time: "timeout_ok timeout" "0 < timeout"
    and ok: "dq_ok (data_queues s q)" and empty: "dq_content (data_queues s q) = []"
  shows "\<exists>s'. rt_data_queue_pop_return t q timeout s = Some (Dev_wait s') \<and>
     tm_timeout_tick (timers (ker s') (Thread_timer t)) = rt_tick (ker s) + of_int timeout"
proof -
  obtain k1 where "(dev_block (Suspend q) timeout s :: ((u32 \<times> u32) option \<times> rt_err_t) dev_outcome option) = Some (Dev_wait (s\<lparr>ker := k1\<rparr>))"
    "waits_on (Suspend q) t 0 timeout (ker s) k1"
    by (rule dev_block_spec [OF inv t(1,2) i _ time(1), of "Suspend q"]) auto
  then show ?thesis using t(3) time(2) dq_pop_empty [OF ok empty] by (simp add: rt_data_queue_pop_return_def waits_on_def)
qed

end
