(* ===== verification/Memory.thy ===== *)
theory Memory
  imports Prelude "HOL-Library.Sublist" "HOL-Library.List_Lexorder"
begin

text \<open>
  The memory of the machine as a map from addresses to bytes, and the memory and string routines of
  \<open>src/kservice.c\<close> on it. Words are stored with the low byte first. A count is an \<open>rt_ubase_t\<close> below
  \<open>2 ^ 31\<close> here, a natural number; addresses do not wrap around. A routine that reads a string is a
  partial function: \<open>None\<close> when no terminator follows.
\<close>

type_synonym ram = "int \<Rightarrow> u8"

section \<open>Loads and stores\<close>

definition load8 :: "ram \<Rightarrow> int \<Rightarrow> int" where
  "load8 m a = uint (m a)"

definition load16 :: "ram \<Rightarrow> int \<Rightarrow> int" where
  "load16 m a = uint (m a) + 256 * uint (m (a + 1))"

definition load32 :: "ram \<Rightarrow> int \<Rightarrow> int" where
  "load32 m a = load16 m a + 65536 * load16 m (a + 2)"

definition store8 :: "int \<Rightarrow> int \<Rightarrow> ram \<Rightarrow> ram" where
  "store8 a v m = m(a := word_of_int v)"

definition store16 :: "int \<Rightarrow> int \<Rightarrow> ram \<Rightarrow> ram" where
  "store16 a v m = store8 (a + 1) (v div 256) (store8 a v m)"

definition store32 :: "int \<Rightarrow> int \<Rightarrow> ram \<Rightarrow> ram" where
  "store32 a v m = store16 (a + 2) (v div 65536) (store16 a v m)"

section \<open>Memory routines\<close>

text \<open>\<open>rt_memset\<close>: the loops of four words and of one word, and the loop of bytes.\<close>

fun set_words4 :: "int \<Rightarrow> nat \<Rightarrow> int \<Rightarrow> ram \<Rightarrow> int \<times> nat \<times> ram" where
  "set_words4 a n b m =
     (if 16 \<le> n
      then set_words4 (a + 16) (n - 16) b
             (store32 (a + 12) b (store32 (a + 8) b (store32 (a + 4) b (store32 a b m))))
      else (a, n, m))"

fun set_words :: "int \<Rightarrow> nat \<Rightarrow> int \<Rightarrow> ram \<Rightarrow> int \<times> nat \<times> ram" where
  "set_words a n b m =
     (if 4 \<le> n then set_words (a + 4) (n - 4) b (store32 a b m) else (a, n, m))"

fun set_bytes :: "int \<Rightarrow> nat \<Rightarrow> int \<Rightarrow> ram \<Rightarrow> ram" where
  "set_bytes a 0 d m = m"
| "set_bytes a (Suc n) d m = set_bytes (a + 1) n d (store8 a d m)"

definition rt_memset :: "int \<Rightarrow> int \<Rightarrow> nat \<Rightarrow> ram \<Rightarrow> ram" where
  "rt_memset s c count m =
     (let d = c mod 256 in
      if \<not> count < 4 \<and> s mod 4 = 0
      then (let buffer = d * 256 + d;
                buffer = buffer + buffer * 65536;
                (a, n, m1) = set_words4 s count buffer m;
                (a, n, m2) = set_words a n buffer m1
            in set_bytes a n d m2)
      else set_bytes s count d m)"

text \<open>\<open>rt_memcpy\<close>, with the same three loops.\<close>

fun copy_words4 :: "int \<Rightarrow> int \<Rightarrow> nat \<Rightarrow> ram \<Rightarrow> int \<times> int \<times> nat \<times> ram" where
  "copy_words4 d s n m =
     (if 16 \<le> n
      then (let m = store32 d (load32 m s) m;
                m = store32 (d + 4) (load32 m (s + 4)) m;
                m = store32 (d + 8) (load32 m (s + 8)) m;
                m = store32 (d + 12) (load32 m (s + 12)) m
            in copy_words4 (d + 16) (s + 16) (n - 16) m)
      else (d, s, n, m))"

fun copy_words :: "int \<Rightarrow> int \<Rightarrow> nat \<Rightarrow> ram \<Rightarrow> int \<times> int \<times> nat \<times> ram" where
  "copy_words d s n m =
     (if 4 \<le> n then copy_words (d + 4) (s + 4) (n - 4) (store32 d (load32 m s) m) else (d, s, n, m))"

fun copy_up :: "int \<Rightarrow> int \<Rightarrow> nat \<Rightarrow> ram \<Rightarrow> ram" where
  "copy_up d s 0 m = m"
| "copy_up d s (Suc n) m = copy_up (d + 1) (s + 1) n (m(d := m s))"

definition rt_memcpy :: "int \<Rightarrow> int \<Rightarrow> nat \<Rightarrow> ram \<Rightarrow> ram" where
  "rt_memcpy dst src count m =
     (if \<not> count < 16 \<and> src mod 4 = 0 \<and> dst mod 4 = 0
      then (let (d, s, n, m1) = copy_words4 dst src count m;
                (d, s, n, m2) = copy_words d s n m1
            in copy_up d s n m2)
      else copy_up dst src count m)"

text \<open>\<open>rt_memmove\<close>: downwards when the destination starts inside the source.\<close>

fun copy_down :: "int \<Rightarrow> int \<Rightarrow> nat \<Rightarrow> ram \<Rightarrow> ram" where
  "copy_down d s 0 m = m"
| "copy_down d s (Suc n) m = copy_down (d - 1) (s - 1) n (m(d - 1 := m (s - 1)))"

definition rt_memmove :: "int \<Rightarrow> int \<Rightarrow> nat \<Rightarrow> ram \<Rightarrow> ram" where
  "rt_memmove dest src n m =
     (if src < dest \<and> dest < src + int n
      then copy_down (dest + int n) (src + int n) n m
      else copy_up dest src n m)"

fun rt_memcmp :: "int \<Rightarrow> int \<Rightarrow> nat \<Rightarrow> ram \<Rightarrow> int" where
  "rt_memcmp cs ct 0 m = 0"
| "rt_memcmp cs ct (Suc n) m =
     (let res = load8 m cs - load8 m ct in
      if res \<noteq> 0 then res else rt_memcmp (cs + 1) (ct + 1) n m)"

section \<open>String routines\<close>

text \<open>\<open>char\<close> is unsigned on this target.\<close>

partial_function (option) strlen_loop :: "int \<Rightarrow> ram \<Rightarrow> int option" where
  "strlen_loop sc m = (if m sc \<noteq> 0 then strlen_loop (sc + 1) m else Some sc)"

definition rt_strlen :: "int \<Rightarrow> ram \<Rightarrow> int option" where
  "rt_strlen s m = do { sc \<leftarrow> strlen_loop s m; Some (sc - s) }"

fun strnlen_loop :: "int \<Rightarrow> nat \<Rightarrow> ram \<Rightarrow> int" where
  "strnlen_loop sc left m =
     (if m sc \<noteq> 0 \<and> 0 < left then strnlen_loop (sc + 1) (left - 1) m else sc)"

definition rt_strnlen :: "int \<Rightarrow> nat \<Rightarrow> ram \<Rightarrow> int" where
  "rt_strnlen s maxlen m = strnlen_loop s maxlen m - s"

text \<open>\<open>rt_strncpy\<close>: the bytes of the source, then zeros.\<close>

fun strncpy_loop :: "int \<Rightarrow> int \<Rightarrow> nat \<Rightarrow> ram \<Rightarrow> ram" where
  "strncpy_loop d s 0 m = m"
| "strncpy_loop d s (Suc n) m =
     (let m1 = m(d := m s) in
      if m1 d = 0 then set_bytes (d + 1) n 0 m1 else strncpy_loop (d + 1) (s + 1) n m1)"

definition rt_strncpy :: "int \<Rightarrow> int \<Rightarrow> nat \<Rightarrow> ram \<Rightarrow> ram" where
  "rt_strncpy dst src n m = (if n \<noteq> 0 then strncpy_loop dst src n m else m)"

partial_function (option) rt_strcmp :: "int \<Rightarrow> int \<Rightarrow> ram \<Rightarrow> int option" where
  "rt_strcmp cs ct m =
     (if m cs \<noteq> 0 \<and> m cs = m ct then rt_strcmp (cs + 1) (ct + 1) m
      else Some (load8 m cs - load8 m ct))"

text \<open>\<open>rt_strncmp\<close> keeps the difference in a \<open>signed char\<close>.\<close>

fun strncmp_loop :: "int \<Rightarrow> int \<Rightarrow> nat \<Rightarrow> int \<Rightarrow> ram \<Rightarrow> int" where
  "strncmp_loop cs ct 0 res m = res"
| "strncmp_loop cs ct (Suc n) res m =
     (let res = trunc_s 8 (load8 m cs - load8 m ct) in
      if res \<noteq> 0 \<or> m cs = 0 then res else strncmp_loop (cs + 1) (ct + 1) n res m)"

definition rt_strncmp :: "int \<Rightarrow> int \<Rightarrow> nat \<Rightarrow> ram \<Rightarrow> int" where
  "rt_strncmp cs ct count m = strncmp_loop cs ct count 0 m"

definition lower_case :: "int \<Rightarrow> int" where
  "lower_case c = (if 65 \<le> c \<and> c \<le> 90 then c + (97 - 65) else c)"

partial_function (option) rt_strcasecmp :: "int \<Rightarrow> int \<Rightarrow> ram \<Rightarrow> int option" where
  "rt_strcasecmp a b m =
     (let ca = lower_case (load8 m a); cb = lower_case (load8 m b) in
      if ca = cb \<and> ca \<noteq> 0 then rt_strcasecmp (a + 1) (b + 1) m else Some (ca - cb))"

text \<open>\<open>rt_strstr\<close>: the second argument is the number of start positions left.\<close>

fun strstr_loop :: "int \<Rightarrow> nat \<Rightarrow> int \<Rightarrow> nat \<Rightarrow> ram \<Rightarrow> int option" where
  "strstr_loop s1 l1 s2 l2 m =
     (if l2 \<le> l1 \<and> 0 < l2
      then (if rt_memcmp s1 s2 l2 m = 0 then Some s1 else strstr_loop (s1 + 1) (l1 - 1) s2 l2 m)
      else None)"

definition rt_strstr :: "int \<Rightarrow> int \<Rightarrow> ram \<Rightarrow> int option option" where
  "rt_strstr s1 s2 m =
     do { l2 \<leftarrow> rt_strlen s2 m;
          if l2 = 0 then Some (Some s1)
          else do { l1 \<leftarrow> rt_strlen s1 m;
                    Some (strstr_loop s1 (nat l1) s2 (nat l2) m) } }"

declare set_words4.simps [simp del] set_words.simps [simp del] copy_words4.simps [simp del]
  copy_words.simps [simp del] strnlen_loop.simps [simp del] strstr_loop.simps [simp del]


section \<open>Loads after stores\<close>

lemma uint_byte: "uint (word_of_int v :: u8) = v mod 256"
  by (simp add: unsigned_of_int take_bit_eq_mod)

lemma split_mod_256: "v mod 256 + 256 * (v div 256 mod 256) = v mod (65536 :: int)"
  using zmod_zmult2_eq [of 256 v 256] by simp

lemma split_mod_65536: "v mod 65536 + 65536 * (v div 65536 mod 65536) = v mod (4294967296 :: int)"
  using zmod_zmult2_eq [of 65536 v 65536] by simp

lemma store16_outside: "x < a \<or> a + 2 \<le> x \<Longrightarrow> store16 a v m x = m x"
  by (auto simp: store16_def store8_def)

lemma store32_outside: "x < a \<or> a + 4 \<le> x \<Longrightarrow> store32 a v m x = m x"
  by (auto simp: store32_def store16_outside)

lemma load16_cong: "m a = m' a \<Longrightarrow> m (a + 1) = m' (a + 1) \<Longrightarrow> load16 m a = load16 m' a"
  by (simp add: load16_def)

lemma load32_cong: "(\<And>x. a \<le> x \<Longrightarrow> x < a + 4 \<Longrightarrow> m x = m' x) \<Longrightarrow> load32 m a = load32 m' a"
  by (simp add: load32_def load16_def)

lemma load16_store16 [simp]: "load16 (store16 a v m) a = v mod 65536"
  using split_mod_256 [of v] by (simp add: load16_def store16_def store8_def uint_byte)

lemma load16_store16_other: "b + 2 \<le> a \<or> a + 2 \<le> b \<Longrightarrow> load16 (store16 a v m) b = load16 m b"
  by (rule load16_cong) (auto intro!: store16_outside)

lemma load16_store32_other: "b + 2 \<le> a \<or> a + 4 \<le> b \<Longrightarrow> load16 (store32 a v m) b = load16 m b"
  by (rule load16_cong) (auto intro!: store32_outside)

lemma load32_store16_other: "b + 4 \<le> a \<or> a + 2 \<le> b \<Longrightarrow> load32 (store16 a v m) b = load32 m b"
  by (rule load32_cong) (auto intro!: store16_outside)

lemma load32_store32_other: "b + 4 \<le> a \<or> a + 4 \<le> b \<Longrightarrow> load32 (store32 a v m) b = load32 m b"
  by (rule load32_cong) (auto intro!: store32_outside)

lemma load32_store32 [simp]: "load32 (store32 a v m) a = v mod 4294967296"
  using split_mod_65536 [of v] by (simp add: load32_def store32_def load16_store16_other)

lemma load16_range: "0 \<le> load16 m a \<and> load16 m a < 65536"
  using uint_lt2p [of "m a"] uint_lt2p [of "m (a + 1)"] by (simp add: load16_def)

lemma load32_range: "0 \<le> load32 m a \<and> load32 m a < 4294967296"
  using load16_range [of m a] load16_range [of m "a + 2"] by (simp add: load32_def)

section \<open>Blocks of memory\<close>

definition mcopy :: "int \<Rightarrow> int \<Rightarrow> nat \<Rightarrow> ram \<Rightarrow> ram" where
  "mcopy d s n m = (\<lambda>x. if d \<le> x \<and> x < d + int n then m (s + (x - d)) else m x)"

definition mfill :: "int \<Rightarrow> nat \<Rightarrow> u8 \<Rightarrow> ram \<Rightarrow> ram" where
  "mfill a n v m = (\<lambda>x. if a \<le> x \<and> x < a + int n then v else m x)"

lemma mcopy_0 [simp]: "mcopy d s 0 m = m"
  by (rule ext) (auto simp: mcopy_def)

lemma mfill_0 [simp]: "mfill a 0 v m = m"
  by (rule ext) (auto simp: mfill_def)

lemma mfill_add: "mfill (a + int k) n v (mfill a k v m) = mfill a (k + n) v m"
  by (rule ext) (auto simp: mfill_def)

lemma mcopy_add:
  "d \<le> s \<or> s + int (k + n) \<le> d \<Longrightarrow> mcopy (d + int k) (s + int k) n (mcopy d s k m) = mcopy d s (k + n) m"
  by (rule ext) (auto simp: mcopy_def algebra_simps)

lemma mcopy_1: "mcopy d s 1 m = m(d := m s)"
  by (rule ext) (auto simp: mcopy_def)

lemma mfill_1: "mfill a 1 v m = m(a := v)"
  by (rule ext) (auto simp: mfill_def)

text \<open>A word is four bytes: reading and writing a word copies a block of four, whatever overlaps.\<close>

lemma between_4: "a \<le> x \<Longrightarrow> x < a + 4 \<Longrightarrow> x = a \<or> x = a + 1 \<or> x = a + 2 \<or> x = a + (3 :: int)"
  by arith

lemma byte_eq_iff: "(word_of_int x :: u8) = b \<longleftrightarrow> x mod 256 = uint b"
  by (simp add: word_uint_eq_iff uint_byte)

lemma uint_u8_range: "0 \<le> uint (b :: u8) \<and> uint b < 256"
  using uint_lt2p [of b] by simp

lemma load16_byte: "load16 m a mod 256 = uint (m a)" "load16 m a div 256 mod 256 = uint (m (a + 1))"
  using uint_u8_range [of "m a"] uint_u8_range [of "m (a + 1)"] by (simp_all add: load16_def)

lemma store16_load16: "store16 d (load16 m s) m' = m'(d := m s, d + 1 := m (s + 1))"
  by (rule ext) (simp add: store16_def store8_def byte_eq_iff load16_byte)

lemma store8_cong: "x mod 256 = y mod 256 \<Longrightarrow> store8 a x m = store8 a y m"
  by (simp add: store8_def fun_eq_iff byte_eq_iff uint_byte)

lemma store16_high: "store16 a (x + 65536 * y) m = store16 a x m"
proof -
  have e: "x + 65536 * y = x + 256 * (256 * y)" by simp
  have "(x + 65536 * y) mod 256 = x mod 256" "(x + 65536 * y) div 256 mod 256 = x div 256 mod 256"
    unfolding e by (simp_all only: mod_mult_self2 div_mult_self2 zero_neq_numeral not_False_eq_True add.commute) simp
  then show ?thesis by (simp only: store16_def store8_cong [of "x + 65536 * y" x]
      store8_cong [of "(x + 65536 * y) div 256" "x div 256"])
qed

lemma store32_load32: "store32 d (load32 m s) m = mcopy d s 4 m"
proof -
  have h: "load32 m s div 65536 = load16 m (s + 2)" "d + 2 + 1 = d + 3" "s + 2 + 1 = s + 3"
    using load16_range [of m s] by (simp_all add: load32_def)
  have "store32 d (load32 m s) m = m(d := m s, d + 1 := m (s + 1), d + 2 := m (s + 2), d + 3 := m (s + 3))"
    unfolding store32_def h(1) store16_load16 unfolding load32_def store16_high store16_load16 h ..
  then show ?thesis by (auto simp: mcopy_def fun_eq_iff dest!: between_4)
qed

lemma store32_pattern:
  assumes "0 \<le> d" "d < 256"
  shows "store32 a (d * 256 + d + (d * 256 + d) * 65536) m = mfill a 4 (word_of_int d) m"
proof -
  have e: "(d * 256 + d + (d * 256 + d) * 65536) div 65536 = d * 256 + d"
    "d * 256 + d + (d * 256 + d) * 65536 = (d * 256 + d) + 65536 * (d * 256 + d)"
    "(d * 256 + d) div 256 = d" "a + 2 + 1 = a + 3"
    using assms by simp_all
  have w: "store8 x (d * 256 + d) m = store8 x d m" for x m by (rule store8_cong) (metis add.commute mod_mult_self1)
  have "store32 a (d * 256 + d + (d * 256 + d) * 65536) m =
      m(a := word_of_int d, a + 1 := word_of_int d, a + 2 := word_of_int d, a + 3 := word_of_int d)"
    unfolding store32_def e(1) unfolding e(2) store16_high unfolding store16_def e w unfolding store8_def ..
  then show ?thesis by (auto simp: mfill_def fun_eq_iff dest!: between_4)
qed

section \<open>The routines are the block operations\<close>

lemma copy_up_mcopy: "d \<le> s \<or> s + int n \<le> d \<Longrightarrow> copy_up d s n m = mcopy d s n m"
proof (induction n arbitrary: d s m)
  case (Suc n)
  have "mcopy (d + int 1) (s + int 1) n (mcopy d s 1 m) = mcopy d s (1 + n) m"
    by (rule mcopy_add) (use Suc.prems in auto)
  moreover have "copy_up (d + 1) (s + 1) n (m(d := m s)) = mcopy (d + 1) (s + 1) n (m(d := m s))"
    by (rule Suc.IH) (use Suc.prems in auto)
  ultimately show ?case by (simp add: mcopy_1 [unfolded One_nat_def])
qed simp

lemma copy_down_mcopy: "s \<le> d \<Longrightarrow> copy_down d s n m = mcopy (d - int n) (s - int n) n m"
proof (induction n arbitrary: d s m)
  case (Suc n)
  have "mcopy (d - 1 - int n) (s - 1 - int n) n (m(d - 1 := m (s - 1))) = mcopy (d - int (Suc n)) (s - int (Suc n)) (Suc n) m"
    using Suc.prems by (auto simp: mcopy_def fun_eq_iff)
  then show ?case using Suc.IH [of "s - 1" "d - 1"] Suc.prems by simp
qed simp

lemma copy_words_mcopy:
  "d \<le> s \<or> s + int n \<le> d \<Longrightarrow>
   copy_words d s n m = (d + int (n div 4 * 4), s + int (n div 4 * 4), n mod 4, mcopy d s (n div 4 * 4) m)"
proof (induction n arbitrary: d s m rule: less_induct)
  case (less n)
  show ?case
  proof (cases "4 \<le> n")
    case True
    define r where "r = (n - 4) div 4 * 4"
    have n: "n div 4 * 4 = 4 + r" "(n - 4) mod 4 = n mod 4" "r \<le> n - 4" using True by (auto simp: r_def le_mod_geq le_div_geq)
    have "mcopy (d + int 4) (s + int 4) r (mcopy d s 4 m) = mcopy d s (4 + r) m"
      by (rule mcopy_add) (use less.prems n(3) True in auto)
    moreover have "d + 4 \<le> s + 4 \<or> s + 4 + int (n - 4) \<le> d + 4" using less.prems True by auto
    ultimately show ?thesis
      using less.IH [of "n - 4" "d + 4" "s + 4" "mcopy d s 4 m"] True n
      by (subst copy_words.simps) (simp add: store32_load32 r_def [symmetric])
  qed (subst copy_words.simps, simp)
qed

lemma copy_words4_mcopy:
  "d \<le> s \<or> s + int n \<le> d \<Longrightarrow>
   copy_words4 d s n m = (d + int (n div 16 * 16), s + int (n div 16 * 16), n mod 16, mcopy d s (n div 16 * 16) m)"
proof (induction n arbitrary: d s m rule: less_induct)
  case (less n)
  show ?case
  proof (cases "16 \<le> n")
    case True
    define r where "r = (n - 16) div 16 * 16"
    have n: "n div 16 * 16 = 16 + r" "(n - 16) mod 16 = n mod 16" "r \<le> n - 16"
      using True by (auto simp: r_def le_mod_geq le_div_geq)
    have c: "mcopy (d + int k) (s + int k) j (mcopy d s k m) = mcopy d s (k + j) m" if "k + j \<le> n" for k j
      by (rule mcopy_add) (use less.prems that in auto)
    have "d + 16 \<le> s + 16 \<or> s + 16 + int (n - 16) \<le> d + 16" using less.prems True by auto
    then show ?thesis
      using less.IH [of "n - 16" "d + 16" "s + 16" "mcopy d s 16 m"] True n c [of 4 4] c [of 8 4] c [of 12 4] c [of 16 r]
      by (subst copy_words4.simps) (simp add: store32_load32 r_def [symmetric])
  qed (subst copy_words4.simps, simp)
qed

lemma memcpy_mcopy:
  assumes "d \<le> s \<or> s + int n \<le> d"
  shows "rt_memcpy d s n m = mcopy d s n m"
proof (cases "\<not> n < 16 \<and> s mod 4 = 0 \<and> d mod 4 = 0")
  case True
  define p q r where "p = n div 16 * 16" and "q = n mod 16 div 4 * 4" and "r = n mod 16 mod 4"
  have n: "p + q + r = n" "p + n mod 16 = n" by (simp_all add: p_def q_def r_def)
  have "rt_memcpy d s n m = copy_up (d + int p + int q) (s + int p + int q) r (mcopy (d + int p) (s + int p) q (mcopy d s p m))"
  proof -
    have "d + int p \<le> s + int p \<or> s + int p + int (n mod 16) \<le> d + int p" using assms n(2) by auto
    from copy_words_mcopy [OF this] show ?thesis
      using True assms by (simp add: rt_memcpy_def copy_words4_mcopy p_def [symmetric] q_def [symmetric] r_def [symmetric])
  qed
  also have "mcopy (d + int p) (s + int p) q (mcopy d s p m) = mcopy d s (p + q) m"
    by (rule mcopy_add) (use assms n in auto)
  also have "copy_up (d + int p + int q) (s + int p + int q) r (mcopy d s (p + q) m) =
      mcopy (d + int (p + q)) (s + int (p + q)) r (mcopy d s (p + q) m)"
    by (subst copy_up_mcopy) (use assms n in \<open>auto simp: algebra_simps\<close>)
  also have "\<dots> = mcopy d s (p + q + r) m" by (rule mcopy_add) (use assms n in auto)
  finally show ?thesis using n by simp
next
  case False
  then show ?thesis using copy_up_mcopy [OF assms] by (auto simp: rt_memcpy_def)
qed

lemma memmove_mcopy: "rt_memmove d s n m = mcopy d s n m"
  using copy_up_mcopy [of d s n m] copy_down_mcopy [of "s + int n" "d + int n" n m]
  by (auto simp: rt_memmove_def)

lemma set_bytes_mfill: "set_bytes a n d m = mfill a n (word_of_int d) m"
proof (induction n arbitrary: a m)
  case (Suc n)
  then show ?case using mfill_add [of a 1 n "word_of_int d" m] by (simp add: mfill_1 [unfolded One_nat_def] store8_def fun_upd_def)
qed simp

lemma set_words_mfill:
  assumes w: "\<And>a m. store32 a b m = mfill a 4 v m"
  shows "set_words a n b m = (a + int (n div 4 * 4), n mod 4, mfill a (n div 4 * 4) v m)"
proof (induction n arbitrary: a m rule: less_induct)
  case (less n)
  show ?case
  proof (cases "4 \<le> n")
    case True
    then have n: "n div 4 * 4 = 4 + (n - 4) div 4 * 4" "(n - 4) mod 4 = n mod 4" by (auto simp: le_mod_geq le_div_geq)
    then show ?thesis
      using less.IH [of "n - 4" "a + 4"] True mfill_add [of a 4 "(n - 4) div 4 * 4" v m]
      by (subst set_words.simps) (simp add: w)
  qed (subst set_words.simps, simp)
qed

lemma set_words4_mfill:
  assumes w: "\<And>a m. store32 a b m = mfill a 4 v m"
  shows "set_words4 a n b m = (a + int (n div 16 * 16), n mod 16, mfill a (n div 16 * 16) v m)"
proof (induction n arbitrary: a m rule: less_induct)
  case (less n)
  show ?case
  proof (cases "16 \<le> n")
    case True
    then have n: "n div 16 * 16 = 16 + (n - 16) div 16 * 16" "(n - 16) mod 16 = n mod 16" by (auto simp: le_mod_geq le_div_geq)
    then show ?thesis
      using less.IH [of "n - 16" "a + 16"] True mfill_add [of a 4 4 v m] mfill_add [of a 8 4 v m] mfill_add [of a 12 4 v m]
        mfill_add [of a 16 "(n - 16) div 16 * 16" v m]
      by (subst set_words4.simps) (simp add: w)
  qed (subst set_words4.simps, simp)
qed

lemma memset_mfill: "rt_memset s c n m = mfill s n (word_of_int c) m"
proof -
  define d where "d = c mod 256"
  have d: "0 \<le> d" "d < 256" and wd: "(word_of_int d :: u8) = word_of_int c"
    by (simp_all add: d_def byte_eq_iff uint_byte)
  show ?thesis
  proof (cases "\<not> n < 4 \<and> s mod 4 = 0")
    case True
    define p q r where "p = n div 16 * 16" and "q = n mod 16 div 4 * 4" and "r = n mod 16 mod 4"
    have n: "p + q + r = n" by (simp add: p_def q_def r_def)
    have w: "store32 a (16843009 * d) m = mfill a 4 (word_of_int d) m" for a m
      using store32_pattern [OF d, of a m] by simp
    have "rt_memset s c n m = mfill (s + int p + int q) r (word_of_int d) (mfill (s + int p) q (word_of_int d) (mfill s p (word_of_int d) m))"
      using True
      by (simp add: rt_memset_def d_def [symmetric] Let_def set_words4_mfill [OF w] set_words_mfill [OF w] set_bytes_mfill
          p_def q_def r_def)
    also have "\<dots> = mfill s n (word_of_int c) m"
      using mfill_add [of s p q "word_of_int d" m] mfill_add [of s "p + q" r "word_of_int d" m] n wd by (simp add: add.assoc)
    finally show ?thesis .
  next
    case False
    then show ?thesis using wd by (auto simp: rt_memset_def d_def [symmetric] set_bytes_mfill)
  qed
qed

section \<open>Strings\<close>

text \<open>The bytes \<open>xs\<close> at \<open>p\<close>, with their terminator.\<close>

fun cstr :: "ram \<Rightarrow> int \<Rightarrow> u8 list \<Rightarrow> bool" where
  "cstr m p [] \<longleftrightarrow> m p = 0"
| "cstr m p (x # xs) \<longleftrightarrow> x \<noteq> 0 \<and> m p = x \<and> cstr m (p + 1) xs"

lemma cstr_nth: "cstr m p xs \<Longrightarrow> i < length xs \<Longrightarrow> m (p + int i) = xs ! i"
  by (induction xs arbitrary: p i) (auto simp: nth_Cons add.assoc [symmetric] split: nat.split)

lemma cstr_not_0: "cstr m p xs \<Longrightarrow> x \<in> set xs \<Longrightarrow> x \<noteq> 0"
  by (induction xs arbitrary: p) auto

lemma cstr_end: "cstr m p xs \<Longrightarrow> m (p + int (length xs)) = 0"
  by (induction xs arbitrary: p) (auto simp: add.assoc [symmetric])

lemma cstr_drop: "cstr m p xs \<Longrightarrow> i \<le> length xs \<Longrightarrow> cstr m (p + int i) (drop i xs)"
proof (induction xs arbitrary: p i)
  case (Cons x xs)
  then show ?case using Cons.IH [of "p + 1" "i - 1"] by (cases i) (auto simp: algebra_simps)
qed simp

lemma strlen_loop_cstr: "cstr m p xs \<Longrightarrow> strlen_loop p m = Some (p + int (length xs))"
  by (induction xs arbitrary: p) (subst strlen_loop.simps, simp)+

lemma strlen_cstr: "cstr m p xs \<Longrightarrow> rt_strlen p m = Some (int (length xs))"
  by (simp add: rt_strlen_def strlen_loop_cstr)

text \<open>The first difference of two strings, the terminator counted as the smallest byte.\<close>

fun str_diff :: "u8 list \<Rightarrow> u8 list \<Rightarrow> int" where
  "str_diff [] [] = 0"
| "str_diff (x # xs) [] = uint x"
| "str_diff [] (y # ys) = - uint y"
| "str_diff (x # xs) (y # ys) = (if x = y then str_diff xs ys else uint x - uint y)"

lemma str_diff_order: "0 \<notin> set xs \<Longrightarrow> 0 \<notin> set ys \<Longrightarrow>
    (str_diff xs ys = 0 \<longleftrightarrow> xs = ys) \<and> (str_diff xs ys < 0 \<longleftrightarrow> xs < ys)"
proof (induction xs ys rule: str_diff.induct)
  case (2 x xs)
  then show ?case using uint_ge_0 [of x] by (auto simp: uint_0_iff)
next
  case (3 y ys)
  then show ?case using uint_ge_0 [of y] by (auto simp: uint_0_iff order_less_le)
next
  case (4 x xs y ys)
  then show ?case by (auto simp: word_less_def word_uint_eq_iff)
qed simp

lemma str_diff_range: "- 255 \<le> str_diff xs ys \<and> str_diff xs ys \<le> 255"
proof (induction xs ys rule: str_diff.induct)
  case (4 x xs y ys)
  have "- 255 \<le> uint x - uint y \<and> uint x - uint y \<le> 255"
    using uint_u8_range [of x] uint_u8_range [of y] by linarith
  with 4 show ?case by simp
next
  case (2 x xs)
  have "- 255 \<le> uint x \<and> uint x \<le> 255" using uint_u8_range [of x] by linarith
  then show ?case by simp
next
  case (3 y ys)
  have "- 255 \<le> - uint y \<and> - uint y \<le> 255" using uint_u8_range [of y] by linarith
  then show ?case by simp
qed simp

lemma strcmp_cstr: "cstr m p xs \<Longrightarrow> cstr m q ys \<Longrightarrow> rt_strcmp p q m = Some (str_diff xs ys)"
proof (induction xs ys arbitrary: p q rule: str_diff.induct)
  case (4 x xs y ys)
  then show ?case by (subst rt_strcmp.simps) (auto simp: load8_def)
qed (subst rt_strcmp.simps, auto simp: load8_def)+

lemma trunc_s_8_0:
  assumes "- 255 \<le> d" "d \<le> 255"
  shows "trunc_s 8 d = 0 \<longleftrightarrow> d = 0"
proof
  assume "trunc_s 8 d = 0"
  then have "(d + 128) mod 256 = 128 mod 256" by (simp add: trunc_s_def)
  then have "256 dvd d" unfolding mod_eq_dvd_iff by simp
  then show "d = 0" using dvd_imp_le_int [of d 256] assms by auto
qed (simp add: trunc_s_def)

lemma uint_diff_0: "uint x - uint (y :: u8) = 0 \<longleftrightarrow> x = y"
  by (simp add: word_uint_eq_iff)

lemma strncmp_cstr: "cstr m p xs \<Longrightarrow> cstr m q ys \<Longrightarrow> strncmp_loop p q n 0 m = trunc_s 8 (str_diff (take n xs) (take n ys))"
proof (induction n arbitrary: p q xs ys)
  case 0
  then show ?case by (simp add: trunc_s_def)
next
  case (Suc n)
  have t: "trunc_s 8 (uint a - uint b) = 0 \<longleftrightarrow> a = b" for a b :: u8
    using trunc_s_8_0 [of "uint a - uint b"] uint_u8_range [of a] uint_u8_range [of b] uint_diff_0 [of a b] by auto
  show ?case
  proof (cases xs)
    case Nil
    then show ?thesis using Suc.prems by (cases ys) (auto simp: load8_def Let_def)
  next
    case (Cons x xs')
    note xs = this
    show ?thesis
    proof (cases ys)
      case Nil
      then show ?thesis using Suc.prems xs t [of x 0] by (auto simp: load8_def Let_def)
    next
      case (Cons y ys')
      then show ?thesis using Suc.prems xs t [of x y] Suc.IH [of "p + 1" xs' "q + 1" ys'] by (auto simp: load8_def Let_def)
    qed
  qed
qed

lemma str_diff_7bit: "\<forall>x \<in> set (xs @ ys). x < (128 :: u8) \<Longrightarrow> - 128 \<le> str_diff xs ys \<and> str_diff xs ys < 128"
proof (induction xs ys rule: str_diff.induct)
  case (4 x xs y ys)
  have "uint x < 128" "uint y < 128" using 4 by (auto simp: word_less_def)
  then have "- 128 \<le> uint x - uint y \<and> uint x - uint y < 128"
    using uint_u8_range [of x] uint_u8_range [of y] by linarith
  with 4 show ?case by simp
next
  case (2 x xs)
  have "uint x < 128" using 2 by (auto simp: word_less_def)
  then have "- 128 \<le> uint x \<and> uint x < 128" using uint_u8_range [of x] by linarith
  then show ?case by simp
next
  case (3 y ys)
  have "uint y < 128" using 3 by (auto simp: word_less_def)
  then have "- 128 \<le> - uint y \<and> - uint y < 128" using uint_u8_range [of y] by linarith
  then show ?case by simp
qed simp

text \<open>What \<open>rt_strncpy\<close> leaves at the destination: the string, cut or filled with zeros.\<close>

definition padded :: "nat \<Rightarrow> u8 list \<Rightarrow> nat \<Rightarrow> u8" where
  "padded n xs i = (if i < length xs then xs ! i else 0)"

lemma strncpy_padded:
  "cstr m s xs \<Longrightarrow> d + int n \<le> s \<or> s + int (length xs) < d \<Longrightarrow>
   strncpy_loop d s n m = (\<lambda>x. if d \<le> x \<and> x < d + int n then padded n xs (nat (x - d)) else m x)"
proof (induction xs arbitrary: d s n m)
  case Nil
  show ?case
  proof (cases n)
    case (Suc k)
    then show ?thesis using Nil
      by (auto simp: set_bytes_mfill mfill_def padded_def fun_eq_iff)
  qed (auto simp: fun_eq_iff)
next
  case (Cons x xs)
  show ?case
  proof (cases n)
    case (Suc k)
    let ?m = "m(d := x)"
    have c: "cstr (m(d := x)) (s + 1) xs"
    proof -
      have "cstr m (s + 1) xs" using Cons.prems(1) by simp
      moreover have "d < s + 1 \<or> s + 1 + int (length xs) < d" using Cons.prems(2) Suc by auto
      ultimately show ?thesis
      proof (induction xs arbitrary: s)
        case (Cons y ys)
        then show ?case using Cons.IH [of "s + 1"] by auto
      qed auto
    qed
    have "strncpy_loop (d + 1) (s + 1) k ?m =
        (\<lambda>y. if d + 1 \<le> y \<and> y < d + 1 + int k then padded k xs (nat (y - (d + 1))) else ?m y)"
      by (rule Cons.IH [OF c]) (use Cons.prems(2) Suc in auto)
    moreover have "nat (y - d) = Suc (nat (y - (d + 1)))" if "d + 1 \<le> y" for y using that by auto
    ultimately show ?thesis using Cons.prems(1) Suc by (auto simp: padded_def fun_eq_iff Let_def)
  qed (auto simp: fun_eq_iff)
qed

lemma memcmp_0: "rt_memcmp a b n m = 0 \<longleftrightarrow> (\<forall>i < n. m (a + int i) = m (b + int i))"
proof (induction n arbitrary: a b)
  case (Suc n)
  have "(\<forall>i < Suc n. m (a + int i) = m (b + int i)) \<longleftrightarrow> m a = m b \<and> (\<forall>i < n. m (a + 1 + int i) = m (b + 1 + int i))"
    unfolding All_less_Suc2 by (simp add: add.assoc)
  then show ?case using Suc [of "a + 1" "b + 1"] uint_diff_0 [of "m a" "m b"] by (simp add: load8_def Let_def)
qed simp

lemma memcmp_prefix:
  assumes "cstr m p xs" "cstr m q ys" "length ys \<le> length xs"
  shows "rt_memcmp p q (length ys) m = 0 \<longleftrightarrow> prefix ys xs"
proof -
  have "rt_memcmp p q (length ys) m = 0 \<longleftrightarrow> take (length ys) xs = ys"
    using assms cstr_nth [OF assms(1)] cstr_nth [OF assms(2)] by (auto simp: memcmp_0 list_eq_iff_nth_eq)
  also have "\<dots> \<longleftrightarrow> prefix ys xs" unfolding prefix_def by (metis append_eq_conv_conj append_take_drop_id)
  finally show ?thesis .
qed

text \<open>The first place where a string occurs in another.\<close>

fun find_first :: "u8 list \<Rightarrow> u8 list \<Rightarrow> nat option" where
  "find_first ys [] = (if ys = [] then Some 0 else None)"
| "find_first ys (x # xs) = (if prefix ys (x # xs) then Some 0 else map_option Suc (find_first ys xs))"

lemma find_first_Some: "find_first ys xs = Some i \<Longrightarrow> prefix ys (drop i xs) \<and> (\<forall>j < i. \<not> prefix ys (drop j xs))"
proof (induction xs arbitrary: i)
  case (Cons x xs)
  show ?case
  proof (cases "prefix ys (x # xs)")
    case False
    then obtain k where k: "find_first ys xs = Some k" "i = Suc k" using Cons.prems by auto
    then show ?thesis using Cons.IH [OF k(1)] False by (auto simp: less_Suc_eq_0_disj)
  qed (use Cons.prems in auto)
qed (auto split: if_splits)

lemma find_first_None: "find_first ys xs = None \<Longrightarrow> \<not> sublist ys xs"
  by (induction xs) (auto simp: sublist_Cons_right split: if_splits)

lemma find_first_short: "length xs < length ys \<Longrightarrow> find_first ys xs = None"
  by (induction xs) (auto dest: prefix_length_le)

lemma strstr_loop_find:
  "cstr m p xs \<Longrightarrow> cstr m q ys \<Longrightarrow> ys \<noteq> [] \<Longrightarrow>
   strstr_loop p (length xs) q (length ys) m = map_option (\<lambda>i. p + int i) (find_first ys xs)"
proof (induction xs arbitrary: p)
  case Nil
  then show ?case by (subst strstr_loop.simps) simp
next
  case (Cons x xs)
  show ?case
  proof (cases "length ys \<le> length (x # xs)")
    case True
    have "strstr_loop (p + 1) (length xs) q (length ys) m = map_option (\<lambda>i. p + 1 + int i) (find_first ys xs)"
      by (rule Cons.IH) (use Cons.prems in auto)
    then show ?thesis using memcmp_prefix [OF Cons.prems(1,2) True] True Cons.prems(3)
      by (subst strstr_loop.simps) (auto simp: option.map_comp o_def add.assoc)
  next
    case False
    then show ?thesis using find_first_short [of "x # xs" ys] by (subst strstr_loop.simps) (simp add: not_le)
  qed
qed

lemma strcasecmp_lower:
  "cstr m p xs \<Longrightarrow> cstr m q ys \<Longrightarrow>
   \<exists>d. rt_strcasecmp p q m = Some d \<and> (d = 0 \<longleftrightarrow> map (\<lambda>z. lower_case (uint z)) xs = map (\<lambda>z. lower_case (uint z)) ys)"
proof (induction xs ys arbitrary: p q rule: list_induct2')
  case (1 p q)
  then show ?case by (subst rt_strcasecmp.simps) (simp add: load8_def lower_case_def)
next
  case (2 x xs p q)
  then show ?case by (subst rt_strcasecmp.simps) (auto simp: load8_def lower_case_def uint_0_iff)
next
  case (3 y ys p q)
  then show ?case by (subst rt_strcasecmp.simps) (auto simp: load8_def lower_case_def uint_0_iff)
next
  case (4 x xs y ys p q)
  have n0: "lower_case (uint z) \<noteq> 0" if "z \<noteq> 0" for z :: u8 using that by (auto simp: lower_case_def uint_0_iff)
  show ?case
  proof (cases "lower_case (uint x) = lower_case (uint y)")
    case True
    have "\<exists>d. rt_strcasecmp (p + 1) (q + 1) m = Some d \<and> (d = 0 \<longleftrightarrow> map (\<lambda>z. lower_case (uint z)) xs = map (\<lambda>z. lower_case (uint z)) ys)"
      by (rule 4) (use 4 in auto)
    then show ?thesis using True 4 n0 by (subst rt_strcasecmp.simps) (auto simp: load8_def)
  next
    case False
    then show ?thesis using 4 by (subst rt_strcasecmp.simps) (auto simp: load8_def Let_def)
  qed
qed

section \<open>Properties\<close>

text \<open>
  C21. The word and byte loops of \<open>rt_memcpy\<close>, \<open>rt_memmove\<close> and \<open>rt_memset\<close> have, for every length
  and alignment, the effect of one block operation: every byte of the destination gets its value and
  no other byte changes. \<open>rt_memmove\<close> copes with any overlap, \<open>rt_memcpy\<close> with regions that do not
  overlap or lie in upward order. \<open>rt_memcmp\<close> is 0 exactly for equal blocks.
\<close>

theorem memory_block_operations:
  "(d \<le> s \<or> s + int n \<le> d \<longrightarrow> rt_memcpy d s n m = mcopy d s n m) \<and>
   rt_memmove d s n m = mcopy d s n m \<and> rt_memset d c n m = mfill d n (word_of_int c) m \<and>
   (rt_memcmp d s n m = 0 \<longleftrightarrow> (\<forall>i < n. m (d + int i) = m (s + int i)))"
  by (simp add: memcpy_mcopy memmove_mcopy memset_mfill memcmp_0)

theorem memory_block_operations_witness:
  "rt_memcpy 16 100 23 (\<lambda>a. word_of_int a) 38 = 122 \<and> rt_memset 16 255 23 (\<lambda>a. word_of_int a) 38 = 255"
  using memory_block_operations [of 16 100 23 "\<lambda>a. word_of_int a" 255] by (simp add: mcopy_def mfill_def)

text \<open>
  \<open>rt_strlen\<close>, \<open>rt_strcmp\<close> and \<open>rt_strcasecmp\<close> return on terminated strings, with the length,
  the order of the strings, and their equality up to case; \<open>rt_strncmp\<close> has the sign of the first
  difference among the first \<open>n\<close> bytes when all bytes are 7-bit characters.
\<close>

theorem string_compare:
  assumes "cstr m p xs" "cstr m q ys"
  shows "rt_strlen p m = Some (int (length xs)) \<and>
    (\<exists>d. rt_strcmp p q m = Some d \<and> (d = 0 \<longleftrightarrow> xs = ys) \<and> (d < 0 \<longleftrightarrow> xs < ys)) \<and>
    (\<exists>d. rt_strcasecmp p q m = Some d \<and>
       (d = 0 \<longleftrightarrow> map (\<lambda>z. lower_case (uint z)) xs = map (\<lambda>z. lower_case (uint z)) ys)) \<and>
    ((\<forall>x \<in> set (xs @ ys). x < 128) \<longrightarrow> rt_strncmp p q n m = str_diff (take n xs) (take n ys))"
proof (intro conjI impI)
  have n0: "0 \<notin> set xs" "0 \<notin> set ys" using cstr_not_0 assms by blast+
  show "\<exists>d. rt_strcmp p q m = Some d \<and> (d = 0 \<longleftrightarrow> xs = ys) \<and> (d < 0 \<longleftrightarrow> xs < ys)"
    using strcmp_cstr [OF assms] str_diff_order [OF n0] by simp
  show "rt_strncmp p q n m = str_diff (take n xs) (take n ys)" if l: "\<forall>x \<in> set (xs @ ys). x < 128"
  proof -
    have "\<forall>x \<in> set (take n xs @ take n ys). x < 128" using l by (auto dest: in_set_takeD)
    then show ?thesis
      using strncmp_cstr [OF assms, of n] str_diff_7bit [of "take n xs" "take n ys"] by (simp add: rt_strncmp_def trunc_s_id)
  qed
qed (rule strlen_cstr [OF assms(1)], rule strcasecmp_lower [OF assms])

definition m_text :: ram where
  "m_text = (\<lambda>a. if a = 0 then 65 else if a = 1 then 66 else if a = 10 then 97 else if a = 11 then 67 else 0)"

theorem string_compare_witness:
  "(\<exists>d. rt_strcmp 0 10 m_text = Some d \<and> d < 0) \<and> rt_strncmp 0 10 1 m_text = - 32"
proof -
  have "cstr m_text 0 [65, 66]" "cstr m_text 10 [97, 67]" by (simp_all add: m_text_def)
  from string_compare [OF this, of 1] show ?thesis by auto
qed

text \<open>
  \<open>rt_strncmp\<close> keeps the difference of two bytes in a signed char: when the first string has the
  larger byte by more than 127 the result is negative, although \<open>rt_strcmp\<close> is positive.
\<close>

theorem strncmp_sign_wraps:
  assumes "cstr m p (x # xs)" "cstr m q (y # ys)" "127 < uint x - uint y"
  shows "rt_strncmp p q (Suc n) m < 0 \<and> (\<exists>d. rt_strcmp p q m = Some d \<and> 0 < d)"
proof -
  have xy: "x \<noteq> y" using assms(3) by auto
  have r: "uint x - uint y \<le> 255" using uint_u8_range [of x] uint_u8_range [of y] by linarith
  have "trunc_s 8 (uint x - uint y) = (uint x - uint y) - 256"
    using assms(3) r mod_pos_pos_trivial [of "uint x - uint y + 128 - 256" 256] by (simp add: trunc_s_def mod_pos_geq)
  then show ?thesis
    using strncmp_cstr [OF assms(1,2), of "Suc n"] strcmp_cstr [OF assms(1,2)] xy assms(3) r by (simp add: rt_strncmp_def)
qed

theorem strncmp_sign_wraps_witness:
  "rt_strncmp 0 10 1 (\<lambda>a. if a = 0 then 200 else if a = 10 then 65 else 0) < 0"
  using strncmp_sign_wraps [of "\<lambda>a. if a = 0 then 200 else if a = 10 then 65 else 0" 0 200 "[]" 10 65 "[]" 0] by simp

text \<open>
  \<open>rt_strstr\<close> returns on terminated strings: the first position at which the second string
  occurs in the first, or a null pointer when there is none.
\<close>

theorem string_search:
  assumes "cstr m p xs" "cstr m q ys"
  shows "\<exists>r. rt_strstr p q m = Some r \<and>
    (case r of None \<Rightarrow> \<not> sublist ys xs
     | Some a \<Rightarrow> \<exists>i. a = p + int i \<and> prefix ys (drop i xs) \<and> (\<forall>j < i. \<not> prefix ys (drop j xs)))"
proof (cases "ys = []")
  case True
  then show ?thesis using strlen_cstr [OF assms(2)] by (auto simp: rt_strstr_def)
next
  case False
  then have "rt_strstr p q m = Some (map_option (\<lambda>i. p + int i) (find_first ys xs))"
    using strlen_cstr [OF assms(1)] strlen_cstr [OF assms(2)] strstr_loop_find [OF assms] by (simp add: rt_strstr_def)
  then show ?thesis using find_first_Some [of ys xs] find_first_None [of ys xs] by (cases "find_first ys xs") auto
qed

theorem string_search_witness: "\<exists>r. rt_strstr 0 1 m_text = Some r"
proof -
  have "cstr m_text 0 [65, 66]" "cstr m_text 1 [66]" by (simp_all add: m_text_def)
  from string_search [OF this] show ?thesis by blast
qed

text \<open>
  \<open>rt_strncpy\<close> writes exactly \<open>n\<close> bytes: the string, cut at \<open>n\<close> bytes without a terminator or
  filled up with zeros; nothing else changes.
\<close>

theorem strncpy_outcome:
  assumes "cstr m s xs" "d + int n \<le> s \<or> s + int (length xs) < d"
  shows "rt_strncpy d s n m = (\<lambda>x. if d \<le> x \<and> x < d + int n then padded n xs (nat (x - d)) else m x)"
  using strncpy_padded [OF assms] by (auto simp: rt_strncpy_def fun_eq_iff)

theorem strncpy_outcome_witness: "rt_strncpy 20 0 4 m_text 21 = 66 \<and> rt_strncpy 20 0 4 m_text 23 = 0"
proof -
  have "cstr m_text 0 [65, 66]" by (simp add: m_text_def)
  from strncpy_outcome [OF this, of 20 4] show ?thesis by (simp add: padded_def)
qed

end
