(* ===== verification/Printf.thy ===== *)
theory Printf
  imports Memory
begin

text \<open>
  Formatted output of \<open>src/kservice.c\<close>: \<open>rt_vsnprintf\<close> with \<open>print_number\<close>, \<open>divide\<close> and \<open>skip_atoi\<close>. The
  configuration defines \<open>RT_PRINTF_PRECISION\<close> and neither \<open>RT_PRINTF_LONGLONG\<close> nor \<open>RT_PRINTF_SPECIAL\<close>.

  The output goes to the memory of theory \<open>Memory\<close>; \<open>str\<close> runs on behind \<open>end\<close>, where nothing is
  written. The format is a constant of the program: \<open>fmt\<close> is what is left of it, without the
  terminator. The arguments are the machine words of the variable argument list, and strings are read
  from the memory. The counters of the code are mathematical integers; undefined behaviour that the
  arguments can cause (too few of them, an overflow of a width or of a sign change) is \<open>None\<close>.
\<close>

type_synonym out = "int \<times> ram"    \<comment> \<open>the pointer \<open>str\<close>, and the memory\<close>

abbreviation (input) ch :: "char \<Rightarrow> u8" where "ch c \<equiv> of_char c"

text \<open>\<open>if (str < end) *str = c; ++ str;\<close> and the loops that repeat it.\<close>

definition put :: "int \<Rightarrow> u8 \<Rightarrow> out \<Rightarrow> out" where
  "put en c o1 = (fst o1 + 1, if fst o1 < en then (snd o1)(fst o1 := c) else snd o1)"

primrec pad :: "int \<Rightarrow> u8 \<Rightarrow> nat \<Rightarrow> out \<Rightarrow> out" where
  "pad en c 0 o1 = o1"
| "pad en c (Suc n) o1 = pad en c n (put en c o1)"

text \<open>The flags, by the number of their bit.\<close>

abbreviation (input) ZEROPAD :: nat where "ZEROPAD \<equiv> 0"
abbreviation (input) SIGN :: nat where "SIGN \<equiv> 1"
abbreviation (input) PLUS :: nat where "PLUS \<equiv> 2"
abbreviation (input) SPACE :: nat where "SPACE \<equiv> 3"
abbreviation (input) LEFT :: nat where "LEFT \<equiv> 4"
abbreviation (input) SPECIAL :: nat where "SPECIAL \<equiv> 5"
abbreviation (input) LARGE :: nat where "LARGE \<equiv> 6"

text \<open>\<open>divide\<close> takes every base but 10 for 16; the result and the new value of \<open>*n\<close>.\<close>

definition divide :: "int \<Rightarrow> int \<Rightarrow> int \<times> int" where
  "divide n base =
     (let u = n mod 2 ^ 32 in
      if base = 10 then (u mod 10, trunc_s 32 (u div 10)) else (u mod 16, trunc_s 32 (u div 16)))"

definition small_digits :: "u8 list" where "small_digits = map of_char ''0123456789abcdef''"
definition large_digits :: "u8 list" where "large_digits = map of_char ''0123456789ABCDEF''"

text \<open>The digits in \<open>tmp\<close>, the last one of the number first.\<close>

lemma trunc_small: "0 \<le> x \<Longrightarrow> x < 2147483648 \<Longrightarrow> trunc_s 32 x = x"
  by (simp add: trunc_s_def)

lemma divide_small:
  "divide n 10 = (n mod 2 ^ 32 mod 10, n mod 2 ^ 32 div 10)"
  "base \<noteq> 10 \<Longrightarrow> divide n base = (n mod 2 ^ 32 mod 16, n mod 2 ^ 32 div 16)"
proof -
  have "0 \<le> n mod 2 ^ 32" "n mod 2 ^ 32 < 2 ^ 32" by simp_all
  then have "n mod 2 ^ 32 div 10 < 2147483648" "n mod 2 ^ 32 div 16 < 2147483648"
    "0 \<le> n mod 2 ^ 32 div 10" "0 \<le> n mod 2 ^ 32 div 16" by simp_all
  then show "divide n 10 = (n mod 2 ^ 32 mod 10, n mod 2 ^ 32 div 10)"
    "base \<noteq> 10 \<Longrightarrow> divide n base = (n mod 2 ^ 32 mod 16, n mod 2 ^ 32 div 16)"
    by (simp_all only: divide_def Let_def trunc_small if_True if_False refl)
qed

function tmp_digits :: "u8 list \<Rightarrow> int \<Rightarrow> int \<Rightarrow> u8 list" where
  "tmp_digits digits base num =
     (if num \<noteq> 0 then let (d, n) = divide num base in digits ! nat d # tmp_digits digits base n else [])"
  by auto
termination
proof (relation "measure (\<lambda>(digits, base, num). if num = 0 then 0 else Suc (nat (num mod 2 ^ 32)))")
  fix digits :: "u8 list" and base num d n :: int and x
  assume a: "num \<noteq> 0" "x = divide num base" "(d, n) = x"
  define u where "u = num mod 2 ^ 32"
  have u: "0 \<le> u" "u < 2 ^ 32" by (simp_all add: u_def)
  have n: "n = u div (if base = 10 then 10 else 16)"
    using a(2,3) divide_small [of num] divide_small(2) [of base num] by (auto simp: u_def split: if_splits)
  have "n \<noteq> 0 \<Longrightarrow> n mod 2 ^ 32 < u"
  proof -
    assume "n \<noteq> 0"
    then have "0 < n" "n < u" using u n by (auto simp: int_div_less_self split: if_splits)
    then show ?thesis using u by simp
  qed
  then show "((digits, base, n), digits, base, num) \<in> measure (\<lambda>(digits, base, num). if num = 0 then 0 else Suc (nat (num mod 2 ^ 32)))"
    using a(1) u by (auto simp: u_def)
qed simp

declare tmp_digits.simps [simp del]

text \<open>\<open>print_number\<close>; \<open>None\<close> when \<open>- num\<close> overflows or \<open>tmp\<close> is too small.\<close>

definition print_number :: "int \<Rightarrow> int \<Rightarrow> int \<Rightarrow> int \<Rightarrow> int \<Rightarrow> u8 \<Rightarrow> out \<Rightarrow> out option" where
  "print_number en num base s precision flags o1 =
     (let precision_bak = precision;
          size1 = s;
          digits = (if bit flags LARGE then large_digits else small_digits);
          flags = (if bit flags LEFT then unset_bit ZEROPAD flags else flags);
          c = (if bit flags ZEROPAD then ch CHR ''0'' else ch CHR '' '');
          (sign, neg) = (if bit flags SIGN
                         then (if num < 0 then (ch CHR ''-'', True)
                               else if bit flags PLUS then (ch CHR ''+'', False)
                               else if bit flags SPACE then (ch CHR '' '', False) else (0, False))
                         else (0, False))
      in do {
        rt_assert (neg \<longrightarrow> num \<noteq> - (2 ^ 31));
        let num = (if neg then - num else num);
        let tmp = (if num = 0 then [ch CHR ''0''] else tmp_digits digits base num);
        let i = int (length tmp);
        rt_assert (i \<le> 16);
        let precision = (if i > precision then i else precision);
        let size1 = size1 - precision;
        let (o1, size1) =
          (if \<not> bit flags ZEROPAD \<and> \<not> bit flags LEFT
           then let size1 = (if sign \<noteq> 0 \<and> size1 > 0 then size1 - 1 else size1)
                in (pad en (ch CHR '' '') (nat size1) o1, min size1 0 - 1)
           else (o1, size1));
        let (o1, size1) = (if sign \<noteq> 0 then (put en sign o1, size1 - 1) else (o1, size1));
        let (o1, size1) = (if \<not> bit flags LEFT then (pad en c (nat size1) o1, min size1 0 - 1) else (o1, size1));
        let o1 = pad en (ch CHR ''0'') (nat (precision - i)) o1;
        let o1 = (if precision_bak \<noteq> 0 then fold (put en) (rev tmp) o1 else o1);
        Some (pad en (ch CHR '' '') (nat size1) o1) })"

text \<open>The parts of a conversion specification.\<close>

fun fmt_flags :: "u8 list \<Rightarrow> u8 \<Rightarrow> u8 \<times> u8 list" where
  "fmt_flags [] flags = (flags, [])"
| "fmt_flags (c # fmt) flags =
     (if c = ch CHR ''-'' then fmt_flags fmt (set_bit LEFT flags)
      else if c = ch CHR ''+'' then fmt_flags fmt (set_bit PLUS flags)
      else if c = ch CHR '' '' then fmt_flags fmt (set_bit SPACE flags)
      else if c = ch CHR ''#'' then fmt_flags fmt (set_bit SPECIAL flags)
      else if c = ch CHR ''0'' then fmt_flags fmt (set_bit ZEROPAD flags)
      else (flags, c # fmt))"

definition is_digit :: "u8 \<Rightarrow> bool" where
  "is_digit c \<longleftrightarrow> 48 \<le> uint c \<and> uint c \<le> 57"

fun skip_atoi :: "u8 list \<Rightarrow> int \<Rightarrow> (int \<times> u8 list) option" where
  "skip_atoi [] i = Some (i, [])"
| "skip_atoi (c # s) i =
     (if is_digit c
      then (if i * 10 + uint c < 2 ^ 31 then skip_atoi s (i * 10 + uint c - 48) else None)
      else Some (i, c # s))"

text \<open>\<open>va_arg(args, int)\<close>: the next word as a signed number.\<close>

fun next_int :: "u32 list \<Rightarrow> (int \<times> u32 list) option" where
  "next_int [] = None"
| "next_int (a # args) = Some (sint a, args)"

definition fmt_width :: "u8 list \<Rightarrow> u8 \<Rightarrow> u32 list \<Rightarrow> (int \<times> u8 \<times> u8 list \<times> u32 list) option" where
  "fmt_width fmt flags args =
     (case fmt of
        [] \<Rightarrow> Some (- 1, flags, [], args)
      | c # fmt' \<Rightarrow>
          if is_digit c then do { (w, fmt1) \<leftarrow> skip_atoi fmt 0; Some (w, flags, fmt1, args) }
          else if c = ch CHR ''*''
          then do { (w, args1) \<leftarrow> next_int args;
                    if w < 0 then do { rt_assert (w \<noteq> - (2 ^ 31)); Some (- w, set_bit LEFT flags, fmt', args1) }
                    else Some (w, flags, fmt', args1) }
          else Some (- 1, flags, fmt, args))"

definition fmt_precision :: "u8 list \<Rightarrow> u32 list \<Rightarrow> (int \<times> u8 list \<times> u32 list) option" where
  "fmt_precision fmt args =
     (if fmt \<noteq> [] \<and> hd fmt = ch CHR ''.''
      then let fmt = tl fmt in
        do { (p, fmt1, args1) \<leftarrow>
               (case fmt of
                  [] \<Rightarrow> Some (- 1, [], args)
                | c # fmt' \<Rightarrow>
                    if is_digit c then do { (p, fmt1) \<leftarrow> skip_atoi fmt 0; Some (p, fmt1, args) }
                    else if c = ch CHR ''*'' then do { (p, args1) \<leftarrow> next_int args; Some (p, fmt', args1) }
                    else Some (- 1, fmt, args));
             Some (if p < 0 then 0 else p, fmt1, args1) }
      else Some (- 1, fmt, args))"

definition fmt_qualifier :: "u8 list \<Rightarrow> u8 \<times> u8 list" where
  "fmt_qualifier fmt =
     (case fmt of
        [] \<Rightarrow> (0, [])
      | c # fmt' \<Rightarrow> if c = ch CHR ''h'' \<or> c = ch CHR ''l'' then (c, fmt') else (0, fmt))"

text \<open>
  The bytes of a string argument: \<open>len\<close> is counted up to the field width or the terminator, whichever
  comes first; a negative width is never reached.
\<close>

definition null_text :: "u8 list" where "null_text = map of_char ''(NULL)''"

definition string_len :: "int \<Rightarrow> int \<Rightarrow> ram \<Rightarrow> int option" where
  "string_len s width m =
     (if s = 0 then Some (if 0 \<le> width \<and> width < 6 then width else 6)
      else if width < 0 then rt_strlen s m else Some (rt_strnlen s (nat width) m))"

primrec put_bytes :: "int \<Rightarrow> int \<Rightarrow> nat \<Rightarrow> out \<Rightarrow> out" where
  "put_bytes en s 0 o1 = o1"
| "put_bytes en s (Suc n) o1 = put_bytes en (s + 1) n (put en (snd o1 s) o1)"

definition print_string :: "int \<Rightarrow> int \<Rightarrow> int \<Rightarrow> int \<Rightarrow> u8 \<Rightarrow> out \<Rightarrow> out option" where
  "print_string en s width precision flags o1 =
     do { len \<leftarrow> string_len s width (snd o1);
          let len = (if precision > 0 \<and> len > precision then precision else len);
          let (o1, width) = (if \<not> bit flags LEFT
                             then (pad en (ch CHR '' '') (nat (width - len)) o1, min width len - 1)
                             else (o1, width));
          let o1 = (if s = 0 then fold (put en) (take (nat len) null_text) o1 else put_bytes en s (nat len) o1);
          Some (pad en (ch CHR '' '') (nat (width - len)) o1) }"

definition print_char :: "int \<Rightarrow> u8 \<Rightarrow> int \<Rightarrow> u8 \<Rightarrow> out \<Rightarrow> out" where
  "print_char en c width flags o1 =
     (let (o1, width) = (if \<not> bit flags LEFT then (pad en (ch CHR '' '') (nat (width - 1)) o1, min (width - 1) 0)
                         else (o1, width));
          o1 = put en c o1
      in pad en (ch CHR '' '') (nat (width - 1)) o1)"

text \<open>The value of an integer argument: an unsigned word, converted to the parameter of type \<open>long\<close>.\<close>

definition int_arg :: "u8 \<Rightarrow> u8 \<Rightarrow> u32 \<Rightarrow> int" where
  "int_arg qualifier flags a =
     (if qualifier = ch CHR ''h''
      then (if bit flags SIGN then trunc_s 16 (uint a) else trunc_u 16 (uint a))
      else sint a)"

text \<open>The \<open>switch\<close> over the conversion character, with what is left of format and arguments.\<close>

definition convert ::
  "int \<Rightarrow> u8 \<Rightarrow> u8 \<Rightarrow> int \<Rightarrow> int \<Rightarrow> u8 list \<Rightarrow> u32 list \<Rightarrow> out \<Rightarrow> (u8 list \<times> u32 list \<times> out) option" where
  "convert en qualifier flags width precision fmt args o1 =
     (case fmt of
        [] \<Rightarrow> Some ([], args, put en (ch CHR ''%'') o1)
      | c # fmt' \<Rightarrow>
          if c = ch CHR ''c''
          then (case args of [] \<Rightarrow> None | a # args1 \<Rightarrow> Some (fmt', args1, print_char en (ucast a) width flags o1))
          else if c = ch CHR ''s''
          then (case args of [] \<Rightarrow> None
                | a # args1 \<Rightarrow> do { o2 \<leftarrow> print_string en (uint a) width precision flags o1; Some (fmt', args1, o2) })
          else if c = ch CHR ''p''
          then (case args of [] \<Rightarrow> None
                | a # args1 \<Rightarrow>
                    do { o2 \<leftarrow> (if width = - 1 then print_number en (sint a) 16 8 precision (set_bit ZEROPAD flags) o1
                               else print_number en (sint a) 16 width precision flags o1);
                         Some (fmt', args1, o2) })
          else if c = ch CHR ''%'' then Some (fmt', args, put en (ch CHR ''%'') o1)
          else if c \<in> {ch CHR ''o'', ch CHR ''X'', ch CHR ''x'', ch CHR ''d'', ch CHR ''i'', ch CHR ''u''}
          then let base = (if c = ch CHR ''o'' then 8 else if c = ch CHR ''X'' \<or> c = ch CHR ''x'' then 16 else 10);
                   flags = (if c = ch CHR ''X'' then set_bit LARGE flags
                            else if c = ch CHR ''d'' \<or> c = ch CHR ''i'' then set_bit SIGN flags else flags)
               in (case args of [] \<Rightarrow> None
                   | a # args1 \<Rightarrow>
                       do { o2 \<leftarrow> print_number en (int_arg qualifier flags a) base width precision flags o1;
                            Some (fmt', args1, o2) })
          else Some (fmt', args, put en c (put en (ch CHR ''%'') o1)))"


text \<open>The loop over the format. Every specification takes at least the percent sign.\<close>

lemma fmt_flags_length: "(flags', fmt') = fmt_flags fmt flags \<Longrightarrow> length fmt' \<le> length fmt"
  by (induction fmt flags rule: fmt_flags.induct) (auto split: if_splits)

lemma skip_atoi_length: "skip_atoi s i = Some (j, s') \<Longrightarrow> length s' \<le> length s"
  by (induction s i rule: skip_atoi.induct) (auto split: if_splits)

lemma fmt_width_length: "fmt_width fmt flags args = Some (w, flags', fmt', args') \<Longrightarrow> length fmt' \<le> length fmt"
  by (cases fmt) (auto simp: fmt_width_def bind_eq_Some_conv split: if_splits dest!: skip_atoi_length)

lemma fmt_precision_length: "fmt_precision fmt args = Some (p, fmt', args') \<Longrightarrow> length fmt' \<le> length fmt"
  by (cases fmt; cases "tl fmt") (auto simp: fmt_precision_def Let_def bind_eq_Some_conv split: if_splits dest!: skip_atoi_length)

lemma fmt_qualifier_length: "(q, fmt') = fmt_qualifier fmt \<Longrightarrow> length fmt' \<le> length fmt"
  by (cases fmt) (auto simp: fmt_qualifier_def split: if_splits)

lemma convert_length: "convert en q f w p fmt args o1 = Some (fmt', args', o2) \<Longrightarrow> length fmt' \<le> length fmt"
  by (cases fmt; cases args) (auto simp: convert_def bind_eq_Some_conv Let_def split: if_splits)

function vsn_loop :: "int \<Rightarrow> u8 list \<Rightarrow> u32 list \<Rightarrow> out \<Rightarrow> out option" where
  "vsn_loop en [] args o1 = Some o1"
| "vsn_loop en (c # fmt) args o1 =
     (if c \<noteq> ch CHR ''%'' then vsn_loop en fmt args (put en c o1)
      else do { let (flags, fmt) = fmt_flags fmt 0;
                (width, flags, fmt, args) \<leftarrow> fmt_width fmt flags args;
                (precision, fmt, args) \<leftarrow> fmt_precision fmt args;
                let (qualifier, fmt) = fmt_qualifier fmt;
                (fmt, args, o1) \<leftarrow> convert en qualifier flags width precision fmt args o1;
                vsn_loop en fmt args o1 })"
  by pat_completeness auto
termination
  by (relation "measure (\<lambda>(en, fmt, args, o1). length fmt)")
    (auto simp: less_Suc_eq_le dest!: fmt_width_length fmt_precision_length convert_length fmt_flags_length fmt_qualifier_length)

definition rt_vsnprintf :: "int \<Rightarrow> int \<Rightarrow> u8 list \<Rightarrow> u32 list \<Rightarrow> ram \<Rightarrow> (ram \<times> int) option" where
  "rt_vsnprintf buf bytes fmt args m =
     (let en = (buf + bytes) mod 2 ^ 32;
          (en, bytes) = (if en < buf then (2 ^ 32 - 1, 2 ^ 32 - 1 - buf) else (en, bytes))
      in do { (str, m1) \<leftarrow> vsn_loop en fmt args (buf, m);
              let m2 = (if bytes > 0 then (if str < en then m1(str := 0) else m1(en - 1 := 0)) else m1);
              Some (m2, trunc_s 32 (str - buf)) })"

definition rt_snprintf :: "int \<Rightarrow> int \<Rightarrow> u8 list \<Rightarrow> u32 list \<Rightarrow> ram \<Rightarrow> (ram \<times> int) option" where
  "rt_snprintf buf bytes fmt args m = rt_vsnprintf buf bytes fmt args m"

definition rt_sprintf :: "int \<Rightarrow> u8 list \<Rightarrow> u32 list \<Rightarrow> ram \<Rightarrow> (ram \<times> int) option" where
  "rt_sprintf buf fmt args m = rt_vsnprintf buf (2 ^ 32 - 1) fmt args m"

text \<open>
  \<open>rt_kprintf\<close>: the memory with the buffer at \<open>rt_log_buf\<close>, and the bytes it gives to the console device.
\<close>

abbreviation (input) RT_CONSOLEBUF_SIZE :: int where "RT_CONSOLEBUF_SIZE \<equiv> 256"

definition rt_kprintf :: "int \<Rightarrow> u8 list \<Rightarrow> u32 list \<Rightarrow> ram \<Rightarrow> (ram \<times> u8 list) option" where
  "rt_kprintf rt_log_buf fmt args m =
     do { (m1, n) \<leftarrow> rt_vsnprintf rt_log_buf (RT_CONSOLEBUF_SIZE - 1) fmt args m;
          let l = n mod 2 ^ 32;
          let l = (if l > RT_CONSOLEBUF_SIZE - 1 then RT_CONSOLEBUF_SIZE - 1 else l);
          Some (m1, map (\<lambda>i. m1 (rt_log_buf + int i)) [0 ..< nat l]) }"

section \<open>The text of a conversion\<close>

text \<open>Numerals in a base, the most significant digit first.\<close>

fun numeral_of :: "nat \<Rightarrow> nat \<Rightarrow> nat list" where
  "numeral_of b n = (if b < 2 \<or> n < b then [n] else numeral_of b (n div b) @ [n mod b])"

declare numeral_of.simps [simp del]

text \<open>
  A number: sign and digits in a field, zeros up to the precision, and in front of the number, or
  behind the sign with the flag \<open>0\<close>, padding up to the width; behind it with the flag \<open>-\<close>.
\<close>

definition number_text :: "u8 list \<Rightarrow> u8 list \<Rightarrow> bool \<Rightarrow> bool \<Rightarrow> int \<Rightarrow> int \<Rightarrow> u8 list" where
  "number_text sign ds left zero width precision =
     (let n = max (int (length ds)) precision;
          fill = nat (width - n - int (length sign));
          body = replicate (nat (precision - int (length ds))) (ch CHR ''0'') @ (if precision = 0 then [] else ds)
      in if left then sign @ body @ replicate fill (ch CHR '' '')
         else if zero then sign @ replicate fill (ch CHR ''0'') @ body
         else replicate fill (ch CHR '' '') @ sign @ body)"

definition sign_text :: "u8 \<Rightarrow> int \<Rightarrow> u8 list" where
  "sign_text flags num =
     (if \<not> bit flags SIGN then [] else if num < 0 then [ch CHR ''-''] else if bit flags PLUS then [ch CHR ''+'']
      else if bit flags SPACE then [ch CHR '' ''] else [])"

definition digits_text :: "u8 \<Rightarrow> int \<Rightarrow> int \<Rightarrow> u8 list" where
  "digits_text flags base num =
     map (nth (if bit flags LARGE then large_digits else small_digits))
       (numeral_of (if base = 10 then 10 else 16) (nat (if bit flags SIGN then \<bar>num\<bar> else num mod 2 ^ 32)))"

text \<open>Writing a text at the pointer, up to the end of the buffer.\<close>

definition put_text :: "int \<Rightarrow> u8 list \<Rightarrow> out \<Rightarrow> out" where
  "put_text en t o1 =
     (fst o1 + int (length t),
      \<lambda>x. if fst o1 \<le> x \<and> x < fst o1 + int (length t) \<and> x < en then t ! nat (x - fst o1) else snd o1 x)"

lemma put_text_Nil [simp]: "put_text en [] o1 = o1"
  by (cases o1) (auto simp: put_text_def fun_eq_iff)

lemma put_text_Cons: "put_text en (c # t) o1 = put_text en t (put en c o1)"
proof -
  have "nat (x - fst o1) = Suc (nat (x - (fst o1 + 1)))" if "fst o1 + 1 \<le> x" for x using that by simp
  then show ?thesis by (auto simp: put_text_def put_def fun_eq_iff nth_Cons')
qed

lemma put_text_append: "put_text en (s @ t) o1 = put_text en t (put_text en s o1)"
  by (induction s arbitrary: o1) (simp_all add: put_text_Cons)

lemma fold_put: "fold (put en) t o1 = put_text en t o1"
  by (induction t arbitrary: o1) (simp_all add: put_text_Cons)

lemma pad_text: "pad en c n o1 = put_text en (replicate n c) o1"
  by (induction n arbitrary: o1) (simp_all add: put_text_Cons)

lemma put_one: "put en c o1 = put_text en [c] o1"
  by (simp add: put_text_Cons)

text \<open>The digits in \<open>tmp\<close> are those of the numeral.\<close>

lemma tmp_digits_numeral:
  assumes "0 < n" "n < 2 ^ 32"
  shows "rev (tmp_digits digits base n) = map (nth digits) (numeral_of (if base = 10 then 10 else 16) (nat n))"
  using assms
proof (induction "nat n" arbitrary: n rule: less_induct)
  case less
  let ?b = "if base = 10 then 10 else 16 :: int" and ?c = "if base = 10 then 10 else 16 :: nat"
  have d: "divide n base = (n mod ?b, n div ?b)"
    using less.prems divide_small(1) [of n] divide_small(2) [of base n] by (cases "base = 10") simp_all
  have step: "tmp_digits digits base n = digits ! nat (n mod ?b) # tmp_digits digits base (n div ?b)"
    using less.prems d by (subst tmp_digits.simps) simp
  have nat: "nat (n mod ?b) = nat n mod ?c" "nat (n div ?b) = nat n div ?c"
    using less.prems by (simp_all add: nat_mod_distrib nat_div_distrib)
  show ?case
  proof (cases "n < ?b")
    case True
    then have "n div ?b = 0" "nat n < ?c" "nat (n mod ?b) = nat n" using less.prems by (auto split: if_splits)
    then show ?thesis by (subst step) (simp add: tmp_digits.simps [of _ _ 0] numeral_of.simps [of _ "nat n"])
  next
    case False
    then have "0 < n div ?b" "n div ?b < n" "\<not> nat n < ?c" using less.prems by (auto simp: pos_imp_zdiv_pos_iff split: if_splits)
    moreover have "nat (n div ?b) < nat n" using calculation(1,2) by simp
    ultimately show ?thesis using less.hyps [of "n div ?b"] less.prems
      by (subst step) (simp add: nat numeral_of.simps [of _ "nat n"])
  qed
qed

lemma numeral_of_length: "2 \<le> b \<Longrightarrow> n < b ^ k \<Longrightarrow> 0 < k \<Longrightarrow> length (numeral_of b n) \<le> k"
proof (induction b n arbitrary: k rule: numeral_of.induct)
  case (1 b n)
  show ?case
  proof (cases "n < b")
    case False
    then obtain j where k: "k = Suc j" "0 < j" using 1(2-4) by (cases k; cases "k = 1") auto
    have "n div b < b ^ j" using 1(2,3) k by (simp add: less_mult_imp_div_less mult.commute)
    then show ?thesis using 1(1) [of j] 1(2) k False by (simp add: numeral_of.simps [of b n])
  qed (use 1(4) in \<open>simp add: numeral_of.simps [of b n]\<close>)
qed


lemma digits_table_0: "small_digits ! 0 = ch CHR ''0''" "large_digits ! 0 = ch CHR ''0''"
  by (simp_all add: small_digits_def large_digits_def)

lemma tmp_text:
  assumes "- (2 ^ 31) \<le> num" "num < 2 ^ 31" "bit flags SIGN \<longrightarrow> num \<noteq> - (2 ^ 31)"
  defines "v \<equiv> (if bit flags SIGN \<and> num < 0 then - num else num)"
  shows "rev (if v = 0 then [ch CHR ''0''] else tmp_digits (if bit flags LARGE then large_digits else small_digits) base v) =
    digits_text flags base num"
    "length (digits_text flags base num) \<le> 16"
proof -
  let ?d = "if bit flags LARGE then large_digits else small_digits" and ?b = "if base = 10 then 10 else 16 :: nat"
  define u where "u = (if bit flags SIGN then \<bar>num\<bar> else num mod 2 ^ 32)"
  have u: "0 \<le> u" "u < 2 ^ 32" "v mod 2 ^ 32 = u" "v = 0 \<longleftrightarrow> u = 0"
  proof -
    show "0 \<le> u" "u < 2 ^ 32" using assms(1,2) by (auto simp: u_def)
    show "v mod 2 ^ 32 = u" using assms(1,2) by (auto simp: u_def v_def)
    show "v = 0 \<longleftrightarrow> u = 0" using assms(1,2) by (auto simp: u_def v_def)
  qed
  have t: "digits_text flags base num = map (nth ?d) (numeral_of ?b (nat u))" by (simp add: digits_text_def u_def)
  have dv: "divide v base = divide u base" using u(1-3) by (simp add: divide_def)
  show "rev (if v = 0 then [ch CHR ''0''] else tmp_digits ?d base v) = digits_text flags base num"
  proof (cases "v = 0")
    case True
    then have "u = 0" using u(4) by simp
    then show ?thesis using True by (simp add: t numeral_of.simps [of _ 0] digits_table_0)
  next
    case False
    then have "tmp_digits ?d base v = tmp_digits ?d base u" using u(4) dv by (simp add: tmp_digits.simps [of _ _ v] tmp_digits.simps [of _ _ u])
    then show ?thesis using tmp_digits_numeral [of u ?d base] u False by (simp add: t)
  qed
  have "nat u < 10 ^ 16" "nat u < 16 ^ 16" using u(1,2) by simp_all
  then show "length (digits_text flags base num) \<le> 16" by (simp add: t numeral_of_length)
qed

lemma print_number_text:
  assumes "- (2 ^ 31) \<le> num" "num < 2 ^ 31" "bit flags SIGN \<longrightarrow> num \<noteq> - (2 ^ 31)"
  shows "print_number en num base w p flags o1 =
    Some (put_text en (number_text (sign_text flags num) (digits_text flags base num) (bit flags LEFT) (bit flags ZEROPAD) w p) o1)"
proof -
  define v where "v = (if bit flags SIGN \<and> num < 0 then - num else num)"
  define tmp where "tmp = (if v = 0 then [ch CHR ''0''] else tmp_digits (if bit flags LARGE then large_digits else small_digits) base v)"
  define sign where "sign = (if bit flags SIGN then (if num < 0 then ch CHR ''-'' else if bit flags PLUS then ch CHR ''+''
    else if bit flags SPACE then ch CHR '' '' else 0) else 0)"
  have T: "rev tmp = digits_text flags base num" "length tmp = length (digits_text flags base num)" "length tmp \<le> 16"
    using tmp_text [OF assms, of base] unfolding v_def [symmetric] tmp_def [symmetric] by (metis length_rev)+
  have S: "sign_text flags num = (if sign \<noteq> 0 then [sign] else [])" by (simp add: sign_def sign_text_def)
  have pick: "(if bit flags SIGN then (if num < 0 then (ch CHR ''-'', True) else if bit flags PLUS then (ch CHR ''+'', False)
      else if bit flags SPACE then (ch CHR '' '', False) else (0, False)) else (0, False)) = (sign, bit flags SIGN \<and> num < 0)"
    by (simp add: sign_def)
  define fl where "fl = (if bit flags LEFT then unset_bit ZEROPAD flags else flags)"
  have fl: "bit fl LEFT = bit flags LEFT" "bit fl ZEROPAD = (\<not> bit flags LEFT \<and> bit flags ZEROPAD)"
    "bit fl SIGN = bit flags SIGN" "bit fl PLUS = bit flags PLUS" "bit fl SPACE = bit flags SPACE"
    by (auto simp: fl_def bit_simps)
  have ok: "(bit flags SIGN \<and> num < 0 \<longrightarrow> num \<noteq> - (2 ^ 31)) = True" "(int (length tmp) \<le> 16) = True" using assms(3) T(3) by simp_all
  let ?p = "if p < int (length tmp) then int (length tmp) else p"
  have run: "print_number en num base w p flags o1 =
    (let size1 = w - ?p;
         (o1, size1) =
          (if \<not> (\<not> bit flags LEFT \<and> bit flags ZEROPAD) \<and> \<not> bit flags LEFT
           then let size1 = (if sign \<noteq> 0 \<and> size1 > 0 then size1 - 1 else size1)
                in (pad en (ch CHR '' '') (nat size1) o1, min size1 0 - 1)
           else (o1, size1));
         (o1, size1) = (if sign \<noteq> 0 then (put en sign o1, size1 - 1) else (o1, size1));
         (o1, size1) = (if \<not> bit flags LEFT
            then (pad en (if \<not> bit flags LEFT \<and> bit flags ZEROPAD then ch CHR ''0'' else ch CHR '' '') (nat size1) o1, min size1 0 - 1)
            else (o1, size1));
         o1 = pad en (ch CHR ''0'') (nat (?p - int (length tmp))) o1;
         o1 = (if p \<noteq> 0 then fold (put en) (rev tmp) o1 else o1)
     in Some (pad en (ch CHR '' '') (nat size1) o1))"
    unfolding print_number_def Let_def fl_def [symmetric] fl pick prod.case rt_assert_bind v_def [symmetric] tmp_def [symmetric] ok if_True ..
  have n: "max (int (length tmp)) p = ?p" by simp
  have z: "nat (?p - int (length tmp)) = nat (p - int (length tmp))" by simp
  have m: "nat (min x 0 - 1) = 0" "nat (min x 0 - 1 - 1) = 0" "nat (min (min x 0 - 1) 0 - 1) = 0"
    "nat (min (min x 0 - 1 - 1) 0 - 1) = 0" for x :: int by simp_all
  note R = run [unfolded pad_text fold_put T(1)] and N = number_text_def S T(2) [symmetric] n Let_def
  show ?thesis
  proof (cases "bit flags LEFT")
    case True
    then show ?thesis unfolding R by (simp add: N z put_one put_text_append)
  next
    case left: False
    show ?thesis
    proof (cases "bit flags ZEROPAD")
      case True
      then show ?thesis unfolding R using left by (simp add: N z put_one put_text_append m)
    next
      case False
      have q: "nat (if sign \<noteq> 0 \<and> 0 < w - ?p then w - ?p - 1 else w - ?p) = nat (w - ?p - int (length (if sign \<noteq> 0 then [sign] else [])))" by auto
      show ?thesis unfolding R using left False q by (simp add: N z put_one put_text_append m)
    qed
  qed
qed


section \<open>The text of a format\<close>

text \<open>
  A format and its arguments are a list of items; the text of an item depends on the memory only where
  it is a string. A string is the bytes before the terminator, at most as many as the width and a
  positive precision allow.
\<close>

datatype item =
    I_text "u8 list"
  | I_char u8 int u8
  | I_string int int int u8
  | I_number int int int u8 int

definition field :: "bool \<Rightarrow> int \<Rightarrow> u8 list \<Rightarrow> u8 list" where
  "field left width t =
     (let fill = replicate (nat (width - int (length t))) (ch CHR '' '') in if left then t @ fill else fill @ t)"

definition string_text :: "int \<Rightarrow> int \<Rightarrow> int \<Rightarrow> ram \<Rightarrow> u8 list option" where
  "string_text s width precision m =
     do { len \<leftarrow> string_len s width m;
          let len = nat (if precision > 0 \<and> len > precision then precision else len);
          Some (if s = 0 then take len null_text else map (\<lambda>i. m (s + int i)) [0 ..< len]) }"

primrec item_text :: "ram \<Rightarrow> item \<Rightarrow> u8 list option" where
  "item_text m (I_text t) = Some t"
| "item_text m (I_char c width flags) = Some (field (bit flags LEFT) width [c])"
| "item_text m (I_string s width precision flags) =
     map_option (field (bit flags LEFT) width) (string_text s width precision m)"
| "item_text m (I_number base width precision flags num) =
     (if bit flags SIGN \<and> num = - (2 ^ 31) then None
      else Some (number_text (sign_text flags num) (digits_text flags base num) (bit flags LEFT) (bit flags ZEROPAD) width precision))"

definition item_of :: "u8 \<Rightarrow> u8 \<Rightarrow> u8 \<Rightarrow> int \<Rightarrow> int \<Rightarrow> u32 \<Rightarrow> item option" where
  "item_of c qualifier flags width precision a =
     (if c = ch CHR ''c'' then Some (I_char (ucast a) width flags)
      else if c = ch CHR ''s'' then Some (I_string (uint a) width precision flags)
      else if c = ch CHR ''p''
      then Some (if width = - 1 then I_number 16 8 precision (set_bit ZEROPAD flags) (sint a)
                 else I_number 16 width precision flags (sint a))
      else if c = ch CHR ''o'' then Some (I_number 8 width precision flags (int_arg qualifier flags a))
      else if c = ch CHR ''x'' then Some (I_number 16 width precision flags (int_arg qualifier flags a))
      else if c = ch CHR ''X'' then Some (I_number 16 width precision (set_bit LARGE flags) (int_arg qualifier flags a))
      else if c = ch CHR ''d'' \<or> c = ch CHR ''i''
      then Some (I_number 10 width precision (set_bit SIGN flags) (int_arg qualifier (set_bit SIGN flags) a))
      else if c = ch CHR ''u'' then Some (I_number 10 width precision flags (int_arg qualifier flags a))
      else None)"

definition directive ::
  "u8 \<Rightarrow> u8 \<Rightarrow> int \<Rightarrow> int \<Rightarrow> u8 list \<Rightarrow> u32 list \<Rightarrow> (u8 list \<times> u32 list \<times> item) option" where
  "directive qualifier flags width precision fmt args =
     (case fmt of
        [] \<Rightarrow> Some ([], args, I_text [ch CHR ''%''])
      | c # fmt' \<Rightarrow>
          if c = ch CHR ''%'' then Some (fmt', args, I_text [ch CHR ''%''])
          else if item_of c qualifier flags width precision 0 = None then Some (fmt', args, I_text [ch CHR ''%'', c])
          else (case args of [] \<Rightarrow> None
                | a # args1 \<Rightarrow> map_option (\<lambda>i. (fmt', args1, i)) (item_of c qualifier flags width precision a)))"

lemma directive_length: "directive q f w p fmt args = Some (fmt', args', i) \<Longrightarrow> length fmt' \<le> length fmt"
  by (cases fmt; cases args) (auto simp: directive_def split: if_splits)

function items :: "u8 list \<Rightarrow> u32 list \<Rightarrow> item list option" where
  "items [] args = Some []"
| "items (c # fmt) args =
     (if c \<noteq> ch CHR ''%'' then map_option ((#) (I_text [c])) (items fmt args)
      else do { let (flags, fmt) = fmt_flags fmt 0;
                (width, flags, fmt, args) \<leftarrow> fmt_width fmt flags args;
                (precision, fmt, args) \<leftarrow> fmt_precision fmt args;
                let (qualifier, fmt) = fmt_qualifier fmt;
                (fmt, args, i) \<leftarrow> directive qualifier flags width precision fmt args;
                map_option ((#) i) (items fmt args) })"
  by pat_completeness auto
termination
  by (relation "measure (\<lambda>(fmt, args). length fmt)")
    (auto simp: less_Suc_eq_le dest!: fmt_width_length fmt_precision_length directive_length fmt_flags_length fmt_qualifier_length)

text \<open>Memories that agree outside the buffer, and items whose strings lie outside.\<close>

definition agree :: "int \<Rightarrow> int \<Rightarrow> ram \<Rightarrow> ram \<Rightarrow> bool" where
  "agree lo hi m m' \<longleftrightarrow> (\<forall>x. x < lo \<or> hi \<le> x \<longrightarrow> m' x = m x)"

primrec apart :: "int \<Rightarrow> int \<Rightarrow> ram \<Rightarrow> item \<Rightarrow> bool" where
  "apart lo hi m (I_text t) = True"
| "apart lo hi m (I_char c width flags) = True"
| "apart lo hi m (I_string s width precision flags) =
     (\<forall>m'. agree lo hi m m' \<longrightarrow> string_text s width precision m' = string_text s width precision m)"
| "apart lo hi m (I_number base width precision flags num) = True"

lemma agree_refl [simp]: "agree lo hi m m"
  by (simp add: agree_def)

lemma agree_put_text: "agree lo en m (snd o1) \<Longrightarrow> lo \<le> fst o1 \<Longrightarrow> agree lo en m (snd (put_text en t o1))"
  by (auto simp: agree_def put_text_def)

lemma put_text_fst [simp]: "fst (put_text en t o1) = fst o1 + int (length t)"
  by (simp add: put_text_def)

lemma put_bytes_text:
  "agree lo en m (snd o1) \<Longrightarrow> lo \<le> fst o1 \<Longrightarrow> (\<And>m' k. agree lo en m m' \<Longrightarrow> k < length bs \<Longrightarrow> m' (s + int k) = bs ! k) \<Longrightarrow>
   put_bytes en s (length bs) o1 = put_text en bs o1"
proof (induction bs arbitrary: s o1)
  case (Cons b bs)
  have "snd o1 s = b" using Cons.prems(3) [OF Cons.prems(1), of 0] by simp
  then have "put_bytes en s (length (b # bs)) o1 = put_bytes en (s + 1) (length bs) (put_text en [b] o1)" by (simp add: put_one)
  also have "\<dots> = put_text en bs (put_text en [b] o1)"
  proof (rule Cons.IH)
    show "agree lo en m (snd (put_text en [b] o1))" "lo \<le> fst (put_text en [b] o1)"
      using agree_put_text [OF Cons.prems(1,2)] Cons.prems(2) by simp_all
    show "m' (s + 1 + int k) = bs ! k" if "agree lo en m m'" "k < length bs" for m' k
      using Cons.prems(3) [OF that(1), of "Suc k"] that(2) by (simp add: add.assoc)
  qed
  finally show ?case by (simp add: put_text_append [symmetric])
qed simp

lemma strlen_loop_le: "strlen_loop p m = Some q \<Longrightarrow> p \<le> q"
proof -
  assume "strlen_loop p m = Some q"
  then have "(\<lambda>p m q. p \<le> q) p m q"
    by (rule strlen_loop.raw_induct [rotated]) (force split: if_splits)
  then show ?thesis .
qed

lemma strnlen_loop_le: "p \<le> strnlen_loop p n m"
  by (induction p n m rule: strnlen_loop.induct) (subst strnlen_loop.simps, auto)

lemma strnlen_loop_cstr: "cstr m p xs \<Longrightarrow> strnlen_loop p n m = p + int (min n (length xs))"
proof (induction xs arbitrary: p n)
  case (Cons x xs)
  then show ?case by (cases n) (subst strnlen_loop.simps, simp)+
qed (subst strnlen_loop.simps, simp)

lemma string_len_range: "string_len s w m = Some l \<Longrightarrow> 0 \<le> l \<and> (s = 0 \<longrightarrow> l \<le> 6)"
  using strnlen_loop_le [of s "nat w" m]
  by (auto simp: string_len_def rt_strlen_def rt_strnlen_def bind_eq_Some_conv split: if_splits dest!: strlen_loop_le)

lemma print_string_text:
  assumes a: "agree lo en m (snd o1)" "lo \<le> fst o1" and st: "apart lo en m (I_string s w p f)"
  shows "print_string en s w p f o1 = map_option (\<lambda>t. put_text en t o1) (item_text m (I_string s w p f))"
proof -
  have st': "string_text s w p m' = string_text s w p m" if "agree lo en m m'" for m' using st that unfolding apart.simps by blast
  show ?thesis
  proof (cases "string_len s w (snd o1)")
    case None
    then have "string_text s w p (snd o1) = None" by (simp add: string_text_def)
    then show ?thesis using None st' [OF a(1)] by (simp add: print_string_def)
  next
    case (Some l)
    define n where "n = (if p > 0 \<and> l > p then p else l)"
    define bs where "bs = (if s = 0 then take (nat n) null_text else map (\<lambda>i. snd o1 (s + int i)) [0 ..< nat n])"
    have T: "string_text s w p (snd o1) = Some bs" using Some by (simp add: string_text_def n_def bs_def)
    have Tm: "string_text s w p m' = Some bs" if "agree lo en m m'" for m' using st' [OF that] st' [OF a(1)] T by metis
    have l: "0 \<le> n" "s = 0 \<longrightarrow> n \<le> 6" using string_len_range [OF Some] by (auto simp: n_def)
    then have bs: "int (length bs) = n" "nat n = length bs" by (auto simp: bs_def null_text_def)
    have copy: "(if s = 0 then fold (put en) (take (nat n) null_text) o2 else put_bytes en s (nat n) o2) = put_text en bs o2"
      if "agree lo en m (snd o2)" "lo \<le> fst o2" for o2
    proof (cases "s = 0")
      case True
      then show ?thesis by (simp add: bs_def fold_put)
    next
      case False
      have "m' (s + int k) = bs ! k" if m': "agree lo en m m'" and k: "k < length bs" for m' k
      proof -
        obtain l' where l': "bs = map (\<lambda>i. m' (s + int i)) [0 ..< l']"
          using Tm [OF m'] False by (auto simp: string_text_def bind_eq_Some_conv)
        then show ?thesis using k by simp
      qed
      then show ?thesis using put_bytes_text [OF that, of bs s] False bs(2) by simp
    qed
    have run: "print_string en s w p f o1 =
       (let (o1, w) = (if \<not> bit f LEFT then (pad en (ch CHR '' '') (nat (w - n)) o1, min w n - 1) else (o1, w));
            o1 = (if s = 0 then fold (put en) (take (nat n) null_text) o1 else put_bytes en s (nat n) o1)
        in Some (pad en (ch CHR '' '') (nat (w - n)) o1))"
      by (simp add: print_string_def Some n_def Let_def)
    have it: "item_text m (I_string s w p f) = Some (field (bit f LEFT) w bs)" using Tm [OF agree_refl] by simp
    show ?thesis
    proof (cases "bit f LEFT")
      case True
      then show ?thesis unfolding run it by (simp add: copy [OF a] pad_text field_def bs put_text_append)
    next
      case False
      let ?o = "put_text en (replicate (nat (w - n)) (ch CHR '' '')) o1"
      have z: "nat (min w n - 1 - n) = 0" "lo \<le> fst ?o" using a(2) by simp_all
      note c = copy [OF agree_put_text [OF a] z(2)]
      show ?thesis unfolding run it
        by (simp only: False not_False_eq_True if_True if_False Let_def prod.case pad_text c z(1) replicate_0 put_text_Nil option.map
            field_def bs(1) put_text_append)
    qed
  qed
qed


lemma print_number_item:
  assumes "- (2 ^ 31) \<le> v" "v < 2 ^ 31"
  shows "print_number en v base w p f o1 = map_option (\<lambda>t. put_text en t o1) (item_text m (I_number base w p f v))"
proof (cases "bit f SIGN \<and> v = - (2 ^ 31)")
  case True
  then have "bit (if bit f LEFT then unset_bit ZEROPAD f else f) SIGN" by (simp add: bit_simps)
  then have "print_number en v base w p f o1 = None" using True by (simp add: print_number_def Let_def)
  then show ?thesis using True by simp
qed (use print_number_text [OF assms, of f en base w p o1] in auto)

lemma int_arg_range: "- (2 ^ 31) \<le> int_arg q f a" "int_arg q f a < 2 ^ 31"
proof -
  have "- (2 ^ 31) \<le> sint a" "sint a < 2 ^ 31" using sint_ge [of a] sint_lt [of a] by simp_all
  moreover have "trunc_u 16 (uint a) < 2 ^ 31" "0 \<le> trunc_u 16 (uint a)" "trunc_s 16 (uint a) < 2 ^ 31" "- (2 ^ 31) \<le> trunc_s 16 (uint a)"
  proof -
    have "x mod 65536 < 65536" "0 \<le> x mod 65536" for x :: int by simp_all
    from this(1) [of "uint a"] this(2) [of "uint a"] this(1) [of "uint a + 32768"] this(2) [of "uint a + 32768"]
    show "trunc_u 16 (uint a) < 2 ^ 31" "0 \<le> trunc_u 16 (uint a)" "trunc_s 16 (uint a) < 2 ^ 31" "- (2 ^ 31) \<le> trunc_s 16 (uint a)"
      by (simp_all add: trunc_u_def trunc_s_def)
  qed
  ultimately show "- (2 ^ 31) \<le> int_arg q f a" "int_arg q f a < 2 ^ 31" by (simp_all add: int_arg_def)
qed

lemma int_arg_large: "int_arg q (set_bit LARGE f) a = int_arg q f a"
  by (simp add: int_arg_def bit_simps)

lemma print_char_text: "print_char en c w f o1 = put_text en (field (bit f LEFT) w [c]) o1"
  by (simp add: print_char_def Let_def field_def pad_text put_one put_text_append [symmetric])

lemma sint_range: "- (2 ^ 31) \<le> sint (a :: u32)" "sint (a :: u32) < 2 ^ 31"
  using sint_ge [of a] sint_lt [of a] by simp_all

lemma convert_text:
  assumes a: "agree lo en m (snd o1)" "lo \<le> fst o1"
    and d: "directive q f w p fmt args = Some (fmt', args', i)" "apart lo en m i"
  shows "convert en q f w p fmt args o1 = map_option (\<lambda>t. (fmt', args', put_text en t o1)) (item_text m i)"
proof (cases fmt)
  case Nil
  then show ?thesis using d by (auto simp: directive_def convert_def put_one)
next
  case (Cons c cs)
  show ?thesis
  proof (cases "item_of c q f w p 0 = None")
    case True
    then show ?thesis using d Cons
      by (auto simp: directive_def convert_def item_of_def put_one put_text_append [symmetric] split: if_splits)
  next
    case False
    show ?thesis
    proof (cases "c = ch CHR ''%''")
      case True
      then show ?thesis using d Cons by (auto simp: directive_def convert_def put_one)
    next
      case pc: False
      obtain x xs where x: "args = x # xs" "item_of c q f w p x = Some i" "fmt' = cs" "args' = xs"
        using d(1) Cons False pc by (cases args) (auto simp: directive_def)
      have S: "print_string en s w p f o1 = map_option (\<lambda>t. put_text en t o1) (item_text m (I_string s w p f))"
        if "i = I_string s w p f" for s
        using print_string_text [OF a] d(2) that by blast
      have step: "map_option (\<lambda>t. put_text en t o1) X \<bind> (\<lambda>o2. Some (cs, xs, o2)) = map_option (\<lambda>t. (cs, xs, put_text en t o1)) X"
        for X by (cases X) simp_all
      show ?thesis
        using x(2) S [of "uint x"] unfolding Cons x(1,3,4) convert_def item_of_def
        by (auto simp: print_char_text print_number_item [OF sint_range, where m = m] print_number_item [OF int_arg_range, where m = m]
            Let_def step int_arg_large split: if_splits simp del: item_text.simps(3,4))
    qed
  qed
qed


lemma vsn_loop_text:
  "items fmt args = Some is \<Longrightarrow> agree lo en m (snd o1) \<Longrightarrow> lo \<le> fst o1 \<Longrightarrow> \<forall>i \<in> set is. apart lo en m i \<Longrightarrow>
   vsn_loop en fmt args o1 = map_option (\<lambda>ts. put_text en (concat ts) o1) (those (map (item_text m) is))"
proof (induction fmt args arbitrary: "is" o1 rule: items.induct)
  case (1 args)
  then show ?case by simp
next
  case (2 c fmt args)
  have cons: "vsn_loop en fmt1 args1 (put_text en t o1) = map_option (\<lambda>ts. put_text en (concat ts) (put_text en t o1)) (those (map (item_text m) js))"
    if IH: "\<And>is o1. items fmt1 args1 = Some is \<Longrightarrow> agree lo en m (snd o1) \<Longrightarrow> lo \<le> fst o1 \<Longrightarrow> \<forall>i \<in> set is. apart lo en m i \<Longrightarrow>
        vsn_loop en fmt1 args1 o1 = map_option (\<lambda>ts. put_text en (concat ts) o1) (those (map (item_text m) is))"
      and js: "items fmt1 args1 = Some js" "\<forall>i \<in> set js. apart lo en m i" for fmt1 args1 t js
    by (rule IH [OF js(1) _ _ js(2)]) (use agree_put_text [OF 2(4,5)] 2(5) in simp_all)
  have one: "map_option (\<lambda>ts. put_text en (concat ts) (put_text en t o1)) (those (map (item_text m) js)) =
      map_option (\<lambda>ts. put_text en (concat ts) o1) (those (map (item_text m) (i # js)))" if "item_text m i = Some t" for t i js
    using that by (cases "those (map (item_text m) js)") (simp_all add: put_text_append)
  show ?case
  proof (cases "c = ch CHR ''%''")
    case False
    then obtain js where js: "items fmt args = Some js" "is = I_text [c] # js" using 2(3) by auto
    have "vsn_loop en (c # fmt) args o1 = vsn_loop en fmt args (put_text en [c] o1)" using False by (simp add: put_one)
    also have "\<dots> = map_option (\<lambda>ts. put_text en (concat ts) (put_text en [c] o1)) (those (map (item_text m) js))"
      by (rule cons [OF 2(1) js(1)]) (use False 2(6) js in auto)
    also have "\<dots> = map_option (\<lambda>ts. put_text en (concat ts) o1) (those (map (item_text m) is))"
      unfolding js(2) by (rule one) simp
    finally show ?thesis .
  next
    case True
    obtain f fmt1 where a1: "fmt_flags fmt 0 = (f, fmt1)" by (cases "fmt_flags fmt 0") auto
    obtain w f2 fmt2 args2 where a2: "fmt_width fmt1 f args = Some (w, f2, fmt2, args2)"
      using 2(3) True a1 by (cases "fmt_width fmt1 f args") auto
    obtain p fmt3 args3 where a3: "fmt_precision fmt2 args2 = Some (p, fmt3, args3)"
      using 2(3) True a1 a2 by (cases "fmt_precision fmt2 args2") auto
    obtain q fmt4 where a4: "fmt_qualifier fmt3 = (q, fmt4)" by (cases "fmt_qualifier fmt3") auto
    obtain fmt5 args5 i where a5: "directive q f2 w p fmt4 args3 = Some (fmt5, args5, i)"
      using 2(3) True a1 a2 a3 a4 by (cases "directive q f2 w p fmt4 args3") auto
    obtain js where js: "items fmt5 args5 = Some js" "is = i # js" using 2(3) True a1 a2 a3 a4 a5 by auto
    have IH: "vsn_loop en fmt5 args5 o1 = map_option (\<lambda>ts. put_text en (concat ts) o1) (those (map (item_text m) is))"
      if "items fmt5 args5 = Some is" "agree lo en m (snd o1)" "lo \<le> fst o1" "\<forall>i \<in> set is. apart lo en m i" for "is" o1
      using 2(2) [OF _ a1 [symmetric] refl a2 refl refl refl a3 refl refl a4 [symmetric] refl a5 refl refl that] True by simp
    have C: "convert en q f2 w p fmt4 args3 o1 = map_option (\<lambda>t. (fmt5, args5, put_text en t o1)) (item_text m i)"
      by (rule convert_text [OF 2(4,5) a5]) (use 2(6) js in auto)
    have "vsn_loop en (c # fmt) args o1 = convert en q f2 w p fmt4 args3 o1 \<bind> (\<lambda>(fmt, args, o1). vsn_loop en fmt args o1)"
      using True a1 a2 a3 a4 by simp
    also have "\<dots> = map_option (\<lambda>ts. put_text en (concat ts) o1) (those (map (item_text m) is))"
    proof (cases "item_text m i")
      case None
      then show ?thesis by (simp add: C js(2))
    next
      case (Some t)
      have "vsn_loop en fmt5 args5 (put_text en t o1) = map_option (\<lambda>ts. put_text en (concat ts) (put_text en t o1)) (those (map (item_text m) js))"
        by (rule cons [OF IH js(1)]) (use 2(6) js(2) in \<open>assumption | simp\<close>)+
      then show ?thesis unfolding C Some js(2) by (simp only: option.map bind.bind_lunit prod.case one [OF Some])
    qed
    finally show ?thesis .
  qed
qed


text \<open>What the buffer holds afterwards: as much of the text as fits, and the terminator.\<close>

definition buffer_holds :: "int \<Rightarrow> int \<Rightarrow> u8 list \<Rightarrow> ram \<Rightarrow> ram \<Rightarrow> bool" where
  "buffer_holds buf bytes t m m' \<longleftrightarrow>
     (let n = min (int (length t)) (bytes - 1) in
      if 0 < bytes
      then (\<forall>j < n. 0 \<le> j \<longrightarrow> m' (buf + j) = t ! nat j) \<and> m' (buf + n) = 0 \<and> (\<forall>x. x < buf \<or> buf + n < x \<longrightarrow> m' x = m x)
      else m' = m)"

lemma vsnprintf_items:
  assumes it: "items fmt args = Some is" "\<forall>i \<in> set is. apart buf (buf + bytes) m i" "those (map (item_text m) is) = Some ts"
    and b: "0 \<le> buf" "0 \<le> bytes" "buf + bytes < 2 ^ 32" and l: "length (concat ts) < 2 ^ 31"
  shows "\<exists>m'. rt_vsnprintf buf bytes fmt args m = Some (m', int (length (concat ts))) \<and> buffer_holds buf bytes (concat ts) m m'"
proof -
  let ?t = "concat ts" and ?en = "buf + bytes"
  have en: "(buf + bytes) mod 2 ^ 32 = ?en" "\<not> ?en < buf" using b by simp_all
  have loop: "vsn_loop ?en fmt args (buf, m) = Some (put_text ?en ?t (buf, m))"
    using vsn_loop_text [OF it(1), of buf ?en m "(buf, m)"] it(2,3) by simp
  define m1 where "m1 = snd (put_text ?en ?t (buf, m))"
  define m2 where "m2 = (if bytes > 0 then (if buf + int (length ?t) < ?en then m1(buf + int (length ?t) := 0) else m1(?en - 1 := 0)) else m1)"
  have P: "put_text ?en ?t (buf, m) = (buf + int (length ?t), m1)" by (simp add: m1_def put_text_def)
  have ret: "trunc_s 32 (int (length ?t)) = int (length ?t)" using l by (intro trunc_small) simp_all
  have run: "rt_vsnprintf buf bytes fmt args m = Some (m2, int (length ?t))"
    unfolding rt_vsnprintf_def Let_def en(1)
    by (simp only: en(2) if_False prod.case loop P bind.bind_lunit m2_def [symmetric]) (simp add: ret)
  have m1: "m1 x = (if buf \<le> x \<and> x < buf + int (length ?t) \<and> x < ?en then ?t ! nat (x - buf) else m x)" for x
    by (simp add: m1_def put_text_def)
  have "buffer_holds buf bytes ?t m m2"
  proof (cases "0 < bytes")
    case True
    then show ?thesis by (auto simp: buffer_holds_def Let_def m2_def m1)
  next
    case False
    then show ?thesis using b(2) by (auto simp: buffer_holds_def m2_def m1 fun_eq_iff)
  qed
  with run show ?thesis by blast
qed

text \<open>Reading a numeral back with \<open>skip_atoi\<close>.\<close>

lemma numeral_of_less: "2 \<le> b \<Longrightarrow> d \<in> set (numeral_of b n) \<Longrightarrow> d < b"
proof (induction b n rule: numeral_of.induct)
  case (1 b n)
  then show ?case by (cases "n < b") (auto simp: numeral_of.simps [of b n])
qed

lemma numeral_of_value: "2 \<le> b \<Longrightarrow> foldl (\<lambda>a d. a * int b + int d) 0 (numeral_of b n) = int n"
proof (induction b n rule: numeral_of.induct)
  case (1 b n)
  then show ?case by (cases "n < b") (simp_all add: numeral_of.simps [of b n] flip: of_nat_mult of_nat_add)
qed

lemma foldl_digits_le: "0 \<le> i \<Longrightarrow> i \<le> foldl (\<lambda>a d. a * 10 + int d) i ds"
proof (induction ds arbitrary: i)
  case (Cons d ds)
  have "i * 10 + int d \<le> foldl (\<lambda>a d. a * 10 + int d) (i * 10 + int d) ds" by (rule Cons.IH) (use Cons.prems in simp)
  then show ?case using Cons.prems by simp
qed simp

lemma digit_char: "d < 10 \<Longrightarrow> uint (small_digits ! d) = 48 + int d"
proof -
  assume "d < 10"
  then have "d = 0 \<or> d = 1 \<or> d = 2 \<or> d = 3 \<or> d = 4 \<or> d = 5 \<or> d = 6 \<or> d = 7 \<or> d = 8 \<or> d = 9" by arith
  then show ?thesis by (elim disjE) (simp_all add: small_digits_def)
qed

lemma skip_atoi_digits:
  "\<forall>d \<in> set ds. d < 10 \<Longrightarrow> 0 \<le> i \<Longrightarrow> foldl (\<lambda>a d. a * 10 + int d) i ds + 48 < 2 ^ 31 \<Longrightarrow>
   skip_atoi (map (nth small_digits) ds) i = Some (foldl (\<lambda>a d. a * 10 + int d) i ds, [])"
proof (induction ds arbitrary: i)
  case (Cons d ds)
  have d: "uint (small_digits ! d) = 48 + int d" "d < 10" using Cons.prems(1) by (simp_all add: digit_char)
  have "i * 10 + int d \<le> foldl (\<lambda>a d. a * 10 + int d) (i * 10 + int d) ds" by (rule foldl_digits_le) (use Cons.prems(2) in simp)
  then have "i * 10 + (48 + int d) < 2 ^ 31" using Cons.prems(3) by simp
  then show ?case using Cons.IH [of "i * 10 + int d"] Cons.prems d by (simp add: is_digit_def add.commute)
qed simp

lemma decimal_text:
  assumes "0 \<le> v" "v + 48 < 2 ^ 31" "\<not> bit f LARGE" "bit f SIGN"
  shows "skip_atoi (digits_text f 10 v) 0 = Some (v, [])"
proof -
  have v: "foldl (\<lambda>a d. a * 10 + int d) 0 (numeral_of 10 (nat v)) = v" using numeral_of_value [of 10 "nat v"] assms(1) by simp
  have "skip_atoi (map (nth small_digits) (numeral_of 10 (nat v))) 0 = Some (v, [])"
    using skip_atoi_digits [of "numeral_of 10 (nat v)" 0] numeral_of_less [of 10 _ "nat v"] assms(2) v by simp
  then show ?thesis using assms by (simp add: digits_text_def)
qed

text \<open>Strings.\<close>

lemma string_text_cstr:
  assumes "cstr m s xs" "s \<noteq> 0"
  shows "string_text s (- 1) p m = Some (if 0 < p then take (nat p) xs else xs)"
proof -
  have "string_len s (- 1) m = Some (int (length xs))" using assms by (simp add: string_len_def strlen_cstr)
  moreover have "map (\<lambda>i. m (s + int i)) [0 ..< n] = take n xs" if "n \<le> length xs" for n
    using cstr_nth [OF assms(1)] that by (intro nth_equalityI) auto
  ultimately show ?thesis using assms(2) by (auto simp: string_text_def)
qed


section \<open>Properties\<close>



text \<open>
  C25. A signed decimal number printed with \<open>%d\<close> into a buffer of twelve bytes is read back by \<open>skip_atoi\<close>,
  for every value but those at the ends of the range, where the reader or the change of sign overflows.
\<close>

theorem decimal_roundtrip:
  assumes b: "0 \<le> buf" "buf + 12 < 2 ^ 32" and v: "\<bar>sint a\<bar> + 48 < 2 ^ 31"
  shows "\<exists>m' n. rt_snprintf buf 12 [ch CHR ''%'', ch CHR ''d''] [a] m = Some (m', n) \<and>
     (let t = map (\<lambda>i. m' (buf + int i)) [0 ..< nat n] in
      if sint a < 0 then hd t = ch CHR ''-'' \<and> skip_atoi (tl t) 0 = Some (- sint a, []) else skip_atoi t 0 = Some (sint a, [])) \<and>
     m' (buf + n) = 0"
proof -
  define f where "f = (set_bit SIGN 0 :: u8)"
  have f: "bit f SIGN" "\<not> bit f PLUS" "\<not> bit f SPACE" "\<not> bit f LEFT" "\<not> bit f ZEROPAD" "\<not> bit f LARGE" by (simp_all add: f_def bit_simps)
  let ?i = "I_number 10 (- 1) (- 1) f (sint a)"
  have it: "items [ch CHR ''%'', ch CHR ''d''] [a] = Some [?i]"
    by (simp add: fmt_width_def fmt_precision_def fmt_qualifier_def directive_def item_of_def is_digit_def f_def int_arg_def)
  define ds where "ds = digits_text f 10 \<bar>sint a\<bar>"
  define t where "t = (if sint a < 0 then [ch CHR ''-''] else []) @ ds"
  have same: "digits_text f 10 (sint a) = ds" using f(1) by (simp add: ds_def digits_text_def)
  have nz: "nat (- 1 - int (length ds)) = 0" "nat (- 1 - max (int (length ds)) (- 1) - int (length (sign_text f (sint a)))) = 0"
    by simp_all
  have text_i: "item_text m ?i = Some t"
  proof -
    have "sint a \<noteq> - (2 ^ 31)" using v by auto
    then show ?thesis using f same by (simp add: t_def number_text_def sign_text_def Let_def nz)
  qed
  have len: "length ds \<le> 10"
  proof -
    have "nat \<bar>sint a\<bar> < 10 ^ 10" using v by simp
    then have "length (numeral_of 10 (nat \<bar>sint a\<bar>)) \<le> 10" by (intro numeral_of_length) simp_all
    then show ?thesis using f(1) by (simp add: ds_def digits_text_def)
  qed
  then have lt: "length t \<le> 11" by (simp add: t_def)
  obtain m' where m': "rt_vsnprintf buf 12 [ch CHR ''%'', ch CHR ''d''] [a] m = Some (m', int (length t))" "buffer_holds buf 12 t m m'"
    using vsnprintf_items [OF it, of buf 12 m "[t]"] text_i b lt by auto
  have h: "m' (buf + int i) = t ! i" if "i < length t" for i
    using m'(2) that lt by (simp add: buffer_holds_def Let_def)
  then have tt: "map (\<lambda>i. m' (buf + int i)) [0 ..< length t] = t" by (intro nth_equalityI) auto
  have z: "m' (buf + int (length t)) = 0" using m'(2) lt by (simp add: buffer_holds_def Let_def min_def split: if_splits)
  have "skip_atoi ds 0 = Some (\<bar>sint a\<bar>, [])" unfolding ds_def by (rule decimal_text) (use v f in auto)
  then have "if sint a < 0 then hd t = ch CHR ''-'' \<and> skip_atoi (tl t) 0 = Some (- sint a, []) else skip_atoi t 0 = Some (sint a, [])"
    by (simp add: t_def)
  then show ?thesis using m'(1) tt z by (intro exI [of _ m'] exI [of _ "int (length t)"]) (simp add: rt_snprintf_def Let_def)
qed

theorem decimal_roundtrip_witness:
  "\<exists>m' n. rt_snprintf 1000 12 [ch CHR ''%'', ch CHR ''d''] [- 1234] (\<lambda>_. 0) = Some (m', n) \<and> m' (1000 + n) = 0"
  using decimal_roundtrip [of 1000 "- 1234" "\<lambda>_. 0"] by (simp add: sint_uint) blast

text \<open>
  Octal conversions print hexadecimal numerals: \<open>divide\<close> knows the bases 10 and 16 only.
\<close>

lemma divide_octal: "divide n 8 = divide n 16"
  by (simp add: divide_def)

lemma tmp_digits_octal: "tmp_digits digits 8 n = tmp_digits digits 16 n"
proof (induction digits "16 :: int" n rule: tmp_digits.induct)
  case (1 digits num)
  then show ?case by (subst (1 2) tmp_digits.simps) (auto simp: divide_octal split: prod.split)
qed

lemma print_number_octal: "print_number en num 8 s p f o1 = print_number en num 16 s p f o1"
  by (simp only: print_number_def tmp_digits_octal)

theorem octal_prints_hex:
  "convert en q f w p (ch CHR ''o'' # fmt) args o1 = convert en q f w p (ch CHR ''x'' # fmt) args o1"
  by (cases args) (simp_all add: convert_def Let_def print_number_octal)

text \<open>
  Deviations from C: a precision of zero prints no digits for any number, not only for zero; it does
  not shorten a string; and a field width shortens one.
\<close>

theorem precision_and_width_deviate:
  assumes "cstr m s xs" "s \<noteq> 0" "0 \<le> w"
  shows "number_text [] ds left False w 0 = replicate (nat (w - int (length ds))) (ch CHR '' '') \<and>
    string_text s (- 1) 0 m = Some xs \<and> string_text s w (- 1) m = Some (take (nat w) xs)"
proof (intro conjI)
  have "string_len s w m = Some (int (length (take (nat w) xs)))"
    using assms strnlen_loop_cstr [OF assms(1)] by (simp add: string_len_def rt_strnlen_def min_def)
  moreover have "map (\<lambda>i. m (s + int i)) [0 ..< length (take (nat w) xs)] = take (nat w) xs"
    using cstr_nth [OF assms(1)] by (intro nth_equalityI) auto
  ultimately show "string_text s w (- 1) m = Some (take (nat w) xs)" using assms(2) by (simp add: string_text_def)
  show "string_text s (- 1) 0 m = Some xs" using string_text_cstr [OF assms(1,2), of 0] by simp
  show "number_text [] ds left False w 0 = replicate (nat (w - int (length ds))) (ch CHR '' '')" by (simp add: number_text_def Let_def)
qed

theorem precision_and_width_deviate_witness: "string_text 10 1 (- 1) m_text = Some [97] \<and> string_text 10 (- 1) 0 m_text = Some [97, 67]"
proof -
  have "cstr m_text 10 [97, 67]" by (simp add: m_text_def)
  from precision_and_width_deviate [OF this, of 1] show ?thesis by simp
qed

text \<open>
  \<open>rt_kprintf\<close> of a text that fills its buffer gives the console 255 bytes, the last of which is the
  terminator: the buffer it formats into is one byte shorter than the length it sends.
\<close>

theorem kprintf_sends_terminator:
  assumes "items fmt args = Some is" "\<forall>i \<in> set is. apart log_buf (log_buf + 255) m i" "those (map (item_text m) is) = Some ts"
    "0 \<le> log_buf" "log_buf + 255 < 2 ^ 32" "255 \<le> length (concat ts)" "length (concat ts) < 2 ^ 31"
  shows "\<exists>m'. rt_kprintf log_buf fmt args m = Some (m', take 254 (concat ts) @ [0])"
proof -
  let ?t = "concat ts"
  obtain m' where m': "rt_vsnprintf log_buf 255 fmt args m = Some (m', int (length ?t))" "buffer_holds log_buf 255 ?t m m'"
    using vsnprintf_items [OF assms(1-4)] assms(5,7) by auto
  have n: "int (length ?t) mod 2 ^ 32 = int (length ?t)" using assms(7) by simp
  have b: "m' (log_buf + int j) = ?t ! j" if "j < 254" for j
    using m'(2) that assms(6) by (simp add: buffer_holds_def Let_def min_def)
  have e: "m' (log_buf + 254) = 0" using m'(2) assms(6) by (simp add: buffer_holds_def Let_def min_def split: if_splits)
  have "map (\<lambda>i. m' (log_buf + int i)) [0 ..< 255] = map (\<lambda>i. m' (log_buf + int i)) [0 ..< 254] @ [0]"
  proof -
    have "[0 ..< 255] = [0 ..< 254] @ [254 :: nat]" using upt_Suc_append [of 0 254] by (simp only: Suc_eq_plus1) simp
    then show ?thesis using e by simp
  qed
  also have "map (\<lambda>i. m' (log_buf + int i)) [0 ..< 254] = take 254 ?t"
    using b assms(6) by (intro nth_equalityI) auto
  finally have out: "map (\<lambda>i. m' (log_buf + int i)) [0 ..< 255] = take 254 ?t @ [0]" .
  define L where "L = int (length ?t) mod 2 ^ 32"
  have "rt_kprintf log_buf fmt args m = Some (m', map (\<lambda>i. m' (log_buf + int i)) [0 ..< nat (if 255 < L then 255 else L)])"
    by (simp add: rt_kprintf_def m'(1) Let_def L_def)
  moreover have "nat (if 255 < L then 255 else L) = 255" using assms(6) unfolding L_def n by simp
  ultimately show ?thesis using out by simp
qed


theorem kprintf_sends_terminator_witness:
  "\<exists>m'. rt_kprintf 1000 (map of_char ''%300d'') [7] (\<lambda>_. 0) = Some (m', replicate 254 32 @ [0])"
proof -
  let ?f = "set_bit SIGN 0 :: u8"
  have i: "items (map of_char ''%300d'') [7] = Some [I_number 10 300 (- 1) ?f 7]" by code_simp
  have t: "those (map (item_text (\<lambda>_. 0)) [I_number 10 300 (- 1) ?f 7]) = Some [replicate 299 32 @ [55]]" by code_simp
  have c: "concat [replicate 299 32 @ [55 :: u8]] = replicate 299 32 @ [55]" by simp
  show ?thesis using kprintf_sends_terminator [OF i _ t, of 1000] unfolding c by simp
qed

end
