(* ===== verification/Heap.thy ===== *)
theory Heap
  imports Memory Semaphore
begin

text \<open>
  The heap of \<open>src/mem.c\<close> (\<open>RT_USING_SMALL_MEM\<close>, with \<open>RT_MEM_STATS\<close>): a header of twelve bytes
  before every block, linked in both directions by offsets from \<open>heap_ptr\<close>. The state is the machine's
  memory with the variables of the file, beside the kernel's state, whose semaphore \<open>heap_sem\<close> guards
  the heap. Addresses and sizes are integers; arithmetic on \<open>rt_size_t\<close> is reduced modulo \<open>2 ^ 32\<close> by
  \<open>sz\<close>. Hooks are not set.
\<close>

section \<open>The state\<close>

record rt_mempool =
  mp_start :: int
  mp_size :: int
  mp_block_size :: int
  mp_block_list :: int
  mp_total_count :: int
  mp_free_count :: int

text \<open>The variables of \<open>src/object.c\<close> and \<open>src/device.c\<close>; addresses identify objects.\<close>

record rt_device =
  dev_type :: int
  dev_flag :: u16
  dev_open_flag :: u16
  dev_ref_count :: u8
  dev_rx_indicate :: int        \<comment> \<open>addresses of functions, or 0\<close>
  dev_tx_complete :: int

record registry =
  object_container :: "u8 \<Rightarrow> int list"        \<comment> \<open>the object lists, by class\<close>
  object_size :: "u8 \<Rightarrow> int"
  devices :: "int \<Rightarrow> rt_device"
  console_device :: int         \<comment> \<open>\<open>_console_device\<close> of \<open>src/kservice.c\<close>\<close>

record sys =
  kern :: kernel
  ram :: ram
  heap_ptr :: int
  heap_end :: int
  lfree :: int
  mem_size_aligned :: int
  used_mem :: int
  max_mem :: int
  heap_sem :: obj
  mempools :: "obj \<Rightarrow> rt_mempool"
  rt_errno :: int               \<comment> \<open>\<open>__rt_errno\<close>\<close>
  objs :: registry

text \<open>\<open>rt_get_errno\<close> and \<open>rt_set_errno\<close> of \<open>src/kservice.c\<close>.\<close>

definition rt_get_errno :: "sys \<Rightarrow> int" where
  "rt_get_errno s =
     (if interrupt_nest (kern s) \<noteq> 0 then rt_errno s
      else case current_thread (kern s) of None \<Rightarrow> rt_errno s | Some t \<Rightarrow> th_error (threads (kern s) t))"

definition rt_set_errno :: "int \<Rightarrow> sys \<Rightarrow> sys" where
  "rt_set_errno err s =
     (if interrupt_nest (kern s) \<noteq> 0 then s\<lparr>rt_errno := err\<rparr>
      else case current_thread (kern s) of
          None \<Rightarrow> s\<lparr>rt_errno := err\<rparr>
        | Some t \<Rightarrow> s\<lparr>kern := upd_thread t (\<lambda>th. th\<lparr>th_error := err\<rparr>) (kern s)\<rparr>)"

text \<open>
  A call of an operation that takes \<open>heap_sem\<close> either returns, or fails an assertion, or gets to a
  point where other threads run: it waits for the semaphore, or its release of the semaphore lets the
  scheduler switch to the thread that waited. What the caller does from there on, when it runs again,
  is a function of the state it then finds.
\<close>

datatype 'a run =
    Done sys 'a
  | Yields sys "sys \<Rightarrow> 'a run"
  | Stuck

primrec run_then :: "'a run \<Rightarrow> ('a \<Rightarrow> sys \<Rightarrow> 'b run) \<Rightarrow> 'b run" where
  "run_then (Done s x) f = f x s"
| "run_then (Yields s k) f = Yields s (\<lambda>s'. run_then (k s') f)"
| "run_then Stuck f = Stuck"

text \<open>\<open>rt_sem_take(&heap_sem, RT_WAITING_FOREVER)\<close>, whose result is not used, and the release.\<close>

definition take_heap_sem :: "(sys \<Rightarrow> 'a run) \<Rightarrow> sys \<Rightarrow> 'a run" where
  "take_heap_sem f s =
     (case rt_sem_take (heap_sem s) (- 1) (kern s) of
        None \<Rightarrow> Stuck
      | Some (Return k _) \<Rightarrow> f (s\<lparr>kern := k\<rparr>)
      | Some (Wait k _) \<Rightarrow> Yields (s\<lparr>kern := k\<rparr>) f)"

definition release_heap_sem :: "(sys \<Rightarrow> 'a run) \<Rightarrow> sys \<Rightarrow> 'a run" where
  "release_heap_sem f s =
     (case rt_sem_release (heap_sem s) (kern s) of
        None \<Rightarrow> Stuck
      | Some (k, _) \<Rightarrow>
          if tlists (kern s) (Suspend (heap_sem s)) = [] then f (s\<lparr>kern := k\<rparr>) else Yields (s\<lparr>kern := k\<rparr>) f)"

section \<open>Headers\<close>

definition sz :: "int \<Rightarrow> int" where
  "sz x = x mod 4294967296"

definition rt_align :: "int \<Rightarrow> int" where
  "rt_align x = sz (x + 3) div 4 * 4"

definition rt_align_down :: "int \<Rightarrow> int" where
  "rt_align_down x = x div 4 * 4"

abbreviation (input) HEAP_MAGIC :: int where "HEAP_MAGIC \<equiv> 0x1ea0"
abbreviation (input) MIN_SIZE :: int where "MIN_SIZE \<equiv> 12"
abbreviation (input) MIN_SIZE_ALIGNED :: int where "MIN_SIZE_ALIGNED \<equiv> 12"
abbreviation (input) SIZEOF_STRUCT_MEM :: int where "SIZEOF_STRUCT_MEM \<equiv> 12"

definition mem_magic :: "sys \<Rightarrow> int \<Rightarrow> int" where "mem_magic s a = load16 (ram s) a"
definition mem_used :: "sys \<Rightarrow> int \<Rightarrow> int" where "mem_used s a = load16 (ram s) (a + 2)"
definition mem_next :: "sys \<Rightarrow> int \<Rightarrow> int" where "mem_next s a = load32 (ram s) (a + 4)"
definition mem_prev :: "sys \<Rightarrow> int \<Rightarrow> int" where "mem_prev s a = load32 (ram s) (a + 8)"

definition set_magic :: "int \<Rightarrow> int \<Rightarrow> sys \<Rightarrow> sys" where
  "set_magic a v s = s\<lparr>ram := store16 a v (ram s)\<rparr>"
definition set_used :: "int \<Rightarrow> int \<Rightarrow> sys \<Rightarrow> sys" where
  "set_used a v s = s\<lparr>ram := store16 (a + 2) v (ram s)\<rparr>"
definition set_next :: "int \<Rightarrow> int \<Rightarrow> sys \<Rightarrow> sys" where
  "set_next a v s = s\<lparr>ram := store32 (a + 4) v (ram s)\<rparr>"
definition set_prev :: "int \<Rightarrow> int \<Rightarrow> sys \<Rightarrow> sys" where
  "set_prev a v s = s\<lparr>ram := store32 (a + 8) v (ram s)\<rparr>"

section \<open>Operations\<close>

text \<open>\<open>plug_holes\<close>: joining a free block with the next one, and with the one before.\<close>

definition plug_next :: "int \<Rightarrow> sys \<Rightarrow> sys" where
  "plug_next mem s =
     (let nmem = heap_ptr s + mem_next s mem in
      if mem \<noteq> nmem \<and> mem_used s nmem = 0 \<and> nmem \<noteq> heap_end s
      then let s0 = (if lfree s = nmem then s\<lparr>lfree := mem\<rparr> else s);
               s0 = set_next mem (mem_next s0 nmem) s0
           in set_prev (heap_ptr s0 + mem_next s0 nmem) (mem - heap_ptr s0) s0
      else s)"

definition plug_prev :: "int \<Rightarrow> sys \<Rightarrow> sys" where
  "plug_prev mem s =
     (let pmem = heap_ptr s + mem_prev s mem in
      if pmem \<noteq> mem \<and> mem_used s pmem = 0
      then let s0 = (if lfree s = mem then s\<lparr>lfree := pmem\<rparr> else s);
               s0 = set_next pmem (mem_next s0 mem) s0
           in set_prev (heap_ptr s0 + mem_next s0 mem) (pmem - heap_ptr s0) s0
      else s)"

definition plug_holes :: "int \<Rightarrow> sys \<Rightarrow> sys option" where
  "plug_holes mem s =
     do { rt_assert (heap_ptr s \<le> mem);
          rt_assert (mem < heap_end s);
          rt_assert (mem_used s mem = 0);
          Some (plug_prev mem (plug_next mem s)) }"

definition rt_system_heap_init :: "int \<Rightarrow> int \<Rightarrow> sys \<Rightarrow> sys option" where
  "rt_system_heap_init begin_addr end_addr s =
     (let begin_align = rt_align begin_addr; end_align = rt_align_down end_addr in
      do { rt_assert (interrupt_nest (kern s) = 0);
           if end_align > 2 * SIZEOF_STRUCT_MEM \<and> end_align - 2 * SIZEOF_STRUCT_MEM \<ge> begin_align
           then (let s1 = s\<lparr>mem_size_aligned := end_align - begin_align - 2 * SIZEOF_STRUCT_MEM, heap_ptr := begin_align\<rparr>;
                     m = heap_ptr s1;
                     s2 = set_used m 0 (set_prev m 0
                            (set_next m (mem_size_aligned s1 + SIZEOF_STRUCT_MEM) (set_magic m HEAP_MAGIC s1)));
                     s3 = s2\<lparr>heap_end := heap_ptr s2 + mem_next s2 m\<rparr>;
                     e = heap_end s3;
                     s4 = set_prev e (mem_size_aligned s3 + SIZEOF_STRUCT_MEM)
                            (set_next e (mem_size_aligned s3 + SIZEOF_STRUCT_MEM) (set_used e 1 (set_magic e HEAP_MAGIC s3)))
                 in do { (k, _) \<leftarrow> rt_sem_init (heap_sem s4) 1 RT_IPC_FLAG_PRIO (kern s4);
                         Some (s4\<lparr>kern := k, lfree := heap_ptr s4\<rparr>) })
           else Some s })"

text \<open>
  \<open>rt_malloc\<close>: the search from \<open>lfree\<close> for the first block that is large enough, which gives its offset;
  the update of the block found, with the split; the loop that moves \<open>lfree\<close>.
\<close>

partial_function (option) malloc_find :: "int \<Rightarrow> int \<Rightarrow> sys \<Rightarrow> int option option" where
  "malloc_find bytes ptr s =
     (if ptr < sz (mem_size_aligned s - bytes)
      then let mem = heap_ptr s + ptr in
        if mem_used s mem = 0 \<and> sz (mem_next s mem - (ptr + SIZEOF_STRUCT_MEM)) \<ge> bytes
        then Some (Some ptr)
        else malloc_find bytes (mem_next s mem) s
      else Some None)"

partial_function (option) lfree_loop :: "sys \<Rightarrow> sys option" where
  "lfree_loop s =
     (if mem_used s (lfree s) \<noteq> 0 \<and> lfree s \<noteq> heap_end s
      then lfree_loop (s\<lparr>lfree := heap_ptr s + mem_next s (lfree s)\<rparr>)
      else Some s)"

definition count_used :: "int \<Rightarrow> sys \<Rightarrow> sys" where
  "count_used n s =
     (let s1 = s\<lparr>used_mem := sz (used_mem s + n)\<rparr> in
      if max_mem s1 < used_mem s1 then s1\<lparr>max_mem := used_mem s1\<rparr> else s1)"

definition malloc_block :: "int \<Rightarrow> int \<Rightarrow> sys \<Rightarrow> sys option" where
  "malloc_block bytes ptr s =
     (let mem = heap_ptr s + ptr;
          s1 = (if sz (mem_next s mem - (ptr + SIZEOF_STRUCT_MEM)) \<ge> sz (bytes + SIZEOF_STRUCT_MEM + MIN_SIZE_ALIGNED)
                then let ptr2 = sz (ptr + SIZEOF_STRUCT_MEM + bytes);
                         mem2 = heap_ptr s + ptr2;
                         s0 = set_used mem2 0 (set_magic mem2 HEAP_MAGIC s);
                         s0 = set_next mem2 (mem_next s0 mem) s0;
                         s0 = set_prev mem2 ptr s0;
                         s0 = set_used mem 1 (set_next mem ptr2 s0);
                         s0 = (if mem_next s0 mem2 \<noteq> sz (mem_size_aligned s0 + SIZEOF_STRUCT_MEM)
                               then set_prev (heap_ptr s0 + mem_next s0 mem2) ptr2 s0 else s0)
                     in count_used (bytes + SIZEOF_STRUCT_MEM) s0
                else let s0 = set_used mem 1 s in count_used (mem_next s0 mem - (mem - heap_ptr s0)) s0);
          s2 = set_magic mem HEAP_MAGIC s1
      in if mem = lfree s2
         then do { s3 \<leftarrow> lfree_loop s2;
                   rt_assert (lfree s3 = heap_end s3 \<or> mem_used s3 (lfree s3) = 0);
                   Some s3 }
         else Some s2)"

text \<open>The assertions after the semaphore's release, and the result.\<close>

definition malloc_return :: "int \<Rightarrow> int \<Rightarrow> sys \<Rightarrow> int run" where
  "malloc_return bytes mem s =
     (if sz (mem + SIZEOF_STRUCT_MEM + bytes) \<le> heap_end s \<and> (mem + SIZEOF_STRUCT_MEM) mod 4 = 0 \<and> mem mod 4 = 0
      then Done s (mem + SIZEOF_STRUCT_MEM) else Stuck)"

definition malloc_locked :: "int \<Rightarrow> sys \<Rightarrow> int run" where
  "malloc_locked bytes s =
     (case malloc_find bytes (sz (lfree s - heap_ptr s)) s of
        None \<Rightarrow> Stuck
      | Some None \<Rightarrow> release_heap_sem (\<lambda>s1. Done s1 0) s
      | Some (Some ptr) \<Rightarrow>
          (case malloc_block bytes ptr s of
             None \<Rightarrow> Stuck
           | Some s1 \<Rightarrow> release_heap_sem (malloc_return bytes (heap_ptr s + ptr)) s1))"

definition rt_malloc :: "int \<Rightarrow> sys \<Rightarrow> int run" where
  "rt_malloc bytes s =
     (if bytes = 0 then Done s 0
      else if interrupt_nest (kern s) \<noteq> 0 then Stuck
      else let bytes = rt_align bytes in
        if bytes > mem_size_aligned s then Done s 0
        else let bytes = (if bytes < MIN_SIZE_ALIGNED then MIN_SIZE_ALIGNED else bytes) in
          take_heap_sem (malloc_locked bytes) s)"

definition free_block :: "int \<Rightarrow> sys \<Rightarrow> sys option" where
  "free_block mem s =
     do { rt_assert (mem_used s mem \<noteq> 0);
          rt_assert (mem_magic s mem = HEAP_MAGIC);
          let s1 = set_magic mem HEAP_MAGIC (set_used mem 0 s);
          let s2 = (if mem < lfree s1 then s1\<lparr>lfree := mem\<rparr> else s1);
          let s3 = s2\<lparr>used_mem := sz (used_mem s2 - (mem_next s2 mem - (mem - heap_ptr s2)))\<rparr>;
          plug_holes mem s3 }"

definition free_locked :: "int \<Rightarrow> sys \<Rightarrow> unit run" where
  "free_locked mem s =
     (case free_block mem s of None \<Rightarrow> Stuck | Some s1 \<Rightarrow> release_heap_sem (\<lambda>s2. Done s2 ()) s1)"

definition rt_free :: "int \<Rightarrow> sys \<Rightarrow> unit run" where
  "rt_free rmem s =
     (if rmem = 0 then Done s ()
      else if interrupt_nest (kern s) \<noteq> 0 then Stuck
      else if rmem mod 4 \<noteq> 0 then Stuck
      else if \<not> (heap_ptr s \<le> rmem \<and> rmem < heap_end s) then Stuck
      else take_heap_sem (free_locked (rmem - SIZEOF_STRUCT_MEM)) s)"

definition realloc_split :: "int \<Rightarrow> int \<Rightarrow> int \<Rightarrow> sys \<Rightarrow> sys option" where
  "realloc_split newsize bytes ptr s =
     (let s = s\<lparr>used_mem := sz (used_mem s - (bytes - newsize))\<rparr>;
          mem = heap_ptr s + ptr;
          ptr2 = sz (ptr + SIZEOF_STRUCT_MEM + newsize);
          mem2 = heap_ptr s + ptr2;
          s = set_used mem2 0 (set_magic mem2 HEAP_MAGIC s);
          s = set_next mem2 (mem_next s mem) s;
          s = set_prev mem2 ptr s;
          s = set_next mem ptr2 s;
          s = (if mem_next s mem2 \<noteq> sz (mem_size_aligned s + SIZEOF_STRUCT_MEM)
               then set_prev (heap_ptr s + mem_next s mem2) ptr2 s else s);
          s = (if mem2 < lfree s then s\<lparr>lfree := mem2\<rparr> else s)
      in plug_holes mem2 s)"

text \<open>The part of \<open>rt_realloc\<close> behind the critical section: allocate, copy, free.\<close>

definition realloc_move :: "int \<Rightarrow> int \<Rightarrow> int \<Rightarrow> sys \<Rightarrow> int run" where
  "realloc_move rmem bytes newsize s =
     run_then (rt_malloc newsize s) (\<lambda>nmem s1.
       if nmem \<noteq> 0
       then run_then (rt_free rmem
              (s1\<lparr>ram := rt_memcpy nmem rmem (nat (if bytes < newsize then bytes else newsize)) (ram s1)\<rparr>))
              (\<lambda>_ s2. Done s2 nmem)
       else Done s1 nmem)"

definition realloc_locked :: "int \<Rightarrow> int \<Rightarrow> sys \<Rightarrow> int run" where
  "realloc_locked rmem newsize s =
     (if rmem < heap_ptr s \<or> heap_end s \<le> rmem then release_heap_sem (\<lambda>s1. Done s1 rmem) s
      else let mem = rmem - SIZEOF_STRUCT_MEM;
               ptr = sz (mem - heap_ptr s);
               bytes = sz (mem_next s mem - ptr - SIZEOF_STRUCT_MEM)
           in if bytes = newsize then release_heap_sem (\<lambda>s1. Done s1 rmem) s
              else if sz (newsize + SIZEOF_STRUCT_MEM + MIN_SIZE) < bytes
              then (case realloc_split newsize bytes ptr s of
                      None \<Rightarrow> Stuck
                    | Some s1 \<Rightarrow> release_heap_sem (\<lambda>s2. Done s2 rmem) s1)
              else release_heap_sem (realloc_move rmem bytes newsize) s)"

definition rt_realloc :: "int \<Rightarrow> int \<Rightarrow> sys \<Rightarrow> int run" where
  "rt_realloc rmem newsize s =
     (if interrupt_nest (kern s) \<noteq> 0 then Stuck
      else let newsize = rt_align newsize in
        if newsize > mem_size_aligned s then Done s 0
        else if newsize = 0 then run_then (rt_free rmem s) (\<lambda>_ s1. Done s1 0)
        else if rmem = 0 then rt_malloc newsize s
        else take_heap_sem (realloc_locked rmem newsize) s)"

definition rt_calloc :: "int \<Rightarrow> int \<Rightarrow> sys \<Rightarrow> int run" where
  "rt_calloc count bytes s =
     run_then (rt_malloc (sz (count * bytes)) s) (\<lambda>p s1.
       if p \<noteq> 0 then Done (s1\<lparr>ram := rt_memset p 0 (nat (sz (count * bytes))) (ram s1)\<rparr>) p else Done s1 p)"

definition rt_memory_info :: "sys \<Rightarrow> int \<times> int \<times> int" where
  "rt_memory_info s = (mem_size_aligned s, used_mem s, max_mem s)"

definition rt_strdup :: "int \<Rightarrow> sys \<Rightarrow> int run" where
  "rt_strdup str s =
     (case rt_strlen str (ram s) of
        None \<Rightarrow> Stuck
      | Some l \<Rightarrow>
          let len = sz (l + 1) in
          run_then (rt_malloc len s) (\<lambda>tmp s1.
            if tmp = 0 then Done s1 0
            else Done (s1\<lparr>ram := rt_memcpy tmp str (nat len) (ram s1)\<rparr>) tmp))"

section \<open>Fields of headers\<close>

named_theorems hdr_simps \<open>fields of other headers after an update\<close>

lemma hdr_same [simp]:
  "mem_magic (set_magic a v s) a = v mod 65536"
  "mem_used (set_magic a v s) a = mem_used s a"
  "mem_next (set_magic a v s) a = mem_next s a"
  "mem_prev (set_magic a v s) a = mem_prev s a"
  "mem_magic (set_used a v s) a = mem_magic s a"
  "mem_used (set_used a v s) a = v mod 65536"
  "mem_next (set_used a v s) a = mem_next s a"
  "mem_prev (set_used a v s) a = mem_prev s a"
  "mem_magic (set_next a v s) a = mem_magic s a"
  "mem_used (set_next a v s) a = mem_used s a"
  "mem_next (set_next a v s) a = v mod 4294967296"
  "mem_prev (set_next a v s) a = mem_prev s a"
  "mem_magic (set_prev a v s) a = mem_magic s a"
  "mem_used (set_prev a v s) a = mem_used s a"
  "mem_next (set_prev a v s) a = mem_next s a"
  "mem_prev (set_prev a v s) a = v mod 4294967296"
  by (simp_all add: mem_magic_def set_magic_def mem_used_def set_used_def mem_next_def set_next_def mem_prev_def set_prev_def
      load16_store16_other load16_store32_other load32_store16_other load32_store32_other)

lemma hdr_apart [hdr_simps]:
  assumes "a + 12 \<le> b \<or> b + 12 \<le> a"
  shows "mem_magic (set_magic a v s) b = mem_magic s b"
    "mem_used (set_magic a v s) b = mem_used s b"
    "mem_next (set_magic a v s) b = mem_next s b"
    "mem_prev (set_magic a v s) b = mem_prev s b"
    "mem_magic (set_used a v s) b = mem_magic s b"
    "mem_used (set_used a v s) b = mem_used s b"
    "mem_next (set_used a v s) b = mem_next s b"
    "mem_prev (set_used a v s) b = mem_prev s b"
    "mem_magic (set_next a v s) b = mem_magic s b"
    "mem_used (set_next a v s) b = mem_used s b"
    "mem_next (set_next a v s) b = mem_next s b"
    "mem_prev (set_next a v s) b = mem_prev s b"
    "mem_magic (set_prev a v s) b = mem_magic s b"
    "mem_used (set_prev a v s) b = mem_used s b"
    "mem_next (set_prev a v s) b = mem_next s b"
    "mem_prev (set_prev a v s) b = mem_prev s b"
  using assms
  by (auto simp: mem_magic_def set_magic_def mem_used_def set_used_def mem_next_def set_next_def mem_prev_def set_prev_def
      intro!: load16_store16_other load16_store32_other load32_store16_other load32_store32_other)

lemma set_frame [simp]:
  "kern (set_magic a v s) = kern s" "heap_ptr (set_magic a v s) = heap_ptr s" "heap_end (set_magic a v s) = heap_end s"
  "lfree (set_magic a v s) = lfree s" "mem_size_aligned (set_magic a v s) = mem_size_aligned s" "used_mem (set_magic a v s) = used_mem s"
  "max_mem (set_magic a v s) = max_mem s" "heap_sem (set_magic a v s) = heap_sem s" "mempools (set_magic a v s) = mempools s"
  "objs (set_magic a v s) = objs s" "rt_errno (set_magic a v s) = rt_errno s"
  "kern (set_used a v s) = kern s" "heap_ptr (set_used a v s) = heap_ptr s" "heap_end (set_used a v s) = heap_end s"
  "lfree (set_used a v s) = lfree s" "mem_size_aligned (set_used a v s) = mem_size_aligned s" "used_mem (set_used a v s) = used_mem s"
  "max_mem (set_used a v s) = max_mem s" "heap_sem (set_used a v s) = heap_sem s" "mempools (set_used a v s) = mempools s"
  "objs (set_used a v s) = objs s" "rt_errno (set_used a v s) = rt_errno s"
  "kern (set_next a v s) = kern s" "heap_ptr (set_next a v s) = heap_ptr s" "heap_end (set_next a v s) = heap_end s"
  "lfree (set_next a v s) = lfree s" "mem_size_aligned (set_next a v s) = mem_size_aligned s" "used_mem (set_next a v s) = used_mem s"
  "max_mem (set_next a v s) = max_mem s" "heap_sem (set_next a v s) = heap_sem s" "mempools (set_next a v s) = mempools s"
  "objs (set_next a v s) = objs s" "rt_errno (set_next a v s) = rt_errno s"
  "kern (set_prev a v s) = kern s" "heap_ptr (set_prev a v s) = heap_ptr s" "heap_end (set_prev a v s) = heap_end s"
  "lfree (set_prev a v s) = lfree s" "mem_size_aligned (set_prev a v s) = mem_size_aligned s" "used_mem (set_prev a v s) = used_mem s"
  "max_mem (set_prev a v s) = max_mem s" "heap_sem (set_prev a v s) = heap_sem s" "mempools (set_prev a v s) = mempools s"
  "objs (set_prev a v s) = objs s" "rt_errno (set_prev a v s) = rt_errno s"
  by (simp_all add: set_magic_def set_used_def set_next_def set_prev_def)

lemma mem_upd [simp]:
  fixes x :: int
  shows "mem_magic (s\<lparr>kern := k\<rparr>) = mem_magic s" "mem_magic (s\<lparr>heap_ptr := x\<rparr>) = mem_magic s"
    "mem_magic (s\<lparr>heap_end := x\<rparr>) = mem_magic s" "mem_magic (s\<lparr>lfree := x\<rparr>) = mem_magic s"
    "mem_magic (s\<lparr>mem_size_aligned := x\<rparr>) = mem_magic s" "mem_magic (s\<lparr>used_mem := x\<rparr>) = mem_magic s"
    "mem_magic (s\<lparr>max_mem := x\<rparr>) = mem_magic s" "mem_used (s\<lparr>kern := k\<rparr>) = mem_used s"
    "mem_used (s\<lparr>heap_ptr := x\<rparr>) = mem_used s" "mem_used (s\<lparr>heap_end := x\<rparr>) = mem_used s"
    "mem_used (s\<lparr>lfree := x\<rparr>) = mem_used s" "mem_used (s\<lparr>mem_size_aligned := x\<rparr>) = mem_used s"
    "mem_used (s\<lparr>used_mem := x\<rparr>) = mem_used s" "mem_used (s\<lparr>max_mem := x\<rparr>) = mem_used s"
    "mem_next (s\<lparr>kern := k\<rparr>) = mem_next s" "mem_next (s\<lparr>heap_ptr := x\<rparr>) = mem_next s"
    "mem_next (s\<lparr>heap_end := x\<rparr>) = mem_next s" "mem_next (s\<lparr>lfree := x\<rparr>) = mem_next s"
    "mem_next (s\<lparr>mem_size_aligned := x\<rparr>) = mem_next s" "mem_next (s\<lparr>used_mem := x\<rparr>) = mem_next s"
    "mem_next (s\<lparr>max_mem := x\<rparr>) = mem_next s" "mem_prev (s\<lparr>kern := k\<rparr>) = mem_prev s"
    "mem_prev (s\<lparr>heap_ptr := x\<rparr>) = mem_prev s" "mem_prev (s\<lparr>heap_end := x\<rparr>) = mem_prev s"
    "mem_prev (s\<lparr>lfree := x\<rparr>) = mem_prev s" "mem_prev (s\<lparr>mem_size_aligned := x\<rparr>) = mem_prev s"
    "mem_prev (s\<lparr>used_mem := x\<rparr>) = mem_prev s" "mem_prev (s\<lparr>max_mem := x\<rparr>) = mem_prev s"
  by (simp_all add: fun_eq_iff mem_magic_def mem_used_def mem_next_def mem_prev_def)

lemma set_ram:
  "x < a \<or> a + 12 \<le> x \<Longrightarrow> ram (set_magic a v s) x = ram s x"
  "x < a \<or> a + 12 \<le> x \<Longrightarrow> ram (set_used a v s) x = ram s x"
  "x < a \<or> a + 12 \<le> x \<Longrightarrow> ram (set_next a v s) x = ram s x"
  "x < a \<or> a + 12 \<le> x \<Longrightarrow> ram (set_prev a v s) x = ram s x"
  by (auto simp: set_magic_def set_used_def set_next_def set_prev_def intro!: store16_outside store32_outside)

lemma sz_id [simp]: "0 \<le> x \<Longrightarrow> x < 4294967296 \<Longrightarrow> sz x = x"
  by (simp add: sz_def)

lemma sz_range: "0 \<le> sz x \<and> sz x < 4294967296"
  by (simp add: sz_def)

lemma rt_align_spec:
  assumes "0 \<le> x" "x \<le> 4294967292"
  shows "x \<le> rt_align x" "rt_align x < x + 4" "rt_align x mod 4 = 0" "rt_align x \<le> 4294967292"
  using assms by (auto simp: rt_align_def)

section \<open>The blocks of the heap\<close>

type_synonym blocks = "(int \<times> bool) list"

definition total :: "blocks \<Rightarrow> int" where
  "total bs = sum_list (map fst bs)"

lemma total_simps [simp]: "total [] = 0" "total (b # bs) = fst b + total bs" "total (xs @ ys) = total xs + total ys"
  by (simp_all add: total_def)

text \<open>
  \<open>chain s q p bs\<close>: from offset \<open>p\<close> on, with the block before at offset \<open>q\<close>, memory holds the headers of
  the blocks \<open>bs\<close>, each given by its size with the header and whether it is used.
\<close>

fun chain :: "sys \<Rightarrow> int \<Rightarrow> int \<Rightarrow> blocks \<Rightarrow> bool" where
  "chain s q p [] \<longleftrightarrow> True"
| "chain s q p ((n, u) # bs) \<longleftrightarrow>
     mem_magic s (heap_ptr s + p) = HEAP_MAGIC \<and> mem_used s (heap_ptr s + p) = (if u then 1 else 0) \<and>
     mem_next s (heap_ptr s + p) = p + n \<and> mem_prev s (heap_ptr s + p) = q \<and>
     12 \<le> n \<and> n mod 4 = 0 \<and> chain s p (p + n) bs"

fun last_off :: "int \<Rightarrow> int \<Rightarrow> blocks \<Rightarrow> int" where
  "last_off q p [] = q"
| "last_off q p ((n, u) # bs) = last_off p (p + n) bs"

fun first_free :: "blocks \<Rightarrow> int" where
  "first_free [] = 0"
| "first_free ((n, u) # bs) = (if u then n + first_free bs else 0)"

fun used_total :: "blocks \<Rightarrow> int" where
  "used_total [] = 0"
| "used_total ((n, u) # bs) = (if u then n else 0) + used_total bs"

fun separated :: "blocks \<Rightarrow> bool" where
  "separated ((n, u) # (m, v) # bs) \<longleftrightarrow> (u \<or> v) \<and> separated ((m, v) # bs)"
| "separated bs \<longleftrightarrow> True"

text \<open>The addresses of the data of used blocks.\<close>

fun user_data :: "int \<Rightarrow> blocks \<Rightarrow> int set" where
  "user_data a [] = {}"
| "user_data a ((n, u) # bs) = (if u then {a + 12 ..< a + n} else {}) \<union> user_data (a + n) bs"

text \<open>What belongs to others: the data of used blocks, and all memory outside the heap at \<open>h\<close>.\<close>

definition kept :: "int \<Rightarrow> blocks \<Rightarrow> int set" where
  "kept h bs = user_data h bs \<union> {x. x < h \<or> h + total bs + 12 \<le> x}"

definition heap_linked :: "sys \<Rightarrow> blocks \<Rightarrow> bool" where
  "heap_linked s bs \<longleftrightarrow>
     chain s 0 0 bs \<and> total bs = mem_size_aligned s + 12 \<and> heap_end s = heap_ptr s + total bs \<and>
     mem_used s (heap_end s) = 1 \<and> mem_next s (heap_end s) = total bs \<and>
     lfree s = heap_ptr s + first_free bs \<and> used_mem s = used_total bs \<and> used_mem s \<le> max_mem s \<and>
     0 < heap_ptr s \<and> heap_ptr s mod 4 = 0 \<and> heap_end s + 12 \<le> 4294967296 \<and> 12 \<le> mem_size_aligned s"

definition heap_rep :: "sys \<Rightarrow> blocks \<Rightarrow> bool" where
  "heap_rep s bs \<longleftrightarrow> heap_linked s bs \<and> separated bs"

lemma chain_append:
  "chain s q p (xs @ ys) \<longleftrightarrow> chain s q p xs \<and> chain s (last_off q p xs) (p + total xs) ys"
  by (induction xs arbitrary: q p) (auto simp: add.assoc)

lemma chain_sizes: "chain s q p bs \<Longrightarrow> (n, u) \<in> set bs \<Longrightarrow> 12 \<le> n \<and> n mod 4 = 0"
  by (induction bs arbitrary: q p) auto

lemma chain_total: "chain s q p bs \<Longrightarrow> 0 \<le> total bs \<and> total bs mod 4 = 0"
proof (induction bs arbitrary: q p)
  case (Cons b bs)
  obtain n u where [simp]: "b = (n, u)" by (cases b) simp
  have "0 \<le> total bs" "total bs mod 4 = 0" "12 \<le> n" "n mod 4 = 0" using Cons by auto
  then show ?case by (simp add: mod_add_eq [symmetric])
qed simp

lemma last_off_snoc [simp]: "last_off q p (xs @ [(n, u)]) = p + total xs"
  by (induction xs arbitrary: q p) (auto simp: add.assoc)

lemma chain_agree:
  "chain s q p bs \<Longrightarrow> heap_ptr s' = heap_ptr s \<Longrightarrow>
   (\<And>a. heap_ptr s + p \<le> a \<Longrightarrow> a < heap_ptr s + p + total bs \<Longrightarrow> ram s' a = ram s a) \<Longrightarrow> chain s' q p bs"
proof (induction bs arbitrary: q p)
  case (Cons b bs)
  obtain n u where b [simp]: "b = (n, u)" by (cases b) simp
  have n: "12 \<le> n" "0 \<le> total bs" using Cons.prems(1) chain_total by auto
  have h: "ram s' x = ram s x" if "heap_ptr s + p \<le> x" "x < heap_ptr s + p + 12" for x
    by (rule Cons.prems(3)) (use that n in auto)
  have "chain s' p (p + n) bs"
    by (rule Cons.IH) (use Cons.prems n in auto)
  then show ?case using Cons.prems(1,2) h
    by (simp add: mem_magic_def mem_used_def mem_next_def mem_prev_def load16_def load32_def)
qed simp

lemma chain_set_prev:
  assumes "chain s q p bs" "0 \<le> v" "v < 4294967296"
  shows "chain (set_prev (heap_ptr s + p) v s) v p bs"
proof (cases bs)
  case (Cons b cs)
  obtain n u where [simp]: "b = (n, u)" by (cases b) simp
  have c: "chain s p (p + n) cs" "12 \<le> n" using assms Cons by auto
  have "chain (set_prev (heap_ptr s + p) v s) p (p + n) cs"
    by (rule chain_agree [OF c(1)]) (use c(2) in \<open>auto simp: set_ram\<close>)
  then show ?thesis using assms Cons by simp
qed simp

section \<open>The reference allocator\<close>

text \<open>
  First fit on the list of blocks: the first free block that holds \<open>n\<close> bytes and does not start at
  or behind offset \<open>l - n\<close>; it is split when the rest has room for a header and twelve bytes.
\<close>

definition carve :: "int \<Rightarrow> int \<Rightarrow> blocks" where
  "carve n m = (if n + 36 \<le> m then [(n + 12, True), (m - n - 12, False)] else [(m, True)])"

fun alloc_blocks :: "int \<Rightarrow> int \<Rightarrow> int \<Rightarrow> blocks \<Rightarrow> (int \<times> blocks) option" where
  "alloc_blocks l n p [] = None"
| "alloc_blocks l n p ((m, u) # bs) =
     (if \<not> u \<and> p + n < l \<and> n + 12 \<le> m then Some (p, carve n m @ bs)
      else map_option (\<lambda>(a, cs). (a, (m, u) # cs)) (alloc_blocks l n (p + m) bs))"

text \<open>Freeing the block at offset \<open>a\<close>, and joining neighbours that are free.\<close>

fun release_at :: "int \<Rightarrow> int \<Rightarrow> blocks \<Rightarrow> blocks" where
  "release_at a p [] = []"
| "release_at a p ((n, u) # bs) = (n, u \<and> p \<noteq> a) # release_at a (p + n) bs"

fun coalesce :: "blocks \<Rightarrow> blocks" where
  "coalesce ((n, False) # (m, False) # bs) = coalesce ((n + m, False) # bs)"
| "coalesce (b # bs) = b # coalesce bs"
| "coalesce [] = []"

lemma alloc_blocks_Some:
  "alloc_blocks l n p bs = Some (a, cs) \<Longrightarrow>
   \<exists>xs m ys. bs = xs @ (m, False) # ys \<and> a = p + total xs \<and> a + n < l \<and> n + 12 \<le> m \<and> cs = xs @ carve n m @ ys"
proof (induction bs arbitrary: p cs)
  case (Cons b bs)
  obtain m u where [simp]: "b = (m, u)" by (cases b) simp
  show ?case
  proof (cases "\<not> u \<and> p + n < l \<and> n + 12 \<le> m")
    case True
    then show ?thesis using Cons.prems by (intro exI [of _ "[]"] exI [of _ m] exI [of _ bs]) auto
  next
    case False
    then obtain ds where d: "alloc_blocks l n (p + m) bs = Some (a, ds)" "cs = (m, u) # ds"
      using Cons.prems by auto
    obtain xs k ys where "bs = xs @ (k, False) # ys" "a = p + m + total xs" "a + n < l" "n + 12 \<le> k" "ds = xs @ carve n k @ ys"
      using Cons.IH [OF d(1)] by blast
    then show ?thesis using d(2) by (intro exI [of _ "b # xs"] exI [of _ k] exI [of _ ys]) auto
  qed
qed simp

lemma alloc_blocks_behind: "\<forall>(m, u) \<in> set bs. 0 \<le> m \<Longrightarrow> l \<le> p + n \<Longrightarrow> alloc_blocks l n p bs = None"
  by (induction bs arbitrary: p) auto

lemma alloc_blocks_used:
  "\<forall>(m, u) \<in> set us. u \<Longrightarrow>
   alloc_blocks l n p (us @ bs) = map_option (\<lambda>(a, cs). (a, us @ cs)) (alloc_blocks l n (p + total us) bs)"
  by (induction us arbitrary: p) (auto simp: option.map_comp o_def case_prod_unfold option.map_ident add.assoc)

lemma first_free_split: "\<exists>us zs. bs = us @ zs \<and> (\<forall>(m, u) \<in> set us. u) \<and> first_free bs = total us \<and> (zs = [] \<or> \<not> snd (hd zs))"
proof (induction bs)
  case (Cons b bs)
  obtain n u where [simp]: "b = (n, u)" by (cases b) simp
  show ?case
  proof (cases u)
    case True
    obtain us zs where "bs = us @ zs" "\<forall>(m, u) \<in> set us. u" "first_free bs = total us" "zs = [] \<or> \<not> snd (hd zs)"
      using Cons by blast
    then show ?thesis using True by (intro exI [of _ "b # us"] exI [of _ zs]) auto
  next
    case False
    then show ?thesis by (intro exI [of _ "[]"] exI [of _ "b # bs"]) auto
  qed
qed simp

lemma first_free_append:
  "first_free (xs @ ys) = (if \<forall>(m, u) \<in> set xs. u then total xs + first_free ys else first_free xs)"
  by (induction xs) auto

lemma first_free_le: "\<forall>(m, u) \<in> set xs. 12 \<le> m \<Longrightarrow> \<not> (\<forall>(m, u) \<in> set xs. u) \<Longrightarrow> first_free xs + 12 \<le> total xs \<and> 0 \<le> first_free xs"
proof (induction xs)
  case (Cons b xs)
  have "0 \<le> total xs" using Cons.prems(1) by (induction xs) auto
  then show ?case using Cons by (cases b) auto
qed simp

text \<open>The two loops of \<open>rt_malloc\<close> find what the reference finds.\<close>

lemma malloc_find_chain:
  assumes "chain s q p bs" "p + total bs = mem_size_aligned s + 12" "12 \<le> n" "n \<le> mem_size_aligned s"
    "0 \<le> p" "mem_size_aligned s + 24 \<le> 4294967296"
  shows "malloc_find n p s = Some (map_option fst (alloc_blocks (mem_size_aligned s) n p bs))"
  using assms
proof (induction bs arbitrary: q p)
  case Nil
  then show ?case by (subst malloc_find.simps) simp
next
  case (Cons b bs)
  obtain m u where b [simp]: "b = (m, u)" by (cases b) simp
  have m: "12 \<le> m" "0 \<le> total bs" "p + m + total bs = mem_size_aligned s + 12"
    using Cons.prems chain_total by auto
  have IH: "malloc_find n (p + m) s = Some (map_option fst (alloc_blocks (mem_size_aligned s) n (p + m) bs))"
    by (rule Cons.IH) (use Cons.prems m in auto)
  have sizes: "\<forall>(m, u) \<in> set bs. 0 \<le> m" using Cons.prems(1) chain_sizes [of s p "p + m" bs] by fastforce
  show ?case
  proof (cases "p + n < mem_size_aligned s")
    case True
    then show ?thesis using Cons.prems m IH
      by (subst malloc_find.simps) (auto simp: Let_def option.map_comp o_def split_beta)
  next
    case False
    then show ?thesis using Cons.prems m alloc_blocks_behind [OF sizes, of "mem_size_aligned s" "p + m" n]
      by (subst malloc_find.simps) auto
  qed
qed

lemma malloc_find_first:
  assumes h: "heap_rep s bs" and n: "12 \<le> n" "n \<le> mem_size_aligned s"
  shows "malloc_find n (sz (lfree s - heap_ptr s)) s = Some (map_option fst (alloc_blocks (mem_size_aligned s) n 0 bs))"
proof -
  obtain us zs where us: "bs = us @ zs" "\<forall>(m, u) \<in> set us. u" "first_free bs = total us" using first_free_split by blast
  have r: "chain s (last_off 0 0 us) (total us) zs" "chain s 0 0 us" "total us + total zs = mem_size_aligned s + 12"
    "mem_size_aligned s + 24 \<le> 4294967296" "lfree s - heap_ptr s = total us"
    using h us by (auto simp: heap_rep_def heap_linked_def chain_append)
  have "0 \<le> total us" "0 \<le> total zs" using r chain_total by auto
  then have "sz (lfree s - heap_ptr s) = total us" using r by simp
  then show ?thesis
    using malloc_find_chain [OF r(1,3) n \<open>0 \<le> total us\<close> r(4)] us
    by (simp add: alloc_blocks_used [OF us(2)] option.map_comp o_def split_beta)
qed

lemma lfree_loop_chain:
  assumes "chain s q p bs" "lfree s = heap_ptr s + p" "heap_ptr s + p + total bs = heap_end s" "mem_used s (heap_end s) = 1"
  shows "lfree_loop s = Some (s\<lparr>lfree := heap_ptr s + p + first_free bs\<rparr>)"
  using assms
proof (induction bs arbitrary: q p s)
  case Nil
  then show ?case by (subst lfree_loop.simps) simp
next
  case (Cons b bs)
  obtain m u where b [simp]: "b = (m, u)" by (cases b) simp
  have m: "12 \<le> m" "0 \<le> total bs" using Cons.prems chain_total by auto
  show ?case
  proof (cases u)
    case True
    let ?s = "s\<lparr>lfree := heap_ptr s + (p + m)\<rparr>"
    have "chain ?s p (p + m) bs" by (rule chain_agree [of s]) (use Cons.prems in auto)
    then have "lfree_loop ?s = Some (?s\<lparr>lfree := heap_ptr s + (p + m) + first_free bs\<rparr>)"
      using Cons.IH [of ?s p "p + m"] Cons.prems by (simp add: add.assoc)
    then show ?thesis using True Cons.prems m by (subst lfree_loop.simps) (auto simp: add.assoc)
  next
    case False
    then show ?thesis using Cons.prems by (subst lfree_loop.simps) simp
  qed
qed

section \<open>Allocation\<close>

text \<open>What no operation on the heap changes.\<close>

definition heap_same :: "sys \<Rightarrow> sys \<Rightarrow> bool" where
  "heap_same s s' \<longleftrightarrow> heap_ptr s' = heap_ptr s \<and> heap_end s' = heap_end s \<and> mem_size_aligned s' = mem_size_aligned s \<and>
     heap_sem s' = heap_sem s \<and> mempools s' = mempools s \<and> objs s' = objs s \<and>
     rt_errno s' = rt_errno s \<and> kern s' = kern s"

lemma count_used_frame [simp]:
  "ram (count_used n s) = ram s" "kern (count_used n s) = kern s" "heap_ptr (count_used n s) = heap_ptr s"
  "heap_end (count_used n s) = heap_end s" "lfree (count_used n s) = lfree s"
  "mem_size_aligned (count_used n s) = mem_size_aligned s" "heap_sem (count_used n s) = heap_sem s"
  "mempools (count_used n s) = mempools s" "objs (count_used n s) = objs s" "rt_errno (count_used n s) = rt_errno s" "used_mem (count_used n s) = sz (used_mem s + n)"
  "max_mem (count_used n s) = max (max_mem s) (sz (used_mem s + n))"
  by (auto simp: count_used_def Let_def)

lemma hdr_ram:
  "ram s' = ram s \<Longrightarrow> mem_magic s' = mem_magic s \<and> mem_used s' = mem_used s \<and> mem_next s' = mem_next s \<and> mem_prev s' = mem_prev s"
  by (simp add: mem_magic_def [abs_def] mem_used_def [abs_def] mem_next_def [abs_def] mem_prev_def [abs_def])

lemma hdr_count_used [simp]:
  "mem_magic (count_used n s) = mem_magic s" "mem_used (count_used n s) = mem_used s"
  "mem_next (count_used n s) = mem_next s" "mem_prev (count_used n s) = mem_prev s"
  using hdr_ram [of "count_used n s" s] by simp_all

lemma first_free_hdr:
  "chain s q p bs \<Longrightarrow> first_free bs = total bs \<or> mem_used s (heap_ptr s + p + first_free bs) = 0"
proof (induction bs arbitrary: q p)
  case (Cons b bs)
  obtain m u where [simp]: "b = (m, u)" by (cases b) simp
  have "first_free bs = total bs \<or> mem_used s (heap_ptr s + (p + m) + first_free bs) = 0"
    by (rule Cons.IH) (use Cons.prems in auto)
  then show ?case using Cons.prems by (auto simp: add.assoc)
qed simp

lemma malloc_finish:
  assumes c: "chain t 0 0 (xs @ (k, True) # zs)" and l: "lfree t = heap_ptr t + first_free (xs @ (m, False) # ys)"
    and e: "heap_end t = heap_ptr t + total (xs @ (k, True) # zs)" "mem_used t (heap_end t) = 1"
  shows "(if heap_ptr t + total xs = lfree t
          then do { s3 \<leftarrow> lfree_loop t; rt_assert (lfree s3 = heap_end s3 \<or> mem_used s3 (lfree s3) = 0); Some s3 }
          else Some t) = Some (t\<lparr>lfree := heap_ptr t + first_free (xs @ (k, True) # zs)\<rparr>)"
proof (cases "\<forall>(m, u) \<in> set xs. u")
  case True
  let ?bs = "(k, True) # zs"
  have r: "chain t (last_off 0 0 xs) (total xs) ?bs" using c by (simp add: chain_append)
  have "lfree_loop t = Some (t\<lparr>lfree := heap_ptr t + total xs + first_free ?bs\<rparr>)"
    by (rule lfree_loop_chain [OF r]) (use True l e in \<open>auto simp: first_free_append\<close>)
  then show ?thesis using True l e first_free_hdr [OF r] by (auto simp: first_free_append add.assoc)
next
  case False
  have "\<forall>(m, u) \<in> set xs. 12 \<le> m" using c chain_sizes [of t 0 0 xs] by (auto simp: chain_append)
  then have "first_free xs + 12 \<le> total xs" using first_free_le False by blast
  moreover have "first_free (xs @ b # bs) = first_free xs" for b bs
    using False unfolding first_free_append by (rule if_not_P)
  ultimately show ?thesis using l by simp
qed

lemma separated_append:
  "separated (xs @ (n, u) # ys) \<longleftrightarrow> separated (xs @ [(n, u)]) \<and> separated ((n, u) # ys)"
proof (induction xs)
  case (Cons x xs)
  then show ?case by (cases x; cases xs) auto
qed simp

lemma separated_size: "separated (xs @ (m, u) # ys) \<longleftrightarrow> separated (xs @ (n, u) # ys)"
proof (induction xs)
  case Nil
  then show ?case by (cases ys) auto
next
  case (Cons x xs)
  then show ?case by (cases x; cases xs) auto
qed

lemma separated_use: "separated (xs @ (m, u) # ys) \<Longrightarrow> separated (xs @ (m, True) # ys)"
proof (induction xs)
  case Nil
  then show ?case by (cases ys) auto
next
  case (Cons x xs)
  then show ?case by (cases x; cases xs) auto
qed

lemma separated_carve: "separated (xs @ (m, False) # ys) \<Longrightarrow> separated (xs @ carve n m @ ys)"
proof -
  assume s: "separated (xs @ (m, False) # ys)"
  have "separated ((m - n - 12, False) # ys)" using s separated_append [of xs m False ys] by (cases ys) auto
  then show ?thesis
    using separated_use [OF s] separated_append [of xs "n + 12" True "(m - n - 12, False) # ys"]
      separated_append [of xs m True ys] separated_size [of xs m True "[]" "n + 12"]
    by (auto simp: carve_def)
qed

lemma used_total_append [simp]: "used_total (xs @ ys) = used_total xs + used_total ys"
  by (induction xs) auto

lemma used_total_le: "\<forall>(m, u) \<in> set bs. 12 \<le> m \<Longrightarrow> 0 \<le> used_total bs \<and> used_total bs \<le> total bs"
  by (induction bs) auto

lemma user_data_append: "user_data a (xs @ ys) = user_data a xs \<union> user_data (a + total xs) ys"
  by (induction xs arbitrary: a) (auto simp: add.assoc)

lemma user_data_range: "\<forall>(m, u) \<in> set bs. 12 \<le> m \<Longrightarrow> x \<in> user_data a bs \<Longrightarrow> a + 12 \<le> x \<and> x < a + total bs"
proof (induction bs arbitrary: a)
  case (Cons b bs)
  have "0 \<le> total bs" using Cons.prems(1) by (induction bs) auto
  then show ?case using Cons.IH [of "a + fst b"] Cons.prems by (cases b) (auto split: if_splits)
qed simp

lemma user_data_head: "12 \<le> m \<Longrightarrow> \<forall>(m, u) \<in> set ys. 12 \<le> m \<Longrightarrow> x \<in> user_data a ((m, u) # ys) \<Longrightarrow> x < a + m \<or> a + m + 12 \<le> x"
  using user_data_range [of ys x "a + m"] by (auto split: if_splits)

lemma heap_linkedD:
  assumes "heap_linked s bs"
  shows "chain s 0 0 bs" "total bs = mem_size_aligned s + 12" "heap_end s = heap_ptr s + total bs"
    "mem_used s (heap_end s) = 1" "mem_next s (heap_end s) = total bs" "lfree s = heap_ptr s + first_free bs"
    "used_mem s = used_total bs" "used_mem s \<le> max_mem s" "0 < heap_ptr s" "heap_ptr s mod 4 = 0"
    "heap_end s + 12 \<le> 4294967296" "12 \<le> mem_size_aligned s"
  using assms unfolding heap_linked_def by blast+

lemma heap_linkedI:
  assumes "chain s 0 0 bs" "total bs = mem_size_aligned s + 12" "heap_end s = heap_ptr s + total bs"
    "mem_used s (heap_end s) = 1" "mem_next s (heap_end s) = total bs" "lfree s = heap_ptr s + first_free bs"
    "used_mem s = used_total bs" "used_mem s \<le> max_mem s" "0 < heap_ptr s" "heap_ptr s mod 4 = 0"
    "heap_end s + 12 \<le> 4294967296" "12 \<le> mem_size_aligned s"
  shows "heap_linked s bs"
  using assms by (simp add: heap_linked_def)

lemma chain_lfree [simp]: "chain (s\<lparr>lfree := x\<rparr>) q p bs = chain s q p bs"
  by (induction bs arbitrary: q p) auto

text \<open>The facts about one block of the heap that the updates of its header use.\<close>

lemma heap_linked_block:
  assumes h: "heap_linked s (xs @ (m, u) # ys)"
  shows "chain s 0 0 xs" "chain s (last_off 0 0 xs) (total xs) [(m, u)]" "chain s (total xs) (total xs + m) ys"
    "0 \<le> total xs" "0 \<le> total ys" "12 \<le> m" "m mod 4 = 0" "total xs mod 4 = 0"
    "mem_size_aligned s + 12 = total xs + m + total ys" "heap_end s = heap_ptr s + (total xs + m + total ys)"
    "heap_ptr s + (total xs + m + total ys) + 12 \<le> 4294967296" "0 < heap_ptr s"
    "\<forall>(k, v) \<in> set (xs @ (m, u) # ys). 12 \<le> k" "ys = [] \<or> 12 \<le> total ys"
proof -
  have c: "chain s 0 0 (xs @ (m, u) # ys)" using h by (simp add: heap_linked_def)
  then have c3: "chain s 0 0 xs" "chain s (last_off 0 0 xs) (total xs) ((m, u) # ys)" by (simp_all add: chain_append)
  show "chain s 0 0 xs" by (rule c3)
  show y: "chain s (total xs) (total xs + m) ys" using c3(2) by simp
  show "chain s (last_off 0 0 xs) (total xs) [(m, u)]" "12 \<le> m" "m mod 4 = 0" using c3(2) by simp_all
  show "0 \<le> total xs" "total xs mod 4 = 0" "0 \<le> total ys" using chain_total c3(1) y by auto
  show "\<forall>(k, v) \<in> set (xs @ (m, u) # ys). 12 \<le> k" using chain_sizes [OF c] by auto
  show "ys = [] \<or> 12 \<le> total ys"
  proof (cases ys)
    case (Cons b zs)
    obtain k v where b: "b = (k, v)" by (cases b) simp
    have "0 \<le> total zs" "12 \<le> k" using y Cons b chain_total by auto
    then show ?thesis using Cons b by simp
  qed simp
qed (use h in \<open>auto simp: heap_linked_def\<close>)

lemma malloc_block_rep:
  assumes h: "heap_rep s (xs @ (m, False) # ys)" and n: "12 \<le> n" "n + 12 \<le> m" "n mod 4 = 0"
  shows "\<exists>s'. malloc_block n (total xs) s = Some s' \<and> heap_rep s' (xs @ carve n m @ ys) \<and> heap_same s s' \<and>
    (\<forall>a. a < heap_ptr s + total xs \<or> heap_ptr s + total xs + m + 12 \<le> a \<longrightarrow> ram s' a = ram s a)"
proof -
  define p where "p = total xs"
  define mm where "mm = heap_ptr s + p"
  have l: "heap_linked s (xs @ (m, False) # ys)" and sep: "separated (xs @ (m, False) # ys)"
    using h by (simp_all add: heap_rep_def)
  note B = heap_linked_block [OF l, folded p_def]
  note D = heap_linkedD [OF l]
  have hd: "mem_used s mm = 0" "mem_next s mm = p + m" "mem_magic s mm = 7840" "mem_prev s mm = last_off 0 0 xs"
    using B(2) by (simp_all add: mm_def)
  have ut: "0 \<le> used_total xs" "used_total xs \<le> p" "0 \<le> used_total ys" "used_total ys \<le> total ys"
    using used_total_le [of xs] used_total_le [of ys] B(13) by (auto simp: p_def)
  have range: "0 \<le> p + m" "p + m < 4294967296" "p < 4294967296" using B(4,5,6,11,12) by linarith+
  show ?thesis
  proof (cases "n + 36 \<le> m")
    case True
    define p2 where "p2 = p + 12 + n"
    define m2 where "m2 = heap_ptr s + p2"
    have p2: "0 \<le> p2" "p2 < 4294967296" "p2 + 12 \<le> p + m" using True n B(4,5,6,11,12) by (auto simp: p2_def)
    define a where "a = set_used mm 1 (set_next mm p2 (set_prev m2 p (set_next m2 (p + m) (set_used m2 0 (set_magic m2 7840 s)))))"
    define b where "b = (if p + m \<noteq> mem_size_aligned s + 12 then set_prev (heap_ptr s + (p + m)) p2 a else a)"
    define t where "t = set_magic mm 7840 (count_used (n + 12) b)"
    have ap: "mm + 12 \<le> m2" "m2 + 12 \<le> heap_ptr s + (p + m)" using p2 n by (auto simp: mm_def m2_def p2_def)
    have fr: "heap_ptr t = heap_ptr s" "heap_end t = heap_end s" "mem_size_aligned t = mem_size_aligned s"
      "heap_sem t = heap_sem s" "mempools t = mempools s" "objs t = objs s" "rt_errno t = rt_errno s" "kern t = kern s" "lfree t = lfree s" "heap_ptr a = heap_ptr s"
      by (simp_all add: t_def b_def a_def)
    have ram: "ram t x = ram s x" if "x < mm \<or> heap_ptr s + (p + m) + 12 \<le> x" for x
      using that ap by (auto simp: t_def b_def a_def set_ram)
    have run: "malloc_block n p s = (if mm = lfree t
        then do { s3 \<leftarrow> lfree_loop t; rt_assert (lfree s3 = heap_end s3 \<or> mem_used s3 (lfree s3) = 0); Some s3 } else Some t)"
    proof -
      have g: "sz (mem_next s mm - (p + 12)) \<ge> sz (n + 12 + 12)" using hd True n B(4,5,11,12) range by simp
      have z: "sz (p + 12 + n) = p2" "sz (mem_size_aligned s + 12) = mem_size_aligned s + 12"
        using p2 B(4,5,6,9,11,12) by (simp_all add: p2_def)
      have e1: "mem_next (set_used m2 0 (set_magic m2 7840 s)) mm = p + m" using ap hd by (simp add: hdr_apart)
      have e2: "mem_next a m2 = p + m" using ap range unfolding a_def by (simp add: hdr_apart)
      have fa: "mem_size_aligned a = mem_size_aligned s" "heap_ptr a = heap_ptr s" by (simp_all add: a_def)
      have tb: "lfree (set_magic mm 7840 (count_used (n + 12) b)) = lfree t" by (simp add: t_def)
      show ?thesis
        unfolding malloc_block_def Let_def mm_def [symmetric] if_P [OF g] z m2_def [symmetric] e1
          a_def [symmetric] e2 fa b_def [symmetric] t_def [symmetric] ..
    qed
    have hm: "mem_used t mm = 1" "mem_next t mm = p2" "mem_magic t mm = 7840" "mem_prev t mm = last_off 0 0 xs"
      "mem_used t m2 = 0" "mem_next t m2 = p + m" "mem_magic t m2 = 7840" "mem_prev t m2 = p"
      using hd ap range p2 by (simp_all add: t_def b_def a_def hdr_apart B(4))
    have cx: "chain t 0 0 xs"
      by (rule chain_agree [OF B(1)]) (use ram in \<open>auto simp: fr mm_def p_def\<close>)
    have cy: "chain t p2 (p + m) ys"
    proof (cases "ys = []")
      case False
      then have ne: "p + m \<noteq> mem_size_aligned s + 12" using B(9,14) by auto
      have "chain a p (p + m) ys"
        by (rule chain_agree [OF B(3)]) (use ap in \<open>auto simp: a_def set_ram\<close>)
      from chain_set_prev [OF this p2(1,2)] have c: "chain b p2 (p + m) ys" using ne by (simp add: b_def fr)
      show ?thesis
        by (rule chain_agree [OF c]) (use ap p2 n in \<open>auto simp: t_def b_def a_def set_ram\<close>)
    qed simp
    have c: "chain t 0 0 (xs @ (n + 12, True) # (m - n - 12, False) # ys)"
    proof -
      have e: "total xs = p" "0 + p = p" "heap_ptr t + p = mm" "p + (n + 12) = p2" "heap_ptr t + p2 = m2"
        "p2 + (m - n - 12) = p + m" by (simp_all add: fr mm_def m2_def p2_def p_def)
      have "(n + 12) mod 4 = 0" "(m - n - 12) mod 4 = 0" using n(3) B(7) by presburger+
      then show ?thesis unfolding chain_append using cx cy hm n True
        by (simp only: chain.simps e) simp
    qed
    have ends: "mem_used t (heap_end t) = 1" "mem_next t (heap_end t) = total (xs @ (n + 12, True) # (m - n - 12, False) # ys)"
    proof -
      have e: "mem_used s (heap_end s) = 1" "mem_next s (heap_end s) = p + m + total ys" "heap_end s = heap_ptr s + (p + m + total ys)"
        using D(4,5) B(10) by (simp_all add: p_def)
      have ape: "mm + 12 \<le> heap_end s" "m2 + 12 \<le> heap_end s" "ys \<noteq> [] \<Longrightarrow> heap_ptr s + (p + m) + 12 \<le> heap_end s"
        using ap e(3) B(5,14) by auto
      have "ys = [] \<Longrightarrow> b = a" using B(9) by (simp add: b_def)
      then have "mem_used t (heap_end s) = 1 \<and> mem_next t (heap_end s) = p + m + total ys"
        using e ape by (cases "ys = []") (auto simp: t_def b_def a_def hdr_apart)
      then show "mem_used t (heap_end t) = 1" "mem_next t (heap_end t) = total (xs @ (n + 12, True) # (m - n - 12, False) # ys)"
        by (simp_all add: fr p_def)
    qed
    let ?bs = "xs @ (n + 12, True) # (m - n - 12, False) # ys"
    let ?t = "t\<lparr>lfree := heap_ptr t + first_free ?bs\<rparr>"
    have fin: "malloc_block n p s = Some ?t"
      using malloc_finish [OF c _ _ ends(1), of m ys] D(6) run B(10) by (simp add: fr p_def mm_def)
    have um: "used_mem t = used_total ?bs" "used_mem t \<le> max_mem t"
      using D(7,8) ut B(4,5,6,11,12) True n by (simp_all add: t_def b_def a_def)
    have "heap_linked ?t ?bs"
      by (rule heap_linkedI) (use c ends um D in \<open>simp_all add: fr\<close>)
    then have "heap_rep ?t ?bs" using separated_carve [OF sep, of n] True by (simp add: heap_rep_def carve_def)
    then show ?thesis using fin ram True by (intro exI [of _ ?t]) (simp add: p_def mm_def carve_def heap_same_def fr add.assoc)
  next
    case False
    define t where "t = set_magic mm 7840 (count_used m (set_used mm 1 s))"
    have fr: "heap_ptr t = heap_ptr s" "heap_end t = heap_end s" "mem_size_aligned t = mem_size_aligned s"
      "heap_sem t = heap_sem s" "mempools t = mempools s" "objs t = objs s" "rt_errno t = rt_errno s" "kern t = kern s" "lfree t = lfree s"
      by (simp_all add: t_def)
    have ram: "ram t x = ram s x" if "x < mm \<or> mm + 12 \<le> x" for x using that by (auto simp: t_def set_ram)
    have run: "malloc_block n p s = (if mm = lfree t
        then do { s3 \<leftarrow> lfree_loop t; rt_assert (lfree s3 = heap_end s3 \<or> mem_used s3 (lfree s3) = 0); Some s3 } else Some t)"
    proof -
      have g: "\<not> sz (mem_next s mm - (p + 12)) \<ge> sz (n + 12 + 12)" using hd False n B(4,5,11,12) range by simp
      have e: "mem_next (set_used mm 1 s) mm - (mm - heap_ptr (set_used mm 1 s)) = m" using hd by (simp add: mm_def)
      show ?thesis
        unfolding malloc_block_def Let_def mm_def [symmetric] if_not_P [OF g] e t_def [symmetric] ..
    qed
    have cx: "chain t 0 0 xs" by (rule chain_agree [OF B(1)]) (use ram in \<open>auto simp: fr mm_def p_def\<close>)
    have cy: "chain t p (p + m) ys" by (rule chain_agree [OF B(3)]) (use ram B(6) in \<open>auto simp: fr mm_def\<close>)
    have c: "chain t 0 0 (xs @ (m, True) # ys)"
      using cx cy hd B(6,7) unfolding chain_append by (simp add: t_def mm_def p_def)
    have "mm + 12 \<le> heap_end s" using B(4,5,6,10) by (simp add: mm_def)
    then have ends: "mem_used t (heap_end t) = 1" "mem_next t (heap_end t) = total (xs @ (m, True) # ys)"
      using D(4,5) by (simp_all add: t_def hdr_apart)
    let ?bs = "xs @ (m, True) # ys"
    let ?t = "t\<lparr>lfree := heap_ptr t + first_free ?bs\<rparr>"
    have fin: "malloc_block n p s = Some ?t"
      using malloc_finish [OF c _ _ ends(1), of m ys] D(6) run B(10) by (simp add: fr p_def mm_def)
    have um: "used_mem t = used_total ?bs" "used_mem t \<le> max_mem t"
      using D(7,8) ut B(4,5,6,11,12) by (simp_all add: t_def)
    have "heap_linked ?t ?bs"
      by (rule heap_linkedI) (use c ends um D in \<open>simp_all add: fr\<close>)
    then have "heap_rep ?t ?bs" using separated_carve [OF sep, of n] False by (simp add: heap_rep_def carve_def)
    then show ?thesis using fin ram False B(6)
      by (intro exI [of _ ?t]) (simp add: p_def mm_def carve_def heap_same_def fr add.assoc)
  qed
qed

section \<open>Joining free blocks\<close>

definition join_blocks :: "int \<Rightarrow> int \<Rightarrow> sys \<Rightarrow> sys" where
  "join_blocks a b s =
     (let s0 = set_next a (mem_next s b) s in set_prev (heap_ptr s0 + mem_next s0 b) (a - heap_ptr s0) s0)"

lemma join_linked:
  assumes l: "heap_linked s (ws @ (j, False) # (k, False) # zs)"
  shows "heap_linked (join_blocks (heap_ptr s + total ws) (heap_ptr s + (total ws + j)) s) (ws @ (j + k, False) # zs)"
    "heap_same s (join_blocks (heap_ptr s + total ws) (heap_ptr s + (total ws + j)) s)"
    "x < heap_ptr s + total ws \<or> heap_ptr s + total ws + 12 \<le> x \<Longrightarrow>
     x < heap_ptr s + (total ws + j + k) \<or> heap_ptr s + (total ws + j + k) + 12 \<le> x \<Longrightarrow>
     ram (join_blocks (heap_ptr s + total ws) (heap_ptr s + (total ws + j)) s) x = ram s x"
proof -
  define p where "p = total ws"
  define mm where "mm = heap_ptr s + p"
  define m2 where "m2 = heap_ptr s + (p + j)"
  define m3 where "m3 = heap_ptr s + (p + j + k)"
  note B = heap_linked_block [OF l, folded p_def]
  note D = heap_linkedD [OF l]
  have l2: "heap_linked s ((ws @ [(j, False)]) @ (k, False) # zs)" using l by simp
  have B2: "chain s (p + j) (p + j + k) zs" "0 \<le> total zs" "12 \<le> k" "zs = [] \<or> 12 \<le> total zs" "k mod 4 = 0"
    using heap_linked_block [OF l2] by (simp_all add: p_def)
  have hd: "mem_used s mm = 0" "mem_magic s mm = 7840" "mem_prev s mm = last_off 0 0 ws" "mem_next s m2 = p + j + k"
    using B(2,3) by (simp_all add: mm_def m2_def)
  have ap: "mm + 12 \<le> m2" "m2 + 12 \<le> m3" using B(6) B2(3) by (simp_all add: mm_def m2_def m3_def)
  have range: "0 \<le> p" "0 \<le> p + j + k" "p < 4294967296" "p + j + k < 4294967296" using B(4-6,11,12) B2(2,3) by simp_all
  define a where "a = set_next mm (p + j + k) s"
  define t where "t = set_prev m3 p a"
  have t: "join_blocks (heap_ptr s + total ws) (heap_ptr s + (total ws + j)) s = t"
    using hd ap by (simp add: join_blocks_def Let_def p_def [symmetric] mm_def [symmetric] m2_def [symmetric]
        hdr_apart a_def t_def m3_def) (simp add: mm_def)
  have fr: "heap_ptr t = heap_ptr s" "heap_end t = heap_end s" "mem_size_aligned t = mem_size_aligned s"
    "lfree t = lfree s" "used_mem t = used_mem s" "max_mem t = max_mem s" "heap_sem t = heap_sem s"
    "mempools t = mempools s" "objs t = objs s" "rt_errno t = rt_errno s" "kern t = kern s" "heap_ptr a = heap_ptr s"
    by (simp_all add: t_def a_def)
  have ram: "ram t x = ram s x" if "x < mm \<or> mm + 12 \<le> x" "x < m3 \<or> m3 + 12 \<le> x" for x
    using that by (auto simp: t_def a_def set_ram)
  have hm: "mem_used t mm = 0" "mem_magic t mm = 7840" "mem_prev t mm = last_off 0 0 ws" "mem_next t mm = p + j + k"
    using hd ap range by (simp_all add: t_def a_def hdr_apart)
  have cx: "chain t 0 0 ws"
    by (rule chain_agree [OF B(1)]) (use ram ap B(6) B2(3) in \<open>auto simp: fr mm_def m3_def p_def\<close>)
  have "chain a (p + j) (p + j + k) zs"
    by (rule chain_agree [OF B2(1)]) (use ap in \<open>auto simp: a_def set_ram m3_def\<close>)
  from chain_set_prev [OF this range(1,3)] have cz: "chain t p (p + j + k) zs" by (simp add: t_def m3_def fr)
  have c: "chain t 0 0 (ws @ (j + k, False) # zs)"
  proof -
    have e: "total ws = p" "0 + p = p" "heap_ptr t + p = mm" "p + (j + k) = p + j + k" by (simp_all add: fr mm_def p_def)
    have "(j + k) mod 4 = 0" using B(7) B2(5) by presburger
    then show ?thesis unfolding chain_append using cx cz hm B(6) B2(3) by (simp only: chain.simps e) simp
  qed
  have "heap_end s = m3 \<or> m3 + 12 \<le> heap_end s" "mm + 12 \<le> heap_end s" using B(10) B2(2,4) ap by (auto simp: m3_def p_def mm_def)
  then have ends: "mem_used t (heap_end t) = 1" "mem_next t (heap_end t) = total (ws @ (j + k, False) # zs)"
    using D(4,5) by (auto simp: fr) (auto simp: t_def a_def hdr_apart)
  have "first_free (ws @ (j + k, False) # zs) = first_free (ws @ (j, False) # (k, False) # zs)"
    by (simp add: first_free_append)
  then show "heap_linked (join_blocks (heap_ptr s + total ws) (heap_ptr s + (total ws + j)) s) (ws @ (j + k, False) # zs)"
    unfolding t by (intro heap_linkedI) (use c ends D in \<open>simp_all add: fr\<close>)
  show "heap_same s (join_blocks (heap_ptr s + total ws) (heap_ptr s + (total ws + j)) s)"
    unfolding t by (simp add: heap_same_def fr)
  show "ram (join_blocks (heap_ptr s + total ws) (heap_ptr s + (total ws + j)) s) x = ram s x"
    if "x < heap_ptr s + total ws \<or> heap_ptr s + total ws + 12 \<le> x"
      "x < heap_ptr s + (total ws + j + k) \<or> heap_ptr s + (total ws + j + k) + 12 \<le> x"
    unfolding t by (rule ram) (use that in \<open>auto simp: mm_def m3_def p_def add.assoc\<close>)
qed

lemma coalesce_separated: "separated bs \<Longrightarrow> coalesce bs = bs"
  by (induction bs rule: separated.induct) auto

lemma coalesce_join: "coalesce (ws @ (j, False) # (k, False) # zs) = coalesce (ws @ (j + k, False) # zs)"
proof (induction "length ws" arbitrary: ws j rule: less_induct)
  case less
  show ?case
  proof (cases ws)
    case (Cons b vs)
    obtain n u where b: "b = (n, u)" by (cases b) simp
    have IH: "coalesce (vs @ (j, False) # (k, False) # zs) = coalesce (vs @ (j + k, False) # zs)"
      using less [of vs j] Cons by simp
    show ?thesis
    proof (cases u)
      case True
      then show ?thesis using Cons b IH by simp
    next
      case False
      show ?thesis
      proof (cases vs)
        case Nil
        then show ?thesis using Cons b False by (simp add: add.assoc)
      next
        case (Cons c us)
        obtain i v where c: "c = (i, v)" by (cases c) simp
        have l: "length us < length ws" "length ((n + i, False) # us) < length ws" using \<open>ws = b # vs\<close> Cons by simp_all
        show ?thesis
        proof (cases v)
          case True
          then show ?thesis using \<open>ws = b # vs\<close> Cons b c IH by simp
        next
          case False
          then show ?thesis using \<open>ws = b # vs\<close> Cons b c \<open>\<not> u\<close> less [OF l(2), of j] by simp
        qed
      qed
    qed
  qed simp
qed

text \<open>No header lies in the data of a used block.\<close>

lemma user_data_not_hdr:
  assumes "\<forall>(m, u) \<in> set (xs @ ys). 12 \<le> m" "x \<in> user_data a (xs @ ys)"
  shows "x < a + total xs \<or> a + total xs + 12 \<le> x"
  using user_data_range [of xs x a] user_data_range [of ys x "a + total xs"] assms
  by (auto simp: user_data_append)

lemma total_nonneg: "\<forall>(m, u) \<in> set bs. 12 \<le> m \<Longrightarrow> 0 \<le> total bs"
  by (induction bs) auto

lemma kept_not_hdr:
  assumes "\<forall>(m, u) \<in> set (xs @ ys). 12 \<le> m" "x \<in> kept a (xs @ ys)"
  shows "x < a + total xs \<or> a + total xs + 12 \<le> x"
  using user_data_not_hdr [OF assms(1), of x a] assms total_nonneg [of xs] total_nonneg [of ys] by (auto simp: kept_def)

lemma kept_outside_free:
  assumes "\<forall>(m, u) \<in> set (xs @ (m, False) # ys). 12 \<le> m" "x \<in> kept a (xs @ (m, False) # ys)"
  shows "x < a + total xs \<or> a + total xs + m + 12 \<le> x"
  using user_data_range [of xs x a] user_data_range [of ys x "a + total xs + m"] assms total_nonneg [of xs] total_nonneg [of ys]
  by (auto simp: kept_def user_data_append)

lemma first_free_at: "\<forall>(m, u) \<in> set xs. 12 \<le> m \<Longrightarrow> first_free (xs @ (m, False) # ys) \<le> total xs"
  using first_free_le [of xs] unfolding first_free_append by (cases "\<forall>(m, u) \<in> set xs. u") auto

lemma separated_free:
  assumes "separated (xs @ [(n, False)])" "ys = [] \<or> snd (hd ys)" "separated ys"
  shows "separated (xs @ (n, False) # ys)"
proof -
  have "separated ((n, False) # ys)" using assms(2,3) by (cases ys) auto
  with assms(1) show ?thesis using separated_append [of xs n False ys] by simp
qed

lemma separated_tl: "separated (b # bs) \<Longrightarrow> separated bs"
  by (cases b; cases bs) auto

lemma plug_forward:
  assumes l: "heap_linked s (xs @ (m, False) # ys)" and sep: "separated ((m, True) # ys)"
    and mm: "mm = heap_ptr s + total xs"
  shows "\<exists>m1 ys1 s1. plug_next mm s = s1 \<and> heap_linked s1 (xs @ (m1, False) # ys1) \<and> (ys1 = [] \<or> snd (hd ys1)) \<and> separated ys1 \<and>
     coalesce (xs @ (m, False) # ys) = coalesce (xs @ (m1, False) # ys1) \<and> heap_same s s1 \<and>
     kept (heap_ptr s) (xs @ (m, False) # ys) = kept (heap_ptr s) (xs @ (m1, False) # ys1) \<and>
     (\<forall>x \<in> kept (heap_ptr s) (xs @ (m, False) # ys). ram s1 x = ram s x)"
proof -
  note B = heap_linked_block [OF l] and D = heap_linkedD [OF l]
  define nm where "nm = heap_ptr s + mem_next s mm"
  have nx: "nm = heap_ptr s + (total xs + m)" using B(2) by (simp add: mm nm_def)
  show ?thesis
  proof (cases "\<exists>k zs. ys = (k, False) # zs")
    case False
    then have u: "ys = [] \<or> snd (hd ys)" by (cases ys) auto
    have "\<not> (mm \<noteq> nm \<and> mem_used s nm = 0 \<and> nm \<noteq> heap_end s)"
    proof (cases ys)
      case (Cons b zs)
      then obtain k where "b = (k, True)" using u by (cases b) auto
      then show ?thesis using B(3) Cons nx by auto
    qed (use nx B(10) in simp)
    then have "plug_next mm s = s" unfolding plug_next_def Let_def nm_def [symmetric] by (rule if_not_P)
    then show ?thesis using l u separated_tl [OF sep]
      by (intro exI [of _ m] exI [of _ ys] exI [of _ s]) (simp add: heap_same_def)
  next
    case True
    then obtain k zs where ys: "ys = (k, False) # zs" by blast
    have l': "heap_linked s (xs @ (m, False) # (k, False) # zs)" using l ys by simp
    define s1 where "s1 = join_blocks mm nm s"
    have nu: "mem_used s nm = 0" "nm \<noteq> heap_end s" "12 \<le> k" using B(3,10,14) ys nx by auto
    have "first_free (xs @ (m, False) # ys) \<le> total xs" by (rule first_free_at) (use B(13) in auto)
    then have "lfree s \<noteq> nm" using D(6) nx B(6) by simp
    then have run: "plug_next mm s = s1"
    proof -
      have "mm \<noteq> nm" using nx B(6) by (simp add: mm)
      then show ?thesis using nu \<open>lfree s \<noteq> nm\<close> by (simp add: s1_def plug_next_def nm_def [symmetric] join_blocks_def Let_def)
    qed
    note j = join_linked [OF l', folded mm nx s1_def]
    have ud: "kept (heap_ptr s) (xs @ (m, False) # ys) = kept (heap_ptr s) (xs @ (m + k, False) # zs)"
      by (simp add: kept_def ys user_data_append add.assoc)
    have "ram s1 x = ram s x" if x: "x \<in> kept (heap_ptr s) (xs @ (m, False) # ys)" for x
    proof (rule j(3))
      show "x < mm \<or> mm + 12 \<le> x" using kept_not_hdr [OF B(13) x] by (simp add: mm)
      show "x < heap_ptr s + (total xs + m + k) \<or> heap_ptr s + (total xs + m + k) + 12 \<le> x"
        using kept_not_hdr [of "xs @ [(m, False), (k, False)]" zs x "heap_ptr s"] B(13) x
        by (simp add: ys add.assoc)
    qed
    moreover have "separated zs" "zs = [] \<or> snd (hd zs)" using sep ys by (cases zs; auto dest: separated_tl)+
    ultimately show ?thesis
      using run j(1,2) ud coalesce_join [of xs m k zs] ys
      by (intro exI [of _ "m + k"] exI [of _ zs] exI [of _ s1]) simp
  qed
qed

lemma plug_holes_rep:
  assumes l: "heap_linked s (xs @ (m, False) # ys)" and sep: "separated (xs @ (m, True) # ys)"
  shows "\<exists>s'. plug_holes (heap_ptr s + total xs) s = Some s' \<and> heap_rep s' (coalesce (xs @ (m, False) # ys)) \<and>
    heap_same s s' \<and> (\<forall>x \<in> kept (heap_ptr s) (xs @ (m, False) # ys). ram s' x = ram s x)"
proof -
  define mm where "mm = heap_ptr s + total xs"
  note B = heap_linked_block [OF l]
  have g: "heap_ptr s \<le> mm" "mm < heap_end s" "mem_used s mm = 0" using B by (simp_all add: mm_def)
  have sep2: "separated ((m, True) # ys)" "separated (xs @ [(m, True)])" using sep separated_append by blast+
  obtain m1 ys1 s1 where f: "plug_next mm s = s1" "heap_linked s1 (xs @ (m1, False) # ys1)" "ys1 = [] \<or> snd (hd ys1)" "separated ys1"
     "coalesce (xs @ (m, False) # ys) = coalesce (xs @ (m1, False) # ys1)" "heap_same s s1"
     "kept (heap_ptr s) (xs @ (m, False) # ys) = kept (heap_ptr s) (xs @ (m1, False) # ys1)"
     "\<forall>x \<in> kept (heap_ptr s) (xs @ (m, False) # ys). ram s1 x = ram s x"
    using plug_forward [OF l sep2(1) mm_def] by blast
  note B1 = heap_linked_block [OF f(2)] and D1 = heap_linkedD [OF f(2)]
  have hp: "heap_ptr s1 = heap_ptr s" using f(6) by (simp add: heap_same_def)
  define pm where "pm = heap_ptr s1 + mem_prev s1 mm"
  have pm: "pm = heap_ptr s + last_off 0 0 xs" using B1(2) hp by (simp add: pm_def mm_def)
  define s2 where "s2 = plug_prev mm s1"
  have run: "plug_holes mm s = Some s2" using g f(1) by (simp add: plug_holes_def s2_def)
  show ?thesis
  proof (cases "\<exists>ws j. xs = ws @ [(j, False)]")
    case False
    have eq: "s2 = s1" if "pm = mm" using that by (simp add: s2_def plug_prev_def pm_def [symmetric])
    have "s2 = s1"
    proof (cases xs rule: rev_cases)
      case (snoc ws b)
      then obtain j where b: "b = (j, True)" using False by (cases b) auto
      have "mem_used s1 pm = 1" using B1(1) snoc b pm hp by (simp add: chain_append)
      then show ?thesis by (simp add: s2_def plug_prev_def pm_def [symmetric])
    qed (use pm in \<open>simp add: eq mm_def\<close>)
    moreover have "separated (xs @ [(m1, False)])"
    proof (cases xs rule: rev_cases)
      case (snoc ws b)
      then obtain j where b: "b = (j, True)" using False by (cases b) auto
      then show ?thesis using sep2(2) snoc separated_append [of ws j True "[(m, True)]"]
          separated_append [of ws j True "[(m1, False)]"] by simp
    qed simp
    then have "separated (xs @ (m1, False) # ys1)" by (rule separated_free [OF _ f(3,4)])
    ultimately show ?thesis
      using run f(2,5,6,8) by (intro exI [of _ s2]) (simp add: coalesce_separated heap_rep_def mm_def)
  next
    case True
    then obtain ws j where xs: "xs = ws @ [(j, False)]" by blast
    have l': "heap_linked s1 (ws @ (j, False) # (m1, False) # ys1)" using f(2) xs by simp
    note B' = heap_linked_block [OF l']
    have pm': "pm = heap_ptr s1 + total ws" "mm = heap_ptr s1 + (total ws + j)" using pm hp xs by (simp_all add: mm_def)
    have "mem_used s1 pm = 0" "pm \<noteq> mm" using B'(2,6) pm' by simp_all
    moreover have "first_free (ws @ (j, False) # (m1, False) # ys1) \<le> total ws"
      by (rule first_free_at) (use B'(13) in auto)
    then have "lfree s1 \<noteq> mm" using D1(6) xs pm' B'(6) by simp
    ultimately have s2: "s2 = join_blocks pm mm s1" by (simp add: s2_def plug_prev_def pm_def [symmetric] join_blocks_def Let_def)
    note j = join_linked [OF l', folded pm' s2]
    have "separated (ws @ [(j + m1, False)])"
      using sep2(2) xs separated_append [of ws j False "[(m, True)]"] separated_size [of ws j False "[]" "j + m1"] by simp
    then have "separated (ws @ (j + m1, False) # ys1)" by (rule separated_free [OF _ f(3,4)])
    then have r: "heap_rep s2 (coalesce (xs @ (m, False) # ys))"
      using j(1) f(5) coalesce_join [of ws j m1 ys1] xs by (simp add: heap_rep_def coalesce_separated)
    have "ram s2 x = ram s x" if x: "x \<in> kept (heap_ptr s) (xs @ (m, False) # ys)" for x
    proof -
      have x1: "x \<in> kept (heap_ptr s) (ws @ (j, False) # (m1, False) # ys1)" using x f(7) xs by simp
      have "ram s2 x = ram s1 x"
      proof (rule j(3))
        show "x < pm \<or> pm + 12 \<le> x" using kept_not_hdr [OF B'(13) x1] by (simp add: pm' hp)
        show "x < heap_ptr s1 + (total ws + j + m1) \<or> heap_ptr s1 + (total ws + j + m1) + 12 \<le> x"
          using kept_not_hdr [of "ws @ [(j, False), (m1, False)]" ys1 x "heap_ptr s"] B'(13) x1
          by (simp add: hp add.assoc)
      qed
      then show ?thesis using f(8) x by simp
    qed
    moreover have "heap_same s s2" using f(6) j(2) by (simp add: heap_same_def)
    ultimately show ?thesis using run r by (intro exI [of _ s2]) (simp add: mm_def)
  qed
qed

section \<open>Freeing and shrinking\<close>

lemma first_free_release:
  "\<forall>(k, v) \<in> set (xs @ (m, True) # ys). 12 \<le> k \<Longrightarrow>
   first_free (xs @ (m, False) # ys) = min (total xs) (first_free (xs @ (m, True) # ys))"
proof (cases "\<forall>(k, v) \<in> set xs. v")
  case True
  assume "\<forall>(k, v) \<in> set (xs @ (m, True) # ys). 12 \<le> k"
  moreover have "0 \<le> first_free ys" if "\<forall>(k, v) \<in> set ys. 12 \<le> k" using that by (induction ys) auto
  ultimately show ?thesis using True by (auto simp: first_free_append)
next
  case False
  assume "\<forall>(k, v) \<in> set (xs @ (m, True) # ys). 12 \<le> k"
  then have "first_free xs + 12 \<le> total xs" using first_free_le [of xs] False by auto
  moreover have "first_free (xs @ b # bs) = first_free xs" for b bs
    using False unfolding first_free_append by (rule if_not_P)
  ultimately show ?thesis by simp
qed

lemma free_block_rep:
  assumes h: "heap_rep s (xs @ (m, True) # ys)"
  shows "\<exists>s'. free_block (heap_ptr s + total xs) s = Some s' \<and> heap_rep s' (coalesce (xs @ (m, False) # ys)) \<and>
    heap_same s s' \<and> (\<forall>x \<in> kept (heap_ptr s) (xs @ (m, False) # ys). ram s' x = ram s x)"
proof -
  have l: "heap_linked s (xs @ (m, True) # ys)" and sep: "separated (xs @ (m, True) # ys)"
    using h by (simp_all add: heap_rep_def)
  define p where "p = total xs"
  define mm where "mm = heap_ptr s + p"
  note B = heap_linked_block [OF l, folded p_def] and D = heap_linkedD [OF l]
  have hd: "mem_used s mm = 1" "mem_next s mm = p + m" "mem_magic s mm = 7840" "mem_prev s mm = last_off 0 0 xs"
    using B(2) by (simp_all add: mm_def)
  have ut: "0 \<le> used_total xs" "used_total xs \<le> p" "0 \<le> used_total ys" "used_total ys \<le> total ys"
    using used_total_le [of xs] used_total_le [of ys] B(13) by (auto simp: p_def)
  define t where "t = set_magic mm 7840 (set_used mm 0 s)"
  define t3 where "t3 = (if mm < lfree s then t\<lparr>lfree := mm\<rparr> else t)\<lparr>used_mem := used_total (xs @ ys)\<rparr>"
  have fr: "heap_ptr t3 = heap_ptr s" "heap_end t3 = heap_end s" "mem_size_aligned t3 = mem_size_aligned s"
    "heap_sem t3 = heap_sem s" "mempools t3 = mempools s" "objs t3 = objs s" "rt_errno t3 = rt_errno s" "kern t3 = kern s" "max_mem t3 = max_mem s" "ram t3 = ram t"
    "lfree t3 = min mm (lfree s)" "used_mem t3 = used_total (xs @ ys)"
    by (auto simp: t3_def t_def)
  have ram: "ram t x = ram s x" if "x < mm \<or> mm + 12 \<le> x" for x using that by (auto simp: t_def set_ram)
  have run: "free_block mm s = plug_holes mm t3"
  proof -
    have "sz (used_mem s - m) = used_total (xs @ ys)" using D(7) ut B(4,5,6,11,12) by simp
    then show ?thesis using hd by (simp add: free_block_def Let_def t3_def t_def) (simp add: mm_def)
  qed
  have cx: "chain t3 0 0 xs" by (rule chain_agree [OF B(1)]) (use ram in \<open>auto simp: fr mm_def p_def\<close>)
  have cy: "chain t3 p (p + m) ys" by (rule chain_agree [OF B(3)]) (use ram B(6) in \<open>auto simp: fr mm_def\<close>)
  have hm: "mem_used t3 mm = 0" "mem_next t3 mm = p + m" "mem_magic t3 mm = 7840" "mem_prev t3 mm = last_off 0 0 xs"
    using hd by (simp_all add: t3_def t_def)
  have c: "chain t3 0 0 (xs @ (m, False) # ys)"
    using cx cy hm B(6,7) unfolding chain_append by (simp add: fr mm_def p_def)
  have "mm + 12 \<le> heap_end s" using B(4,5,6,10) by (simp add: mm_def)
  then have ends: "mem_used t3 (heap_end t3) = 1" "mem_next t3 (heap_end t3) = total (xs @ (m, False) # ys)"
    using D(4,5) by (simp_all add: t3_def t_def hdr_apart)
  have "lfree t3 = heap_ptr t3 + first_free (xs @ (m, False) # ys)"
    using first_free_release [OF B(13)] D(6) by (simp add: fr mm_def p_def)
  then have l3: "heap_linked t3 (xs @ (m, False) # ys)"
    by (intro heap_linkedI) (use c ends D B(6) in \<open>simp_all add: fr\<close>)
  obtain s' where s': "plug_holes mm t3 = Some s'" "heap_rep s' (coalesce (xs @ (m, False) # ys))" "heap_same t3 s'"
    "\<forall>x \<in> kept (heap_ptr s) (xs @ (m, False) # ys). ram s' x = ram t3 x"
    using plug_holes_rep [OF l3 sep] by (auto simp: fr mm_def p_def)
  have "ram s' x = ram s x" if x: "x \<in> kept (heap_ptr s) (xs @ (m, False) # ys)" for x
    using s'(4) x ram [of x] kept_not_hdr [of xs "(m, False) # ys" x "heap_ptr s"] B(13) by (auto simp: fr mm_def p_def)
  then show ?thesis using run s' by (intro exI [of _ s']) (simp add: mm_def p_def heap_same_def fr)
qed

lemma release_at_skip: "\<forall>(k, v) \<in> set bs. 12 \<le> k \<Longrightarrow> a < p \<Longrightarrow> release_at a p bs = bs"
  by (induction bs arbitrary: p) auto

lemma release_at_block:
  "\<forall>(k, v) \<in> set (xs @ (m, u) # ys). 12 \<le> k \<Longrightarrow> release_at (p + total xs) p (xs @ (m, u) # ys) = xs @ (m, False) # ys"
proof (induction xs arbitrary: p)
  case Nil
  then show ?case using release_at_skip [of ys p "p + m"] by auto
next
  case (Cons b xs)
  obtain k v where b: "b = (k, v)" by (cases b) simp
  have "0 \<le> total xs" using Cons.prems by (induction xs) auto
  then show ?case using Cons.IH [of "p + k"] Cons.prems b by (auto simp: add.assoc)
qed

lemma separated_split: "separated (xs @ (m, True) # ys) \<Longrightarrow> separated ((xs @ [(j, True)]) @ (k, True) # ys)"
  using separated_append [of xs m True ys] separated_append [of xs j True "(k, True) # ys"]
    separated_size [of xs m True "[]" j] separated_tl [of "(m, True)" ys] by (cases ys) auto

lemma realloc_split_rep:
  assumes h: "heap_rep s (xs @ (m, True) # ys)" and n: "0 < n" "n + 36 < m" "n mod 4 = 0"
  shows "\<exists>s'. realloc_split n (m - 12) (total xs) s = Some s' \<and>
    heap_rep s' (coalesce (xs @ (n + 12, True) # (m - n - 12, False) # ys)) \<and> heap_same s s' \<and>
    (\<forall>x \<in> kept (heap_ptr s) (xs @ (n + 12, True) # (m - n - 12, False) # ys). ram s' x = ram s x)"
proof -
  have l: "heap_linked s (xs @ (m, True) # ys)" and sep: "separated (xs @ (m, True) # ys)"
    using h by (simp_all add: heap_rep_def)
  let ?bs = "xs @ (n + 12, True) # (m - n - 12, False) # ys"
  define p where "p = total xs"
  define mm where "mm = heap_ptr s + p"
  define p2 where "p2 = p + 12 + n"
  define m2 where "m2 = heap_ptr s + p2"
  note B = heap_linked_block [OF l, folded p_def] and D = heap_linkedD [OF l]
  have hd: "mem_used s mm = 1" "mem_next s mm = p + m" "mem_magic s mm = 7840" "mem_prev s mm = last_off 0 0 xs"
    using B(2) by (simp_all add: mm_def)
  have ut: "0 \<le> used_total xs" "used_total xs \<le> p" "0 \<le> used_total ys" "used_total ys \<le> total ys"
    using used_total_le [of xs] used_total_le [of ys] B(13) by (auto simp: p_def)
  have range: "0 \<le> p + m" "p + m < 4294967296" "p < 4294967296" "0 \<le> p2" "p2 < 4294967296" "p2 + 12 \<le> p + m"
    using n B(4,5,6,11,12) by (simp_all add: p2_def)
  define s0 where "s0 = s\<lparr>used_mem := sz (used_mem s - (m - 12 - n))\<rparr>"
  define a where "a = set_next mm p2 (set_prev m2 p (set_next m2 (p + m) (set_used m2 0 (set_magic m2 7840 s0))))"
  define b where "b = (if p + m \<noteq> mem_size_aligned s + 12 then set_prev (heap_ptr s + (p + m)) p2 a else a)"
  define t where "t = (if m2 < lfree b then b\<lparr>lfree := m2\<rparr> else b)"
  have ap: "mm + 12 \<le> m2" "m2 + 12 \<le> heap_ptr s + (p + m)" using range n by (auto simp: mm_def m2_def p2_def)
  have tb: "ram t = ram b" "heap_ptr t = heap_ptr b" by (simp_all add: t_def)
  note tb' = hdr_ram [OF tb(1)]
  have fr: "heap_ptr t = heap_ptr s" "heap_end t = heap_end s" "mem_size_aligned t = mem_size_aligned s"
    "heap_sem t = heap_sem s" "mempools t = mempools s" "objs t = objs s" "rt_errno t = rt_errno s" "kern t = kern s" "max_mem t = max_mem s" "heap_ptr a = heap_ptr s"
    "lfree t = min m2 (lfree s)" "used_mem t = sz (used_mem s - (m - 12 - n))" "mem_size_aligned a = mem_size_aligned s"
    by (auto simp: t_def b_def a_def s0_def)
  have ram: "ram t x = ram s x" if "x < mm \<or> mm + 12 \<le> x" "x < m2 \<or> m2 + 12 \<le> x"
      "x < heap_ptr s + (p + m) \<or> heap_ptr s + (p + m) + 12 \<le> x" for x
    using that by (auto simp: tb b_def a_def s0_def set_ram)
  have run: "realloc_split n (m - 12) p s = plug_holes m2 t"
  proof -
    have z: "sz (p + 12 + n) = p2" "sz (mem_size_aligned s + 12) = mem_size_aligned s + 12"
      using range B(4,5,6,9,11,12) by (simp_all add: p2_def)
    have e0: "heap_ptr s0 = heap_ptr s" "mem_size_aligned s0 = mem_size_aligned s" by (simp_all add: s0_def)
    have e1: "mem_next (set_used m2 0 (set_magic m2 7840 s0)) mm = p + m" using ap hd by (simp add: hdr_apart s0_def)
    have e2: "mem_next a m2 = p + m" using ap range unfolding a_def by (simp add: hdr_apart)
    show ?thesis
      unfolding realloc_split_def Let_def s0_def [symmetric] e0 mm_def [symmetric] z m2_def [symmetric] e1
        a_def [symmetric] e2 fr z b_def [symmetric] t_def [symmetric] ..
  qed
  have hm: "mem_used t mm = 1" "mem_next t mm = p2" "mem_magic t mm = 7840" "mem_prev t mm = last_off 0 0 xs"
    "mem_used t m2 = 0" "mem_next t m2 = p + m" "mem_magic t m2 = 7840" "mem_prev t m2 = p"
    using hd ap range by (simp_all add: tb' b_def a_def s0_def hdr_apart B(4))
  have cx: "chain t 0 0 xs"
    by (rule chain_agree [OF B(1)]) (use ap ram in \<open>auto simp: fr mm_def p_def\<close>)
  have cy: "chain t p2 (p + m) ys"
  proof (cases "ys = []")
    case False
    then have ne: "p + m \<noteq> mem_size_aligned s + 12" using B(9,14) by auto
    have "chain a p (p + m) ys"
      by (rule chain_agree [OF B(3)]) (use ap in \<open>auto simp: a_def s0_def set_ram\<close>)
    from chain_set_prev [OF this range(4,5)] have c: "chain b p2 (p + m) ys" using ne by (simp add: b_def fr)
    show ?thesis by (rule chain_agree [OF c]) (use tb in auto)
  qed simp
  have c: "chain t 0 0 ?bs"
  proof -
    have e: "total xs = p" "0 + p = p" "heap_ptr t + p = mm" "p + (n + 12) = p2" "heap_ptr t + p2 = m2"
      "p2 + (m - n - 12) = p + m" by (simp_all add: fr mm_def m2_def p2_def p_def)
    have "(n + 12) mod 4 = 0" "(m - n - 12) mod 4 = 0" using n(3) B(7) by presburger+
    then show ?thesis unfolding chain_append using cx cy hm n by (simp only: chain.simps e) simp
  qed
  have e: "mem_used s (heap_end s) = 1" "mem_next s (heap_end s) = p + m + total ys" "heap_end s = heap_ptr s + (p + m + total ys)"
    using D(4,5) B(10) by (simp_all add: p_def)
  have ape: "mm + 12 \<le> heap_end s" "m2 + 12 \<le> heap_end s" "ys \<noteq> [] \<Longrightarrow> heap_ptr s + (p + m) + 12 \<le> heap_end s"
    using ap e(3) B(5,14) by auto
  have "ys = [] \<Longrightarrow> b = a" using B(9) by (simp add: b_def)
  then have "mem_used t (heap_end s) = 1 \<and> mem_next t (heap_end s) = p + m + total ys"
    using e ape by (cases "ys = []") (auto simp: tb' b_def a_def s0_def hdr_apart)
  then have ends: "mem_used t (heap_end t) = 1" "mem_next t (heap_end t) = total ?bs" by (simp_all add: fr p_def)
  have um: "used_mem t = used_total ?bs" "used_mem t \<le> max_mem t"
    using D(7,8) ut B(4,5,6,11,12) n by (simp_all add: fr)
  have sizes: "\<forall>(k, v) \<in> set ((xs @ [(n + 12, True)]) @ (m - n - 12, True) # ys). 12 \<le> k" using B(13) n by auto
  have "first_free ?bs = min p2 (first_free (xs @ (n + 12, True) # (m - n - 12, True) # ys))"
    using first_free_release [OF sizes] by (simp add: p_def p2_def add.assoc)
  moreover have "first_free (xs @ (n + 12, True) # (m - n - 12, True) # ys) = first_free (xs @ (m, True) # ys)"
    by (simp add: first_free_append)
  ultimately have "lfree t = heap_ptr t + first_free ?bs" using D(6) by (simp add: fr m2_def)
  then have "heap_linked t ?bs"
    by (intro heap_linkedI) (use c ends um D in \<open>simp_all add: fr\<close>)
  then have lt: "heap_linked t ((xs @ [(n + 12, True)]) @ (m - n - 12, False) # ys)" by simp
  have m2: "heap_ptr t + total (xs @ [(n + 12, True)]) = m2" by (simp add: fr m2_def p2_def p_def)
  obtain s' where s': "plug_holes m2 t = Some s'" "heap_rep s' (coalesce ?bs)" "heap_same t s'"
    "\<forall>x \<in> kept (heap_ptr s) ?bs. ram s' x = ram t x"
    using plug_holes_rep [OF lt separated_split [OF sep], unfolded m2] by (auto simp: fr)
  have "ram s' x = ram s x" if x: "x \<in> kept (heap_ptr s) ?bs" for x
  proof -
    have sz: "\<forall>(k, v) \<in> set ?bs. 12 \<le> k" using B(13) n by auto
    have "ram t x = ram s x"
    proof (rule ram)
      show "x < mm \<or> mm + 12 \<le> x" using kept_not_hdr [OF sz x] by (simp add: mm_def p_def)
      show "x < m2 \<or> m2 + 12 \<le> x"
        using kept_not_hdr [of "xs @ [(n + 12, True)]" "(m - n - 12, False) # ys" x "heap_ptr s"] sz x
        by (simp add: m2_def p2_def p_def add.assoc) (simp add: add.commute)
      show "x < heap_ptr s + (p + m) \<or> heap_ptr s + (p + m) + 12 \<le> x"
        using kept_not_hdr [of "xs @ [(n + 12, True), (m - n - 12, False)]" ys x "heap_ptr s"] sz x by (simp add: p_def)
    qed
    then show ?thesis using s'(4) x by simp
  qed
  then show ?thesis using run s' by (intro exI [of _ s']) (simp add: p_def heap_same_def fr)
qed

end
