(* ===== verification/Heap_Ops.thy ===== *)
theory Heap_Ops
  imports Heap
begin

text \<open>
  The properties of the heap: against the reference allocator when nobody else uses the heap, and, for
  every interleaving with other threads, in terms of the blocks a thread owns.
\<close>

section \<open>Blocks in use\<close>

fun used_set :: "int \<Rightarrow> blocks \<Rightarrow> (int \<times> int) set" where
  "used_set p [] = {}"
| "used_set p ((m, u) # bs) = (if u then {(p, m)} else {}) \<union> used_set (p + m) bs"

lemma used_set_append: "used_set p (xs @ ys) = used_set p xs \<union> used_set (p + total xs) ys"
  by (induction xs arbitrary: p) (auto simp: add.assoc)

lemma used_set_split: "(a, m) \<in> used_set p bs \<Longrightarrow> \<exists>xs ys. bs = xs @ (m, True) # ys \<and> a = p + total xs"
proof (induction bs arbitrary: p)
  case (Cons b bs)
  obtain k v where b: "b = (k, v)" by (cases b) simp
  show ?case
  proof (cases "v \<and> (a, m) = (p, k)")
    case True
    then show ?thesis using b by (intro exI [of _ "[]"] exI [of _ bs]) simp
  next
    case False
    then have "(a, m) \<in> used_set (p + k) bs" using Cons.prems b by (auto split: if_splits)
    then obtain xs ys where "bs = xs @ (m, True) # ys" "a = p + k + total xs" using Cons.IH by blast
    then show ?thesis using b by (intro exI [of _ "b # xs"] exI [of _ ys]) simp
  qed
qed simp

lemma used_set_range:
  "\<forall>(m, u) \<in> set bs. 12 \<le> m \<Longrightarrow> (a, m) \<in> used_set p bs \<Longrightarrow> p \<le> a \<and> 12 \<le> m \<and> a + m \<le> p + total bs"
proof (induction bs arbitrary: p)
  case (Cons b bs)
  have "0 \<le> total bs" using Cons.prems(1) by (induction bs) auto
  then show ?case using Cons.IH [of "p + fst b"] Cons.prems by (cases b) (auto split: if_splits)
qed simp

lemma used_set_disjoint:
  "\<forall>(m, u) \<in> set bs. 12 \<le> m \<Longrightarrow> (a, m) \<in> used_set p bs \<Longrightarrow> (b, k) \<in> used_set p bs \<Longrightarrow>
   (a, m) = (b, k) \<or> a + m \<le> b \<or> b + k \<le> a"
proof (induction bs arbitrary: p)
  case (Cons c bs)
  obtain j v where c: "c = (j, v)" by (cases c) simp
  have r: "p + j \<le> x" if "(x, y) \<in> used_set (p + j) bs" for x y
    using used_set_range [of bs x y "p + j"] Cons.prems(1) that by auto
  have IH: "(a, m) = (b, k) \<or> a + m \<le> b \<or> b + k \<le> a" if "(a, m) \<in> used_set (p + j) bs" "(b, k) \<in> used_set (p + j) bs"
    using Cons.IH [OF _ that] Cons.prems(1) by auto
  show ?case using Cons.prems(2,3) c IH r [of a m] r [of b k] by (auto split: if_splits)
qed simp

lemma used_set_coalesce: "used_set p (coalesce bs) = used_set p bs"
proof (induction bs arbitrary: p rule: coalesce.induct)
  case (1 n m bs)
  then show ?case using 1 [of p] by (simp add: add.assoc)
qed auto

lemma used_set_data: "(b, m) \<in> used_set p bs \<Longrightarrow> {h + b + 12 ..< h + b + m} \<subseteq> user_data (h + p) bs"
proof (induction bs arbitrary: p)
  case (Cons c bs)
  obtain j v where c: "c = (j, v)" by (cases c) simp
  show ?case
  proof (cases "(b, m) \<in> used_set (p + j) bs")
    case True
    then show ?thesis using Cons.IH [OF True] c by (auto simp: add.assoc)
  next
    case False
    then show ?thesis using Cons.prems c by (auto split: if_splits)
  qed
qed simp

lemma used_set_carve:
  "used_set p (xs @ (m, False) # ys) \<subseteq> used_set p (xs @ carve n m @ ys)"
  "\<exists>k \<ge> n + 12. (p + total xs, k) \<in> used_set p (xs @ carve n m @ ys)" if "n + 12 \<le> m"
  using that by (auto simp: used_set_append carve_def add.assoc) 

lemma used_set_new:
  assumes "\<forall>(k, v) \<in> set (xs @ (m, False) # ys). 12 \<le> k" "(p + total xs, k) \<in> used_set p (xs @ (m, False) # ys)"
  shows False
proof -
  have "\<forall>(k, v) \<in> set xs. 12 \<le> k" "\<forall>(k, v) \<in> set ys. 12 \<le> k" "12 \<le> m" using assms(1) by auto
  then show False
    using assms(2) used_set_range [of xs "p + total xs" k p] used_set_range [of ys "p + total xs" k "p + total xs + m"]
    by (auto simp: used_set_append)
qed

section \<open>A thread's view of the heap\<close>

text \<open>
  \<open>heap_ok c B D s\<close>: kernel and heap are consistent, \<open>c\<close> are the heap's constants, the blocks \<open>B\<close>
  (offset and size) are in use and their data is as \<open>D\<close> says.
\<close>

definition heap_const :: "sys \<Rightarrow> int \<times> int \<times> int \<times> obj" where
  "heap_const s = (heap_ptr s, heap_end s, mem_size_aligned s, heap_sem s)"

definition data_of :: "int \<Rightarrow> (int \<times> int) set \<Rightarrow> int set" where
  "data_of h B = (\<Union>(a, m) \<in> B. {h + a + 12 ..< h + a + m})"

definition heap_ok :: "int \<times> int \<times> int \<times> obj \<Rightarrow> (int \<times> int) set \<Rightarrow> ram \<Rightarrow> sys \<Rightarrow> bool" where
  "heap_ok c B D s \<longleftrightarrow>
     heap_const s = c \<and> kinv (kern s) \<and>
     (sem_flag (semaphores (kern s) (heap_sem s)) = 0 \<or> sem_flag (semaphores (kern s) (heap_sem s)) = 1) \<and>
     (\<exists>bs. heap_rep s bs \<and> B \<subseteq> used_set 0 bs) \<and> (\<forall>x \<in> data_of (heap_ptr s) B. ram s x = D x)"

definition running :: "sys \<Rightarrow> bool" where
  "running s \<longleftrightarrow> (\<exists>t. current_thread (kern s) = Some t \<and> thread_stat (kern s) t = 3) \<and> interrupt_nest (kern s) = 0"

text \<open>
  \<open>holds c Q r\<close>: the run \<open>r\<close> fails no assertion and ends with \<open>Q\<close>, whatever other threads do at the points
  where they run, provided they leave the heap consistent and the blocks the caller owns there alone.
\<close>

primrec holds :: "int \<times> int \<times> int \<times> obj \<Rightarrow> ('a \<Rightarrow> sys \<Rightarrow> bool) \<Rightarrow> 'a run \<Rightarrow> bool" where
  "holds c Q (Done s x) \<longleftrightarrow> Q x s"
| "holds c Q (Yields s k) \<longleftrightarrow>
     (\<exists>B D. heap_ok c B D s \<and> (\<forall>s'. heap_ok c B D s' \<longrightarrow> running s' \<longrightarrow> holds c Q (k s')))"
| "holds c Q Stuck \<longleftrightarrow> False"

lemma holds_then:
  "holds c Q r \<Longrightarrow> (\<And>x s. Q x s \<Longrightarrow> holds c P (f x s)) \<Longrightarrow> holds c P (run_then r f)"
proof (induction r)
  case (Yields s k)
  obtain B D where o: "heap_ok c B D s" "\<And>s'. heap_ok c B D s' \<Longrightarrow> running s' \<Longrightarrow> holds c Q (k s')"
    using Yields.prems(1) by auto
  have "holds c P (run_then (k s') f)" if "heap_ok c B D s'" "running s'" for s'
    by (rule Yields.IH [OF rangeI o(2) [OF that] Yields.prems(2)])
  then show ?case using o(1) by auto
qed auto

lemma holds_mono: "holds c Q r \<Longrightarrow> (\<And>x s. Q x s \<Longrightarrow> P x s) \<Longrightarrow> holds c P r"
proof (induction r)
  case (Yields s k)
  obtain B D where o: "heap_ok c B D s" "\<And>s'. heap_ok c B D s' \<Longrightarrow> running s' \<Longrightarrow> holds c Q (k s')"
    using Yields.prems(1) by auto
  have "holds c P (k s')" if "heap_ok c B D s'" "running s'" for s'
    by (rule Yields.IH [OF rangeI o(2) [OF that] Yields.prems(2)])
  then show ?case using o(1) by auto
qed auto

lemma chain_kern [simp]: "chain (s\<lparr>kern := k\<rparr>) q p bs = chain s q p bs"
  by (induction bs arbitrary: q p) auto

lemma heap_rep_kern [simp]: "heap_rep (s\<lparr>kern := k\<rparr>) bs = heap_rep s bs"
  by (simp add: heap_rep_def heap_linked_def)

lemma heap_ok_kern:
  assumes "heap_ok c B D s" "kinv k" "sem_flag (semaphores k (heap_sem s)) = sem_flag (semaphores (kern s) (heap_sem s))"
  shows "heap_ok c B D (s\<lparr>kern := k\<rparr>)"
  using assms by (simp add: heap_ok_def heap_const_def)

lemma take_holds:
  assumes ok: "heap_ok c B D s" and run: "running s"
    and f: "\<And>s'. heap_ok c B D s' \<Longrightarrow> running s' \<Longrightarrow> holds c Q (f s')"
  shows "holds c Q (take_heap_sem f s)"
proof -
  obtain t where t: "current_thread (kern s) = Some t" "thread_stat (kern s) t = 3" "interrupt_nest (kern s) = 0"
    using run by (auto simp: running_def)
  have k: "kinv (kern s)"
    "sem_flag (semaphores (kern s) (heap_sem s)) = 0 \<or> sem_flag (semaphores (kern s) (heap_sem s)) = 1"
    using ok by (simp_all add: heap_ok_def)
  show ?thesis
  proof (cases "sem_value (semaphores (kern s) (heap_sem s)) = 0")
    case True
    have tm: "timeout_ok (- 1)" "(- 1 :: int) \<noteq> 0" by (simp_all add: timeout_ok_def)
    obtain k' where k': "rt_sem_take (heap_sem s) (- 1) (kern s) = Some (Wait k' 0)"
      "waits_on (Suspend (heap_sem s)) t (sem_flag (semaphores (kern s) (heap_sem s))) (- 1) (kern s) k'"
      by (rule sem_take_blocks [OF k(1) t k(2) tm True]) blast
    have "kinv k'" "semaphores k' = semaphores (kern s)" using k'(2) ipc_sameD(1) by (auto simp: waits_on_def)
    then have "heap_ok c B D (s\<lparr>kern := k'\<rparr>)" using ok by (intro heap_ok_kern) auto
    then show ?thesis using k'(1) f by (simp add: take_heap_sem_def) blast
  next
    case False
    let ?s = "s\<lparr>kern := upd_sem (heap_sem s) (\<lambda>x. x\<lparr>sem_value := sem_value x - 1\<rparr>) (kern s)\<rparr>"
    have "heap_ok c B D ?s" using ok k(1) by (intro heap_ok_kern) auto
    moreover have "running ?s" using t by (simp add: running_def)
    ultimately show ?thesis using f False by (simp add: take_heap_sem_def rt_sem_take_def word_gt_0)
  qed
qed

lemma release_holds:
  assumes ok: "heap_ok c B D s" and run: "running s"
    and f: "\<And>s'. heap_ok c B D s' \<Longrightarrow> running s' \<Longrightarrow> holds c Q (f s')"
  shows "holds c Q (release_heap_sem f s)"
proof -
  obtain t where t: "current_thread (kern s) = Some t" "thread_stat (kern s) t = 3" "interrupt_nest (kern s) = 0"
    using run by (auto simp: running_def)
  have k: "kinv (kern s)" using ok by (simp add: heap_ok_def)
  show ?thesis
  proof (cases "tlists (kern s) (Suspend (heap_sem s)) = []")
    case True
    define k' where "k' = (if sem_value (semaphores (kern s) (heap_sem s)) < 65535
      then (upd_sem (heap_sem s) (\<lambda>x. x\<lparr>sem_value := sem_value x + 1\<rparr>) (kern s), 0) else (kern s, - 3 :: int))"
    have k': "rt_sem_release (heap_sem s) (kern s) = Some k'" "kinv (fst k')" "current_thread (fst k') = Some t"
      "threads (fst k') = threads (kern s)" "interrupt_nest (fst k') = 0"
      "sem_flag (semaphores (fst k') (heap_sem s)) = sem_flag (semaphores (kern s) (heap_sem s))"
      using True k t by (simp_all add: rt_sem_release_def k'_def)
    have "heap_ok c B D (s\<lparr>kern := fst k'\<rparr>)" using ok k' by (intro heap_ok_kern) auto
    moreover have "running (s\<lparr>kern := fst k'\<rparr>)" using k' t by (simp add: running_def)
    ultimately show ?thesis using k'(1) True f by (simp add: release_heap_sem_def split_beta)
  next
    case False
    obtain k1 k' where k': "ipc_list_resume (Suspend (heap_sem s)) (kern s) = Some k1" "rt_schedule k1 = Some k'"
      "woken (Suspend (heap_sem s)) (kern s) k'"
      by (rule wake_spec [OF k _ _ False]) (use t in auto)
    have "kinv k'" "semaphores k' = semaphores (kern s)" using k'(3) ipc_sameD(1) by (auto simp: woken_def)
    then have "heap_ok c B D (s\<lparr>kern := k'\<rparr>)" using ok by (intro heap_ok_kern) auto
    then show ?thesis using k' f False by (simp add: release_heap_sem_def rt_sem_release_def) blast
  qed
qed

section \<open>The operations\<close>

lemma heap_okD:
  assumes "heap_ok c B D s"
  obtains bs where "heap_const s = c" "heap_rep s bs" "B \<subseteq> used_set 0 bs" "\<forall>(m, u) \<in> set bs. 12 \<le> m"
    "\<forall>x \<in> data_of (heap_ptr s) B. ram s x = D x"
proof -
  obtain bs where b: "heap_const s = c" "heap_rep s bs" "B \<subseteq> used_set 0 bs" "\<forall>x \<in> data_of (heap_ptr s) B. ram s x = D x"
    using assms by (auto simp: heap_ok_def)
  have "\<forall>(m, u) \<in> set bs. 12 \<le> m" using b(2) chain_sizes [of s 0 0 bs] by (auto simp: heap_rep_def heap_linked_def)
  with that b show thesis by blast
qed

lemma data_of_iff: "x \<in> data_of h B \<longleftrightarrow> (\<exists>e j. (e, j) \<in> B \<and> h + e + 12 \<le> x \<and> x < h + e + j)"
  by (force simp: data_of_def)

lemma data_of_subset: "B \<subseteq> used_set 0 bs \<Longrightarrow> data_of h B \<subseteq> user_data h bs"
  using used_set_data [of _ _ 0 bs h] by (fastforce simp: data_of_def)

lemma data_of_kept: "B \<subseteq> used_set 0 bs \<Longrightarrow> x \<in> data_of h B \<Longrightarrow> x \<in> kept h bs"
  using data_of_subset [of B bs h] by (auto simp: kept_def)

lemma heap_ok_step:
  assumes ok: "heap_ok c B D s" and r: "heap_rep s' bs'" and same: "heap_same s s'"
    and B': "B' \<subseteq> used_set 0 bs'" and D': "\<forall>x \<in> data_of (heap_ptr s) B'. ram s' x = D' x"
  shows "heap_ok c B' D' s'"
  using assms by (auto simp: heap_ok_def heap_same_def heap_const_def)

lemma running_same: "heap_same s s' \<Longrightarrow> running s' = running s"
  by (simp add: heap_same_def running_def)

text \<open>The request as \<open>rt_malloc\<close> rounds it.\<close>

definition request :: "int \<Rightarrow> int" where
  "request n = max 12 (rt_align n)"

text \<open>What \<open>rt_malloc\<close> may return to a thread that owns \<open>B\<close>: nothing, or a new block besides \<open>B\<close>.\<close>

definition malloc_post :: "int \<times> int \<times> int \<times> obj \<Rightarrow> (int \<times> int) set \<Rightarrow> ram \<Rightarrow> int \<Rightarrow> int \<Rightarrow> sys \<Rightarrow> bool" where
  "malloc_post c B D n p s \<longleftrightarrow> running s \<and>
     (if p = 0 then heap_ok c B D s
      else \<exists>a m E. p = fst c + a + 12 \<and> p mod 4 = 0 \<and> n + 12 \<le> m \<and> (a, m) \<notin> B \<and>
             heap_ok c (insert (a, m) B) E s \<and> (\<forall>x \<in> data_of (fst c) B. E x = D x))"

lemma malloc_locked_holds:
  assumes ok: "heap_ok c B D s" and run: "running s" and n: "12 \<le> n" "n mod 4 = 0" "n \<le> mem_size_aligned s"
  shows "holds c (malloc_post c B D n) (malloc_locked n s)"
proof -
  obtain bs where b: "heap_const s = c" "heap_rep s bs" "B \<subseteq> used_set 0 bs" "\<forall>(m, u) \<in> set bs. 12 \<le> m"
    "\<forall>x \<in> data_of (heap_ptr s) B. ram s x = D x"
    by (rule heap_okD [OF ok])
  note find = malloc_find_first [OF b(2) n(1,3)]
  have hp: "fst c = heap_ptr s" using b(1) by (auto simp: heap_const_def)
  show ?thesis
  proof (cases "alloc_blocks (mem_size_aligned s) n 0 bs")
    case None
    have "holds c (malloc_post c B D n) (release_heap_sem (\<lambda>s1. Done s1 0) s)"
      by (rule release_holds [OF ok run]) (simp add: malloc_post_def)
    then show ?thesis using find None by (simp add: malloc_locked_def)
  next
    case (Some r)
    obtain a cs where r: "r = (a, cs)" by (cases r) simp
    obtain xs m ys where d: "bs = xs @ (m, False) # ys" "a = total xs" "n + 12 \<le> m" "cs = xs @ carve n m @ ys"
      using alloc_blocks_Some [OF Some [unfolded r]] by auto
    obtain s1 where s1: "malloc_block n a s = Some s1" "heap_rep s1 cs" "heap_same s s1"
      "\<forall>x. x < heap_ptr s + a \<or> heap_ptr s + a + m + 12 \<le> x \<longrightarrow> ram s1 x = ram s x"
      using malloc_block_rep [OF b(2) [unfolded d(1)] n(1) d(3) n(2)] d by auto
    obtain k where k: "n + 12 \<le> k" "(a, k) \<in> used_set 0 cs" using used_set_carve(2) [OF d(3), of 0 xs ys] d by auto
    have sub: "B \<subseteq> used_set 0 cs" using b(3) used_set_carve(1) [OF d(3), of 0 xs ys] d by auto
    have new: "(a, k) \<notin> B" using b(3,4) used_set_new [of xs m ys 0 k] d by auto
    have keep: "ram s1 x = D x" if x: "x \<in> data_of (heap_ptr s) B" for x
    proof -
      have u: "x \<in> user_data (heap_ptr s) (xs @ (m, False) # ys)" using data_of_subset [OF b(3), of "heap_ptr s"] x d by auto
      have "x < heap_ptr s + a \<or> heap_ptr s + a + m + 12 \<le> x"
        using u b(4) user_data_range [of xs x "heap_ptr s"] user_data_range [of ys x "heap_ptr s + a + m"] d
        by (auto simp: user_data_append)
      then show ?thesis using s1(4) b(5) x by auto
    qed
    have l: "heap_linked s bs" using b(2) by (simp add: heap_rep_def)
    have sz: "0 \<le> a" "a + n + 24 \<le> mem_size_aligned s + 24" "heap_end s = heap_ptr s + (mem_size_aligned s + 12)"
      "heap_end s + 12 \<le> 4294967296" "0 < heap_ptr s" "heap_ptr s mod 4 = 0" "a mod 4 = 0"
      using heap_linked_block [OF l [unfolded d(1)]] heap_linkedD [OF l] d(1-3) by auto
    have ok1: "heap_ok c (insert (a, k) B) (ram s1) s1"
      by (rule heap_ok_step [OF ok s1(2,3)]) (use k sub in auto)
    have "holds c (malloc_post c B D n) (release_heap_sem (malloc_return n (heap_ptr s + a)) s1)"
    proof (rule release_holds [OF ok1])
      show "running s1" using run running_same [OF s1(3)] by simp
      fix s' assume s': "heap_ok c (insert (a, k) B) (ram s1) s'" "running s'"
      have c': "heap_ptr s' = heap_ptr s" "heap_end s' = heap_end s" using s'(1) b(1) by (auto simp: heap_ok_def heap_const_def)
      have m4: "(heap_ptr s + a) mod 4 = 0" "(heap_ptr s + a + 12) mod 4 = 0" using sz(6,7) by presburger+
      have "sz (heap_ptr s + a + 12 + n) \<le> heap_end s'" using sz n(1) by (simp add: c')
      then have "malloc_return n (heap_ptr s + a) s' = Done s' (heap_ptr s + a + 12)"
        using m4 by (simp add: malloc_return_def)
      moreover have "malloc_post c B D n (heap_ptr s + a + 12) s'"
        unfolding malloc_post_def
        using s' k(1) new keep hp sz m4 by (auto intro!: exI [of _ a] exI [of _ k] exI [of _ "ram s1"])
      ultimately show "holds c (malloc_post c B D n) (malloc_return n (heap_ptr s + a) s')" by simp
    qed
    then show ?thesis using find Some r s1(1) by (simp add: malloc_locked_def)
  qed
qed

lemma malloc_post_mono:
  assumes "malloc_post c B D r p s" "n \<le> r"
  shows "malloc_post c B D n p s"
proof (cases "p = 0")
  case False
  then obtain a m E where "p = fst c + a + 12" "p mod 4 = 0" "r + 12 \<le> m" "(a, m) \<notin> B"
    "heap_ok c (insert (a, m) B) E s" "\<forall>x \<in> data_of (fst c) B. E x = D x" "running s"
    using assms(1) by (auto simp: malloc_post_def)
  then show ?thesis using assms(2) False unfolding malloc_post_def by (auto intro!: exI [of _ a] exI [of _ m] exI [of _ E])
qed (use assms in \<open>simp add: malloc_post_def\<close>)

lemma rt_malloc_holds:
  assumes ok: "heap_ok c B D s" and run: "running s" and n: "0 < n" "n \<le> 4294967292"
  shows "holds c (malloc_post c B D n) (rt_malloc n s)"
proof -
  define r where "r = (if rt_align n < 12 then 12 else rt_align n)"
  have a: "n \<le> rt_align n" "rt_align n mod 4 = 0" using rt_align_spec [of n] n by simp_all
  then have r: "12 \<le> r" "r mod 4 = 0" "n \<le> r" by (auto simp: r_def)
  obtain bs where "heap_rep s bs" by (rule heap_okD [OF ok])
  then have l: "12 \<le> mem_size_aligned s" by (simp add: heap_rep_def heap_linked_def)
  have i: "interrupt_nest (kern s) = 0" using run by (simp add: running_def)
  show ?thesis
  proof (cases "rt_align n > mem_size_aligned s")
    case True
    then show ?thesis using n i ok run by (simp add: rt_malloc_def malloc_post_def)
  next
    case False
    have "holds c (malloc_post c B D r) (take_heap_sem (malloc_locked r) s)"
    proof (rule take_holds [OF ok run])
      fix s' assume s': "heap_ok c B D s'" "running s'"
      have "mem_size_aligned s' = mem_size_aligned s" using s'(1) ok by (auto simp: heap_ok_def heap_const_def)
      then show "holds c (malloc_post c B D r) (malloc_locked r s')"
        by (intro malloc_locked_holds [OF s' r(1,2)]) (use False l in \<open>auto simp: r_def\<close>)
    qed
    then have "holds c (malloc_post c B D n) (take_heap_sem (malloc_locked r) s)"
      by (rule holds_mono) (rule malloc_post_mono [OF _ r(3)])
    then show ?thesis using False n i by (simp add: rt_malloc_def r_def Let_def)
  qed
qed

lemma owned_block:
  assumes ok: "heap_ok c B D s" and b: "(a, m) \<in> B"
  obtains xs ys where "heap_rep s (xs @ (m, True) # ys)" "a = total xs" "B \<subseteq> used_set 0 (xs @ (m, True) # ys)"
    "\<forall>x \<in> data_of (heap_ptr s) B. ram s x = D x" "\<forall>(k, v) \<in> set (xs @ (m, True) # ys). 12 \<le> k"
proof -
  obtain bs where bs: "heap_rep s bs" "B \<subseteq> used_set 0 bs" "\<forall>x \<in> data_of (heap_ptr s) B. ram s x = D x"
    "\<forall>(m, u) \<in> set bs. 12 \<le> m"
    by (rule heap_okD [OF ok]) blast
  obtain xs ys where "bs = xs @ (m, True) # ys" "a = 0 + total xs" using used_set_split bs(2) b by blast
  then show thesis using that [of xs ys] bs by simp
qed

lemma used_set_release: "used_set 0 (xs @ (m, True) # ys) - {(total xs, m)} \<subseteq> used_set 0 (xs @ (m, False) # ys)"
  by (auto simp: used_set_append)

lemma free_locked_holds:
  assumes ok: "heap_ok c B D s" and run: "running s" and b: "(a, m) \<in> B"
  shows "holds c (\<lambda>_ s. heap_ok c (B - {(a, m)}) D s \<and> running s) (free_locked (heap_ptr s + a) s)"
proof -
  obtain xs ys where d: "heap_rep s (xs @ (m, True) # ys)" "a = total xs" "B \<subseteq> used_set 0 (xs @ (m, True) # ys)"
    "\<forall>x \<in> data_of (heap_ptr s) B. ram s x = D x" "\<forall>(k, v) \<in> set (xs @ (m, True) # ys). 12 \<le> k"
    by (rule owned_block [OF ok b])
  obtain s1 where s1: "free_block (heap_ptr s + a) s = Some s1" "heap_rep s1 (coalesce (xs @ (m, False) # ys))" "heap_same s s1"
    "\<forall>x \<in> kept (heap_ptr s) (xs @ (m, False) # ys). ram s1 x = ram s x"
    using free_block_rep [OF d(1)] d(2) by auto
  let ?B = "B - {(a, m)}"
  have sub: "?B \<subseteq> used_set 0 (xs @ (m, False) # ys)" using d(2,3) used_set_release [of xs m ys] by auto
  have "ram s1 x = D x" if x: "x \<in> data_of (heap_ptr s) ?B" for x
    using s1(4) d(4) x data_of_kept [OF sub, of x "heap_ptr s"] by (auto simp: data_of_def)
  then have ok1: "heap_ok c ?B D s1"
    by (intro heap_ok_step [OF ok s1(2,3)]) (use sub in \<open>auto simp: used_set_coalesce\<close>)
  have "running s1" using run running_same [OF s1(3)] by simp
  then have "holds c (\<lambda>_ s. heap_ok c ?B D s \<and> running s) (release_heap_sem (\<lambda>s2. Done s2 ()) s1)"
    by (intro release_holds [OF ok1]) simp_all
  then show ?thesis using s1(1) by (simp add: free_locked_def)
qed

lemma owned_address:
  assumes ok: "heap_ok c B D s" and b: "(a, m) \<in> B"
  shows "heap_ptr s \<le> heap_ptr s + a" "0 \<le> a" "(heap_ptr s + a + 12) mod 4 = 0" "heap_ptr s + a + m \<le> heap_end s" "12 \<le> m"
    "m mod 4 = 0" "0 < heap_ptr s" "heap_end s = heap_ptr s + (mem_size_aligned s + 12)" "heap_end s + 12 \<le> 4294967296"
    "a mod 4 = 0"
proof -
  obtain xs ys where d: "heap_rep s (xs @ (m, True) # ys)" "a = total xs"
    by (rule owned_block [OF ok b])
  have l: "heap_linked s (xs @ (m, True) # ys)" using d by (simp add: heap_rep_def)
  note h = heap_linked_block [OF l] heap_linkedD [OF l]
  show "(heap_ptr s + a + 12) mod 4 = 0" using h(8,24) d(2) by presburger
  show "heap_ptr s \<le> heap_ptr s + a" "0 \<le> a" "heap_ptr s + a + m \<le> heap_end s" "12 \<le> m"
    "m mod 4 = 0" "0 < heap_ptr s" "heap_end s = heap_ptr s + (mem_size_aligned s + 12)" "heap_end s + 12 \<le> 4294967296"
    "a mod 4 = 0" using h d(2) by simp_all
qed

lemma rt_free_holds:
  assumes ok: "heap_ok c B D s" and run: "running s" and b: "(a, m) \<in> B" "12 < m"
  shows "holds c (\<lambda>_ s. heap_ok c (B - {(a, m)}) D s \<and> running s) (rt_free (heap_ptr s + a + 12) s)"
proof -
  note A = owned_address [OF ok b(1)]
  have i: "interrupt_nest (kern s) = 0" using run by (simp add: running_def)
  have "holds c (\<lambda>_ s. heap_ok c (B - {(a, m)}) D s \<and> running s) (take_heap_sem (free_locked (heap_ptr s + a)) s)"
  proof (rule take_holds [OF ok run])
    fix s' assume s': "heap_ok c B D s'" "running s'"
    have "heap_ptr s' = heap_ptr s" using s'(1) ok by (auto simp: heap_ok_def heap_const_def)
    then show "holds c (\<lambda>_ s. heap_ok c (B - {(a, m)}) D s \<and> running s) (free_locked (heap_ptr s + a) s')"
      using free_locked_holds [OF s' b(1)] by simp
  qed
  moreover have "heap_ptr s + a + 12 \<noteq> 0" "heap_ptr s + a + 12 < heap_end s" using A b(2) by auto
  ultimately show ?thesis using A i by (simp add: rt_free_def)
qed

text \<open>A thread may write into the data of the blocks it owns.\<close>

lemma heap_rep_write:
  assumes h: "heap_rep s bs" and b: "(b, k) \<in> used_set 0 bs"
    and w: "\<And>x. x < heap_ptr s + b + 12 \<or> heap_ptr s + b + k \<le> x \<Longrightarrow> r x = ram s x"
  shows "heap_rep (s\<lparr>ram := r\<rparr>) bs"
proof -
  obtain xs ys where d: "bs = xs @ (k, True) # ys" "b = total xs" using used_set_split [OF b] by auto
  have l: "heap_linked s (xs @ (k, True) # ys)" and sep: "separated bs" using h d by (simp_all add: heap_rep_def)
  note B = heap_linked_block [OF l] and D = heap_linkedD [OF l]
  let ?s = "s\<lparr>ram := r\<rparr>"
  have cx: "chain ?s 0 0 xs" by (rule chain_agree [OF B(1)]) (use w d in auto)
  have cy: "chain ?s (total xs) (total xs + k) ys" by (rule chain_agree [OF B(3)]) (use w d B(6) in auto)
  have e: "r x = ram s x" if "heap_ptr s + total xs \<le> x" "x < heap_ptr s + total xs + 12" for x using w that d by auto
  have l16: "load16 r (heap_ptr s + total xs) = load16 (ram s) (heap_ptr s + total xs)"
    "load16 r (heap_ptr s + total xs + 2) = load16 (ram s) (heap_ptr s + total xs + 2)"
    by (rule load16_cong; rule e; simp)+
  have l32: "load32 r (heap_ptr s + total xs + 4) = load32 (ram s) (heap_ptr s + total xs + 4)"
    "load32 r (heap_ptr s + total xs + 8) = load32 (ram s) (heap_ptr s + total xs + 8)"
    by (rule load32_cong; rule e; simp)+
  have hd: "chain ?s (last_off 0 0 xs) (total xs) [(k, True)]"
    using B(2) by (simp add: mem_magic_def mem_used_def mem_next_def mem_prev_def l16 l32)
  have c: "chain ?s 0 0 (xs @ (k, True) # ys)" using cx cy hd by (simp add: chain_append)
  have he: "heap_end s = heap_ptr s + (b + k + total ys)" using B(10) d by simp
  have e': "r x = ram s x" if "heap_end s \<le> x" for x using w [of x] that he B(5) by auto
  have "load16 r (heap_end s + 2) = load16 (ram s) (heap_end s + 2)" by (rule load16_cong; rule e'; simp)
  moreover have "load32 r (heap_end s + 4) = load32 (ram s) (heap_end s + 4)" by (rule load32_cong; rule e'; simp)
  ultimately have ends: "mem_used ?s (heap_end ?s) = 1" "mem_next ?s (heap_end ?s) = total (xs @ (k, True) # ys)"
    using D(4,5) by (simp_all add: mem_used_def mem_next_def)
  have "heap_linked ?s (xs @ (k, True) # ys)"
    by (intro heap_linkedI) (use c ends D in simp_all)
  then show ?thesis using sep d by (simp add: heap_rep_def)
qed

lemma heap_ok_write:
  assumes ok: "heap_ok c B D s" and b: "(b, k) \<in> B"
    and w: "\<And>x. x < heap_ptr s + b + 12 \<or> heap_ptr s + b + k \<le> x \<Longrightarrow> r x = ram s x"
    and D': "\<forall>x \<in> data_of (heap_ptr s) B. r x = D' x"
  shows "heap_ok c B D' (s\<lparr>ram := r\<rparr>)"
proof -
  obtain bs where bs: "heap_rep s bs" "B \<subseteq> used_set 0 bs" by (rule heap_okD [OF ok])
  have "heap_rep (s\<lparr>ram := r\<rparr>) bs" using heap_rep_write [OF bs(1) _ w] bs(2) b by blast
  then show ?thesis using ok bs(2) D' by (auto simp: heap_ok_def heap_const_def)
qed

lemma owned_disjoint:
  assumes "heap_ok c B D s" "(a, m) \<in> B" "(b, k) \<in> B"
  shows "(a, m) = (b, k) \<or> a + m \<le> b \<or> b + k \<le> a"
proof -
  obtain bs where "B \<subseteq> used_set 0 bs" "\<forall>(m, u) \<in> set bs. 12 \<le> m" by (rule heap_okD [OF assms(1)])
  then show ?thesis using used_set_disjoint [of bs a m 0 b k] assms(2,3) by blast
qed

text \<open>
  What \<open>rt_realloc\<close> may return for the block \<open>(a, m)\<close>: nothing, and the block is kept; or a block that
  replaces it, with the data as far as both reach.
\<close>

definition realloc_post ::
  "int \<times> int \<times> int \<times> obj \<Rightarrow> (int \<times> int) set \<Rightarrow> ram \<Rightarrow> int \<Rightarrow> int \<Rightarrow> int \<Rightarrow> int \<Rightarrow> sys \<Rightarrow> bool" where
  "realloc_post c B D a m n p s \<longleftrightarrow> running s \<and>
     (if p = 0 then heap_ok c B D s
      else \<exists>b k E. p = fst c + b + 12 \<and> n + 12 \<le> k \<and> (b, k) \<notin> B - {(a, m)} \<and>
             heap_ok c (insert (b, k) (B - {(a, m)})) E s \<and> (\<forall>x \<in> data_of (fst c) (B - {(a, m)}). E x = D x) \<and>
             (\<forall>i. 0 \<le> i \<longrightarrow> i < min (m - 12) n \<longrightarrow> E (p + i) = D (fst c + a + 12 + i)))"

lemma realloc_move_holds:
  assumes ok: "heap_ok c B D s" and run: "running s" and b: "(a, m) \<in> B" "12 < m" and n: "0 < n" "n \<le> 4294967292"
  shows "holds c (realloc_post c B D a m n) (realloc_move (fst c + a + 12) (m - 12) n s)"
  unfolding realloc_move_def
proof (rule holds_then [OF rt_malloc_holds [OF ok run n]])
  fix p s1 assume post: "malloc_post c B D n p s1"
  show "holds c (realloc_post c B D a m n)
    (if p \<noteq> 0 then run_then (rt_free (fst c + a + 12)
          (s1\<lparr>ram := rt_memcpy p (fst c + a + 12) (nat (if m - 12 < n then m - 12 else n)) (ram s1)\<rparr>)) (\<lambda>_ s2. Done s2 p)
     else Done s1 p)"
  proof (cases "p = 0")
    case True
    then show ?thesis using post by (simp add: malloc_post_def realloc_post_def)
  next
    case False
    then obtain d k E where d: "p = fst c + d + 12" "n + 12 \<le> k" "(d, k) \<notin> B" "heap_ok c (insert (d, k) B) E s1"
      "\<forall>x \<in> data_of (fst c) B. E x = D x" "running s1"
      using post by (auto simp: malloc_post_def)
    have hp: "heap_ptr s1 = fst c" using d(4) by (auto simp: heap_ok_def heap_const_def)
    have dj: "d + k \<le> a \<or> a + m \<le> d" using owned_disjoint [OF d(4), of d k a m] b d(3) by auto
    define l where "l = min (m - 12) n"
    have l: "nat (if m - 12 < n then m - 12 else n) = nat l" "0 \<le> l" "l \<le> m - 12" "l \<le> k - 12" using n b(2) d(2) by (auto simp: l_def)
    define E' where "E' = mcopy p (fst c + a + 12) (nat l) E"
    have mc: "rt_memcpy p (fst c + a + 12) (nat l) (ram s1) = mcopy p (fst c + a + 12) (nat l) (ram s1)"
      by (rule memcpy_mcopy) (use dj l d(1) in auto)
    have inA: "fst c + a + 12 + i \<in> data_of (fst c) B" if "0 \<le> i" "i < l" for i
      using b that l by (auto simp: data_of_def intro!: bexI [of _ "(a, m)"])
    have old: "\<forall>x \<in> data_of (fst c) (insert (d, k) B). ram s1 x = E x"
      using d(4) hp by (auto simp: heap_ok_def)
    have sub: "data_of (fst c) B \<subseteq> data_of (fst c) (insert (d, k) B)" by (auto simp: data_of_def)
    have old2: "ram s1 (fst c + a + 12 + i) = E (fst c + a + 12 + i)" if "0 \<le> i" "i < l" for i
      using old sub inA [OF that] by blast
    let ?s = "s1\<lparr>ram := mcopy p (fst c + a + 12) (nat l) (ram s1)\<rparr>"
    have ok2: "heap_ok c (insert (d, k) B) E' ?s"
    proof (rule heap_ok_write [OF d(4), of d k])
      show "mcopy p (fst c + a + 12) (nat l) (ram s1) x = ram s1 x"
        if "x < heap_ptr s1 + d + 12 \<or> heap_ptr s1 + d + k \<le> x" for x using that l d(1) hp by (auto simp: mcopy_def)
      show "\<forall>x \<in> data_of (heap_ptr s1) (insert (d, k) B). mcopy p (fst c + a + 12) (nat l) (ram s1) x = E' x"
        using old old2 l(2) by (auto simp: mcopy_def E'_def hp)
    qed simp
    have run2: "running ?s" using d(6) by (simp add: running_def)
    have set: "insert (d, k) B - {(a, m)} = insert (d, k) (B - {(a, m)})" using d(3) b by auto
    have "holds c (\<lambda>_ s. heap_ok c (insert (d, k) B - {(a, m)}) E' s \<and> running s) (rt_free (heap_ptr ?s + a + 12) ?s)"
      by (rule rt_free_holds [OF ok2 run2]) (use b in auto)
    then have fr: "holds c (\<lambda>_ s. heap_ok c (insert (d, k) B - {(a, m)}) E' s \<and> running s) (rt_free (fst c + a + 12) ?s)"
      by (simp add: hp)
    have "holds c (realloc_post c B D a m n) (run_then (rt_free (fst c + a + 12) ?s) (\<lambda>_ s2. Done s2 p))"
    proof (rule holds_then [OF fr], goal_cases)
      case (1 _ s2)
      have "E' x = D x" if x: "x \<in> data_of (fst c) (B - {(a, m)})" for x
      proof -
        obtain e j where ej: "(e, j) \<in> B" "fst c + e + 12 \<le> x" "x < fst c + e + j"
          using x unfolding data_of_iff by blast
        then have "d + k \<le> e \<or> e + j \<le> d" using owned_disjoint [OF d(4), of d k e j] d(3) by auto
        then have "x < p \<or> p + l \<le> x" using ej l d(1) by auto
        moreover have "x \<in> data_of (fst c) B" using x by (auto simp: data_of_def)
        ultimately show ?thesis using d(5) l(2) by (auto simp: E'_def mcopy_def)
      qed
      moreover have "E' (p + i) = D (fst c + a + 12 + i)" if "0 \<le> i" "i < l" for i
        using d(5) inA [OF that] that by (simp add: E'_def mcopy_def)
      ultimately show ?case using 1 False d(1-3) by (auto simp: realloc_post_def set l_def [symmetric])
    qed
    then show ?thesis using False l(1) mc by simp
  qed
qed

lemma realloc_locked_holds:
  assumes ok: "heap_ok c B D s" and run: "running s" and b: "(a, m) \<in> B" "12 < m"
    and n: "0 < n" "n mod 4 = 0" "n \<le> mem_size_aligned s"
  shows "holds c (realloc_post c B D a m n) (realloc_locked (fst c + a + 12) n s)"
proof -
  obtain xs ys where d: "heap_rep s (xs @ (m, True) # ys)" "a = total xs" "B \<subseteq> used_set 0 (xs @ (m, True) # ys)"
    "\<forall>x \<in> data_of (heap_ptr s) B. ram s x = D x" "\<forall>(k, v) \<in> set (xs @ (m, True) # ys). 12 \<le> k"
    by (rule owned_block [OF ok b(1)])
  have hp: "fst c = heap_ptr s" using ok by (auto simp: heap_ok_def heap_const_def)
  note A = owned_address [OF ok b(1)]
  have l: "heap_linked s (xs @ (m, True) # ys)" using d by (simp add: heap_rep_def)
  have nx: "mem_next s (heap_ptr s + a) = a + m" using heap_linked_block(2) [OF l] d(2) by simp
  have e: "\<not> (fst c + a + 12 < heap_ptr s \<or> heap_end s \<le> fst c + a + 12)" "sz (fst c + a + 12 - 12 - heap_ptr s) = a"
    "sz (a + m - a - 12) = m - 12" "fst c + a + 12 - 12 = heap_ptr s + a" "sz (n + 12 + 12) = n + 24"
    using A b(2) n by (simp_all add: hp)
  have e2: "sz (heap_ptr s + a - heap_ptr s) = a" using e(2,4) by simp
  consider "m - 12 = n" | "m - 12 \<noteq> n" "n + 24 < m - 12" | "m - 12 \<noteq> n" "\<not> n + 24 < m - 12" by blast
  then show ?thesis
  proof cases
    case 1
    have "holds c (realloc_post c B D a m n) (release_heap_sem (\<lambda>s1. Done s1 (fst c + a + 12)) s)"
    proof (rule release_holds [OF ok run])
      fix s' assume s': "heap_ok c B D s'" "running s'"
      have "insert (a, m) (B - {(a, m)}) = B" using b by auto
      then have "realloc_post c B D a m n (fst c + a + 12) s'"
        using s' 1 A(2,7) unfolding realloc_post_def hp by (auto intro!: exI [of _ a] exI [of _ m] exI [of _ D])
      then show "holds c (realloc_post c B D a m n) (Done s' (fst c + a + 12))" by simp
    qed
    then show ?thesis using 1 by (simp only: realloc_locked_def if_not_P [OF e(1)] Let_def e e2 nx if_True if_False simp_thms)
  next
    case 3
    have "holds c (realloc_post c B D a m n) (release_heap_sem (realloc_move (fst c + a + 12) (m - 12) n) s)"
      by (rule release_holds [OF ok run], rule realloc_move_holds) (use b n A in auto)
    then show ?thesis using 3 by (simp only: realloc_locked_def if_not_P [OF e(1)] Let_def e e2 nx if_False)
  next
    case 2
    let ?bs = "xs @ (n + 12, True) # (m - n - 12, False) # ys"
    obtain s1 where s1: "realloc_split n (m - 12) a s = Some s1" "heap_rep s1 (coalesce ?bs)" "heap_same s s1"
      "\<forall>x \<in> kept (heap_ptr s) ?bs. ram s1 x = ram s x"
      using realloc_split_rep [OF d(1) n(1) _ n(2)] 2 d(2) by auto
    let ?B = "insert (a, n + 12) (B - {(a, m)})"
    have sub: "?B \<subseteq> used_set 0 ?bs" using d(2,3) by (auto simp: used_set_append)
    have "ram s1 x = D x" if x: "x \<in> data_of (heap_ptr s) ?B" for x
    proof -
      obtain e j where ej: "(e, j) \<in> ?B" "heap_ptr s + e + 12 \<le> x" "x < heap_ptr s + e + j"
        using x unfolding data_of_iff by blast
      have "\<exists>j'. (e, j') \<in> B \<and> j \<le> j'" 
      proof (cases "(e, j) = (a, n + 12)")
        case True
        then show ?thesis using b(1) 2(2) by (intro exI [of _ m]) simp
      next
        case False
        then show ?thesis using ej(1) by (intro exI [of _ j]) auto
      qed
      then have "x \<in> data_of (heap_ptr s) B" using ej(2,3) unfolding data_of_iff by fastforce
      then show ?thesis using s1(4) d(4) x data_of_kept [OF sub, of x "heap_ptr s"] by auto
    qed
    then have ok1: "heap_ok c ?B D s1"
      by (intro heap_ok_step [OF ok s1(2,3)]) (use sub in \<open>auto simp: used_set_coalesce\<close>)
    have "(a, n + 12) \<notin> B - {(a, m)}"
    proof
      assume "(a, n + 12) \<in> B - {(a, m)}"
      then have "(a, n + 12) \<in> B" by simp
      from owned_disjoint [OF ok this b(1)] show False using 2 n(1) b(2) by auto
    qed
    then have "holds c (realloc_post c B D a m n) (release_heap_sem (\<lambda>s2. Done s2 (fst c + a + 12)) s1)"
      using A(2,7) run running_same [OF s1(3)]
      by (intro release_holds [OF ok1]) (auto simp: realloc_post_def hp intro!: exI [of _ a] exI [of _ "n + 12"] exI [of _ D])
    then show ?thesis using 2 s1(1)
      by (simp only: realloc_locked_def if_not_P [OF e(1)] Let_def e e2 nx if_False if_True option.case)
  qed
qed

lemma realloc_post_mono:
  assumes "realloc_post c B D a m r p s" "n \<le> r"
  shows "realloc_post c B D a m n p s"
proof (cases "p = 0")
  case False
  then obtain b k E where "p = fst c + b + 12" "r + 12 \<le> k" "(b, k) \<notin> B - {(a, m)}"
    "heap_ok c (insert (b, k) (B - {(a, m)})) E s" "\<forall>x \<in> data_of (fst c) (B - {(a, m)}). E x = D x" "running s"
    "\<forall>i. 0 \<le> i \<longrightarrow> i < min (m - 12) r \<longrightarrow> E (p + i) = D (fst c + a + 12 + i)"
    using assms(1) unfolding realloc_post_def by auto
  then show ?thesis using assms(2) False unfolding realloc_post_def
    by (intro conjI, simp, subst if_not_P, simp) (intro exI [of _ b] exI [of _ k] exI [of _ E], auto)
qed (use assms in \<open>simp add: realloc_post_def\<close>)

lemma rt_realloc_holds:
  assumes ok: "heap_ok c B D s" and run: "running s" and b: "(a, m) \<in> B" "12 < m" and n: "0 < n" "n \<le> 4294967292"
  shows "holds c (realloc_post c B D a m n) (rt_realloc (fst c + a + 12) n s)"
proof -
  have hp: "fst c = heap_ptr s" using ok by (auto simp: heap_ok_def heap_const_def)
  note A = owned_address [OF ok b(1)]
  have al: "n \<le> rt_align n" "rt_align n mod 4 = 0" using rt_align_spec [of n] n by simp_all
  have i: "interrupt_nest (kern s) = 0" using run by (simp add: running_def)
  show ?thesis
  proof (cases "rt_align n > mem_size_aligned s")
    case True
    then show ?thesis using i ok run by (simp add: rt_realloc_def realloc_post_def)
  next
    case False
    have "holds c (realloc_post c B D a m (rt_align n)) (take_heap_sem (realloc_locked (fst c + a + 12) (rt_align n)) s)"
    proof (rule take_holds [OF ok run])
      fix s' assume s': "heap_ok c B D s'" "running s'"
      have "mem_size_aligned s' = mem_size_aligned s" using s'(1) ok by (auto simp: heap_ok_def heap_const_def)
      then show "holds c (realloc_post c B D a m (rt_align n)) (realloc_locked (fst c + a + 12) (rt_align n) s')"
        by (intro realloc_locked_holds [OF s' b]) (use False al n in auto)
    qed
    then have "holds c (realloc_post c B D a m n) (take_heap_sem (realloc_locked (fst c + a + 12) (rt_align n)) s)"
      by (rule holds_mono) (rule realloc_post_mono [OF _ al(1)])
    then show ?thesis using False i al n A(2,7) by (simp add: rt_realloc_def Let_def hp)
  qed
qed

section \<open>A heap nobody else uses\<close>

definition heap_idle :: "sys \<Rightarrow> bool" where
  "heap_idle s \<longleftrightarrow> sem_value (semaphores (kern s) (heap_sem s)) = 1 \<and>
     tlists (kern s) (Suspend (heap_sem s)) = [] \<and> interrupt_nest (kern s) = 0"

definition locked :: "sys \<Rightarrow> kernel" where
  "locked s = upd_sem (heap_sem s) (\<lambda>x. x\<lparr>sem_value := sem_value x - 1\<rparr>) (kern s)"

lemma take_idle: "heap_idle s \<Longrightarrow> take_heap_sem f s = f (s\<lparr>kern := locked s\<rparr>)"
  by (simp add: take_heap_sem_def rt_sem_take_def heap_idle_def locked_def)

lemma release_idle:
  assumes "heap_idle s" "kern s' = locked s" "heap_sem s' = heap_sem s"
  shows "release_heap_sem f s' = f (s'\<lparr>kern := kern s\<rparr>)"
proof -
  have "upd_sem (heap_sem s) (\<lambda>x. x\<lparr>sem_value := sem_value x + 1\<rparr>) (locked s) = kern s"
    by (simp add: locked_def upd_sem_def)
  moreover have "sem_value (semaphores (locked s) (heap_sem s)) = 0" "tlists (locked s) (Suspend (heap_sem s)) = []"
    using assms(1) by (simp_all add: locked_def heap_idle_def)
  ultimately show ?thesis using assms by (simp add: release_heap_sem_def rt_sem_release_def)
qed

lemma kern_swap [simp]: "s\<lparr>kern := k, kern := k'\<rparr> = s\<lparr>kern := k'\<rparr>"
  by simp

lemma malloc_idle:
  assumes h: "heap_rep s bs" and i: "heap_idle s" and n: "0 < n" "n \<le> 4294967292"
  shows "case (if rt_align n \<le> mem_size_aligned s then alloc_blocks (mem_size_aligned s) (request n) 0 bs else None) of
      None \<Rightarrow> rt_malloc n s = Done s 0
    | Some (a, cs) \<Rightarrow> \<exists>s'. rt_malloc n s = Done s' (heap_ptr s + a + 12) \<and> heap_rep s' cs \<and> heap_same s s' \<and>
        (\<forall>x \<in> kept (heap_ptr s) bs. ram s' x = ram s x)"
proof -
  have al: "n \<le> rt_align n" "rt_align n mod 4 = 0" using rt_align_spec [of n] n by simp_all
  define r where "r = request n"
  have r: "12 \<le> r" "r mod 4 = 0" "(if rt_align n < 12 then 12 else rt_align n) = r"
    using al by (auto simp: r_def request_def max_def)
  have l: "heap_linked s bs" using h by (simp add: heap_rep_def)
  note D = heap_linkedD [OF l]
  have i0: "interrupt_nest (kern s) = 0" using i by (simp add: heap_idle_def)
  show ?thesis
  proof (cases "rt_align n \<le> mem_size_aligned s")
    case False
    then show ?thesis using n i0 by (simp add: rt_malloc_def)
  next
    case True
    have rl: "r \<le> mem_size_aligned s" using True D(12) r(3) by (auto split: if_splits)
    define t where "t = s\<lparr>kern := locked s\<rparr>"
    have ht: "heap_rep t bs" "mem_size_aligned t = mem_size_aligned s" "heap_ptr t = heap_ptr s" "ram t = ram s"
      "kern t = locked s" "heap_sem t = heap_sem s" "t\<lparr>kern := kern s\<rparr> = s" "heap_end t = heap_end s" "mempools t = mempools s" "objs t = objs s" "rt_errno t = rt_errno s"
      using h by (simp_all add: t_def)
    have run: "rt_malloc n s = malloc_locked r t"
      using n i0 True r(3) take_idle [OF i, of "malloc_locked r"] by (simp add: rt_malloc_def Let_def t_def)
    have find: "malloc_find r (sz (lfree t - heap_ptr t)) t = Some (map_option fst (alloc_blocks (mem_size_aligned s) r 0 bs))"
      using malloc_find_first [OF ht(1) r(1)] rl ht(2) by simp
    show ?thesis
    proof (cases "alloc_blocks (mem_size_aligned s) r 0 bs")
      case None
      then show ?thesis using run find True release_idle [OF i ht(5,6)] ht(7) by (simp add: malloc_locked_def r_def)
    next
      case (Some q)
      obtain a cs where q: "q = (a, cs)" by (cases q) simp
      obtain xs m ys where d: "bs = xs @ (m, False) # ys" "a = total xs" "r + 12 \<le> m" "cs = xs @ carve r m @ ys"
        using alloc_blocks_Some [OF Some [unfolded q]] by auto
      obtain s1 where s1: "malloc_block r a t = Some s1" "heap_rep s1 cs" "heap_same t s1"
        "\<forall>x. x < heap_ptr s + a \<or> heap_ptr s + a + m + 12 \<le> x \<longrightarrow> ram s1 x = ram s x"
        using malloc_block_rep [OF ht(1) [unfolded d(1)] r(1) d(3) r(2)] d ht by auto
      have same: "kern s1 = locked s" "heap_sem s1 = heap_sem s" "heap_ptr s1 = heap_ptr s" "heap_end s1 = heap_end s"
        "mem_size_aligned s1 = mem_size_aligned s" "mempools s1 = mempools s" "objs s1 = objs s" "rt_errno s1 = rt_errno s"
        using s1(3) ht by (simp_all add: heap_same_def)
      have B: "\<forall>(m, u) \<in> set bs. 12 \<le> m" using chain_sizes [OF D(1)] by auto
      have keep: "ram s1 x = ram s x" if x: "x \<in> kept (heap_ptr s) bs" for x
      proof -
        have "x < heap_ptr s + a \<or> heap_ptr s + a + m + 12 \<le> x"
          using x B kept_outside_free [of xs m ys x "heap_ptr s"] d by simp
        then show ?thesis using s1(4) by blast
      qed
      have sz: "0 \<le> a" "a + r + 24 \<le> mem_size_aligned s + 24" "a mod 4 = 0"
        using heap_linked_block [OF l [unfolded d(1)]] d(1-3) by auto
      have m4: "(heap_ptr s + a) mod 4 = 0" "(heap_ptr s + a + 12) mod 4 = 0" using sz(3) D(10) by presburger+
      let ?s = "s1\<lparr>kern := kern s\<rparr>"
      have "malloc_locked r t = malloc_return r (heap_ptr s + a) ?s"
        using find Some q s1(1) release_idle [OF i same(1,2)] ht(3) by (simp add: malloc_locked_def)
      also have "\<dots> = Done ?s (heap_ptr s + a + 12)"
        using m4 sz D(2,3,9,11) r(1) by (simp add: malloc_return_def same)
      finally have "rt_malloc n s = Done ?s (heap_ptr s + a + 12)" using run by simp
      then show ?thesis
        using True Some q s1(2) keep same
        by (auto simp: r_def heap_same_def intro!: exI [of _ ?s])
    qed
  qed
qed

lemma free_idle:
  assumes h: "heap_rep s (xs @ (m, True) # ys)" and i: "heap_idle s" and m: "12 < m"
  shows "\<exists>s'. rt_free (heap_ptr s + total xs + 12) s = Done s' () \<and> heap_rep s' (coalesce (xs @ (m, False) # ys)) \<and>
    heap_same s s' \<and> (\<forall>x \<in> kept (heap_ptr s) (xs @ (m, False) # ys). ram s' x = ram s x)"
proof -
  have l: "heap_linked s (xs @ (m, True) # ys)" using h by (simp add: heap_rep_def)
  note H = heap_linked_block [OF l] and D = heap_linkedD [OF l]
  define t where "t = s\<lparr>kern := locked s\<rparr>"
  have ht: "heap_rep t (xs @ (m, True) # ys)" "heap_ptr t = heap_ptr s" "ram t = ram s"
    "kern t = locked s" "heap_sem t = heap_sem s" "heap_end t = heap_end s" "mempools t = mempools s" "objs t = objs s" "rt_errno t = rt_errno s" "mem_size_aligned t = mem_size_aligned s"
    using h by (simp_all add: t_def)
  obtain s1 where s1: "free_block (heap_ptr s + total xs) t = Some s1" "heap_rep s1 (coalesce (xs @ (m, False) # ys))" "heap_same t s1"
    "\<forall>x \<in> kept (heap_ptr s) (xs @ (m, False) # ys). ram s1 x = ram s x"
    using free_block_rep [OF ht(1)] ht(2,3) by auto
  have same: "kern s1 = locked s" "heap_sem s1 = heap_sem s" "heap_ptr s1 = heap_ptr s" "heap_end s1 = heap_end s"
    "mem_size_aligned s1 = mem_size_aligned s" "mempools s1 = mempools s" "objs s1 = objs s" "rt_errno s1 = rt_errno s"
    using s1(3) ht by (simp_all add: heap_same_def)
  let ?s = "s1\<lparr>kern := kern s\<rparr>"
  have "free_locked (heap_ptr s + total xs) t = Done ?s ()"
    using s1(1) release_idle [OF i same(1,2)] by (simp add: free_locked_def)
  moreover have "(heap_ptr s + total xs + 12) mod 4 = 0" using H(8) D(10) by presburger
  moreover have "heap_ptr s + total xs + 12 \<noteq> 0" "heap_ptr s + total xs + 12 < heap_end s" "0 \<le> total xs" using H m by simp_all
  ultimately have "rt_free (heap_ptr s + total xs + 12) s = Done ?s ()"
    using i take_idle [OF i, of "free_locked (heap_ptr s + total xs)"] by (simp add: rt_free_def heap_idle_def t_def)
  then show ?thesis using s1(2,4) same by (intro exI [of _ ?s]) (simp add: heap_same_def)
qed

section \<open>Initialisation\<close>

definition fresh_heap :: "int \<Rightarrow> int \<Rightarrow> sys \<Rightarrow> sys \<Rightarrow> bool" where
  "fresh_heap b e s t \<longleftrightarrow>
     chain t 0 0 [(mem_size_aligned t + 12, False)] \<and> heap_idle t \<and> heap_end t = heap_ptr t + (mem_size_aligned t + 12) \<and>
     mem_used t (heap_end t) = 1 \<and> mem_next t (heap_end t) = mem_size_aligned t + 12 \<and> lfree t = heap_ptr t \<and>
     used_mem t = used_mem s \<and> max_mem t = max_mem s \<and> 0 < heap_ptr t \<and> heap_ptr t mod 4 = 0 \<and> heap_end t + 12 \<le> 4294967296 \<and>
     heap_const t = (rt_align b, rt_align_down e - 12, rt_align_down e - rt_align b - 24, heap_sem s) \<and>
     kern t = upd_sem (heap_sem s) (\<lambda>_. \<lparr>sem_flag = 1, sem_value = 1\<rparr>) (ipc_object_init (Suspend (heap_sem s)) (kern s))"

lemma fresh_heapD:
  assumes "fresh_heap b e s t"
  shows "chain t 0 0 [(mem_size_aligned t + 12, False)]" "heap_idle t" "heap_end t = heap_ptr t + (mem_size_aligned t + 12)"
    "mem_used t (heap_end t) = 1" "mem_next t (heap_end t) = mem_size_aligned t + 12" "lfree t = heap_ptr t"
    "used_mem t = used_mem s" "max_mem t = max_mem s" "0 < heap_ptr t" "heap_ptr t mod 4 = 0" "heap_end t + 12 \<le> 4294967296"
    "heap_const t = (rt_align b, rt_align_down e - 12, rt_align_down e - rt_align b - 24, heap_sem s)"
    "kern t = upd_sem (heap_sem s) (\<lambda>_. \<lparr>sem_flag = 1, sem_value = 1\<rparr>) (ipc_object_init (Suspend (heap_sem s)) (kern s))"
  using assms unfolding fresh_heap_def by blast+

lemma heap_init_state:
  assumes i: "interrupt_nest (kern s) = 0" and b: "0 < b" "b \<le> 4294967292" and e: "0 \<le> e" "e < 4294967296"
    and room: "rt_align b + 24 \<le> rt_align_down e"
  obtains t where "rt_system_heap_init b e s = Some t" "fresh_heap b e s t"
proof -
  define p where "p = rt_align b"
  define n where "n = rt_align_down e - p - 24"
  have al: "0 < p" "p mod 4 = 0" using rt_align_spec [of b] b by (simp_all add: p_def)
  have ed: "rt_align_down e \<le> e" "rt_align_down e mod 4 = 0" using e by (simp_all add: rt_align_down_def)
  have n: "0 \<le> n" "n mod 4 = 0" "p + n + 24 \<le> e" using room al ed by (simp_all add: n_def p_def mod_diff_eq [symmetric])
  define s1 where "s1 = s\<lparr>mem_size_aligned := n, heap_ptr := p\<rparr>"
  define s2 where "s2 = set_used p 0 (set_prev p 0 (set_next p (n + 12) (set_magic p 7840 s1)))"
  define s3 where "s3 = s2\<lparr>heap_end := p + (n + 12)\<rparr>"
  define x where "x = p + (n + 12)"
  define s4 where "s4 = set_prev x (n + 12) (set_next x (n + 12) (set_used x 1 (set_magic x 7840 s3)))"
  define k where "k = upd_sem (heap_sem s) (\<lambda>_. \<lparr>sem_flag = 1, sem_value = 1\<rparr>) (ipc_object_init (Suspend (heap_sem s)) (kern s))"
  define t where "t = s4\<lparr>kern := k, lfree := p\<rparr>"
  have ap: "p + 12 \<le> x" using n by (simp add: x_def)
  have r: "n + 12 < 4294967296" using n e al by linarith
  have nx: "mem_next s2 p = n + 12" using n r by (simp add: s2_def)
  have run: "rt_system_heap_init b e s = Some t"
  proof -
    have c: "rt_align_down e > 2 * 12 \<and> rt_align_down e - 2 * 12 \<ge> p" using room al by (simp add: p_def)
    have nn: "rt_align_down e - p - 2 * 12 = n" by (simp add: n_def)
    have f: "heap_ptr s1 = p" "mem_size_aligned s1 = n" "heap_ptr s2 = p" "mem_size_aligned s3 = n" "heap_end s3 = x"
      "heap_sem s4 = heap_sem s" "kern s4 = kern s" "heap_ptr s4 = p"
      by (simp_all add: s1_def s2_def s3_def s4_def x_def)
    have si: "rt_sem_init (heap_sem s) 1 1 (kern s) = Some (k, 0)" by (simp add: rt_sem_init_def k_def)
    show ?thesis
      unfolding rt_system_heap_init_def Let_def p_def [symmetric] unfolding if_P [OF c] nn s1_def [symmetric] f s2_def [symmetric]
          nx s3_def [symmetric] s4_def [symmetric] si t_def using i by simp
  qed
  have fr: "heap_ptr t = p" "heap_end t = x" "mem_size_aligned t = n" "lfree t = p" "kern t = k" "heap_sem t = heap_sem s"
    "used_mem t = used_mem s" "max_mem t = max_mem s"
    by (simp_all add: t_def s4_def s3_def s2_def s1_def x_def)
  have hd: "mem_magic t p = 7840" "mem_used t p = 0" "mem_next t p = n + 12" "mem_prev t p = 0"
    "mem_used t x = 1" "mem_next t x = n + 12"
    using ap n r by (simp_all add: t_def s4_def s3_def s2_def hdr_apart)
  have const: "heap_const t = (rt_align b, rt_align_down e - 12, rt_align_down e - rt_align b - 24, heap_sem s)"
    unfolding heap_const_def fr x_def n_def p_def by simp
  have "fresh_heap b e s t"
    unfolding fresh_heap_def
  proof (intro conjI)
    show "chain t 0 0 [(mem_size_aligned t + 12, False)]" using hd n by (simp add: fr mod_add_eq [symmetric])
    show "heap_idle t" using i by (simp add: heap_idle_def fr k_def ipc_object_init_def)
    show "heap_end t + 12 \<le> 4294967296" using n e by (simp add: fr x_def)
    show "heap_end t = heap_ptr t + (mem_size_aligned t + 12)" by (simp add: fr x_def)
    show "mem_used t (heap_end t) = 1" "mem_next t (heap_end t) = mem_size_aligned t + 12"
      "lfree t = heap_ptr t" "0 < heap_ptr t" "heap_ptr t mod 4 = 0"
      using hd al by (simp_all only: fr)
  qed (use const fr k_def in simp_all)
  with run show thesis by (rule that)
qed

lemma heap_init_rep:
  assumes i: "interrupt_nest (kern s) = 0" and b: "0 < b" "b \<le> 4294967292" and e: "0 \<le> e" "e < 4294967296"
    and room: "rt_align b + 36 \<le> rt_align_down e" and u: "used_mem s = 0" "0 \<le> max_mem s"
  shows "\<exists>s'. rt_system_heap_init b e s = Some s' \<and> heap_rep s' [(mem_size_aligned s' + 12, False)] \<and> heap_idle s' \<and>
    heap_const s' = (rt_align b, rt_align_down e - 12, rt_align_down e - rt_align b - 24, heap_sem s) \<and>
    kern s' = upd_sem (heap_sem s) (\<lambda>_. \<lparr>sem_flag = 1, sem_value = 1\<rparr>) (ipc_object_init (Suspend (heap_sem s)) (kern s))"
proof -
  have r: "rt_align b + 24 \<le> rt_align_down e" using room by simp
  obtain t where t: "rt_system_heap_init b e s = Some t" "fresh_heap b e s t"
    by (rule heap_init_state [OF i b e r])
  note f = fresh_heapD [OF t(2)]
  have "12 \<le> mem_size_aligned t" using f(12) room by (simp add: heap_const_def)
  then have "heap_linked t [(mem_size_aligned t + 12, False)]"
    by (intro heap_linkedI) (use f u in simp_all)
  then have "heap_rep t [(mem_size_aligned t + 12, False)]" by (simp add: heap_rep_def)
  then show ?thesis using t(1) f(2,12,13) by (intro exI [of _ t]) simp
qed

definition s_demo :: sys where
  "s_demo = \<lparr>kern = k_demo, ram = (\<lambda>_. 0), heap_ptr = 0, heap_end = 0, lfree = 0, mem_size_aligned = 0,
     used_mem = 0, max_mem = 0, heap_sem = 20,
     mempools = (\<lambda>_. \<lparr>mp_start = 0, mp_size = 0, mp_block_size = 0, mp_block_list = 0, mp_total_count = 0, mp_free_count = 0\<rparr>), rt_errno = 0,
     objs = \<lparr>object_container = (\<lambda>_. []), object_size = (\<lambda>_. 128), devices = (\<lambda>_. \<lparr>dev_type = 0, dev_flag = 0, dev_open_flag = 0,
       dev_ref_count = 0, dev_rx_indicate = 0, dev_tx_complete = 0\<rparr>), console_device = 0\<rparr>\<rparr>"

definition s_heap :: sys where
  "s_heap = the (rt_system_heap_init 4097 8195 s_demo)"

lemma s_heap:
  "rt_system_heap_init 4097 8195 s_demo = Some s_heap" "heap_rep s_heap [(4080, False)]" "heap_idle s_heap"
  "heap_ptr s_heap = 4100" "mem_size_aligned s_heap = 4068" "heap_sem s_heap = 20" "heap_end s_heap = 8180"
  "kern s_heap = upd_sem 20 (\<lambda>_. \<lparr>sem_flag = 1, sem_value = 1\<rparr>) (ipc_object_init (Suspend 20) k_demo)"
proof -
  have "interrupt_nest (kern s_demo) = 0" "used_mem s_demo = 0" "0 \<le> max_mem s_demo" "heap_sem s_demo = 20"
    "kern s_demo = k_demo" by (simp_all add: s_demo_def k_demo_def)
  then show "rt_system_heap_init 4097 8195 s_demo = Some s_heap" "heap_rep s_heap [(4080, False)]" "heap_idle s_heap"
    "heap_ptr s_heap = 4100" "mem_size_aligned s_heap = 4068" "heap_sem s_heap = 20" "heap_end s_heap = 8180"
    "kern s_heap = upd_sem 20 (\<lambda>_. \<lparr>sem_flag = 1, sem_value = 1\<rparr>) (ipc_object_init (Suspend 20) k_demo)"
    using heap_init_rep [of s_demo 4097 8195] 
    by (auto simp: s_heap_def rt_align_def rt_align_down_def heap_const_def)
qed

section \<open>Properties\<close>

text \<open>
  \<open>rt_system_heap_init\<close>, for bounds with room for the two headers and twelve bytes, establishes
  the invariant: one free block over the aligned region, the end marker, the lock free.
\<close>

theorem heap_init:
  assumes "interrupt_nest (kern s) = 0" "0 < b" "b \<le> 4294967292" "0 \<le> e" "e < 4294967296"
    "rt_align b + 36 \<le> rt_align_down e" "used_mem s = 0" "0 \<le> max_mem s"
  shows "\<exists>s'. rt_system_heap_init b e s = Some s' \<and> heap_rep s' [(mem_size_aligned s' + 12, False)] \<and> heap_idle s' \<and>
    heap_const s' = (rt_align b, rt_align_down e - 12, rt_align_down e - rt_align b - 24, heap_sem s)"
  using heap_init_rep [OF assms] by blast

theorem heap_init_witness:
  "\<exists>s'. rt_system_heap_init 4097 8195 s_demo = Some s' \<and> heap_rep s' [(mem_size_aligned s' + 12, False)]"
  using heap_init [of s_demo 4097 8195] by (auto simp: s_demo_def k_demo_def rt_align_def rt_align_down_def)

text \<open>
  C7. \<open>rt_malloc\<close>, when no other thread uses the heap, is the first-fit allocator on the list of blocks:
  it returns a null pointer and changes nothing exactly when the reference finds no block, and
  otherwise the data address of the block the reference carves out; the data of all blocks in use, the
  constants of the heap and the kernel's state are unchanged, the lock free again. It returns.
\<close>

theorem malloc_first_fit:
  assumes "heap_rep s bs" "heap_idle s" "0 < n" "n \<le> 4294967292"
  shows "case (if rt_align n \<le> mem_size_aligned s then alloc_blocks (mem_size_aligned s) (request n) 0 bs else None) of
      None \<Rightarrow> rt_malloc n s = Done s 0
    | Some (a, cs) \<Rightarrow> \<exists>s'. rt_malloc n s = Done s' (heap_ptr s + a + 12) \<and> heap_rep s' cs \<and> heap_same s s' \<and>
        (\<forall>x \<in> kept (heap_ptr s) bs. ram s' x = ram s x)"
  using assms by (rule malloc_idle)

theorem malloc_first_fit_witness:
  "\<exists>s'. rt_malloc 50 s_heap = Done s' 4112 \<and> heap_rep s' [(64, True), (4016, False)]"
  using malloc_first_fit [OF s_heap(2,3), of 50] by (simp add: s_heap rt_align_def request_def carve_def) blast

text \<open>
  C8. \<open>rt_free\<close> of a block in use, when no other thread uses the heap: the block becomes free and is
  joined with its free neighbours, so that the list of blocks is the fully coalesced one; the data
  of the other blocks and the kernel's state are unchanged. It returns.
\<close>

theorem free_coalesces:
  assumes h: "heap_rep s bs" "heap_idle s" and b: "(a, m) \<in> used_set 0 bs" "12 < m"
  shows "\<exists>s'. rt_free (heap_ptr s + a + 12) s = Done s' () \<and> heap_rep s' (coalesce (release_at a 0 bs)) \<and> heap_same s s' \<and>
    (\<forall>x \<in> kept (heap_ptr s) (release_at a 0 bs). ram s' x = ram s x)"
proof -
  obtain xs ys where d: "bs = xs @ (m, True) # ys" "a = total xs" using used_set_split [OF b(1)] by auto
  have "\<forall>(k, v) \<in> set bs. 12 \<le> k" using h(1) chain_sizes [of s 0 0 bs] by (auto simp: heap_rep_def heap_linked_def)
  then have r: "release_at a 0 bs = xs @ (m, False) # ys" using release_at_block [of xs m True ys 0] d by simp
  show ?thesis using free_idle [OF h(1) [unfolded d(1)] h(2) b(2)] unfolding r by (simp add: d(2))
qed

lemma s_heap_used:
  obtains s1 where "rt_malloc 50 s_heap = Done s1 4112" "heap_rep s1 [(64, True), (4016, False)]" "heap_same s_heap s1" "heap_idle s1"
  using malloc_idle [OF s_heap(2,3), of 50] s_heap
  by (auto simp: rt_align_def request_def carve_def heap_idle_def heap_same_def)

theorem free_coalesces_witness:
  "\<exists>s1 s2. rt_malloc 50 s_heap = Done s1 4112 \<and> rt_free 4112 s1 = Done s2 () \<and> heap_rep s2 [(4080, False)]"
proof -
  obtain s1 where s1: "rt_malloc 50 s_heap = Done s1 4112" "heap_rep s1 [(64, True), (4016, False)]" "heap_same s_heap s1" "heap_idle s1"
    by (rule s_heap_used)
  have "heap_ptr s1 = 4100" using s1(3) s_heap by (simp add: heap_same_def)
  then show ?thesis using free_coalesces [OF s1(2,4), of 0 64] s1(1) by auto
qed

lemma carve_release:
  assumes "separated (xs @ (m, False) # ys)" "12 \<le> n" "n + 12 \<le> m" "\<forall>(k, v) \<in> set (xs @ (m, False) # ys). 12 \<le> k"
  shows "coalesce (release_at (total xs) 0 (xs @ carve n m @ ys)) = xs @ (m, False) # ys"
proof (cases "n + 36 \<le> m")
  case True
  have "release_at (total xs) 0 (xs @ (n + 12, True) # (m - n - 12, False) # ys) = xs @ (n + 12, False) # (m - n - 12, False) # ys"
    using release_at_block [of xs "n + 12" True "(m - n - 12, False) # ys" 0] assms(2,4) True by simp
  then show ?thesis using True coalesce_join [of xs "n + 12" "m - n - 12" ys] coalesce_separated [OF assms(1)]
    by (simp add: carve_def)
next
  case False
  have "release_at (total xs) 0 (xs @ (m, True) # ys) = xs @ (m, False) # ys"
    using release_at_block [of xs m True ys 0] assms(4) by auto
  then show ?thesis using False coalesce_separated [OF assms(1)] by (simp add: carve_def)
qed

text \<open>
  Freeing what \<open>rt_malloc\<close> returned gives back the list of blocks, and the count of used memory,
  from before the allocation, whether or not the block had been split.
\<close>

theorem malloc_free_roundtrip:
  assumes h: "heap_rep s bs" "heap_idle s" and n: "0 < n" "n \<le> 4294967292" and p: "rt_malloc n s = Done s1 p" "p \<noteq> 0"
  shows "\<exists>s2. rt_free p s1 = Done s2 () \<and> heap_rep s2 bs \<and> used_mem s2 = used_mem s \<and> heap_same s s2"
proof -
  note m = malloc_idle [OF h n]
  obtain a cs where A: "alloc_blocks (mem_size_aligned s) (request n) 0 bs = Some (a, cs)" "rt_align n \<le> mem_size_aligned s"
    using m p by (auto split: if_splits option.splits)
  have s1: "p = heap_ptr s + a + 12" "heap_rep s1 cs" "heap_same s s1" using m A p by auto
  obtain xs k ys where d: "bs = xs @ (k, False) # ys" "a = total xs" "request n + 12 \<le> k" "cs = xs @ carve (request n) k @ ys"
    using alloc_blocks_Some [OF A(1)] by auto
  have sep: "separated (xs @ (k, False) # ys)" and um: "used_mem s = used_total bs" using h(1) d by (simp_all add: heap_rep_def heap_linked_def)
  have sizes: "\<forall>(k, v) \<in> set bs. 12 \<le> k" using h(1) chain_sizes [of s 0 0 bs] by (auto simp: heap_rep_def heap_linked_def)
  have r: "12 \<le> request n" by (simp add: request_def)
  obtain j zs where c: "cs = xs @ (j, True) # zs" "12 < j" using d r by (auto simp: carve_def split: if_splits)
  have i1: "heap_idle s1" "heap_ptr s1 = heap_ptr s" using h(2) s1(3) by (simp_all add: heap_idle_def heap_same_def)
  obtain s2 where s2: "rt_free p s1 = Done s2 ()" "heap_rep s2 (coalesce (xs @ (j, False) # zs))" "heap_same s1 s2"
    using free_idle [OF s1(2) [unfolded c(1)] i1(1) c(2)] s1(1) d(2) i1(2) by auto
  have cz: "\<forall>(k, v) \<in> set cs. 12 \<le> k" using s1(2) chain_sizes [of s1 0 0 cs] by (auto simp: heap_rep_def heap_linked_def)
  then have "release_at (total xs) 0 cs = xs @ (j, False) # zs" using release_at_block [of xs j True zs 0] c(1) by simp
  then have "coalesce (xs @ (j, False) # zs) = bs" using carve_release [OF sep r d(3)] sizes d by simp
  then show ?thesis using s2 s1(3) um by (auto simp: heap_same_def heap_rep_def heap_linked_def)
qed

theorem malloc_free_roundtrip_witness:
  "\<exists>s1 s2. rt_malloc 50 s_heap = Done s1 4112 \<and> rt_free 4112 s1 = Done s2 () \<and> heap_rep s2 [(4080, False)] \<and> used_mem s2 = 0"
proof -
  obtain s1 where s1: "rt_malloc 50 s_heap = Done s1 4112" by (rule s_heap_used)
  have "used_mem s_heap = 0" using s_heap(2) by (simp add: heap_rep_def heap_linked_def)
  then show ?thesis using malloc_free_roundtrip [OF s_heap(2,3) _ _ s1] s1 by auto
qed

text \<open>
  C6. Heap calls of several threads, for every interleaving at the lock. A running thread that owns
  the blocks \<open>B\<close> with contents \<open>D\<close> and calls \<open>rt_malloc\<close>, \<open>rt_free\<close> or \<open>rt_realloc\<close> fails no assertion and
  ends with a consistent heap and kernel, provided the other threads keep them consistent and
  leave alone what it owns: \<open>rt_malloc\<close> gives a null pointer or a new block besides \<open>B\<close>, large enough and
  aligned; \<open>rt_free\<close> takes the block away; \<open>rt_realloc\<close> gives a null pointer and keeps the block, or
  replaces it by one that is large enough and has the old data as far as both reach. The data of
  all other blocks in \<open>B\<close> stays.
\<close>

theorem heap_calls_interleave:
  assumes "heap_ok c B D s" "running s" "0 < n" "n \<le> 4294967292" "(a, m) \<in> B" "12 < m"
  shows "holds c (malloc_post c B D n) (rt_malloc n s) \<and>
    holds c (\<lambda>_ s. heap_ok c (B - {(a, m)}) D s \<and> running s) (rt_free (heap_ptr s + a + 12) s) \<and>
    holds c (realloc_post c B D a m n) (rt_realloc (fst c + a + 12) n s)"
  using rt_malloc_holds [OF assms(1-4)] rt_free_holds [OF assms(1,2,5,6)] rt_realloc_holds [OF assms(1,2,5,6,3,4)] by simp

lemma s_heap_ok:
  obtains s1 where "heap_ok (4100, 8180, 4068, 20) {(0, 64)} (ram s1) s1" "running s1" "rt_malloc 50 s_heap = Done s1 4112"
proof -
  obtain s1 where s1: "rt_malloc 50 s_heap = Done s1 4112" "heap_rep s1 [(64, True), (4016, False)]" "heap_same s_heap s1" "heap_idle s1"
    by (rule s_heap_used)
  note k = s_heap(8)
  have l: "ipc_object_init (Suspend 20) k_demo = k_demo"
    by (simp add: ipc_object_init_def k_demo_def demo_lists_def fun_eq_iff)
  have "kern s1 = kern s_heap" "heap_const s1 = (4100, 8180, 4068, 20)" "heap_sem s1 = 20"
    using s1(3) s_heap by (simp_all add: heap_same_def heap_const_def)
  then have "heap_ok (4100, 8180, 4068, 20) {(0, 64)} (ram s1) s1" "running s1"
    using s1(2) k l k_demo_kinv k_demo_current
    by (auto simp: heap_ok_def running_def k_demo_def intro!: exI [of _ "[(64, True), (4016, False)]"])
  then show thesis using that s1(1) by blast
qed

theorem heap_calls_interleave_witness:
  "\<exists>s1 D. rt_malloc 50 s_heap = Done s1 4112 \<and> holds (4100, 8180, 4068, 20) (realloc_post (4100, 8180, 4068, 20) {(0, 64)} D 0 64 100)
     (rt_realloc 4112 100 s1)"
proof -
  obtain s1 where s1: "heap_ok (4100, 8180, 4068, 20) {(0, 64)} (ram s1) s1" "running s1" "rt_malloc 50 s_heap = Done s1 4112"
    by (rule s_heap_ok)
  show ?thesis using heap_calls_interleave [OF s1(1,2), of 100 0 64] s1(3) by auto
qed

text \<open>
  Sizes are not checked against overflow: a request of more than 4294967292 bytes is served as
  one of a single byte, with a block of twelve; and \<open>rt_calloc\<close> with a product of \<open>2 ^ 32\<close> or more
  allocates and clears only the remainder.
\<close>

theorem request_wraps:
  assumes "4294967292 < n" "n < 4294967296" "12 \<le> mem_size_aligned s"
  shows "rt_malloc n s = rt_malloc 1 s \<and> rt_calloc 65536 65537 s = rt_calloc 1 65536 s"
proof -
  have "rt_align n = 0"
  proof -
    have "0 \<le> n - 4294967293" "n - 4294967293 < 3" "n + 3 = (n - 4294967293) + 4294967296" using assms(1,2) by simp_all
    then have "sz (n + 3) = n - 4294967293" by (simp only: sz_def mod_add_self2) simp
    then show ?thesis using assms(1,2) by (simp add: rt_align_def)
  qed
  moreover have "rt_align 1 = 4" by (simp add: rt_align_def)
  moreover have "sz (65536 * 65537) = 65536" "sz (1 * 65536) = 65536" by (simp_all add: sz_def)
  ultimately show ?thesis using assms by (simp only: rt_calloc_def) (simp add: rt_malloc_def Let_def)
qed

theorem request_wraps_witness: "\<exists>s1. rt_malloc 4294967295 s_heap = Done s1 4112 \<and> heap_rep s1 [(24, True), (4056, False)]"
  using request_wraps [of 4294967295 s_heap] malloc_idle [OF s_heap(2,3), of 1]
  by (simp add: s_heap rt_align_def request_def carve_def) blast

text \<open>
  A request for all of a free heap is refused although it fits: the search stops before a block
  that would end at the end of the heap.
\<close>

theorem exact_fit_refused:
  assumes "heap_rep s [(mem_size_aligned s + 12, False)]" "heap_idle s" "mem_size_aligned s mod 4 = 0"
  shows "rt_malloc (mem_size_aligned s) s = Done s 0"
proof -
  have le: "12 \<le> mem_size_aligned s" "mem_size_aligned s \<le> 4294967292" using assms(1) by (auto simp: heap_rep_def heap_linked_def)
  have al: "rt_align (mem_size_aligned s) = mem_size_aligned s"
    using assms(3) rt_align_spec [of "mem_size_aligned s"] le by presburger
  then have "request (mem_size_aligned s) = mem_size_aligned s" using le by (simp add: request_def)
  then show ?thesis using malloc_idle [OF assms(1,2), of "mem_size_aligned s"] le al by simp
qed

theorem exact_fit_refused_witness: "rt_malloc 4068 s_heap = Done s_heap 0"
  using exact_fit_refused [of s_heap] s_heap by simp

lemma malloc_find_loops:
  assumes "mem_used s (heap_ptr s + e) = 1" "mem_next s (heap_ptr s + e) = e" "e < sz (mem_size_aligned s - n)"
  shows "malloc_find n e s = None"
proof -
  have "\<not> (n' = n \<and> p = e \<and> s' = s)" if "malloc_find n' p s' = Some r" for n' p s' r
  proof (rule malloc_find.raw_induct [OF _ that, where P = "\<lambda>n' p s' r. \<not> (n' = n \<and> p = e \<and> s' = s)"])
    fix loop n' p s' r
    assume 1: "\<And>n' p s' r. loop n' p s' = Some r \<Longrightarrow> \<not> (n' = n \<and> p = e \<and> s' = s)"
      "(if p < sz (mem_size_aligned s' - n')
        then let mem = heap_ptr s' + p in
          if mem_used s' mem = 0 \<and> n' \<le> sz (mem_next s' mem - (p + 12)) then Some (Some p) else loop n' (mem_next s' mem) s'
        else Some None) = Some r"
    show "\<not> (n' = n \<and> p = e \<and> s' = s)"
    proof
      assume a: "n' = n \<and> p = e \<and> s' = s"
      then have "loop n e s = Some r" using 1(2) assms by (simp add: Let_def)
      from 1(1) [OF this] show False by simp
    qed
  qed
  then show ?thesis by (metis not_Some_eq)
qed

lemma small_heap_stuck:
  assumes c: "chain s 0 0 [(mem_size_aligned s + 12, False)]" and e: "heap_end s = heap_ptr s + (mem_size_aligned s + 12)"
      "mem_used s (heap_end s) = 1" "mem_next s (heap_end s) = mem_size_aligned s + 12" "lfree s = heap_ptr s"
    and i: "heap_idle s" and m: "mem_size_aligned s = 4 \<or> mem_size_aligned s = 8"
  shows "rt_malloc 1 s = Stuck"
proof -
  define t where "t = s\<lparr>kern := locked s\<rparr>"
  have sz: "mem_size_aligned s + 12 < sz (mem_size_aligned s - 12)" "0 < sz (mem_size_aligned s - 12)" using m by (auto simp: sz_def)
  have "malloc_find 12 (mem_size_aligned s + 12) t = None"
    by (rule malloc_find_loops) (use e sz in \<open>simp_all add: t_def\<close>)
  then have "malloc_find 12 (sz (lfree t - heap_ptr t)) t = None"
    using c e m sz by (subst malloc_find.simps) (auto simp: t_def)
  then have "malloc_locked 12 t = Stuck" by (simp add: malloc_locked_def)
  then show ?thesis using i m take_idle [OF i, of "malloc_locked 12"]
    by (auto simp: rt_malloc_def heap_idle_def rt_align_def t_def)
qed

text \<open>
  A heap of four or eight usable bytes, which \<open>rt_system_heap_init\<close> accepts, makes \<open>rt_malloc\<close> hang:
  a small request is raised to twelve bytes behind the check of its size, the bound of the search
  wraps around, and the loop goes round at the end marker.
\<close>

theorem small_heap_hangs:
  assumes "interrupt_nest (kern s) = 0" "0 < b" "b \<le> 4294967292" "0 \<le> e" "e < 4294967296"
    "rt_align_down e = rt_align b + 28 \<or> rt_align_down e = rt_align b + 32"
  shows "\<exists>s'. rt_system_heap_init b e s = Some s' \<and> rt_malloc 1 s' = Stuck"
proof -
  have r: "rt_align b + 24 \<le> rt_align_down e" using assms(6) by auto
  obtain t where t: "rt_system_heap_init b e s = Some t" "fresh_heap b e s t"
    by (rule heap_init_state [OF assms(1-5) r])
  note f = fresh_heapD [OF t(2)]
  have "mem_size_aligned t = 4 \<or> mem_size_aligned t = 8" using f(12) assms(6) by (auto simp: heap_const_def)
  then have "rt_malloc 1 t = Stuck" using small_heap_stuck [OF f(1,3-6,2)] by simp
  then show ?thesis using t(1) by blast
qed

theorem small_heap_hangs_witness: "\<exists>s'. rt_system_heap_init 4097 4133 s_demo = Some s' \<and> rt_malloc 1 s' = Stuck"
  using small_heap_hangs [of s_demo 4097 4133] by (simp add: s_demo_def k_demo_def rt_align_def rt_align_down_def)

end
