(* ===== verification/Mempool.thy ===== *)
theory Mempool
  imports Heap_Ops
begin

text \<open>
  The memory pools of \<open>src/mempool.c\<close>: blocks of one size, each behind a word that links the free blocks
  and, in a block in use, holds the address of its pool. The pools are tables of the state \<open>sys\<close>; a
  pool's address is its number. The blocks lie in the machine's memory. Threads wait on the list
  \<open>Suspend mp\<close> of the pool. As for the other objects of the kernel, a call that waits is a definition up
  to its call of the scheduler, and what the caller does when it runs again is a second one.
\<close>

datatype 'a pool_outcome =
    Pool_return sys 'a
  | Pool_wait sys u32     \<comment> \<open>the state, and the local \<open>before_sleep\<close>\<close>

definition upd_mp :: "obj \<Rightarrow> (rt_mempool \<Rightarrow> rt_mempool) \<Rightarrow> sys \<Rightarrow> sys" where
  "upd_mp mp f s = s\<lparr>mempools := (mempools s)(mp := f (mempools s mp))\<rparr>"

text \<open>
  The loop that links the blocks: \<open>w\<close> is \<open>block_size + sizeof(rt_uint8_t *)\<close>, and addresses wrap around.
  Behind the loop the link at \<open>offset - 1\<close> is cleared, where \<open>offset\<close> is the number of blocks.
\<close>

primrec link_blocks :: "nat \<Rightarrow> int \<Rightarrow> int \<Rightarrow> ram \<Rightarrow> ram" where
  "link_blocks 0 p w m = m"
| "link_blocks (Suc n) p w m = store32 (sz (p + int n * w)) (sz (p + (int n + 1) * w)) (link_blocks n p w m)"

definition free_list_init :: "int \<Rightarrow> int \<Rightarrow> int \<Rightarrow> ram \<Rightarrow> ram" where
  "free_list_init p w count m = store32 (sz (p + (count - 1) * w)) 0 (link_blocks (nat count) p w m)"

definition rt_mp_init :: "obj \<Rightarrow> int \<Rightarrow> int \<Rightarrow> int \<Rightarrow> sys \<Rightarrow> (sys \<times> rt_err_t) option" where
  "rt_mp_init mp start bytes block_size s =
     do { rt_assert (start \<noteq> 0);
          rt_assert (bytes > 0 \<and> block_size > 0);
          let sz_pool = rt_align_down bytes;
          let bs = rt_align block_size;
          let count = sz_pool div sz (bs + 4);
          let s1 = upd_mp mp (\<lambda>_. \<lparr>mp_start = start, mp_size = sz_pool, mp_block_size = bs, mp_block_list = start,
                                   mp_total_count = count, mp_free_count = count\<rparr>) s;
          let s2 = s1\<lparr>kern := ipc_object_init (Suspend mp) (kern s1), ram := free_list_init start (sz (bs + 4)) count (ram s1)\<rparr>;
          Some (s2, RT_EOK) }"

definition rt_mp_detach :: "obj \<Rightarrow> sys \<Rightarrow> (sys \<times> rt_err_t) option" where
  "rt_mp_detach mp s = do { k \<leftarrow> ipc_list_resume_all (Suspend mp) (kern s); Some (s\<lparr>kern := k\<rparr>, RT_EOK) }"

text \<open>
  \<open>rt_mp_create\<close>: \<open>obj_ok\<close> says whether the control block could be allocated; the result is the pool or
  a null pointer.
\<close>

definition rt_mp_create :: "bool \<Rightarrow> obj \<Rightarrow> int \<Rightarrow> int \<Rightarrow> sys \<Rightarrow> obj option run" where
  "rt_mp_create obj_ok mp block_count block_size s =
     (if interrupt_nest (kern s) \<noteq> 0 then Stuck
      else if \<not> (block_count > 0 \<and> block_size > 0) then Stuck
      else if \<not> obj_ok then Done s None
      else let bs = rt_align block_size; w = sz (bs + 4) in
        run_then (rt_malloc (sz (w * block_count)) s) (\<lambda>start s1.
          if start = 0 then Done s1 None
          else let s2 = upd_mp mp (\<lambda>_. \<lparr>mp_start = start, mp_size = sz (w * block_count), mp_block_size = bs,
                                        mp_block_list = start, mp_total_count = block_count, mp_free_count = block_count\<rparr>) s1
               in Done (s2\<lparr>kern := ipc_object_init (Suspend mp) (kern s2), ram := free_list_init start w block_count (ram s2)\<rparr>)
                       (Some mp)))"

definition rt_mp_delete :: "obj \<Rightarrow> sys \<Rightarrow> rt_err_t run" where
  "rt_mp_delete mp s =
     (if interrupt_nest (kern s) \<noteq> 0 then Stuck
      else case ipc_list_resume_all (Suspend mp) (kern s) of
          None \<Rightarrow> Stuck
        | Some k \<Rightarrow> run_then (rt_free (mp_start (mempools s mp)) (s\<lparr>kern := k\<rparr>)) (\<lambda>_ s1. Done s1 RT_EOK))"

text \<open>A thread that waits goes to the front of the list: \<open>rt_list_insert_after\<close> the head.\<close>

definition mp_suspend :: "list_head \<Rightarrow> tid \<Rightarrow> kernel \<Rightarrow> kernel option" where
  "mp_suspend h t k =
     do { (k1, _) \<leftarrow> rt_thread_suspend t k;
          Some (k1\<lparr>tlists := (tlists k1)(h := t # tlists k1 h)\<rparr>) }"

definition mp_take_block :: "obj \<Rightarrow> sys \<Rightarrow> (sys \<times> int) option" where
  "mp_take_block mp s =
     (let s1 = upd_mp mp (\<lambda>m. m\<lparr>mp_free_count := sz (mp_free_count m - 1)\<rparr>) s;
          block_ptr = mp_block_list (mempools s1 mp)
      in do { rt_assert (block_ptr \<noteq> 0);
              let s2 = upd_mp mp (\<lambda>m. m\<lparr>mp_block_list := load32 (ram s1) block_ptr\<rparr>) s1;
              Some (s2\<lparr>ram := store32 block_ptr (int mp) (ram s2)\<rparr>, block_ptr + 4) })"

definition rt_mp_alloc :: "obj \<Rightarrow> int \<Rightarrow> sys \<Rightarrow> int pool_outcome option" where
  "rt_mp_alloc mp time s =
     (if mp_free_count (mempools s mp) = 0
      then (if time = 0 then Some (Pool_return (rt_set_errno (- RT_ETIMEOUT) s) 0)
            else do { rt_assert (interrupt_nest (kern s) = 0);
                      t \<leftarrow> current_thread (kern s);
                      let k1 = upd_thread t (\<lambda>th. th\<lparr>th_error := RT_EOK\<rparr>) (kern s);
                      k4 \<leftarrow> do { k2 \<leftarrow> mp_suspend (Suspend mp) t k1;
                                 k3 \<leftarrow> (if time > 0 then start_thread_timer t (of_int time) k2 else Some k2);
                                 rt_schedule k3 };
                      Some (Pool_wait (s\<lparr>kern := k4\<rparr>) (if time > 0 then rt_tick (kern s) else 0)) })
      else do { (s1, p) \<leftarrow> mp_take_block mp s; Some (Pool_return s1 p) })"

definition rt_mp_alloc_return :: "obj \<Rightarrow> tid \<Rightarrow> int \<Rightarrow> u32 \<Rightarrow> sys \<Rightarrow> int pool_outcome option" where
  "rt_mp_alloc_return mp t time before_sleep s =
     (if th_error (threads (kern s) t) \<noteq> RT_EOK then Some (Pool_return s 0)
      else rt_mp_alloc mp (time_left time before_sleep (kern s)) s)"

definition rt_mp_free :: "int \<Rightarrow> sys \<Rightarrow> sys option" where
  "rt_mp_free block s =
     (if block = 0 then Some s
      else let block_ptr = block - 4;
               mp = nat (load32 (ram s) block_ptr);
               s1 = upd_mp mp (\<lambda>m. m\<lparr>mp_free_count := sz (mp_free_count m + 1)\<rparr>) s;
               s2 = s1\<lparr>ram := store32 block_ptr (mp_block_list (mempools s1 mp)) (ram s1)\<rparr>;
               s3 = upd_mp mp (\<lambda>m. m\<lparr>mp_block_list := block_ptr\<rparr>) s2
           in case tlists (kern s3) (Suspend mp) of
                [] \<Rightarrow> Some s3
              | t # _ \<Rightarrow> do { k1 \<leftarrow> ipc_list_resume (Suspend mp) (upd_thread t (\<lambda>th. th\<lparr>th_error := RT_EOK\<rparr>) (kern s3));
                              k2 \<leftarrow> rt_schedule k1;
                              Some (s3\<lparr>kern := k2\<rparr>) })"

interpretation lifo: wait_queue "\<lambda>prio t q. t # q" mp_suspend
proof unfold_locales
  show "mp_suspend h t k = map_option (\<lambda>(k1, _). k1\<lparr>tlists := (tlists k1)(h := t # tlists k1 h)\<rparr>) (rt_thread_suspend t k)"
    for h t k
    by (cases "rt_thread_suspend t k") (auto simp: mp_suspend_def)
qed auto

section \<open>The invariant\<close>

definition block_at :: "rt_mempool \<Rightarrow> nat \<Rightarrow> int" where
  "block_at m i = mp_start m + int i * (mp_block_size m + 4)"

fun free_chain :: "rt_mempool \<Rightarrow> ram \<Rightarrow> int \<Rightarrow> nat list \<Rightarrow> bool" where
  "free_chain m r p [] \<longleftrightarrow> p = 0"
| "free_chain m r p (i # is) \<longleftrightarrow> p = block_at m i \<and> free_chain m r (load32 r p) is"

text \<open>
  The free blocks of a pool are those in \<open>fs\<close>, linked in this order; every other block carries the
  address of the pool.
\<close>

definition mp_rep :: "obj \<Rightarrow> sys \<Rightarrow> nat list \<Rightarrow> bool" where
  "mp_rep mp s fs \<longleftrightarrow>
     (let m = mempools s mp in
      0 < mp_start m \<and> 4 \<le> mp_block_size m \<and> 0 \<le> mp_total_count m \<and>
      mp_start m + mp_total_count m * (mp_block_size m + 4) \<le> 4294967296 \<and> int mp < 4294967296 \<and>
      distinct fs \<and> (\<forall>i \<in> set fs. int i < mp_total_count m) \<and> mp_free_count m = int (length fs) \<and>
      free_chain m (ram s) (mp_block_list m) fs \<and>
      (\<forall>i. int i < mp_total_count m \<longrightarrow> i \<notin> set fs \<longrightarrow> load32 (ram s) (block_at m i) = int mp))"

lemma block_at_apart:
  assumes "4 \<le> mp_block_size m" "i \<noteq> j"
  shows "block_at m i + 8 \<le> block_at m j \<or> block_at m j + 8 \<le> block_at m i"
proof -
  have *: "block_at m i + 8 \<le> block_at m j" if "i < j" for i j
  proof -
    have "(int j - int i) * (mp_block_size m + 4) \<ge> 1 * (mp_block_size m + 4)"
      using that assms(1) by (intro mult_right_mono) auto
    then show ?thesis using assms(1) by (simp add: block_at_def left_diff_distrib)
  qed
  show ?thesis using *[of i j] *[of j i] assms(2) by (cases "i < j") auto
qed

lemma block_at_range:
  assumes "4 \<le> mp_block_size m" "0 < mp_start m" "int i < n" "mp_start m + n * (mp_block_size m + 4) \<le> 4294967296"
  shows "0 < block_at m i" "block_at m i + 8 \<le> 4294967296"
proof -
  have "(int i + 1) * (mp_block_size m + 4) \<le> n * (mp_block_size m + 4)" using assms by (intro mult_right_mono) auto
  then show "block_at m i + 8 \<le> 4294967296" using assms by (simp add: block_at_def left_diff_distrib distrib_right)
  show "0 < block_at m i" using assms(1,2) by (simp add: block_at_def add_pos_nonneg)
qed

text \<open>Writing the link word of a block leaves those of the others alone.\<close>

lemma link_other:
  assumes "4 \<le> mp_block_size m" "i \<noteq> j"
  shows "load32 (store32 (block_at m i) v r) (block_at m j) = load32 r (block_at m j)"
  by (rule load32_store32_other) (use block_at_apart [OF assms] in auto)

lemma free_chain_write:
  "free_chain m r p fs \<Longrightarrow> 4 \<le> mp_block_size m \<Longrightarrow> i \<notin> set fs \<Longrightarrow> free_chain m (store32 (block_at m i) v r) p fs"
proof (induction fs arbitrary: p)
  case (Cons j js)
  have "load32 (store32 (block_at m i) v r) (block_at m j) = load32 r (block_at m j)"
    by (rule link_other) (use Cons.prems in auto)
  then show ?case using Cons by auto
qed simp

lemma free_chain_pool:
  "mp_start m' = mp_start m \<Longrightarrow> mp_block_size m' = mp_block_size m \<Longrightarrow> free_chain m' r p fs = free_chain m r p fs"
  by (induction fs arbitrary: p) (auto simp: block_at_def)

lemma upd_mp_frame [simp]:
  "mempools (upd_mp mp f s) = (mempools s)(mp := f (mempools s mp))" "kern (upd_mp mp f s) = kern s"
  "ram (upd_mp mp f s) = ram s" "rt_errno (upd_mp mp f s) = rt_errno s"
  by (simp_all add: upd_mp_def)

lemma mp_repD:
  assumes "mp_rep mp s fs"
  shows "0 < mp_start (mempools s mp)" "4 \<le> mp_block_size (mempools s mp)" "0 \<le> mp_total_count (mempools s mp)"
    "mp_start (mempools s mp) + mp_total_count (mempools s mp) * (mp_block_size (mempools s mp) + 4) \<le> 4294967296"
    "int mp < 4294967296" "distinct fs" "\<And>i. i \<in> set fs \<Longrightarrow> int i < mp_total_count (mempools s mp)"
    "mp_free_count (mempools s mp) = int (length fs)" "free_chain (mempools s mp) (ram s) (mp_block_list (mempools s mp)) fs"
    "\<And>i. int i < mp_total_count (mempools s mp) \<Longrightarrow> i \<notin> set fs \<Longrightarrow> load32 (ram s) (block_at (mempools s mp) i) = int mp"
  using assms by (simp_all add: mp_rep_def Let_def)

lemma mp_rep_kern: "mp_rep mp s fs \<Longrightarrow> mp_rep mp (s\<lparr>kern := k\<rparr>) fs"
  by (simp add: mp_rep_def)

text \<open>There are at most as many free blocks as blocks.\<close>

lemma mp_free_le:
  assumes "mp_rep mp s fs"
  shows "int (length fs) \<le> mp_total_count (mempools s mp)" "mp_total_count (mempools s mp) < 4294967296"
proof -
  note D = mp_repD [OF assms]
  have "i < nat (mp_total_count (mempools s mp))" if "i \<in> set fs" for i using D(7) [OF that] by simp
  then have "set fs \<subseteq> {..<nat (mp_total_count (mempools s mp))}" by blast
  from card_mono [OF finite_lessThan this] have "card (set fs) \<le> nat (mp_total_count (mempools s mp))" by simp
  then show "int (length fs) \<le> mp_total_count (mempools s mp)" using D(3,6) by (simp add: distinct_card)
  have "mp_total_count (mempools s mp) * 1 \<le> mp_total_count (mempools s mp) * (mp_block_size (mempools s mp) + 4)"
    using D(2,3) by (intro mult_left_mono) auto
  then show "mp_total_count (mempools s mp) < 4294967296" using D(1,4) by simp
qed

lemma take_block_rep:
  assumes r: "mp_rep mp s (i # is)"
  defines "m \<equiv> mempools s mp"
  shows "\<exists>s'. mp_take_block mp s = Some (s', block_at m i + 4) \<and> mp_rep mp s' is \<and> kern s' = kern s \<and>
    block_at (mempools s' mp) = block_at m \<and> mp_total_count (mempools s' mp) = mp_total_count m \<and>
    (\<forall>x. x < block_at m i \<or> block_at m i + 4 \<le> x \<longrightarrow> ram s' x = ram s x)"
proof -
  note D = mp_repD [OF r, folded m_def]
  have fl: "mp_free_count m = int (length is) + 1" "int (length is) < 4294967296" using D(8) mp_free_le [OF r] by (auto simp: m_def)
  have p: "mp_block_list m = block_at m i" "free_chain m (ram s) (load32 (ram s) (block_at m i)) is" using D(9) by auto
  have b: "0 < block_at m i" by (rule block_at_range [OF D(2,1) _ D(4)]) (rule D(7), simp)
  define m' where "m' = m\<lparr>mp_free_count := int (length is), mp_block_list := load32 (ram s) (block_at m i)\<rparr>"
  define t where "t = s\<lparr>mempools := (mempools s)(mp := m'), ram := store32 (block_at m i) (int mp) (ram s)\<rparr>"
  have run: "mp_take_block mp s = Some (t, block_at m i + 4)"
    using p(1) b fl by (simp add: mp_take_block_def Let_def t_def m'_def upd_mp_def m_def [symmetric])
  have mt: "mempools t mp = m'" "ram t = store32 (block_at m i) (int mp) (ram s)" "kern t = kern s" by (simp_all add: t_def)
  have e: "mp_start m' = mp_start m" "mp_block_size m' = mp_block_size m" "mp_total_count m' = mp_total_count m"
    "mp_free_count m' = int (length is)" "mp_block_list m' = load32 (ram s) (block_at m i)" by (simp_all add: m'_def)
  have ba: "block_at m' = block_at m" by (simp add: block_at_def fun_eq_iff e)
  have "free_chain m' (ram t) (mp_block_list m') is"
    using free_chain_write [OF p(2) D(2)] D(6) free_chain_pool [OF e(1,2)] by (simp add: mt e)
  moreover have "load32 (ram t) (block_at m j) = int mp" if "int j < mp_total_count m" "j \<notin> set is" for j
  proof (cases "j = i")
    case True
    then show ?thesis using D(5) by (simp add: mt)
  next
    case False
    then show ?thesis using D(10) [OF that(1)] that(2) link_other [OF D(2), of i j] by (simp add: mt)
  qed
  ultimately have "mp_rep mp t is" using D by (simp add: mp_rep_def Let_def mt ba e)
  then show ?thesis using run mt ba e by (intro exI [of _ t]) (simp add: store32_outside)
qed

section \<open>The list of free blocks\<close>

lemma link_blocks_spec:
  assumes w: "4 \<le> w" and p: "0 < p" "p + int n * w \<le> 4294967296"
  shows "(\<forall>i < n. load32 (link_blocks n p w r) (p + int i * w) = sz (p + (int i + 1) * w)) \<and>
    (\<forall>x. x < p \<or> p + int n * w \<le> x \<longrightarrow> link_blocks n p w r x = r x)"
  using p(2)
proof (induction n)
  case (Suc n)
  have n: "p + int n * w + w \<le> 4294967296" using Suc.prems by (simp add: distrib_right)
  have s: "sz (p + int n * w) = p + int n * w" by (rule sz_id) (use n w p(1) in auto)
  have step: "link_blocks (Suc n) p w r = store32 (p + int n * w) (sz (p + (int n + 1) * w)) (link_blocks n p w r)"
    by (simp add: s)
  have IH: "\<forall>i < n. load32 (link_blocks n p w r) (p + int i * w) = sz (p + (int i + 1) * w)"
    "\<forall>x. x < p \<or> p + int n * w \<le> x \<longrightarrow> link_blocks n p w r x = r x" using Suc.IH n w by auto
  have "load32 (link_blocks (Suc n) p w r) (p + int i * w) = sz (p + (int i + 1) * w)" if "i < Suc n" for i
  proof (cases "i = n")
    case True
    then show ?thesis unfolding step using sz_range [of "p + (int n + 1) * w"] by simp
  next
    case False
    then have "(int i + 1) * w \<le> int n * w" using that w by (intro mult_right_mono) auto
    then have "p + int i * w + 4 \<le> p + int n * w" using w by (simp add: distrib_right)
    then show ?thesis unfolding step using IH(1) False that by (simp add: load32_store32_other)
  qed
  moreover have "link_blocks (Suc n) p w r x = r x" if "x < p \<or> p + int (Suc n) * w \<le> x" for x
  proof -
    have "0 \<le> int n * w" "int (Suc n) * w = int n * w + w" using w by (simp_all add: distrib_right)
    then have "x < p + int n * w \<or> p + int n * w + 4 \<le> x" "x < p \<or> p + int n * w \<le> x"
      using that w by linarith+
    then have "link_blocks n p w r x = r x" "link_blocks (Suc n) p w r x = link_blocks n p w r x"
      unfolding step using IH(2) store32_outside by blast+
    then show ?thesis by simp
  qed
  ultimately show ?case by blast
qed simp

lemma free_chain_upt:
  assumes l: "\<And>i. i < n \<Longrightarrow> load32 r (block_at m i) = (if i + 1 < n then block_at m (i + 1) else 0)"
  shows "k < n \<Longrightarrow> free_chain m r (block_at m k) [k ..< n]"
proof (induction "n - k" arbitrary: k)
  case (Suc d)
  have e: "[k ..< n] = k # [Suc k ..< n]" using Suc.prems by (rule upt_conv_Cons)
  show ?case
  proof (cases "Suc k < n")
    case True
    then have "free_chain m r (block_at m (Suc k)) [Suc k ..< n]" using Suc.hyps by simp
    then show ?thesis using l [OF Suc.prems] True by (simp add: e)
  next
    case False
    then show ?thesis using l [OF Suc.prems] by (simp add: e)
  qed
qed simp

lemma free_list_init_spec:
  fixes r :: ram
  assumes m: "4 \<le> mp_block_size m" "0 < mp_start m" and n: "0 < n" "mp_start m + int n * (mp_block_size m + 4) \<le> 4294967296"
  defines "r' \<equiv> free_list_init (mp_start m) (mp_block_size m + 4) (int n) r"
  shows "free_chain m r' (mp_start m) [0 ..< n]"
    "x < mp_start m \<or> mp_start m + int n * (mp_block_size m + 4) \<le> x \<Longrightarrow> r' x = r x"
proof -
  let ?w = "mp_block_size m + 4" and ?l = "link_blocks n (mp_start m) (mp_block_size m + 4) r"
  have w: "4 \<le> ?w" using m by simp
  note L = link_blocks_spec [OF w m(2) n(2), of r]
  have b: "block_at m i = mp_start m + int i * ?w" for i by (simp add: block_at_def)
  have rng: "0 < block_at m i" "block_at m i + 8 \<le> 4294967296" if "i < n" for i
    using block_at_range [OF m, of i "int n"] that n(2) by auto
  have pred: "int n - 1 = int (n - 1)" using n(1) by simp
  have r': "r' = store32 (block_at m (n - 1)) 0 ?l"
  proof -
    have "sz (block_at m (n - 1)) = block_at m (n - 1)" using rng [of "n - 1"] n(1) by simp
    then show ?thesis unfolding r'_def free_list_init_def pred b nat_int by simp
  qed
  have "load32 r' (block_at m i) = (if i + 1 < n then block_at m (i + 1) else 0)" if i: "i < n" for i
  proof (cases "i + 1 < n")
    case True
    have "load32 r' (block_at m i) = load32 ?l (block_at m i)" unfolding r' by (rule link_other) (use m True in auto)
    also have "\<dots> = sz (block_at m (i + 1))" using L i by (simp add: b add.commute)
    finally show ?thesis using rng [OF True] True by simp
  next
    case False
    then have "i = n - 1" using i by simp
    then show ?thesis using False by (simp add: r')
  qed
  from free_chain_upt [OF this n(1)] show "free_chain m r' (mp_start m) [0 ..< n]" by (simp add: block_at_def)
  have low: "mp_start m \<le> block_at m (n - 1)" using w by (simp add: b)
  assume x: "x < mp_start m \<or> mp_start m + int n * ?w \<le> x"
  have "block_at m (n - 1) + ?w = mp_start m + int n * ?w" using n(1) by (cases n) (simp_all add: b distrib_right)
  then have "x < block_at m (n - 1) \<or> block_at m (n - 1) + 4 \<le> x" using x m(1) low by linarith
  then show "r' x = r x" using L x unfolding r' by (metis store32_outside)
qed


text \<open>A pool over the region that \<open>free_list_init\<close> has linked has all its blocks free.\<close>

lemma fresh_pool:
  assumes m: "4 \<le> mp_block_size m" "0 < mp_start m" and n: "0 < n" "mp_start m + int n * (mp_block_size m + 4) \<le> 4294967296"
    and c: "mp_block_list m = mp_start m" "mp_total_count m = int n" "mp_free_count m = int n"
    and s: "mempools s mp = m" "ram s = free_list_init (mp_start m) (mp_block_size m + 4) (int n) r" "int mp < 4294967296"
  shows "mp_rep mp s [0 ..< n]"
  using free_list_init_spec(1) [OF m n, of r] m n c s by (simp add: mp_rep_def Let_def)

lemma mp_init_state:
  assumes start: "0 < start" "0 < bytes" "start + bytes \<le> 4294967296" and bs: "0 < bs" "bs \<le> 4294967284"
    and room: "rt_align bs + 4 \<le> rt_align_down bytes" and mp: "int mp < 4294967296"
  shows "\<exists>s'. rt_mp_init mp start bytes bs s = Some (s', 0) \<and>
    mp_rep mp s' [0 ..< nat (rt_align_down bytes div (rt_align bs + 4))] \<and>
    kern s' = ipc_object_init (Suspend mp) (kern s) \<and> mp_block_size (mempools s' mp) = rt_align bs \<and>
    (\<forall>x. x < start \<or> start + bytes \<le> x \<longrightarrow> ram s' x = ram s x)"
proof -
  define w where "w = rt_align bs + 4"
  define n where "n = nat (rt_align_down bytes div w)"
  have a: "bs \<le> rt_align bs" "rt_align bs < bs + 4" "rt_align bs mod 4 = 0" using rt_align_spec [of bs] bs by simp_all
  then have w: "8 \<le> w" "w < 4294967296" "sz w = w" using bs by (presburger add: w_def, simp_all add: w_def)
  have d: "rt_align_down bytes \<le> bytes" by (simp add: rt_align_down_def)
  have n: "int n = rt_align_down bytes div w" using w room by (simp add: n_def w_def pos_imp_zdiv_nonneg_iff)
  have "1 \<le> rt_align_down bytes div w" using zdiv_mono1 [of w "rt_align_down bytes" w] w room by (simp add: w_def)
  then have n0: "0 < n" using n by simp
  have "0 \<le> rt_align_down bytes mod w" using w(1) by simp
  then have nw: "int n * w \<le> bytes" unfolding n using d div_mult_mod_eq [of "rt_align_down bytes" w] by linarith
  define m where "m = \<lparr>mp_start = start, mp_size = rt_align_down bytes, mp_block_size = rt_align bs, mp_block_list = start,
    mp_total_count = int n, mp_free_count = int n\<rparr>"
  define s' where "s' = s\<lparr>mempools := (mempools s)(mp := m), kern := ipc_object_init (Suspend mp) (kern s),
    ram := free_list_init start w (int n) (ram s)\<rparr>"
  have run: "rt_mp_init mp start bytes bs s = Some (s', 0)"
    using start bs w(3) by (simp add: rt_mp_init_def Let_def s'_def m_def upd_mp_def n w_def rt_assert_def)
  have m: "4 \<le> mp_block_size m" "0 < mp_start m" "mp_start m + int n * (mp_block_size m + 4) \<le> 4294967296"
    using w nw start by (simp_all add: m_def w_def)
  have "mp_rep mp s' [0 ..< n]"
    by (rule fresh_pool [OF m(1,2) n0 m(3), of s' mp "ram s"]) (use mp in \<open>simp_all add: m_def s'_def w_def\<close>)
  moreover have "ram s' x = ram s x" if "x < start \<or> start + bytes \<le> x" for x
    using free_list_init_spec(2) [OF m(1,2) n0 m(3), of x "ram s"] that nw by (auto simp: s'_def m_def w_def)
  ultimately show ?thesis using run by (intro exI [of _ s']) (simp add: n_def w_def s'_def m_def)
qed


section \<open>Allocating and releasing a block\<close>

text \<open>A waiting thread is the first of the queue, its error cleared and its timer set.\<close>

definition waits_first :: "list_head \<Rightarrow> tid \<Rightarrow> int \<Rightarrow> kernel \<Rightarrow> kernel \<Rightarrow> bool" where
  "waits_first h c time k k' \<longleftrightarrow>
     kinv k' \<and> thread_stat k' c = 2 \<and> th_error (threads k' c) = 0 \<and> tlists k' h = c # tlists k h \<and>
     (\<forall>h'. h' \<noteq> h \<longrightarrow> (\<forall>p. h' \<noteq> Ready p) \<longrightarrow> tlists k' h' = tlists k h') \<and>
     (\<forall>u. u \<noteq> c \<longrightarrow> thread_core (threads k' u) = thread_core (threads k u)) \<and>
     (Thread_timer c \<in> set (timer_list k') \<longleftrightarrow> 0 < time) \<and>
     (0 < time \<longrightarrow> tm_timeout_tick (timers k' (Thread_timer c)) = rt_tick k + of_int time) \<and>
     current_thread k' \<noteq> None \<and> ipc_same k k'"

lemma mp_alloc_waits:
  assumes inv: "kinv (kern s)" and c: "current_thread (kern s) = Some c" "thread_stat (kern s) c = 3" "interrupt_nest (kern s) = 0"
    and time: "timeout_ok time" "time \<noteq> 0" and z: "mp_free_count (mempools s mp) = 0"
  shows "\<exists>k' d. rt_mp_alloc mp time s = Some (Pool_wait (s\<lparr>kern := k'\<rparr>) d) \<and> waits_first (Suspend mp) c time (kern s) k'"
proof -
  let ?k1 = "upd_thread c (\<lambda>th. th\<lparr>th_error := 0\<rparr>) (kern s)"
  have k1: "kinv ?k1" using inv by (rule kinv_upd_same) simp
  obtain k' where k': "do { k1 \<leftarrow> mp_suspend (Suspend mp) c ?k1;
        k2 \<leftarrow> (if time > 0 then start_thread_timer c (of_int time) k1 else Some k1); rt_schedule k2 } = Some k'"
    "kinv k'" "thread_stat k' c = 2" "tlists k' (Suspend mp) = c # tlists ?k1 (Suspend mp)"
    "\<And>h'. h' \<noteq> Suspend mp \<Longrightarrow> \<forall>p. h' \<noteq> Ready p \<Longrightarrow> tlists k' h' = tlists ?k1 h'"
    "\<And>u. thread_core (threads k' u) = thread_core (threads ?k1 u)" "current_thread k' \<noteq> None" "ipc_same ?k1 k'"
    "Thread_timer c \<in> set (timer_list k') \<longleftrightarrow> 0 < time"
    "0 < time \<Longrightarrow> tm_timeout_tick (timers k' (Thread_timer c)) = rt_tick ?k1 + of_int time"
    by (rule lifo.block_on [OF k1 _ _ _ timeout_ok_half [OF time(1)], of c "Suspend mp"]) (use c in auto)
  have "rt_mp_alloc mp time s = Some (Pool_wait (s\<lparr>kern := k'\<rparr>) (if time > 0 then rt_tick (kern s) else 0))"
    using k'(1) c time(2) z by (cases "0 < time") (auto simp: rt_mp_alloc_def bind_eq_Some_conv)
  moreover have "th_error (threads k' c) = 0" using thread_core_eqD(1) [OF k'(6) [of c]] by simp
  moreover have "ipc_same (kern s) k'" using k'(8) by (simp add: ipc_same_def)
  ultimately show ?thesis using k' by (auto simp: waits_first_def)
qed

lemma mp_alloc_takes:
  assumes "mp_rep mp s (i # is)"
  shows "\<exists>s'. rt_mp_alloc mp time s = Some (Pool_return s' (block_at (mempools s mp) i + 4)) \<and> mp_rep mp s' is \<and> kern s' = kern s \<and>
    (\<forall>x. x < block_at (mempools s mp) i \<or> block_at (mempools s mp) i + 4 \<le> x \<longrightarrow> ram s' x = ram s x)"
proof -
  have "mp_free_count (mempools s mp) \<noteq> 0" using mp_repD(8) [OF assms] by simp
  then show ?thesis using take_block_rep [OF assms] by (auto simp: rt_mp_alloc_def)
qed

text \<open>The release up to the decision whether to wake a thread.\<close>

definition put_block :: "obj \<Rightarrow> int \<Rightarrow> sys \<Rightarrow> sys" where
  "put_block mp p s =
     s\<lparr>ram := store32 p (mp_block_list (mempools s mp)) (ram s),
       mempools := (mempools s)(mp := (mempools s mp)\<lparr>mp_free_count := sz (mp_free_count (mempools s mp) + 1), mp_block_list := p\<rparr>)\<rparr>"

lemma mp_free_put:
  assumes "load32 (ram s) p = int mp" "p + 4 \<noteq> 0"
  shows "rt_mp_free (p + 4) s =
    (case tlists (kern s) (Suspend mp) of [] \<Rightarrow> Some (put_block mp p s)
     | t # _ \<Rightarrow> do { k1 \<leftarrow> ipc_list_resume (Suspend mp) (upd_thread t (\<lambda>th. th\<lparr>th_error := 0\<rparr>) (kern s));
                   k2 \<leftarrow> rt_schedule k1; Some ((put_block mp p s)\<lparr>kern := k2\<rparr>) })"
proof -
  have e: "p + 4 - 4 = p" "nat (int mp) = mp" by simp_all
  show ?thesis
    unfolding rt_mp_free_def e Let_def assms(1)
    using assms(2) by (simp add: put_block_def upd_mp_def split: list.split)
qed

lemma put_block_rep:
  assumes r: "mp_rep mp s fs" and i: "int i < mp_total_count (mempools s mp)" "i \<notin> set fs"
  shows "mp_rep mp (put_block mp (block_at (mempools s mp) i) s) (i # fs)"
proof -
  define m where "m = mempools s mp"
  note D = mp_repD [OF r, folded m_def]
  have ii: "int i < mp_total_count m" using i(1) by (simp add: m_def)
  have free_lt: "int (length fs) + 1 \<le> mp_total_count m"
  proof -
    have "set (i # fs) \<subseteq> {..<nat (mp_total_count m)}" using D(7) ii by (auto simp: nat_less_iff zless_nat_eq_int_zless)
    from card_mono [OF finite_lessThan this] have "length (i # fs) \<le> nat (mp_total_count m)"
      using distinct_card [of "i # fs"] D(6) i(2) by simp
    then show ?thesis using D(3) by simp
  qed
  define t where "t = put_block mp (block_at m i) s"
  define m' where "m' = m\<lparr>mp_free_count := int (length fs) + 1, mp_block_list := block_at m i\<rparr>"
  have fc: "sz (mp_free_count m + 1) = int (length fs) + 1"
    using free_lt mp_free_le(2) [OF r, folded m_def] D(8) by simp
  have mt: "mempools t mp = m'" "ram t = store32 (block_at m i) (mp_block_list m) (ram s)"
    by (simp_all add: t_def put_block_def m'_def fc m_def [symmetric])
  have e: "mp_start m' = mp_start m" "mp_block_size m' = mp_block_size m" "mp_total_count m' = mp_total_count m"
    "mp_free_count m' = int (length fs) + 1" "mp_block_list m' = block_at m i" by (simp_all add: m'_def)
  have ba: "block_at m' = block_at m" by (simp add: block_at_def fun_eq_iff e)
  have pl: "mp_block_list m mod 4294967296 = mp_block_list m"
  proof (cases fs)
    case (Cons j js)
    have "0 < block_at m j \<and> block_at m j + 8 \<le> 4294967296"
      using block_at_range [OF D(2,1) D(7) [of j] D(4)] Cons by simp
    then show ?thesis using D(9) Cons by simp
  qed (use D(9) in simp)
  have "free_chain m (ram t) (mp_block_list m) fs" using free_chain_write [OF D(9,2) i(2)] by (simp add: mt)
  then have "free_chain m' (ram t) (mp_block_list m') (i # fs)"
    using free_chain_pool [OF e(1,2)] by (simp add: e ba mt pl)
  moreover have "load32 (ram t) (block_at m j) = int mp" if "int j < mp_total_count m" "j \<notin> set (i # fs)" for j
    using D(10) [OF that(1)] that(2) link_other [OF D(2), of i j] by (simp add: mt)
  ultimately have "mp_rep mp t (i # fs)" using D ii i(2) by (simp add: mp_rep_def Let_def mt ba e)
  then show ?thesis by (simp add: t_def m_def)
qed


lemma mp_free_state:
  assumes r: "mp_rep mp s fs" and i: "int i < mp_total_count (mempools s mp)" "i \<notin> set fs"
    and k: "kinv (kern s)" "current_thread (kern s) \<noteq> None"
  shows "\<exists>s'. rt_mp_free (block_at (mempools s mp) i + 4) s = Some s' \<and> mp_rep mp s' (i # fs) \<and>
    block_at (mempools s' mp) = block_at (mempools s mp) \<and>
    (\<forall>x. x < block_at (mempools s mp) i \<or> block_at (mempools s mp) i + 4 \<le> x \<longrightarrow> ram s' x = ram s x) \<and>
    (case tlists (kern s) (Suspend mp) of [] \<Rightarrow> kern s' = kern s
     | t # _ \<Rightarrow> woken (Suspend mp) (upd_thread t (\<lambda>th. th\<lparr>th_error := 0\<rparr>) (kern s)) (kern s'))"
proof -
  let ?p = "block_at (mempools s mp) i" and ?s = "put_block mp (block_at (mempools s mp) i) s"
  note D = mp_repD [OF r]
  have "0 < ?p" by (rule block_at_range [OF D(2,1) i(1) D(4)])
  then have run: "rt_mp_free (?p + 4) s = (case tlists (kern s) (Suspend mp) of [] \<Rightarrow> Some ?s
     | t # _ \<Rightarrow> do { k1 \<leftarrow> ipc_list_resume (Suspend mp) (upd_thread t (\<lambda>th. th\<lparr>th_error := 0\<rparr>) (kern s));
                   k2 \<leftarrow> rt_schedule k1; Some (?s\<lparr>kern := k2\<rparr>) })"
    by (intro mp_free_put D(10) i) simp
  have rep: "mp_rep mp ?s (i # fs)" by (rule put_block_rep [OF r i])
  have fr: "ram ?s x = ram s x" if "x < ?p \<or> ?p + 4 \<le> x" for x using that by (simp add: put_block_def store32_outside)
  have ba: "block_at (mempools ?s mp) = block_at (mempools s mp)" by (simp add: put_block_def block_at_def fun_eq_iff)
  show ?thesis
  proof (cases "tlists (kern s) (Suspend mp)")
    case Nil
    have "kern ?s = kern s" by (simp add: put_block_def)
    then show ?thesis using run rep fr ba Nil by auto
  next
    case (Cons t ts)
    let ?k = "upd_thread t (\<lambda>th. th\<lparr>th_error := 0\<rparr>) (kern s)"
    have kk: "kinv ?k" using k(1) by (rule kinv_upd_same) simp
    obtain k1 k2 where w: "ipc_list_resume (Suspend mp) ?k = Some k1" "rt_schedule k1 = Some k2" "woken (Suspend mp) ?k k2"
      by (rule wake_spec [OF kk, of "Suspend mp"]) (use k(2) Cons in auto)
    have "rt_mp_free (?p + 4) s = Some (?s\<lparr>kern := k2\<rparr>)" using run Cons w by simp
    then show ?thesis using mp_rep_kern [OF rep] fr ba w(3) Cons
      by (intro exI [of _ "?s\<lparr>kern := k2\<rparr>"]) simp
  qed
qed

lemma woken_error:
  assumes "tlists k h = t # ts" "woken h (upd_thread t (\<lambda>th. th\<lparr>th_error := 0\<rparr>) k) k'"
  shows "th_error (threads k' t) = 0" "thread_stat k' t \<noteq> 2" "tlists k' h = ts"
proof -
  have "thread_core (threads k' t) = thread_core (threads (upd_thread t (\<lambda>th. th\<lparr>th_error := 0\<rparr>) k) t)"
    using assms(2) by (simp add: woken_def)
  from thread_core_eqD(1) [OF this] show "th_error (threads k' t) = 0" by simp
  show "thread_stat k' t \<noteq> 2" "tlists k' h = ts" using assms by (simp_all add: woken_def)
qed

text \<open>Storing the word that is there already changes nothing.\<close>

lemma store32_same: "store32 a (load32 r a) r = r"
  by (simp add: store32_load32 mcopy_def fun_eq_iff)

lemma store32_twice: "store32 a v (store32 a w r) = store32 a v r"
proof
  fix x
  show "store32 a v (store32 a w r) x = store32 a v r x"
  proof (cases "a \<le> x \<and> x < a + 4")
    case True
    then consider "x = a" | "x = a + 1" | "x = a + 2" | "x = a + 3" by (meson between_4)
    then show ?thesis by cases (simp_all add: store32_def store16_def store8_def)
  qed (simp add: store32_outside not_le not_less)
qed

section \<open>Properties\<close>

text \<open>
  \<open>rt_mp_init\<close>, for a region with room for a block, establishes the invariant with every block free:
  as many blocks of the aligned size and a link word as the aligned region holds, linked in the order
  of their addresses, the queue of waiting threads empty; no byte outside the region is written.
\<close>

theorem mp_init:
  assumes "0 < start" "0 < bytes" "start + bytes \<le> 4294967296" "0 < bs" "bs \<le> 4294967284"
    "rt_align bs + 4 \<le> rt_align_down bytes" "int mp < 4294967296"
  shows "\<exists>s'. rt_mp_init mp start bytes bs s = Some (s', 0) \<and>
    mp_rep mp s' [0 ..< nat (rt_align_down bytes div (rt_align bs + 4))] \<and> tlists (kern s') (Suspend mp) = [] \<and>
    (\<forall>x. x < start \<or> start + bytes \<le> x \<longrightarrow> ram s' x = ram s x)"
proof -
  obtain s' where "rt_mp_init mp start bytes bs s = Some (s', 0)"
    "mp_rep mp s' [0 ..< nat (rt_align_down bytes div (rt_align bs + 4))]" "kern s' = ipc_object_init (Suspend mp) (kern s)"
    "\<forall>x. x < start \<or> start + bytes \<le> x \<longrightarrow> ram s' x = ram s x"
    using mp_init_state [OF assms, of s] by blast
  then show ?thesis by (simp add: ipc_object_init_def)
qed

theorem mp_init_witness: "\<exists>s'. rt_mp_init 9 5000 35 6 s_demo = Some (s', 0) \<and> mp_rep 9 s' [0, 1]"
  using mp_init [of 5000 35 6 9 s_demo] by (simp add: rt_align_def rt_align_down_def sz_def upt_conv_Cons) blast

text \<open>
  \<open>rt_mp_init\<close> of a region too small for a single block returns \<open>RT_EOK\<close> and an empty pool, and
  writes a null word below the region: the loop links nothing, and \<open>offset - 1\<close> is the block in front.
\<close>

theorem mp_init_underflow:
  assumes "start \<noteq> 0" "0 < bytes" "0 < bs" "bs \<le> 4294967284" "rt_align_down bytes < rt_align bs + 4"
    "rt_align bs + 4 < start" "start < 4294967296"
  shows "\<exists>s'. rt_mp_init mp start bytes bs s = Some (s', 0) \<and> mp_total_count (mempools s' mp) = 0 \<and>
    ram s' = store32 (start - (rt_align bs + 4)) 0 (ram s)"
proof -
  have a: "bs \<le> rt_align bs" "0 \<le> rt_align_down bytes" using rt_align_spec [of bs] assms by (simp_all add: rt_align_down_def)
  have w: "sz (rt_align bs + 4) = rt_align bs + 4" using a assms by simp
  have c: "rt_align_down bytes div (rt_align bs + 4) = 0" using a assms by simp
  have "sz (start + (0 - 1) * (rt_align bs + 4)) = start - (rt_align bs + 4)" using a assms by simp
  then show ?thesis using assms(1-3) by (simp add: rt_mp_init_def Let_def w c free_list_init_def)
qed

theorem mp_init_underflow_witness:
  "\<exists>s'. rt_mp_init 9 5000 8 6 s_demo = Some (s', 0) \<and> ram s' = store32 4988 0 (\<lambda>_. 0)"
  using mp_init_underflow [of 5000 8 6 9 s_demo] by (auto simp: rt_align_def rt_align_down_def sz_def s_demo_def)

text \<open>
  C22. \<open>rt_mp_alloc\<close>, for a running thread and every time-out: the first free block is taken, its link
  word replaced by the address of the pool and nothing else written; with no block free and no waiting
  allowed the result is null and the thread's error is \<open>-RT_ETIMEOUT\<close>; otherwise the thread waits at
  the front of the queue, with its timer running exactly for a positive time-out. The invariants of
  the pool and of the kernel hold.
\<close>

theorem mp_alloc_outcome:
  assumes r: "mp_rep mp s fs" and k: "kinv (kern s)" "current_thread (kern s) = Some c" "thread_stat (kern s) c = 3"
      "interrupt_nest (kern s) = 0" and time: "timeout_ok time"
  shows "case fs of
      i # is \<Rightarrow> \<exists>s'. rt_mp_alloc mp time s = Some (Pool_return s' (block_at (mempools s mp) i + 4)) \<and> mp_rep mp s' is \<and>
        kern s' = kern s \<and> (\<forall>x. x < block_at (mempools s mp) i \<or> block_at (mempools s mp) i + 4 \<le> x \<longrightarrow> ram s' x = ram s x)
    | [] \<Rightarrow> if time = 0 then \<exists>s'. rt_mp_alloc mp time s = Some (Pool_return s' 0) \<and> rt_get_errno s' = - 2 \<and> mp_rep mp s' []
        else \<exists>k' d. rt_mp_alloc mp time s = Some (Pool_wait (s\<lparr>kern := k'\<rparr>) d) \<and> waits_first (Suspend mp) c time (kern s) k'"
proof (cases fs)
  case Nil
  then have z: "mp_free_count (mempools s mp) = 0" using mp_repD(8) [OF r] by simp
  show ?thesis
  proof (cases "time = 0")
    case True
    have "rt_mp_alloc mp time s = Some (Pool_return (rt_set_errno (- 2) s) 0)" using z True by (simp add: rt_mp_alloc_def)
    moreover have "rt_get_errno (rt_set_errno (- 2) s) = - 2" "mp_rep mp (rt_set_errno (- 2) s) []"
      using k mp_rep_kern [OF r] Nil by (simp_all add: rt_get_errno_def rt_set_errno_def)
    ultimately show ?thesis using Nil True by auto
  next
    case False
    show ?thesis using mp_alloc_waits [OF k time False z] Nil False by simp
  qed
next
  case (Cons i "is")
  show ?thesis using mp_alloc_takes [of mp s i "is" time] r Cons by simp
qed


lemma s_demo_kern [simp]: "kern s_demo = k_demo"
  by (simp add: s_demo_def)

lemma k_demo_no_waiters: "tlists k_demo (Suspend x) = []" "ipc_object_init (Suspend x) k_demo = k_demo"
  by (simp_all add: ipc_object_init_def k_demo_def demo_lists_def fun_eq_iff)

lemma pool_demo:
  obtains s where "rt_mp_init 9 5000 35 6 s_demo = Some (s, 0)" "mp_rep 9 s [0, 1]" "kern s = k_demo"
proof -
  obtain s where s: "rt_mp_init 9 5000 35 6 s_demo = Some (s, 0)" "mp_rep 9 s [0, 1]" "kern s = ipc_object_init (Suspend 9) (kern s_demo)"
    using mp_init_state [of 5000 35 6 9 s_demo] by (simp add: rt_align_def rt_align_down_def sz_def upt_conv_Cons) blast
  then show thesis using that k_demo_no_waiters by simp
qed

theorem mp_alloc_outcome_witness:
  "\<exists>s s1. rt_mp_init 9 5000 35 6 s_demo = Some (s, 0) \<and>
     rt_mp_alloc 9 5 s = Some (Pool_return s1 (block_at (mempools s 9) 0 + 4)) \<and> mp_rep 9 s1 [1]"
proof -
  obtain s where s: "rt_mp_init 9 5000 35 6 s_demo = Some (s, 0)" "mp_rep 9 s [0, 1]" "kern s = k_demo" by (rule pool_demo)
  then show ?thesis using mp_alloc_outcome [OF s(2), of 1 5] k_demo_kinv k_demo_current by (auto simp: timeout_ok_def)
qed

text \<open>
  C23. \<open>rt_mp_free\<close> of a block in use makes it the first free one and writes only its link word; the first
  thread that waits is woken with its error cleared, and its call of \<open>rt_mp_alloc\<close> then gets this very
  block; without one the kernel's state is unchanged.
\<close>

theorem mp_free_outcome:
  assumes r: "mp_rep mp s fs" and i: "int i < mp_total_count (mempools s mp)" "i \<notin> set fs"
    and k: "kinv (kern s)" "current_thread (kern s) \<noteq> None"
  shows "\<exists>s'. rt_mp_free (block_at (mempools s mp) i + 4) s = Some s' \<and> mp_rep mp s' (i # fs) \<and>
    (\<forall>x. x < block_at (mempools s mp) i \<or> block_at (mempools s mp) i + 4 \<le> x \<longrightarrow> ram s' x = ram s x) \<and>
    (case tlists (kern s) (Suspend mp) of [] \<Rightarrow> kern s' = kern s
     | t # _ \<Rightarrow> woken (Suspend mp) (upd_thread t (\<lambda>th. th\<lparr>th_error := 0\<rparr>) (kern s)) (kern s') \<and>
        (\<forall>time d. \<exists>s2. rt_mp_alloc_return mp t time d s' = Some (Pool_return s2 (block_at (mempools s mp) i + 4)) \<and> mp_rep mp s2 fs))"
proof -
  obtain s' where s': "rt_mp_free (block_at (mempools s mp) i + 4) s = Some s'" "mp_rep mp s' (i # fs)"
    "block_at (mempools s' mp) = block_at (mempools s mp)"
    "\<forall>x. x < block_at (mempools s mp) i \<or> block_at (mempools s mp) i + 4 \<le> x \<longrightarrow> ram s' x = ram s x"
    "case tlists (kern s) (Suspend mp) of [] \<Rightarrow> kern s' = kern s
     | t # _ \<Rightarrow> woken (Suspend mp) (upd_thread t (\<lambda>th. th\<lparr>th_error := 0\<rparr>) (kern s)) (kern s')"
    using mp_free_state [OF assms] by blast
  have "\<exists>s2. rt_mp_alloc_return mp t time d s' = Some (Pool_return s2 (block_at (mempools s mp) i + 4)) \<and> mp_rep mp s2 fs"
    if "tlists (kern s) (Suspend mp) = t # ts" for t ts time d
  proof -
    have "woken (Suspend mp) (upd_thread t (\<lambda>th. th\<lparr>th_error := 0\<rparr>) (kern s)) (kern s')" using s'(5) that by simp
    from woken_error(1) [OF that this] show ?thesis
      using mp_alloc_takes [OF s'(2), of "time_left time d (kern s')"] s'(3) by (auto simp: rt_mp_alloc_return_def)
  qed
  then show ?thesis using s' by (cases "tlists (kern s) (Suspend mp)") auto
qed

theorem mp_free_outcome_witness:
  "\<exists>s s1 s2. rt_mp_init 9 5000 35 6 s_demo = Some (s, 0) \<and> rt_mp_alloc 9 0 s = Some (Pool_return s1 (block_at (mempools s1 9) 0 + 4)) \<and>
     rt_mp_free (block_at (mempools s1 9) 0 + 4) s1 = Some s2 \<and> mp_rep 9 s2 [0, 1]"
proof -
  obtain s where s: "rt_mp_init 9 5000 35 6 s_demo = Some (s, 0)" "mp_rep 9 s [0, 1]" "kern s = k_demo" by (rule pool_demo)
  obtain s1 where s1: "mp_take_block 9 s = Some (s1, block_at (mempools s 9) 0 + 4)" "mp_rep 9 s1 [1]" "kern s1 = kern s"
    "block_at (mempools s1 9) = block_at (mempools s 9)" "mp_total_count (mempools s1 9) = mp_total_count (mempools s 9)"
    using take_block_rep [OF s(2)] by blast
  have a: "rt_mp_alloc 9 0 s = Some (Pool_return s1 (block_at (mempools s1 9) 0 + 4))"
    using s1 mp_repD(8) [OF s(2)] by (simp add: rt_mp_alloc_def)
  have "int 0 < mp_total_count (mempools s1 9)" using mp_repD(7) [OF s(2), of 0] s1(5) by simp
  then show ?thesis using mp_free_outcome [OF s1(2), of 0] s1(3) s(1,3) a k_demo_kinv k_demo_current(1) by auto
qed

text \<open>
  The threads that wait for a block are served in the reverse order of their arrival, whatever
  their priorities: when \<open>c\<close> has begun to wait behind others and a block is released, \<open>c\<close> is woken and
  the others still wait.
\<close>

theorem mp_waiters_lifo:
  assumes r: "mp_rep mp s []" and k: "kinv (kern s)" "current_thread (kern s) = Some c" "thread_stat (kern s) c = 3"
      "interrupt_nest (kern s) = 0" and time: "timeout_ok time" "time \<noteq> 0" and i: "int i < mp_total_count (mempools s mp)"
  shows "\<exists>s1 d s2. rt_mp_alloc mp time s = Some (Pool_wait s1 d) \<and> c \<in> set (tlists (kern s1) (Suspend mp)) \<and>
    rt_mp_free (block_at (mempools s1 mp) i + 4) s1 = Some s2 \<and>
    thread_stat (kern s2) c \<noteq> 2 \<and> tlists (kern s2) (Suspend mp) = tlists (kern s) (Suspend mp)"
proof -
  have "mp_free_count (mempools s mp) = 0" using mp_repD(8) [OF r] by simp
  then obtain k' d where a: "rt_mp_alloc mp time s = Some (Pool_wait (s\<lparr>kern := k'\<rparr>) d)" "waits_first (Suspend mp) c time (kern s) k'"
    using mp_alloc_waits [OF k time] by blast
  let ?s = "s\<lparr>kern := k'\<rparr>"
  have q: "tlists (kern ?s) (Suspend mp) = c # tlists (kern s) (Suspend mp)" "kinv (kern ?s)" "current_thread (kern ?s) \<noteq> None"
    using a(2) by (simp_all add: waits_first_def)
  have "int i < mp_total_count (mempools ?s mp)" "i \<notin> set []" using i by simp_all
  from mp_free_state [OF mp_rep_kern [OF r] this q(2,3)] obtain s2 where
    s2: "rt_mp_free (block_at (mempools ?s mp) i + 4) ?s = Some s2"
    "woken (Suspend mp) (upd_thread c (\<lambda>th. th\<lparr>th_error := 0\<rparr>) (kern ?s)) (kern s2)"
    using q(1) by auto
  show ?thesis using a(1) s2(1) woken_error(2,3) [OF q(1) s2(2)] q(1) by (intro exI [of _ ?s] exI [of _ d] exI [of _ s2]) simp
qed


theorem mp_waiters_lifo_witness:
  "\<exists>s s1 d s2. mp_rep 9 s [] \<and> rt_mp_alloc 9 (- 1) s = Some (Pool_wait s1 d) \<and>
     rt_mp_free (block_at (mempools s1 9) 0 + 4) s1 = Some s2 \<and> thread_stat (kern s2) 1 \<noteq> 2"
proof -
  obtain s where s: "rt_mp_init 9 5000 35 6 s_demo = Some (s, 0)" "mp_rep 9 s [0, 1]" "kern s = k_demo" by (rule pool_demo)
  obtain s1 where s1: "mp_rep 9 s1 [1]" "kern s1 = k_demo" "mp_total_count (mempools s1 9) = mp_total_count (mempools s 9)"
    using take_block_rep [OF s(2)] s(3) by force
  obtain s2 where s2: "mp_rep 9 s2 []" "kern s2 = k_demo" "mp_total_count (mempools s2 9) = mp_total_count (mempools s1 9)"
    using take_block_rep [OF s1(1)] s1(2) by force
  have "int 0 < mp_total_count (mempools s2 9)" using mp_repD(7) [OF s(2), of 0] s1(3) s2(3) by simp
  then show ?thesis
    using mp_waiters_lifo [OF s2(1), of 1 "- 1" 0] s2(1,2) k_demo_kinv k_demo_current by (auto simp: timeout_ok_def)
qed

text \<open>
  Releasing the block just allocated, with no thread waiting, gives back the state from before the
  allocation: the pool, the memory and the kernel.
\<close>

theorem mp_alloc_free_roundtrip:
  assumes r: "mp_rep mp s (i # is)" and q: "tlists (kern s) (Suspend mp) = []"
  shows "\<exists>s1 p. rt_mp_alloc mp time s = Some (Pool_return s1 p) \<and> s1 \<noteq> s \<and> rt_mp_free p s1 = Some s"
proof -
  define m where "m = mempools s mp"
  note D = mp_repD [OF r, folded m_def]
  have c: "mp_free_count m = int (length is) + 1" "int (length is) + 1 < 4294967296"
    using D(8) mp_free_le [OF r] by (auto simp: m_def)
  have p: "mp_block_list m = block_at m i" using D(9) by simp
  have b: "0 < block_at m i" by (rule block_at_range [OF D(2,1) _ D(4)]) (rule D(7), simp)
  define s1 where "s1 = s\<lparr>ram := store32 (block_at m i) (int mp) (ram s),
    mempools := (mempools s)(mp := m\<lparr>mp_free_count := int (length is), mp_block_list := load32 (ram s) (block_at m i)\<rparr>)\<rparr>"
  have run: "rt_mp_alloc mp time s = Some (Pool_return s1 (block_at m i + 4))"
    using p b c by (simp add: rt_mp_alloc_def mp_take_block_def Let_def s1_def upd_mp_def m_def [symmetric])
  have s1: "ram s1 = store32 (block_at m i) (int mp) (ram s)" "kern s1 = kern s"
    "mempools s1 mp = m\<lparr>mp_free_count := int (length is), mp_block_list := load32 (ram s) (block_at m i)\<rparr>"
    by (simp_all add: s1_def)
  have l: "load32 (ram s1) (block_at m i) = int mp" using D(5) by (simp add: s1)
  have "rt_mp_free (block_at m i + 4) s1 = Some (put_block mp (block_at m i) s1)"
    using mp_free_put [OF l] b q by (simp add: s1(2))
  moreover have "put_block mp (block_at m i) s1 = s"
  proof -
    have "m\<lparr>mp_free_count := int (length is) + 1, mp_block_list := block_at m i\<rparr> = m" using c(1) p by (cases m) simp
    moreover have "store32 (block_at m i) (load32 (ram s) (block_at m i)) (ram s1) = ram s"
      by (simp add: s1 store32_twice store32_same)
    moreover have "sz (int (length is) + 1) = int (length is) + 1" using c(2) by simp
    ultimately have "put_block mp (block_at m i) s1 = s\<lparr>ram := ram s, mempools := (mempools s)(mp := m)\<rparr>"
      by (simp add: put_block_def s1(3)) (simp add: s1_def)
    then show ?thesis by (simp add: m_def)
  qed
  moreover have "s1 \<noteq> s"
  proof
    assume "s1 = s"
    then have "mp_free_count (mempools s1 mp) = mp_free_count m" by (simp add: m_def)
    then show False using c(1) by (simp add: s1(3))
  qed
  ultimately show ?thesis using run by auto
qed

theorem mp_alloc_free_roundtrip_witness:
  "\<exists>s s1 p. rt_mp_init 9 5000 35 6 s_demo = Some (s, 0) \<and> rt_mp_alloc 9 0 s = Some (Pool_return s1 p) \<and> rt_mp_free p s1 = Some s"
proof -
  obtain s where s: "rt_mp_init 9 5000 35 6 s_demo = Some (s, 0)" "mp_rep 9 s [0, 1]" "kern s = k_demo" by (rule pool_demo)
  then show ?thesis using mp_alloc_free_roundtrip [OF s(2), of 0] k_demo_no_waiters by auto
qed

text \<open>The heap does not depend on the tables of the pools.\<close>

lemma chain_pools [simp]: "chain (upd_mp mp f s) q p bs = chain s q p bs"
  by (induction bs arbitrary: q p) (simp_all add: upd_mp_def mem_magic_def mem_used_def mem_next_def mem_prev_def split_paired_all)

lemma heap_pools [simp]:
  "heap_rep (upd_mp mp f s) bs = heap_rep s bs" "heap_ptr (upd_mp mp f s) = heap_ptr s" "heap_sem (upd_mp mp f s) = heap_sem s"
proof -
  have "heap_ptr (upd_mp mp f s) = heap_ptr s" "heap_end (upd_mp mp f s) = heap_end s" "lfree (upd_mp mp f s) = lfree s"
    "mem_size_aligned (upd_mp mp f s) = mem_size_aligned s" "used_mem (upd_mp mp f s) = used_mem s"
    "max_mem (upd_mp mp f s) = max_mem s"
    "mem_used (upd_mp mp f s) = mem_used s" "mem_next (upd_mp mp f s) = mem_next s"
    by (simp_all add: upd_mp_def mem_used_def mem_next_def fun_eq_iff)
  then show "heap_rep (upd_mp mp f s) bs = heap_rep s bs" "heap_ptr (upd_mp mp f s) = heap_ptr s"
    by (simp_all add: heap_rep_def heap_linked_def)
qed (simp add: upd_mp_def)

lemma carve_used: "12 \<le> n \<Longrightarrow> n + 12 \<le> m \<Longrightarrow> \<exists>k. (total xs, k) \<in> used_set 0 (xs @ carve n m @ ys) \<and> n + 12 \<le> k \<and> k \<le> m"
  by (auto simp: used_set_append carve_def)

lemma init_kernel_same: "tlists k h = [] \<Longrightarrow> ipc_object_init h k = k"
  by (cases k) (simp add: ipc_object_init_def fun_upd_idem)




end
