(* ===== verification/Object.thy ===== *)
theory Object
  imports Heap_Ops
begin

text \<open>
  The registry of kernel objects, \<open>src/object.c\<close>. The header of an object is in the machine's memory at
  the object's address: eight bytes of name, the class with the flag for static objects, a flag byte.
  The list nodes behind it are represented by the lists they are linked into, one for each class. The
  end of a critical section may switch to another thread: then the call goes on when its thread runs
  again, in the state it finds. The hooks are not set.
\<close>

abbreviation (input) RT_NAME_MAX :: nat where "RT_NAME_MAX \<equiv> 8"
abbreviation (input) RT_Object_Class_Device :: u8 where "RT_Object_Class_Device \<equiv> 9"
abbreviation (input) RT_Object_Class_Static :: u8 where "RT_Object_Class_Static \<equiv> 0x80"

abbreviation (input) obj_type :: "sys \<Rightarrow> int \<Rightarrow> u8" where
  "obj_type s a \<equiv> ram s (a + 8)"

text \<open>
  \<open>rt_object_get_information\<close>: the classes the configuration has a container for, from thread to message
  queue, memory pool, device and timer.
\<close>

definition rt_object_get_information :: "u8 \<Rightarrow> bool" where
  "rt_object_get_information c \<longleftrightarrow> c \<in> {1, 2, 3, 4, 5, 6, 8, 9, 10}"

definition rt_object_get_length :: "u8 \<Rightarrow> sys \<Rightarrow> int" where
  "rt_object_get_length c s = (if rt_object_get_information c then int (length (object_container (objs s) c)) else 0)"

text \<open>\<open>rt_object_get_pointers\<close>: the addresses it stores into \<open>pointers\<close>; their number is the result.\<close>

definition rt_object_get_pointers :: "u8 \<Rightarrow> int \<Rightarrow> sys \<Rightarrow> int list" where
  "rt_object_get_pointers c maxlen s =
     (if maxlen \<le> 0 then []
      else if rt_object_get_information c then take (nat maxlen) (object_container (objs s) c) else [])"

definition leave_critical :: "(sys \<Rightarrow> 'a run) \<Rightarrow> sys \<Rightarrow> 'a run" where
  "leave_critical f s =
     (case rt_exit_critical (kern s) of
        None \<Rightarrow> Stuck
      | Some k \<Rightarrow> if current_thread k = current_thread (kern s) then f (s\<lparr>kern := k\<rparr>) else Yields (s\<lparr>kern := k\<rparr>) f)"

definition link_object :: "u8 \<Rightarrow> int \<Rightarrow> sys \<Rightarrow> sys" where
  "link_object c obj s =
     s\<lparr>objs := (objs s)\<lparr>object_container := (object_container (objs s))(c := obj # object_container (objs s) c)\<rparr>\<rparr>"

definition unlink_object :: "int \<Rightarrow> sys \<Rightarrow> sys" where
  "unlink_object obj s =
     s\<lparr>objs := (objs s)\<lparr>object_container := (\<lambda>c. removeAll obj (object_container (objs s) c))\<rparr>\<rparr>"

definition object_attach :: "int \<Rightarrow> u8 \<Rightarrow> int \<Rightarrow> sys \<Rightarrow> sys" where
  "object_attach obj c name s = link_object c obj (s\<lparr>ram := rt_strncpy obj name RT_NAME_MAX ((ram s)(obj + 8 := c OR RT_Object_Class_Static))\<rparr>)"

definition rt_object_init :: "int \<Rightarrow> u8 \<Rightarrow> int \<Rightarrow> sys \<Rightarrow> unit run" where
  "rt_object_init obj c name s =
     (if \<not> rt_object_get_information c then Stuck
      else let s1 = s\<lparr>kern := rt_enter_critical (kern s)\<rparr> in
        if obj \<in> set (object_container (objs s1) c) then Stuck
        else leave_critical (\<lambda>s2. Done (object_attach obj c name s2) ()) s1)"

definition rt_object_detach :: "int \<Rightarrow> sys \<Rightarrow> sys option" where
  "rt_object_detach obj s =
     do { rt_assert (obj \<noteq> 0);
          Some (unlink_object obj (s\<lparr>ram := (ram s)(obj + 8 := 0)\<rparr>)) }"

definition rt_object_allocate :: "u8 \<Rightarrow> int \<Rightarrow> sys \<Rightarrow> int run" where
  "rt_object_allocate c name s =
     (if interrupt_nest (kern s) \<noteq> 0 then Stuck
      else if \<not> rt_object_get_information c then Stuck
      else run_then (rt_malloc (object_size (objs s) c) s) (\<lambda>obj s1.
        if obj = 0 then Done s1 0
        else let m1 = rt_memset obj 0 (nat (object_size (objs s1) c)) (ram s1);
                 m2 = m1(obj + 8 := c, obj + 9 := 0)
             in Done (link_object c obj (s1\<lparr>ram := rt_strncpy obj name RT_NAME_MAX m2\<rparr>)) obj))"

definition rt_object_delete :: "int \<Rightarrow> sys \<Rightarrow> unit run" where
  "rt_object_delete obj s =
     (if obj = 0 then Stuck
      else if obj_type s obj AND RT_Object_Class_Static \<noteq> 0 then Stuck
      else rt_free obj (unlink_object obj (s\<lparr>ram := (ram s)(obj + 8 := 0)\<rparr>)))"

definition rt_object_is_systemobject :: "int \<Rightarrow> sys \<Rightarrow> bool option" where
  "rt_object_is_systemobject obj s = do { rt_assert (obj \<noteq> 0); Some (obj_type s obj AND RT_Object_Class_Static \<noteq> 0) }"

definition rt_object_get_type :: "int \<Rightarrow> sys \<Rightarrow> u8 option" where
  "rt_object_get_type obj s = do { rt_assert (obj \<noteq> 0); Some (obj_type s obj AND NOT RT_Object_Class_Static) }"

fun find_name :: "int list \<Rightarrow> int \<Rightarrow> ram \<Rightarrow> int" where
  "find_name [] name m = 0"
| "find_name (obj # list) name m = (if rt_strncmp obj name RT_NAME_MAX m = 0 then obj else find_name list name m)"

definition rt_object_find :: "int \<Rightarrow> u8 \<Rightarrow> sys \<Rightarrow> int run" where
  "rt_object_find name c s =
     (if name = 0 \<or> \<not> rt_object_get_information c then Done s 0
      else if interrupt_nest (kern s) \<noteq> 0 then Stuck
      else let s1 = s\<lparr>kern := rt_enter_critical (kern s)\<rparr>;
               obj = find_name (object_container (objs s1) c) name (ram s1)
           in leave_critical (\<lambda>s2. Done s2 obj) s1)"

section \<open>Names\<close>

text \<open>The name stored at an address: the bytes before the first zero, at most eight.\<close>

definition name_at :: "ram \<Rightarrow> int \<Rightarrow> u8 list" where
  "name_at m a = takeWhile (\<lambda>b. b \<noteq> 0) (map (\<lambda>i. m (a + int i)) [0 ..< RT_NAME_MAX])"

lemma strncmp_loop_0:
  "strncmp_loop p q n 0 m = 0 \<longleftrightarrow>
   takeWhile (\<lambda>b. b \<noteq> 0) (map (\<lambda>i. m (p + int i)) [0 ..< n]) = takeWhile (\<lambda>b. b \<noteq> 0) (map (\<lambda>i. m (q + int i)) [0 ..< n])"
proof (induction n arbitrary: p q)
  case (Suc n)
  have t: "trunc_s 8 (load8 m p - load8 m q) = 0 \<longleftrightarrow> m p = m q"
    using trunc_s_8_0 [of "uint (m p) - uint (m q)"] uint_u8_range [of "m p"] uint_u8_range [of "m q"] uint_diff_0 [of "m p" "m q"]
    by (auto simp: load8_def)
  have u: "map (\<lambda>i. m (r + int i)) [0 ..< Suc n] = m r # map (\<lambda>i. m (r + 1 + int i)) [0 ..< n]" for r
    by (subst map_upt_Suc) (simp add: add.assoc)
  show ?case
    unfolding u using Suc.IH [of "p + 1" "q + 1"] t by (auto simp: Let_def simp del: upt_Suc)
qed simp

lemma strncmp_name: "rt_strncmp p q RT_NAME_MAX m = 0 \<longleftrightarrow> name_at m p = name_at m q"
  by (simp add: rt_strncmp_def strncmp_loop_0 name_at_def)

lemma name_at_cong: "(\<And>x. a \<le> x \<Longrightarrow> x < a + 8 \<Longrightarrow> m' x = m x) \<Longrightarrow> name_at m' a = name_at m a"
  unfolding name_at_def by (intro arg_cong [where f = "takeWhile (\<lambda>b. b \<noteq> 0)"] map_cong) auto

lemma name_at_cstr: "cstr m a xs \<Longrightarrow> name_at m a = take 8 xs"
proof -
  assume c: "cstr m a xs"
  have nz: "\<forall>b \<in> set (take 8 xs). b \<noteq> 0" using cstr_not_0 [OF c] by (meson in_set_takeD)
  show ?thesis
  proof (cases "8 \<le> length xs")
    case True
    have "map (\<lambda>i. m (a + int i)) [0 ..< 8] = take 8 xs"
      using True cstr_nth [OF c] by (intro nth_equalityI) (auto simp del: upt_conv_Cons)
    then show ?thesis using nz by (simp add: name_at_def takeWhile_eq_all_conv)
  next
    case False
    then obtain k where k: "8 = length xs + Suc k" by (metis less_natE not_le add_Suc_right)
    have "map (\<lambda>i. m (a + int i)) [0 ..< 8] = map (\<lambda>i. m (a + int i)) [0 ..< length xs] @ 0 # map (\<lambda>i. m (a + int i)) [Suc (length xs) ..< 8]"
    proof -
      have "[0 ..< 8] = [0 ..< length xs] @ length xs # [Suc (length xs) ..< 8]"
        using False by (metis le_add1 add_0 not_le upt_add_eq_append upt_conv_Cons k)
      then show ?thesis using cstr_end [OF c] by simp
    qed
    also have "map (\<lambda>i. m (a + int i)) [0 ..< length xs] = xs" using cstr_nth [OF c] by (intro nth_equalityI) auto
    finally have "name_at m a = takeWhile (\<lambda>b. b \<noteq> 0) (xs @ 0 # map (\<lambda>i. m (a + int i)) [Suc (length xs) ..< 8])"
      by (simp only: name_at_def)
    also have "\<dots> = xs" using cstr_not_0 [OF c] by (subst takeWhile_append2) auto
    finally show ?thesis using False by simp
  qed
qed

lemma name_at_padded:
  assumes "\<forall>b \<in> set xs. b \<noteq> 0" "\<And>i. i < 8 \<Longrightarrow> m (a + int i) = padded 8 xs i"
  shows "name_at m a = take 8 xs"
proof -
  have "map (\<lambda>i. m (a + int i)) [0 ..< 8] = map (padded 8 xs) [0 ..< 8]" using assms(2) by (intro map_cong) auto
  also have "\<dots> = take 8 xs @ replicate (8 - length xs) 0"
    by (rule nth_equalityI) (auto simp: padded_def nth_append simp del: upt_conv_Cons)
  finally have "name_at m a = takeWhile (\<lambda>b. b \<noteq> 0) (take 8 xs @ replicate (8 - length xs) 0)" by (simp only: name_at_def)
  also have "\<dots> = take 8 xs"
    using assms(1) by (subst takeWhile_append2) (auto dest: in_set_takeD)
  finally show ?thesis .
qed

lemma cstr_agree:
  "cstr m p xs \<Longrightarrow> (\<And>x. p \<le> x \<Longrightarrow> x \<le> p + int (length xs) \<Longrightarrow> m' x = m x) \<Longrightarrow> cstr m' p xs"
proof (induction xs arbitrary: p)
  case (Cons x xs)
  have "cstr m' (p + 1) xs" by (rule Cons.IH) (use Cons.prems in auto)
  then show ?case using Cons.prems by simp
qed simp

text \<open>The object found is the first one of the list with the same name.\<close>

lemma find_name_spec:
  "0 \<notin> set xs \<Longrightarrow> find_name xs name m = (case filter (\<lambda>a. name_at m a = name_at m name) xs of [] \<Rightarrow> 0 | a # _ \<Rightarrow> a)"
  by (induction xs) (auto simp: strncmp_name)

section \<open>The invariant\<close>

text \<open>The critical section of a call does not switch: nothing of higher priority waits for it to end.\<close>

definition calm :: "sys \<Rightarrow> bool" where
  "calm s \<longleftrightarrow> interrupt_nest (kern s) = 0 \<and> rt_exit_critical (rt_enter_critical (kern s)) = Some (kern s)"

lemma leave_calm: "calm s \<Longrightarrow> leave_critical f (s\<lparr>kern := rt_enter_critical (kern s)\<rparr>) = f s"
  by (simp add: calm_def leave_critical_def rt_enter_critical_def)

definition registered :: "sys \<Rightarrow> int set" where
  "registered s = (\<Union>c. set (object_container (objs s) c))"

text \<open>Where the header of an object lies: outside the heap, or in a block of its own.\<close>

definition placed :: "blocks \<Rightarrow> sys \<Rightarrow> int \<Rightarrow> bool" where
  "placed bs s a \<longleftrightarrow>
     (if bit (obj_type s a) 7 then a + 10 \<le> heap_ptr s \<or> heap_end s + 12 \<le> a
      else \<exists>m. (a - heap_ptr s - 12, m) \<in> used_set 0 bs \<and> 22 \<le> m)"

text \<open>
  Every registered object has the class of its container and is in it once; the headers (ten bytes
  besides the list node) do not overlap, static ones lie outside the heap, the others at the
  beginning of a block in use.
\<close>

definition typed :: "sys \<Rightarrow> bool" where
  "typed s \<longleftrightarrow>
     (\<forall>c. distinct (object_container (objs s) c) \<and>
        (\<forall>a \<in> set (object_container (objs s) c).
           a \<noteq> 0 \<and> rt_object_get_information c \<and> obj_type s a AND NOT RT_Object_Class_Static = c))"

definition apart_headers :: "sys \<Rightarrow> bool" where
  "apart_headers s \<longleftrightarrow> (\<forall>a \<in> registered s. \<forall>b \<in> registered s. a = b \<or> a + 10 \<le> b \<or> b + 10 \<le> a)"

definition reg_at :: "blocks \<Rightarrow> sys \<Rightarrow> bool" where
  "reg_at bs s \<longleftrightarrow> typed s \<and> apart_headers s \<and> heap_idle s \<and> heap_rep s bs \<and> (\<forall>a \<in> registered s. placed bs s a) \<and>
     (\<forall>c. rt_object_get_information c \<longrightarrow> 10 \<le> object_size (objs s) c \<and> object_size (objs s) c \<le> 4294967292)"

definition reg_inv :: "sys \<Rightarrow> bool" where
  "reg_inv s \<longleftrightarrow> (\<exists>bs. reg_at bs s)"

lemma reg_simps [simp]:
  "object_container (objs (link_object c a s)) = (object_container (objs s))(c := a # object_container (objs s) c)"
  "object_container (objs (unlink_object a s)) = (\<lambda>c. removeAll a (object_container (objs s) c))"
  "ram (link_object c a s) = ram s" "ram (unlink_object a s) = ram s"
  "kern (link_object c a s) = kern s" "kern (unlink_object a s) = kern s"
  "object_size (objs (link_object c a s)) = object_size (objs s)" "object_size (objs (unlink_object a s)) = object_size (objs s)"
  "heap_ptr (link_object c a s) = heap_ptr s" "heap_ptr (unlink_object a s) = heap_ptr s"
  "heap_end (link_object c a s) = heap_end s" "heap_end (unlink_object a s) = heap_end s"
  by (simp_all add: link_object_def unlink_object_def)

lemma heap_rep_agree:
  assumes h: "heap_rep s bs" and c: "heap_const s' = heap_const s" "lfree s' = lfree s" "used_mem s' = used_mem s" "max_mem s' = max_mem s"
    and r: "\<And>x. heap_ptr s \<le> x \<Longrightarrow> x < heap_end s + 12 \<Longrightarrow> ram s' x = ram s x"
  shows "heap_rep s' bs"
proof -
  have l: "heap_linked s bs" and sep: "separated bs" using h by (simp_all add: heap_rep_def)
  note D = heap_linkedD [OF l]
  have k: "heap_ptr s' = heap_ptr s" "heap_end s' = heap_end s" "mem_size_aligned s' = mem_size_aligned s"
    using c(1) by (simp_all add: heap_const_def)
  have t: "0 \<le> total bs" using chain_total [OF D(1)] by simp
  have ch: "chain s' 0 0 bs" by (rule chain_agree [OF D(1)]) (use r k D(3) in auto)
  have e: "ram s' x = ram s x" if "heap_end s \<le> x" "x < heap_end s + 12" for x using r [of x] that D(3) t by simp
  have "load16 (ram s') (heap_end s + 2) = load16 (ram s) (heap_end s + 2)" by (rule load16_cong; rule e; simp)
  moreover have "load32 (ram s') (heap_end s + 4) = load32 (ram s) (heap_end s + 4)" by (rule load32_cong; rule e; simp)
  ultimately have "mem_used s' (heap_end s') = 1" "mem_next s' (heap_end s') = total bs"
    using D(4,5) k by (simp_all add: mem_used_def mem_next_def)
  then have "heap_linked s' bs" by (intro heap_linkedI) (use ch D k c in simp_all)
  then show ?thesis using sep by (simp add: heap_rep_def)
qed

lemma heap_objs [simp]: "heap_rep (s\<lparr>objs := r\<rparr>) bs = heap_rep s bs" "heap_idle (s\<lparr>objs := r\<rparr>) = heap_idle s"
proof -
  show "heap_rep (s\<lparr>objs := r\<rparr>) bs = heap_rep s bs"
    using heap_rep_agree [of s bs "s\<lparr>objs := r\<rparr>"] heap_rep_agree [of "s\<lparr>objs := r\<rparr>" bs s] by (auto simp: heap_const_def)
qed (simp add: heap_idle_def)

lemma heap_link [simp]: "heap_rep (link_object c a s) bs = heap_rep s bs" "heap_rep (unlink_object a s) bs = heap_rep s bs"
  "heap_idle (link_object c a s) = heap_idle s" "heap_idle (unlink_object a s) = heap_idle s"
  by (simp_all add: link_object_def unlink_object_def)

lemma registered_simps:
  "registered (link_object c a s) = insert a (registered s)" "registered (unlink_object a s) = registered s - {a}"
  by (auto simp: registered_def split: if_splits)

lemma class_static:
  "rt_object_get_information c \<Longrightarrow> (c OR RT_Object_Class_Static) AND NOT RT_Object_Class_Static = c"
  "rt_object_get_information c \<Longrightarrow> c AND NOT RT_Object_Class_Static = c"
  "rt_object_get_information c \<Longrightarrow> bit (c OR RT_Object_Class_Static) 7" "rt_object_get_information c \<Longrightarrow> \<not> bit c 7"
  by (auto simp: rt_object_get_information_def)

lemma static_bit: "(x AND RT_Object_Class_Static \<noteq> 0) \<longleftrightarrow> bit (x :: u8) 7"
proof -
  have "RT_Object_Class_Static = (2 :: u8) ^ 7" by simp
  then have "(x AND RT_Object_Class_Static = 0) \<longleftrightarrow> \<not> bit x 7"
    by (metis bit_iff_and_push_bit_not_eq_0 push_bit_of_1)
  then show ?thesis by simp
qed

lemma strncpy_loop_frame: "x < d \<or> d + int n \<le> x \<Longrightarrow> strncpy_loop d q n m x = m x"
proof (induction n arbitrary: d q m)
  case (Suc n)
  then show ?case by (auto simp: Let_def set_bytes_mfill mfill_def)
qed simp

lemma strncpy_frame: "x < d \<or> d + 8 \<le> x \<Longrightarrow> rt_strncpy d q RT_NAME_MAX m x = m x"
  using strncpy_loop_frame [of x d 8 q m] by (simp add: rt_strncpy_def)

lemma registered_frame: "objs s' = objs s \<Longrightarrow> registered s' = registered s"
  by (simp add: registered_def)

lemma reg_placed: "reg_at bs s \<Longrightarrow> a \<in> registered s \<Longrightarrow> placed bs s a"
  by (simp add: reg_at_def)

lemma reg_at_frame:
  assumes r: "reg_at bs s" and o: "objs s' = objs s" and h: "heap_idle s'" "heap_rep s' bs'" "heap_ptr s' = heap_ptr s" "heap_end s' = heap_end s"
    and ty: "\<And>a. a \<in> registered s \<Longrightarrow> obj_type s' a = obj_type s a"
    and u: "\<And>a m. a \<in> registered s \<Longrightarrow> \<not> bit (obj_type s a) 7 \<Longrightarrow> (a - heap_ptr s - 12, m) \<in> used_set 0 bs \<Longrightarrow> (a - heap_ptr s - 12, m) \<in> used_set 0 bs'"
  shows "reg_at bs' s'"
proof -
  note g = registered_frame [OF o]
  have "typed s" using r by (simp add: reg_at_def)
  moreover have "obj_type s' a = obj_type s a" if "a \<in> set (object_container (objs s) c)" for a c
    by (rule ty) (use that in \<open>auto simp: registered_def\<close>)
  ultimately have "typed s'" by (simp add: typed_def o)
  moreover have "apart_headers s'" using r by (simp add: reg_at_def apart_headers_def g)
  moreover have "placed bs' s' a" if a: "a \<in> registered s" for a
  proof (cases "bit (obj_type s a) 7")
    case True
    then show ?thesis using r a ty [OF a] h(3,4) by (auto simp: reg_at_def placed_def)
  next
    case False
    then obtain m where "(a - heap_ptr s - 12, m) \<in> used_set 0 bs" "22 \<le> m" using reg_placed [OF r a] by (auto simp: placed_def)
    then show ?thesis using False ty [OF a] u [OF a False] h(3) by (auto simp: placed_def)
  qed
  ultimately show ?thesis using r o h g by (simp add: reg_at_def)
qed

lemma reg_at_link:
  assumes r: "reg_at bs s" and c: "rt_object_get_information c" "obj_type s obj AND NOT RT_Object_Class_Static = c"
    and obj: "obj \<noteq> 0" "placed bs s obj" "\<And>b. b \<in> registered s \<Longrightarrow> obj + 10 \<le> b \<or> b + 10 \<le> obj"
  shows "reg_at bs (link_object c obj s)"
proof -
  have "obj \<notin> registered s" using obj(3) [of obj] by auto
  then have "typed (link_object c obj s)" using r c obj(1) by (auto simp: reg_at_def typed_def registered_def)
  moreover have "apart_headers (link_object c obj s)"
    using r obj(3) by (auto simp: reg_at_def apart_headers_def registered_simps)
  moreover have "placed bs (link_object c obj s) = placed bs s" by (simp add: placed_def fun_eq_iff)
  ultimately show ?thesis using r obj(2) by (simp add: reg_at_def registered_simps)
qed

lemma reg_at_unlink:
  assumes r: "reg_at bs s"
  shows "reg_at bs (unlink_object obj s)"
proof -
  have "placed bs (unlink_object obj s) = placed bs s" by (simp add: placed_def fun_eq_iff)
  then show ?thesis using r by (auto simp: reg_at_def registered_simps typed_def apart_headers_def distinct_removeAll)
qed

text \<open>Where a registered header lies, no operation of the heap writes.\<close>

lemma header_kept:
  assumes h: "heap_rep s bs" and p: "placed bs s a" and x: "a \<le> x" "x < a + 10"
  shows "x \<in> kept (heap_ptr s) bs"
proof -
  have D: "heap_end s = heap_ptr s + total bs" using h by (simp add: heap_rep_def heap_linkedD)
  show ?thesis
  proof (cases "bit (obj_type s a) 7")
    case True
    then show ?thesis using p x D by (auto simp: placed_def kept_def)
  next
    case False
    then obtain m where m: "(a - heap_ptr s - 12, m) \<in> used_set 0 bs" "22 \<le> m" using p by (auto simp: placed_def)
    have "x \<in> {heap_ptr s + (a - heap_ptr s - 12) + 12 ..< heap_ptr s + (a - heap_ptr s - 12) + m}" using x m(2) by simp
    then have "x \<in> user_data (heap_ptr s + 0) bs" using used_set_data [OF m(1)] by blast
    then show ?thesis by (simp add: kept_def)
  qed
qed

lemma attach_ram: "x < obj \<or> obj + 9 \<le> x \<Longrightarrow> ram (object_attach obj c name s) x = ram s x"
  "obj_type (object_attach obj c name s) obj = c OR RT_Object_Class_Static"
  by (auto simp: object_attach_def strncpy_frame)

lemma attach_names:
  assumes name: "cstr (ram s) name xs" "obj + 9 \<le> name \<or> name + int (length xs) < obj"
  shows "name_at (ram (object_attach obj c name s)) obj = take RT_NAME_MAX xs"
    "obj + 10 \<le> b \<or> b + 10 \<le> obj \<Longrightarrow> name_at (ram (object_attach obj c name s)) b = name_at (ram s) b"
proof -
  let ?s = "object_attach obj c name s" and ?m = "(ram s)(obj + 8 := c OR RT_Object_Class_Static)"
  have cn: "cstr ?m name xs" by (rule cstr_agree [OF name(1)]) (use name(2) in auto)
  have o8: "obj + int RT_NAME_MAX \<le> name \<or> name + int (length xs) < obj" using name(2) by auto
  have rs': "ram ?s = (\<lambda>x. if obj \<le> x \<and> x < obj + int RT_NAME_MAX then padded RT_NAME_MAX xs (nat (x - obj)) else ?m x)"
    using strncpy_padded [OF cn o8] by (simp add: object_attach_def rt_strncpy_def)
  show "name_at (ram ?s) obj = take RT_NAME_MAX xs"
    by (rule name_at_padded) (use cstr_not_0 [OF name(1)] rs' in auto)
  assume b: "obj + 10 \<le> b \<or> b + 10 \<le> obj"
  show "name_at (ram ?s) b = name_at (ram s) b"
  proof (rule name_at_cong, rule attach_ram)
    fix x assume "b \<le> x" "x < b + 8"
    then show "x < obj \<or> obj + 9 \<le> x" using b by auto
  qed
qed

lemma object_init_ok:
  assumes r: "reg_at bs s" and c: "calm s" "rt_object_get_information c"
    and obj: "obj \<noteq> 0" "obj + 10 \<le> heap_ptr s \<or> heap_end s + 12 \<le> obj" "\<And>b. b \<in> registered s \<Longrightarrow> obj + 10 \<le> b \<or> b + 10 \<le> obj"
  shows "rt_object_init obj c name s = Done (object_attach obj c name s) ()" "reg_at bs (object_attach obj c name s)"
proof -
  have "obj \<notin> registered s" using obj(3) [of obj] by auto
  then show "rt_object_init obj c name s = Done (object_attach obj c name s) ()"
    using c by (simp add: rt_object_init_def leave_calm registered_def)
  let ?m = "rt_strncpy obj name RT_NAME_MAX ((ram s)(obj + 8 := c OR RT_Object_Class_Static))"
  have out: "?m x = ram s x" if "x < obj \<or> obj + 9 \<le> x" for x using that by (auto simp: strncpy_frame)
  have ty: "?m (obj + 8) = c OR RT_Object_Class_Static" by (simp add: strncpy_frame)
  have "reg_at bs (s\<lparr>ram := ?m\<rparr>)"
  proof (rule reg_at_frame [OF r])
    show "heap_rep (s\<lparr>ram := ?m\<rparr>) bs"
      by (rule heap_rep_agree [of s]) (use r obj(2) in \<open>auto simp: reg_at_def heap_const_def out\<close>)
    show "obj_type (s\<lparr>ram := ?m\<rparr>) a = obj_type s a" if "a \<in> registered s" for a
      using obj(3) [OF that] by (auto simp: out)
  qed (use r in \<open>simp_all add: reg_at_def heap_idle_def\<close>)
  then show "reg_at bs (object_attach obj c name s)"
    unfolding object_attach_def
    by (rule reg_at_link) (use c(2) obj class_static ty in \<open>simp_all add: placed_def registered_def\<close>)
qed

lemma object_detach_ok:
  assumes r: "reg_at bs s" and obj: "obj \<in> registered s"
  obtains s' where "rt_object_detach obj s = Some s'" "s' = unlink_object obj (s\<lparr>ram := (ram s)(obj + 8 := 0)\<rparr>)"
    "reg_at bs s'" "reg_at bs (unlink_object obj s)"
proof -
  let ?m = "(ram s)(obj + 8 := 0)"
  have o: "obj \<noteq> 0" "placed bs s obj" using r obj by (auto simp: reg_at_def typed_def registered_def)
  have u: "reg_at bs (unlink_object obj s)" by (rule reg_at_unlink [OF r])
  have hr: "heap_rep s bs" using r by (simp add: reg_at_def)
  have h: "heap_rep (s\<lparr>ram := ?m\<rparr>) bs"
  proof (cases "bit (obj_type s obj) 7")
    case True
    then show ?thesis using o(2) by (intro heap_rep_agree [OF hr]) (auto simp: placed_def heap_const_def)
  next
    case False
    then obtain m where "(obj - heap_ptr s - 12, m) \<in> used_set 0 bs" "22 \<le> m" using o(2) by (auto simp: placed_def)
    then show ?thesis by (intro heap_rep_write [OF hr]) auto
  qed
  have "reg_at bs (unlink_object obj (s\<lparr>ram := ?m\<rparr>))"
  proof (rule reg_at_frame [OF u])
    show "obj_type (unlink_object obj (s\<lparr>ram := ?m\<rparr>)) a = obj_type (unlink_object obj s) a" if "a \<in> registered (unlink_object obj s)" for a
      using that by (auto simp: registered_simps)
    show "objs (unlink_object obj (s\<lparr>ram := ?m\<rparr>)) = objs (unlink_object obj s)" by (simp add: unlink_object_def)
    show "heap_rep (unlink_object obj (s\<lparr>ram := ?m\<rparr>)) bs" using h by simp
  qed (use r in \<open>simp_all add: reg_at_def heap_idle_def unlink_object_def\<close>)
  moreover have "rt_object_detach obj s = Some (unlink_object obj (s\<lparr>ram := ?m\<rparr>))"
    using o(1) by (simp add: rt_object_detach_def rt_assert_def)
  ultimately show thesis using that u by blast
qed

lemma object_delete_ok:
  assumes r: "reg_at bs s" and obj: "obj \<in> registered s" "\<not> bit (obj_type s obj) 7"
  obtains s' bs' where "rt_object_delete obj s = Done s' ()" "reg_at bs' s'" "registered s' = registered s - {obj}"
    "\<And>c. object_container (objs s') c = removeAll obj (object_container (objs s) c)"
proof -
  obtain s1 where s1: "rt_object_detach obj s = Some s1" "s1 = unlink_object obj (s\<lparr>ram := (ram s)(obj + 8 := 0)\<rparr>)" "reg_at bs s1"
    by (rule object_detach_ok [OF r obj(1)])
  have o: "obj \<noteq> 0" "placed bs s obj" using r obj by (auto simp: reg_at_def typed_def registered_def)
  then obtain m where m: "(obj - heap_ptr s - 12, m) \<in> used_set 0 bs" "22 \<le> m" using obj(2) by (auto simp: placed_def)
  let ?a = "obj - heap_ptr s - 12"
  have h1: "heap_rep s1 bs" "heap_idle s1" "heap_ptr s1 = heap_ptr s" "heap_end s1 = heap_end s" using s1(2,3) by (simp_all add: reg_at_def)
  have g: "registered s1 = registered s - {obj}" by (simp add: s1(2) registered_simps) (simp add: registered_def)
  obtain xs ys where d: "bs = xs @ (m, True) # ys" "?a = total xs" using used_set_split [OF m(1)] by auto
  have sz: "\<forall>(k, v) \<in> set bs. 12 \<le> k" using h1(1) chain_sizes [of s1 0 0 bs] by (auto simp: heap_rep_def heap_linked_def)
  have e: "heap_ptr s1 + total xs + 12 = obj" using d(2) h1(3) by simp
  obtain s' where s': "rt_free obj s1 = Done s' ()" "heap_rep s' (coalesce (xs @ (m, False) # ys))" "heap_same s1 s'"
    "\<forall>x \<in> kept (heap_ptr s) (xs @ (m, False) # ys). ram s' x = ram s1 x"
    using free_idle [OF h1(1) [unfolded d(1)] h1(2), unfolded e] m(2) h1(3) by auto
  let ?bs = "coalesce (xs @ (m, False) # ys)"
  have sub: "used_set 0 bs - {(?a, m)} \<subseteq> used_set 0 ?bs"
    using used_set_release [of xs m ys] d by (simp add: used_set_coalesce)
  have other: "(b - heap_ptr s - 12, k) \<in> used_set 0 ?bs" if "(b - heap_ptr s - 12, k) \<in> used_set 0 bs" "b \<noteq> obj" for b k
    using sub that by auto
  have "reg_at ?bs s'"
  proof (rule reg_at_frame [OF s1(3)])
    show "objs s' = objs s1" "heap_ptr s' = heap_ptr s1" "heap_end s' = heap_end s1" using s'(3) by (simp_all add: heap_same_def)
    show "heap_idle s'" using h1(2) s'(3) by (simp add: heap_idle_def heap_same_def)
    show "heap_rep s' ?bs" by (rule s'(2))
    fix b assume b: "b \<in> registered s1"
    have pb: "placed bs s1 b" using s1(3) b by (simp add: reg_at_def)
    have "placed (xs @ (m, False) # ys) s1 b"
      using pb other [of b] b g h1(3,4) used_set_coalesce [of 0 "xs @ (m, False) # ys"] by (auto simp: placed_def split: if_splits)
    moreover have "heap_end s1 = heap_ptr s1 + total bs" using h1(1) by (simp add: heap_rep_def heap_linkedD)
    ultimately have "b + 8 \<in> kept (heap_ptr s) (xs @ (m, False) # ys)"
    proof -
      assume p: "placed (xs @ (m, False) # ys) s1 b" and he: "heap_end s1 = heap_ptr s1 + total bs"
      show ?thesis
      proof (cases "bit (obj_type s1 b) 7")
        case True
        then show ?thesis using p he h1(3) d(1) by (auto simp: placed_def kept_def)
      next
        case False
        then obtain k where k: "(b - heap_ptr s - 12, k) \<in> used_set 0 (xs @ (m, False) # ys)" "22 \<le> k" using p h1(3) by (auto simp: placed_def)
        have "b + 8 \<in> {heap_ptr s + (b - heap_ptr s - 12) + 12 ..< heap_ptr s + (b - heap_ptr s - 12) + k}" using k(2) by simp
        then have "b + 8 \<in> user_data (heap_ptr s + 0) (xs @ (m, False) # ys)" using used_set_data [OF k(1)] by blast
        then show ?thesis by (simp add: kept_def)
      qed
    qed
    then show "obj_type s' b = obj_type s1 b" using s'(4) by blast
    show "(b - heap_ptr s1 - 12, k) \<in> used_set 0 ?bs" if "(b - heap_ptr s1 - 12, k) \<in> used_set 0 bs" for k
      using other [of b k] that b g h1(3) by simp
  qed
  moreover have "rt_object_delete obj s = Done s' ()"
    using o(1) obj(2) static_bit [of "obj_type s obj"] s'(1) by (simp add: rt_object_delete_def s1(2) [symmetric])
  moreover have "objs s' = objs s1" using s'(3) by (simp add: heap_same_def)
  ultimately show thesis using that [of s' ?bs] g by (simp add: registered_def s1(2))
qed

lemma alloc_used:
  assumes "alloc_blocks l n p bs = Some (a, cs)" "12 \<le> n" "\<forall>(k, v) \<in> set bs. 12 \<le> k"
  obtains m where "(a, m) \<in> used_set p cs" "n + 12 \<le> m" "used_set p bs \<subseteq> used_set p cs" "(a, m) \<notin> used_set p bs"
proof -
  obtain xs j ys where d: "bs = xs @ (j, False) # ys" "a = p + total xs" "n + 12 \<le> j" "cs = xs @ carve n j @ ys"
    using alloc_blocks_Some [OF assms(1)] by blast
  obtain m where m: "n + 12 \<le> m" "(a, m) \<in> used_set p cs" using used_set_carve(2) [OF d(3), of p xs ys] d by auto
  moreover have "used_set p bs \<subseteq> used_set p cs" using used_set_carve(1) [OF d(3), of p xs ys] d by simp
  moreover have "(a, m) \<notin> used_set p bs" using used_set_new [of xs j ys p m] assms(3) d by auto
  ultimately show thesis using that by blast
qed

lemma object_allocate_ok:
  assumes r: "reg_at bs s" and c: "rt_object_get_information c"
  shows "rt_object_allocate c name s = Done s 0 \<or>
    (\<exists>s' obj bs'. rt_object_allocate c name s = Done s' obj \<and> obj \<noteq> 0 \<and> obj \<notin> registered s \<and> reg_at bs' s' \<and> obj_type s' obj = c \<and>
       object_container (objs s') = (object_container (objs s))(c := obj # object_container (objs s) c))"
proof -
  define n where "n = object_size (objs s) c"
  have n: "10 \<le> n" "n \<le> 4294967292" using r c by (simp_all add: reg_at_def n_def)
  have h: "heap_rep s bs" "heap_idle s" "interrupt_nest (kern s) = 0" using r by (simp_all add: reg_at_def heap_idle_def)
  have run: "rt_object_allocate c name s = run_then (rt_malloc n s) (\<lambda>obj s1.
        if obj = 0 then Done s1 0
        else let m1 = rt_memset obj 0 (nat (object_size (objs s1) c)) (ram s1);
                 m2 = m1(obj + 8 := c, obj + 9 := 0)
             in Done (link_object c obj (s1\<lparr>ram := rt_strncpy obj name RT_NAME_MAX m2\<rparr>)) obj)"
    using h(3) c by (simp add: rt_object_allocate_def n_def)
  note M = malloc_idle [OF h(1,2), of n]
  define q where "q = (if rt_align n \<le> mem_size_aligned s then alloc_blocks (mem_size_aligned s) (request n) 0 bs else None)"
  show ?thesis
  proof (cases q)
    case None
    then have "rt_malloc n s = Done s 0" using M n by (simp add: q_def [symmetric])
    then show ?thesis by (simp add: run)
  next
    case (Some p)
    obtain a cs where p: "p = (a, cs)" by (cases p) simp
    have A: "alloc_blocks (mem_size_aligned s) (request n) 0 bs = Some (a, cs)" using Some p by (simp add: q_def split: if_splits)
    define obj where "obj = heap_ptr s + a + 12"
    obtain s1 where s1: "rt_malloc n s = Done s1 obj" "heap_rep s1 cs" "heap_same s s1" "\<forall>x \<in> kept (heap_ptr s) bs. ram s1 x = ram s x"
      using M n Some p by (auto simp: q_def [symmetric] obj_def)
    have same: "objs s1 = objs s" "heap_ptr s1 = heap_ptr s" "heap_end s1 = heap_end s" "heap_idle s1"
      using s1(3) h(2) by (simp_all add: heap_same_def heap_idle_def)
    have sz: "\<forall>(k, v) \<in> set bs. 12 \<le> k" "\<forall>(k, v) \<in> set cs. 12 \<le> k"
      using h(1) s1(2) chain_sizes [of s 0 0 bs] chain_sizes [of s1 0 0 cs] by (auto simp: heap_rep_def heap_linked_def)
    have rq: "12 \<le> request n" "n \<le> request n" using rt_align_spec(1) [of n] n by (auto simp: request_def)
    obtain m where m: "(a, m) \<in> used_set 0 cs" "request n + 12 \<le> m" "used_set 0 bs \<subseteq> used_set 0 cs" "(a, m) \<notin> used_set 0 bs"
      by (rule alloc_used [OF A rq(1) sz(1)])
    have Dc: "heap_end s1 = heap_ptr s1 + total cs" "0 < heap_ptr s1" using s1(2) heap_linkedD(3,9) [of s1 cs] by (auto simp: heap_rep_def)
    have ra: "0 \<le> a" "a + m \<le> total cs" using used_set_range [OF sz(2) m(1)] by simp_all
    have o0: "0 < obj" using Dc(2) same(2) ra by (simp add: obj_def)
    define r1 where "r1 = rt_strncpy obj name RT_NAME_MAX ((rt_memset obj 0 (nat n) (ram s1))(obj + 8 := c, obj + 9 := 0))"
    have out: "r1 x = ram s1 x" if "x < obj \<or> obj + n \<le> x" for x
      using that n(1) by (auto simp: r1_def strncpy_frame memset_mfill mfill_def)
    have ty: "r1 (obj + 8) = c" by (simp add: r1_def strncpy_frame)
    let ?s = "s1\<lparr>ram := r1\<rparr>"
    have apart: "b + 10 \<le> obj \<or> obj + n \<le> b" "b \<noteq> obj" if b: "b \<in> registered s" for b
    proof -
      have pb: "placed bs s b" by (rule reg_placed [OF r b])
      show "b + 10 \<le> obj \<or> obj + n \<le> b"
      proof (cases "bit (obj_type s b) 7")
        case True
        then have "b + 10 \<le> heap_ptr s \<or> heap_end s + 12 \<le> b" using pb by (simp add: placed_def)
        then show ?thesis using ra m(2) rq(2) Dc(1) same by (auto simp: obj_def)
      next
        case False
        then obtain k where k: "(b - heap_ptr s - 12, k) \<in> used_set 0 bs" "22 \<le> k" using pb by (auto simp: placed_def)
        have "(b - heap_ptr s - 12, k) \<noteq> (a, m)" using k(1) m(4) by auto
        then have "b - heap_ptr s - 12 + k \<le> a \<or> a + m \<le> b - heap_ptr s - 12"
          using used_set_disjoint [OF sz(2) m(1), of "b - heap_ptr s - 12" k] k(1) m(3) by auto
        then show ?thesis using k(2) m(2) rq(2) by (auto simp: obj_def)
      qed
      then show "b \<noteq> obj" using n(1) by auto
    qed
    have "reg_at cs ?s"
    proof (rule reg_at_frame [OF r])
      show "heap_rep ?s cs"
        by (rule heap_rep_write [OF s1(2) m(1)]) (use out m(2) rq(2) same(2) in \<open>auto simp: obj_def\<close>)
      show "obj_type ?s b = obj_type s b" if b: "b \<in> registered s" for b
      proof -
        have "b + 8 \<in> kept (heap_ptr s) bs" using header_kept [OF h(1) reg_placed [OF r b]] by simp
        then show ?thesis using apart(1) [OF b] s1(4) n(1) by (auto simp: out)
      qed
      show "heap_idle ?s" using same(4) by (simp add: heap_idle_def)
    qed (use same m(3) in auto)
    then have "reg_at cs (link_object c obj ?s)"
    proof (rule reg_at_link [OF _ c])
      show "obj_type ?s obj AND NOT RT_Object_Class_Static = c" using ty class_static(2) [OF c] by simp
      show "placed cs ?s obj" using ty class_static(4) [OF c] m(1,2) rq(1) same(2) by (auto simp: placed_def obj_def)
      show "obj + 10 \<le> b \<or> b + 10 \<le> obj" if "b \<in> registered ?s" for b
        using apart(1) [of b] that same(1) n(1) by (auto simp: registered_def)
    qed (use o0 in simp)
    moreover have "rt_object_allocate c name s = Done (link_object c obj ?s) obj"
      using o0 same(1) by (simp add: run s1(1) r1_def n_def [symmetric] Let_def)
    ultimately show ?thesis using o0 ty same(1) apart(2) by (intro disjI2 exI [of _ "link_object c obj ?s"] exI [of _ obj] exI [of _ cs]) auto
  qed
qed

section \<open>A state with two names\<close>

definition names_demo :: "u8 list" where
  "names_demo = map of_char ''button_01'' @ [0] @ map of_char ''button_02'' @ [0]"

definition s_names :: sys where
  "s_names = s_heap\<lparr>kern := (kern s_heap)\<lparr>current_thread := None\<rparr>, ram := (\<lambda>a. if 200 \<le> a \<and> a < 220 then names_demo ! nat (a - 200) else ram s_heap a)\<rparr>"

lemma heap_init_objs: "rt_system_heap_init b e s = Some s' \<Longrightarrow> objs s' = objs s"
  by (auto simp: rt_system_heap_init_def Let_def bind_eq_Some_conv split: if_splits)

lemma demo_objs: "objs s_heap = \<lparr>object_container = (\<lambda>_. []), object_size = (\<lambda>_. 128), devices = devices (objs s_demo), console_device = 0\<rparr>"
proof -
  have "objs s_heap = objs s_demo" by (rule heap_init_objs [OF s_heap(1)])
  then show ?thesis by (simp add: s_demo_def)
qed

lemma s_names_inv: "reg_at [(4080, False)] s_names" "calm s_names" "registered s_names = {}" "heap_ptr s_names = 4100"
proof -
  have "heap_rep s_names [(4080, False)]"
    by (rule heap_rep_agree [OF s_heap(2)]) (simp_all add: s_names_def heap_const_def s_heap)
  then show "reg_at [(4080, False)] s_names"
    using s_heap(3) by (simp add: reg_at_def typed_def apart_headers_def registered_def s_names_def demo_objs heap_idle_def)
  have "scheduler_lock_nest (kern s_heap) = 0" "interrupt_nest (kern s_heap) = 0"
    using s_heap(3) by (simp_all add: heap_idle_def s_heap(8) ipc_object_init_def k_demo_def)
  then show "calm s_names"
    by (simp add: calm_def s_names_def rt_enter_critical_def rt_exit_critical_def trunc_s_def)
qed (simp_all add: s_names_def registered_def demo_objs s_heap)

lemma s_names_cstr: "cstr (ram s_names) 200 (map of_char ''button_01'')" "cstr (ram s_names) 210 (map of_char ''button_02'')"
  by (simp_all add: s_names_def names_demo_def)

section \<open>Properties\<close>

text \<open>What threads do with the registry: the steps of its users.\<close>

inductive registry_step :: "sys \<Rightarrow> sys \<Rightarrow> bool" where
  init: "rt_object_init obj c name s = Done s' () \<Longrightarrow> calm s \<Longrightarrow> obj \<noteq> 0 \<Longrightarrow> obj + 10 \<le> heap_ptr s \<or> heap_end s + 12 \<le> obj \<Longrightarrow>
    \<forall>b \<in> registered s. obj + 10 \<le> b \<or> b + 10 \<le> obj \<Longrightarrow> registry_step s s'"
| detach: "rt_object_detach obj s = Some s' \<Longrightarrow> obj \<in> registered s \<Longrightarrow> registry_step s s'"
| allocate: "rt_object_allocate c name s = Done s' obj \<Longrightarrow> registry_step s s'"
| delete: "rt_object_delete obj s = Done s' () \<Longrightarrow> obj \<in> registered s \<Longrightarrow> registry_step s s'"
| find: "rt_object_find name c s = Done s' obj \<Longrightarrow> calm s \<Longrightarrow> registry_step s s'"

lemma registry_step_inv: "registry_step s s' \<Longrightarrow> reg_inv s \<Longrightarrow> reg_inv s'"
proof (induction rule: registry_step.induct)
  case (init obj c name s s')
  then obtain bs where r: "reg_at bs s" by (auto simp: reg_inv_def)
  have c: "rt_object_get_information c" using init(1) by (auto simp: rt_object_init_def split: if_splits)
  show ?case using object_init_ok [OF r init(2) c init(3,4), of name] init(1,5) by (auto simp: reg_inv_def)
next
  case (detach obj s s')
  then obtain bs where r: "reg_at bs s" by (auto simp: reg_inv_def)
  show ?case by (rule object_detach_ok [OF r detach(2)]) (use detach(1) in \<open>auto simp: reg_inv_def\<close>)
next
  case (allocate c name s s' obj)
  then obtain bs where r: "reg_at bs s" by (auto simp: reg_inv_def)
  have c: "rt_object_get_information c" using allocate(1) by (auto simp: rt_object_allocate_def split: if_splits)
  show ?case using object_allocate_ok [OF r c, of name] allocate(1) r by (auto simp: reg_inv_def)
next
  case (delete obj s s')
  then obtain bs where r: "reg_at bs s" by (auto simp: reg_inv_def)
  have nb: "\<not> bit (obj_type s obj) 7" using delete(1) static_bit [of "obj_type s obj"] by (auto simp: rt_object_delete_def split: if_splits)
  show ?case by (rule object_delete_ok [OF r delete(2) nb]) (use delete(1) in \<open>auto simp: reg_inv_def\<close>)
next
  case (find name c s s' obj)
  then have "s' = s" by (auto simp: rt_object_find_def leave_calm Let_def split: if_splits)
  then show ?case using find by simp
qed

lemma registry_steps_inv: "registry_step\<^sup>*\<^sup>* s s' \<Longrightarrow> reg_inv s \<Longrightarrow> reg_inv s'"
  by (induction rule: rtranclp_induct) (auto intro: registry_step_inv)



text \<open>The object \<open>rt_object_find\<close> returns: the first one with the same name, or a null pointer.\<close>

definition named :: "sys \<Rightarrow> u8 \<Rightarrow> u8 list \<Rightarrow> int list" where
  "named s c xs = filter (\<lambda>a. name_at (ram s) a = take RT_NAME_MAX xs) (object_container (objs s) c)"

lemma object_find_spec:
  assumes "calm s" "typed s" "rt_object_get_information c" "name \<noteq> 0" "cstr (ram s) name xs"
  shows "rt_object_find name c s = Done s (case named s c xs of [] \<Rightarrow> 0 | a # _ \<Rightarrow> a)"
proof -
  have "0 \<notin> set (object_container (objs s) c)" using assms(2) by (auto simp: typed_def)
  then show ?thesis
    using assms by (simp add: rt_object_find_def leave_calm Let_def find_name_spec name_at_cstr named_def) (simp add: calm_def)
qed

text \<open>
  C34. After a static object has been registered under a name, \<open>rt_object_find\<close> returns it for every name that
  agrees in the first eight bytes, and for all other names what it returned before; it never
  looks at more than eight bytes, and the newest object of a name hides the older ones.
\<close>

theorem register_find:
  assumes r: "reg_inv s" and c: "calm s" "rt_object_get_information c"
    and obj: "obj \<noteq> 0" "obj + 10 \<le> heap_ptr s \<or> heap_end s + 12 \<le> obj" "\<forall>b \<in> registered s. obj + 10 \<le> b \<or> b + 10 \<le> obj"
    and name: "cstr (ram s) name xs" "obj + 9 \<le> name \<or> name + int (length xs) < obj"
    and key: "cstr (ram s) key ys" "obj + 9 \<le> key \<or> key + int (length ys) < obj" "key \<noteq> 0"
  shows "\<exists>s'. rt_object_init obj c name s = Done s' () \<and>
    rt_object_find key c s' =
      (if take RT_NAME_MAX ys = take RT_NAME_MAX xs then Done s' obj
       else run_then (rt_object_find key c s) (\<lambda>a _. Done s' a))"
proof -
  obtain bs where rs: "reg_at bs s" using r by (auto simp: reg_inv_def)
  let ?s = "object_attach obj c name s"
  have i: "rt_object_init obj c name s = Done ?s ()" "reg_at bs ?s"
    using object_init_ok [OF rs c obj(1,2)] obj(3) by simp_all
  have k: "kern ?s = kern s" by (simp add: object_attach_def)
  have calm': "calm ?s" using c(1) by (simp add: calm_def k)
  have obc: "object_container (objs ?s) c = obj # object_container (objs s) c" by (simp add: object_attach_def)
  have key': "cstr (ram ?s) key ys"
    by (rule cstr_agree [OF key(1)], rule attach_ram) (use key(2) in auto)
  note new = attach_names(1) [OF name]
  have old: "name_at (ram ?s) b = name_at (ram s) b" if "b \<in> set (object_container (objs s) c)" for b
    by (rule attach_names(2) [OF name]) (use obj(3) that in \<open>auto simp: registered_def\<close>)
  have n: "named ?s c ys = (if take RT_NAME_MAX ys = take RT_NAME_MAX xs then [obj] else []) @ named s c ys"
    unfolding named_def obc using old new by (auto intro!: filter_cong)
  have ty: "typed s" "typed ?s" using rs i(2) by (simp_all add: reg_at_def)
  have "rt_object_find key c ?s = Done ?s (case named ?s c ys of [] \<Rightarrow> 0 | a # _ \<Rightarrow> a)"
    by (rule object_find_spec [OF calm' ty(2) c(2) key(3) key'])
  moreover have "rt_object_find key c s = Done s (case named s c ys of [] \<Rightarrow> 0 | a # _ \<Rightarrow> a)"
    by (rule object_find_spec [OF c(1) ty(1) c(2) key(3,1)])
  ultimately show ?thesis using i(1) by (simp add: n)
qed

theorem register_find_witness:
  "\<exists>s. rt_object_init 100 9 200 s_names = Done s () \<and> rt_object_find 210 9 s = Done s 100"
proof -
  note n = s_names_inv
  have t: "take RT_NAME_MAX (map of_char ''button_02'' :: u8 list) = take RT_NAME_MAX (map of_char ''button_01'')" by simp
  have "reg_inv s_names" using n(1) by (auto simp: reg_inv_def)
  then show ?thesis
    using register_find [of s_names 9 100 200 "map of_char ''button_01''" 210 "map of_char ''button_02''", OF _ n(2) _ _ _ _ s_names_cstr(1) _ s_names_cstr(2)]
    by (simp add: n rt_object_get_information_def t)
qed

text \<open>
  \<open>rt_object_init\<close> looks for the object in the list of the new class only: an object that is registered in
  another class is linked into a second list, and its class is overwritten.
\<close>

theorem reinit_undetected:
  assumes r: "reg_inv s" and a: "a \<in> set (object_container (objs s) d)" and c: "calm s" "rt_object_get_information c" "c \<noteq> d"
  shows "\<exists>s'. rt_object_init a c name s = Done s' () \<and> a \<in> set (object_container (objs s') d) \<and>
    a \<in> set (object_container (objs s') c) \<and> rt_object_get_type a s' = Some c"
proof -
  have t: "typed s" using r by (auto simp: reg_inv_def reg_at_def)
  then have "a \<notin> set (object_container (objs s) c)" "a \<noteq> 0" using a c(3) by (metis typed_def)+
  then show ?thesis
    using a c attach_ram(2) [of a c name s] class_static(1) [OF c(2)]
    by (simp add: rt_object_init_def leave_calm rt_object_get_type_def rt_assert_def) (simp add: object_attach_def)
qed

end
