(* ===== verification/Device.thy ===== *)
theory Device
  imports Object
begin

text \<open>
  The device framework, \<open>src/device.c\<close>, and the console of \<open>src/kservice.c\<close> (without \<open>RT_USING_DEVICE_OPS\<close>
  and \<open>RT_USING_POSIX\<close>). A device is an object of the registry with a record in the table \<open>devices\<close>. The
  functions of the drivers are a parameter: each is absent (a null pointer) or a call that may block. They
  keep their own data in the memory. The message for a driver that cannot be initialised is left out.
\<close>

abbreviation (input) RT_DEVICE_FLAG_STANDALONE :: u16 where "RT_DEVICE_FLAG_STANDALONE \<equiv> 0x008"
abbreviation (input) RT_DEVICE_FLAG_ACTIVATED :: u16 where "RT_DEVICE_FLAG_ACTIVATED \<equiv> 0x010"
abbreviation (input) RT_DEVICE_FLAG_STREAM :: u16 where "RT_DEVICE_FLAG_STREAM \<equiv> 0x040"
abbreviation (input) RT_DEVICE_OFLAG_CLOSE :: u16 where "RT_DEVICE_OFLAG_CLOSE \<equiv> 0x000"
abbreviation (input) RT_DEVICE_OFLAG_RDWR :: u16 where "RT_DEVICE_OFLAG_RDWR \<equiv> 0x003"
abbreviation (input) RT_DEVICE_OFLAG_OPEN :: u16 where "RT_DEVICE_OFLAG_OPEN \<equiv> 0x008"
abbreviation (input) RT_DEVICE_OFLAG_MASK :: u16 where "RT_DEVICE_OFLAG_MASK \<equiv> 0xf0f"
abbreviation (input) RT_EBUSY :: int where "RT_EBUSY \<equiv> 7"
abbreviation (input) RT_ENOSYS :: int where "RT_ENOSYS \<equiv> 6"

text \<open>The function pointers of \<open>struct rt_device\<close>, with the device as a fixed argument.\<close>

record dev_ops =
  op_init :: "(sys \<Rightarrow> int run) option"
  op_open :: "(u16 \<Rightarrow> sys \<Rightarrow> int run) option"
  op_close :: "(sys \<Rightarrow> int run) option"
  op_read :: "(int \<Rightarrow> int \<Rightarrow> int \<Rightarrow> sys \<Rightarrow> int run) option"
  op_write :: "(int \<Rightarrow> int \<Rightarrow> int \<Rightarrow> sys \<Rightarrow> int run) option"
  op_control :: "(int \<Rightarrow> int \<Rightarrow> sys \<Rightarrow> int run) option"

type_synonym drivers = "int \<Rightarrow> dev_ops"

definition upd_dev :: "int \<Rightarrow> (rt_device \<Rightarrow> rt_device) \<Rightarrow> sys \<Rightarrow> sys" where
  "upd_dev dev f s = s\<lparr>objs := (objs s)\<lparr>devices := (devices (objs s))(dev := f (devices (objs s) dev))\<rparr>\<rparr>"

text \<open>\<open>RT_ASSERT(dev != RT_NULL)\<close> and \<open>RT_ASSERT(rt_object_get_type(&dev->parent) == RT_Object_Class_Device)\<close>.\<close>

definition dev_valid :: "int \<Rightarrow> sys \<Rightarrow> bool" where
  "dev_valid dev s \<longleftrightarrow> rt_object_get_type dev s = Some RT_Object_Class_Device"

section \<open>Registration\<close>

definition rt_device_find :: "int \<Rightarrow> sys \<Rightarrow> int run" where
  "rt_device_find name s = rt_object_find name RT_Object_Class_Device s"

definition rt_device_register :: "int \<Rightarrow> int \<Rightarrow> u16 \<Rightarrow> sys \<Rightarrow> int run" where
  "rt_device_register dev name flags s =
     (if dev = 0 then Done s (- RT_ERROR)
      else run_then (rt_device_find name s) (\<lambda>d s1.
        if d \<noteq> 0 then Done s1 (- RT_ERROR)
        else run_then (rt_object_init dev RT_Object_Class_Device name s1) (\<lambda>_ s2.
          Done (upd_dev dev (\<lambda>d. d\<lparr>dev_flag := flags, dev_ref_count := 0, dev_open_flag := 0\<rparr>) s2) RT_EOK)))"

definition rt_device_unregister :: "int \<Rightarrow> sys \<Rightarrow> (sys \<times> int) option" where
  "rt_device_unregister dev s =
     do { rt_assert (dev \<noteq> 0);
          rt_assert (dev_valid dev s);
          sysobj \<leftarrow> rt_object_is_systemobject dev s;
          rt_assert sysobj;
          s1 \<leftarrow> rt_object_detach dev s;
          Some (s1, RT_EOK) }"

text \<open>
  \<open>rt_device_create\<close>; the sum of the sizes is an \<open>int\<close>, whose overflow is undefined. A device consists of
  the header in the memory and its record, both cleared.
\<close>

definition rt_device_create :: "int \<Rightarrow> int \<Rightarrow> sys \<Rightarrow> int run" where
  "rt_device_create type_id attach_size s =
     (let bytes = object_size (objs s) RT_Object_Class_Device;
          total = rt_align bytes + (attach_size + 3) div 4 * 4
      in if 2 ^ 31 \<le> attach_size + 3 \<or> 2 ^ 31 \<le> total then Stuck
         else run_then (rt_malloc (sz total) s) (\<lambda>dev s1.
           if dev = 0 then Done s1 0
           else Done (upd_dev dev (\<lambda>_. \<lparr>dev_type = type_id, dev_flag = 0, dev_open_flag = 0, dev_ref_count = 0,
                                        dev_rx_indicate = 0, dev_tx_complete = 0\<rparr>)
                       (s1\<lparr>ram := rt_memset dev 0 (nat bytes) (ram s1)\<rparr>)) dev))"

definition rt_device_destroy :: "int \<Rightarrow> sys \<Rightarrow> unit run" where
  "rt_device_destroy dev s =
     (if dev = 0 \<or> \<not> dev_valid dev s \<or> rt_object_is_systemobject dev s \<noteq> Some False then Stuck
      else case rt_object_detach dev s of None \<Rightarrow> Stuck | Some s1 \<Rightarrow> rt_free dev s1)"

section \<open>Operations\<close>

definition rt_device_init :: "drivers \<Rightarrow> int \<Rightarrow> sys \<Rightarrow> int run" where
  "rt_device_init drv dev s =
     (if dev = 0 then Stuck
      else case op_init (drv dev) of
        None \<Rightarrow> Done s RT_EOK
      | Some f \<Rightarrow>
          if dev_flag (devices (objs s) dev) AND RT_DEVICE_FLAG_ACTIVATED = 0
          then run_then (f s) (\<lambda>r s1.
            if r \<noteq> RT_EOK then Done s1 r
            else Done (upd_dev dev (\<lambda>d. d\<lparr>dev_flag := dev_flag d OR RT_DEVICE_FLAG_ACTIVATED\<rparr>) s1) r)
          else Done s RT_EOK)"

text \<open>\<open>rt_device_open\<close> from the test for a stand-alone device on, and the whole function.\<close>

definition open_activated :: "drivers \<Rightarrow> int \<Rightarrow> u16 \<Rightarrow> sys \<Rightarrow> int run" where
  "open_activated drv dev oflag s =
     (if dev_flag (devices (objs s) dev) AND RT_DEVICE_FLAG_STANDALONE \<noteq> 0 \<and>
         dev_open_flag (devices (objs s) dev) AND RT_DEVICE_OFLAG_OPEN \<noteq> 0
      then Done s (- RT_EBUSY)
      else run_then
        (case op_open (drv dev) of
           Some f \<Rightarrow> f oflag s
         | None \<Rightarrow> Done (upd_dev dev (\<lambda>d. d\<lparr>dev_open_flag := oflag AND RT_DEVICE_OFLAG_MASK\<rparr>) s) RT_EOK)
        (\<lambda>r s1.
           if r = RT_EOK \<or> r = - RT_ENOSYS
           then let s2 = upd_dev dev (\<lambda>d. d\<lparr>dev_open_flag := dev_open_flag d OR RT_DEVICE_OFLAG_OPEN,
                                            dev_ref_count := dev_ref_count d + 1\<rparr>) s1
                in if dev_ref_count (devices (objs s2) dev) = 0 then Stuck else Done s2 r
           else Done s1 r))"

definition rt_device_open :: "drivers \<Rightarrow> int \<Rightarrow> u16 \<Rightarrow> sys \<Rightarrow> int run" where
  "rt_device_open drv dev oflag s =
     (if dev = 0 \<or> \<not> dev_valid dev s then Stuck
      else if dev_flag (devices (objs s) dev) AND RT_DEVICE_FLAG_ACTIVATED = 0
      then run_then (case op_init (drv dev) of Some f \<Rightarrow> f s | None \<Rightarrow> Done s RT_EOK)
        (\<lambda>r s1.
           if r \<noteq> RT_EOK then Done s1 r
           else open_activated drv dev oflag (upd_dev dev (\<lambda>d. d\<lparr>dev_flag := dev_flag d OR RT_DEVICE_FLAG_ACTIVATED\<rparr>) s1))
      else open_activated drv dev oflag s)"

definition rt_device_close :: "drivers \<Rightarrow> int \<Rightarrow> sys \<Rightarrow> int run" where
  "rt_device_close drv dev s =
     (if dev = 0 \<or> \<not> dev_valid dev s then Stuck
      else if dev_ref_count (devices (objs s) dev) = 0 then Done s (- RT_ERROR)
      else let s1 = upd_dev dev (\<lambda>d. d\<lparr>dev_ref_count := dev_ref_count d - 1\<rparr>) s in
        if dev_ref_count (devices (objs s1) dev) \<noteq> 0 then Done s1 RT_EOK
        else run_then (case op_close (drv dev) of Some f \<Rightarrow> f s1 | None \<Rightarrow> Done s1 RT_EOK)
          (\<lambda>r s2.
             if r = RT_EOK \<or> r = - RT_ENOSYS
             then Done (upd_dev dev (\<lambda>d. d\<lparr>dev_open_flag := RT_DEVICE_OFLAG_CLOSE\<rparr>) s2) r
             else Done s2 r))"

definition rt_device_read :: "drivers \<Rightarrow> int \<Rightarrow> int \<Rightarrow> int \<Rightarrow> int \<Rightarrow> sys \<Rightarrow> int run" where
  "rt_device_read drv dev pos buffer bytes s =
     (if dev = 0 \<or> \<not> dev_valid dev s then Stuck
      else if dev_ref_count (devices (objs s) dev) = 0 then Done (rt_set_errno (- RT_ERROR) s) 0
      else case op_read (drv dev) of
          Some f \<Rightarrow> f pos buffer bytes s
        | None \<Rightarrow> Done (rt_set_errno (- RT_ENOSYS) s) 0)"

definition rt_device_write :: "drivers \<Rightarrow> int \<Rightarrow> int \<Rightarrow> int \<Rightarrow> int \<Rightarrow> sys \<Rightarrow> int run" where
  "rt_device_write drv dev pos buffer bytes s =
     (if dev = 0 \<or> \<not> dev_valid dev s then Stuck
      else if dev_ref_count (devices (objs s) dev) = 0 then Done (rt_set_errno (- RT_ERROR) s) 0
      else case op_write (drv dev) of
          Some f \<Rightarrow> f pos buffer bytes s
        | None \<Rightarrow> Done (rt_set_errno (- RT_ENOSYS) s) 0)"

definition rt_device_control :: "drivers \<Rightarrow> int \<Rightarrow> int \<Rightarrow> int \<Rightarrow> sys \<Rightarrow> int run" where
  "rt_device_control drv dev cmd arg s =
     (if dev = 0 \<or> \<not> dev_valid dev s then Stuck
      else case op_control (drv dev) of
          Some f \<Rightarrow> f cmd arg s
        | None \<Rightarrow> Done s (- RT_ENOSYS))"

definition rt_device_set_rx_indicate :: "int \<Rightarrow> int \<Rightarrow> sys \<Rightarrow> (sys \<times> int) option" where
  "rt_device_set_rx_indicate dev rx_ind s =
     do { rt_assert (dev \<noteq> 0);
          rt_assert (dev_valid dev s);
          Some (upd_dev dev (\<lambda>d. d\<lparr>dev_rx_indicate := rx_ind\<rparr>) s, RT_EOK) }"

definition rt_device_set_tx_complete :: "int \<Rightarrow> int \<Rightarrow> sys \<Rightarrow> (sys \<times> int) option" where
  "rt_device_set_tx_complete dev tx_done s =
     do { rt_assert (dev \<noteq> 0);
          rt_assert (dev_valid dev s);
          Some (upd_dev dev (\<lambda>d. d\<lparr>dev_tx_complete := tx_done\<rparr>) s, RT_EOK) }"

section \<open>The console\<close>

definition rt_console_get_device :: "sys \<Rightarrow> int" where
  "rt_console_get_device s = console_device (objs s)"

definition rt_console_set_device :: "drivers \<Rightarrow> int \<Rightarrow> sys \<Rightarrow> int run" where
  "rt_console_set_device drv name s =
     (let old_device = console_device (objs s) in
      run_then (rt_device_find name s) (\<lambda>new_device s1.
        if new_device = old_device then Done s1 0
        else if new_device \<noteq> 0
        then run_then (if console_device (objs s1) \<noteq> 0 then rt_device_close drv (console_device (objs s1)) s1 else Done s1 0)
          (\<lambda>_ s2. run_then (rt_device_open drv new_device (RT_DEVICE_OFLAG_RDWR OR RT_DEVICE_FLAG_STREAM) s2)
            (\<lambda>_ s3. Done (s3\<lparr>objs := (objs s3)\<lparr>console_device := new_device\<rparr>\<rparr>) old_device))
        else Done s1 old_device))"

text \<open>\<open>rt_kputs\<close>; \<open>rt_hw_console_output\<close> is the empty function of \<open>src/kservice.c\<close>.\<close>

definition rt_kputs :: "drivers \<Rightarrow> int \<Rightarrow> sys \<Rightarrow> unit run" where
  "rt_kputs drv str s =
     (if str = 0 then Done s ()
      else if console_device (objs s) = 0 then Done s ()
      else case rt_strlen str (ram s) of
          None \<Rightarrow> Stuck
        | Some n \<Rightarrow> run_then (rt_device_write drv (console_device (objs s)) 0 str n s) (\<lambda>_ s1. Done s1 ()))"

section \<open>Calls of drivers\<close>

text \<open>
  \<open>leaves dev Q r\<close>: the run \<open>r\<close> ends with \<open>Q\<close>, provided the threads that run where it blocks leave the class and
  the record of the device alone.
\<close>

definition dev_view :: "int \<Rightarrow> sys \<Rightarrow> u8 \<times> rt_device" where
  "dev_view dev s = (obj_type s dev, devices (objs s) dev)"

primrec leaves :: "int \<Rightarrow> ('a \<Rightarrow> sys \<Rightarrow> bool) \<Rightarrow> 'a run \<Rightarrow> bool" where
  "leaves dev Q (Done s x) \<longleftrightarrow> Q x s"
| "leaves dev Q (Yields s k) \<longleftrightarrow> (\<forall>s'. dev_view dev s' = dev_view dev s \<longrightarrow> leaves dev Q (k s'))"
| "leaves dev Q Stuck \<longleftrightarrow> False"

lemma leaves_then:
  "leaves dev Q r \<Longrightarrow> (\<And>x s. Q x s \<Longrightarrow> leaves dev P (f x s)) \<Longrightarrow> leaves dev P (run_then r f)"
proof (induction r)
  case (Yields s k)
  have "leaves dev P (run_then (k s') f)" if "dev_view dev s' = dev_view dev s" for s'
    by (rule Yields.IH [OF rangeI _ Yields.prems(2)]) (use Yields.prems(1) that in auto)
  then show ?case by simp
qed auto

lemma leaves_mono: "leaves dev Q r \<Longrightarrow> (\<And>x s. Q x s \<Longrightarrow> P x s) \<Longrightarrow> leaves dev P r"
proof (induction r)
  case (Yields s k)
  have "leaves dev P (k s')" if "dev_view dev s' = dev_view dev s" for s'
    by (rule Yields.IH [OF rangeI _ Yields.prems(2)]) (use Yields.prems(1) that in auto)
  then show ?case by simp
qed auto

text \<open>
  The contract of a driver: its functions return, and leave the class and the record of the device as they are;
  only the function for opening may set the open flags, when it succeeds. The initialisation must not fail with
  \<open>-RT_ENOSYS\<close>, which counts as success when it comes from the function for opening.
\<close>

definition same_view :: "int \<Rightarrow> sys \<Rightarrow> sys \<Rightarrow> bool" where
  "same_view dev s s' \<longleftrightarrow> dev_view dev s' = dev_view dev s"

definition same_but_oflag :: "int \<Rightarrow> sys \<Rightarrow> sys \<Rightarrow> bool" where
  "same_but_oflag dev s s' \<longleftrightarrow> (\<exists>fl. dev_view dev s' = (obj_type s dev, (devices (objs s) dev)\<lparr>dev_open_flag := fl\<rparr>))"

definition driver_ok :: "drivers \<Rightarrow> int \<Rightarrow> bool" where
  "driver_ok drv dev \<longleftrightarrow>
     (\<forall>f s. op_init (drv dev) = Some f \<longrightarrow> leaves dev (\<lambda>r s'. same_view dev s s' \<and> r \<noteq> - RT_ENOSYS) (f s)) \<and>
     (\<forall>f s fl. op_open (drv dev) = Some f \<longrightarrow>
        leaves dev (\<lambda>r. if r = RT_EOK \<or> r = - RT_ENOSYS then same_but_oflag dev s else same_view dev s) (f fl s)) \<and>
     (\<forall>f s. op_close (drv dev) = Some f \<longrightarrow> leaves dev (\<lambda>_. same_view dev s) (f s)) \<and>
     (\<forall>f s p b n. op_read (drv dev) = Some f \<longrightarrow> leaves dev (\<lambda>_. same_view dev s) (f p b n s)) \<and>
     (\<forall>f s p b n. op_write (drv dev) = Some f \<longrightarrow> leaves dev (\<lambda>_. same_view dev s) (f p b n s)) \<and>
     (\<forall>f s c a. op_control (drv dev) = Some f \<longrightarrow> leaves dev (\<lambda>_. same_view dev s) (f c a s))"

text \<open>What a thread does with a device, and the results it gets.\<close>

datatype dev_call =
    Call_open u16
  | Call_close
  | Call_read int int int
  | Call_write int int int
  | Call_control int int

primrec do_call :: "drivers \<Rightarrow> int \<Rightarrow> dev_call \<Rightarrow> sys \<Rightarrow> int run" where
  "do_call drv dev (Call_open oflag) s = rt_device_open drv dev oflag s"
| "do_call drv dev Call_close s = rt_device_close drv dev s"
| "do_call drv dev (Call_read pos buffer bytes) s = rt_device_read drv dev pos buffer bytes s"
| "do_call drv dev (Call_write pos buffer bytes) s = rt_device_write drv dev pos buffer bytes s"
| "do_call drv dev (Call_control cmd arg) s = rt_device_control drv dev cmd arg s"

fun do_calls :: "drivers \<Rightarrow> int \<Rightarrow> dev_call list \<Rightarrow> sys \<Rightarrow> int list run" where
  "do_calls drv dev [] s = Done s []"
| "do_calls drv dev (c # cs) s =
     run_then (do_call drv dev c s) (\<lambda>r s1. run_then (do_calls drv dev cs s1) (\<lambda>rs s2. Done s2 (r # rs)))"

text \<open>How often the device is open after a call with this result, and which results are right.\<close>

primrec opened :: "dev_call \<Rightarrow> int \<Rightarrow> nat \<Rightarrow> nat" where
  "opened (Call_open fl) r n = (if r = RT_EOK \<or> r = - RT_ENOSYS then n + 1 else n)"
| "opened Call_close r n = n - 1"
| "opened (Call_read p b l) r n = n"
| "opened (Call_write p b l) r n = n"
| "opened (Call_control c a) r n = n"

primrec answer_ok :: "bool \<Rightarrow> dev_call \<Rightarrow> int \<Rightarrow> nat \<Rightarrow> bool" where
  "answer_ok alone (Call_open fl) r n \<longleftrightarrow> (alone \<and> 0 < n \<longrightarrow> r = - RT_EBUSY)"
| "answer_ok alone Call_close r n \<longleftrightarrow> (n = 0 \<longrightarrow> r = - RT_ERROR) \<and> (1 < n \<longrightarrow> r = RT_EOK)"
| "answer_ok alone (Call_read p b l) r n \<longleftrightarrow> (n = 0 \<longrightarrow> r = 0)"
| "answer_ok alone (Call_write p b l) r n \<longleftrightarrow> (n = 0 \<longrightarrow> r = 0)"
| "answer_ok alone (Call_control c a) r n \<longleftrightarrow> True"

fun session :: "bool \<Rightarrow> nat \<Rightarrow> dev_call list \<Rightarrow> int list \<Rightarrow> nat option" where
  "session alone n [] [] = Some n"
| "session alone n (c # cs) (r # rs) = (if answer_ok alone c r n then session alone (opened c r n) cs rs else None)"
| "session alone n _ _ = None"

text \<open>The state of a device that is open \<open>n\<close> times.\<close>

definition open_times :: "bool \<Rightarrow> int \<Rightarrow> nat \<Rightarrow> sys \<Rightarrow> bool" where
  "open_times alone dev n s \<longleftrightarrow>
     dev \<noteq> 0 \<and> dev_valid dev s \<and> uint (dev_ref_count (devices (objs s) dev)) = int n \<and>
     (alone \<longleftrightarrow> dev_flag (devices (objs s) dev) AND RT_DEVICE_FLAG_STANDALONE \<noteq> 0) \<and>
     (0 < n \<longrightarrow> dev_flag (devices (objs s) dev) AND RT_DEVICE_FLAG_ACTIVATED \<noteq> 0 \<and>
                dev_open_flag (devices (objs s) dev) AND RT_DEVICE_OFLAG_OPEN \<noteq> 0)"

lemma dev_valid_type: "dev_valid dev s \<longleftrightarrow> dev \<noteq> 0 \<and> obj_type s dev AND NOT RT_Object_Class_Static = RT_Object_Class_Device"
  by (auto simp: dev_valid_def rt_object_get_type_def rt_assert_def)

lemma upd_dev_simps [simp]:
  "devices (objs (upd_dev dev f s)) = (devices (objs s))(dev := f (devices (objs s) dev))" "ram (upd_dev dev f s) = ram s" "kern (upd_dev dev f s) = kern s"
  "dev_valid d (upd_dev dev f s) = dev_valid d s"
  by (simp_all add: upd_dev_def dev_valid_type)

lemma flag_bits: "(x :: u16) AND 8 \<noteq> 0 \<longleftrightarrow> bit x 3" "x AND 16 \<noteq> 0 \<longleftrightarrow> bit x 4" "x AND 8 = 0 \<longleftrightarrow> \<not> bit x 3" "x AND 16 = 0 \<longleftrightarrow> \<not> bit x 4"
proof -
  have "8 = (2 :: u16) ^ 3" "16 = (2 :: u16) ^ 4" by simp_all
  then show "x AND 8 \<noteq> 0 \<longleftrightarrow> bit x 3" "x AND 16 \<noteq> 0 \<longleftrightarrow> bit x 4" "x AND 8 = 0 \<longleftrightarrow> \<not> bit x 3" "x AND 16 = 0 \<longleftrightarrow> \<not> bit x 4"
    by (metis bit_iff_and_push_bit_not_eq_0 push_bit_of_1)+
qed

lemma set_flag_bits [simp]: "bit ((x :: u16) OR 8) 3" "bit (x OR 16) 4" "bit (x OR 16) 3 = bit x 3" "bit (x OR 8) 4 = bit x 4"
proof -
  have "bit (8 :: u16) 3" "\<not> bit (8 :: u16) 4" "bit (16 :: u16) 4" "\<not> bit (16 :: u16) 3" by code_simp+
  then show "bit (x OR 8) 3" "bit (x OR 16) 4" "bit (x OR 16) 3 = bit x 3" "bit (x OR 8) 4 = bit x 4"
    by (simp_all add: bit_or_iff)
qed

lemma open_times_valid: "open_times alone dev n s \<Longrightarrow> dev \<noteq> 0 \<and> dev_valid dev s"
  by (simp add: open_times_def)

lemma open_times_view: "same_view dev s s' \<Longrightarrow> open_times alone dev n s' = open_times alone dev n s"
  by (auto simp: same_view_def dev_view_def open_times_def dev_valid_type)

lemma count_up: "uint (x :: u8) = int n \<Longrightarrow> n < 255 \<Longrightarrow> uint (x + 1) = int n + 1 \<and> x + 1 \<noteq> 0"
proof -
  assume a: "uint x = int n" "n < 255"
  then have e: "uint (x + 1) = int n + 1" by (simp add: uint_word_ariths)
  then have "x + 1 \<noteq> 0" by (metis add_pos_nonneg of_nat_0_le_iff uint_0_eq zero_less_one less_irrefl add.commute)
  with e show ?thesis by simp
qed

lemma open_activated_ok:
  assumes d: "driver_ok drv dev" and o: "open_times alone dev n s" "n < 255"
    and act: "dev_flag (devices (objs s) dev) AND RT_DEVICE_FLAG_ACTIVATED \<noteq> 0"
  shows "leaves dev (\<lambda>r s'. answer_ok alone (Call_open fl) r n \<and> open_times alone dev (opened (Call_open fl) r n) s') (open_activated drv dev fl s)"
proof (cases "dev_flag (devices (objs s) dev) AND RT_DEVICE_FLAG_STANDALONE \<noteq> 0 \<and> dev_open_flag (devices (objs s) dev) AND RT_DEVICE_OFLAG_OPEN \<noteq> 0")
  case True
  then show ?thesis using o by (simp add: open_activated_def)
next
  case False
  then have free: "\<not> (alone \<and> 0 < n)" using o by (auto simp: open_times_def)
  let ?call = "case op_open (drv dev) of Some f \<Rightarrow> f fl s
     | None \<Rightarrow> Done (upd_dev dev (\<lambda>d. d\<lparr>dev_open_flag := fl AND RT_DEVICE_OFLAG_MASK\<rparr>) s) RT_EOK"
  have c: "leaves dev (\<lambda>r. if r = RT_EOK \<or> r = - RT_ENOSYS then same_but_oflag dev s else same_view dev s) ?call"
    using d by (cases "op_open (drv dev)") (auto simp: driver_ok_def same_but_oflag_def dev_view_def)
  have "leaves dev (\<lambda>r s'. answer_ok alone (Call_open fl) r n \<and> open_times alone dev (opened (Call_open fl) r n) s')
      (run_then ?call (\<lambda>r s1.
           if r = RT_EOK \<or> r = - RT_ENOSYS
           then let s2 = upd_dev dev (\<lambda>d. d\<lparr>dev_open_flag := dev_open_flag d OR RT_DEVICE_OFLAG_OPEN,
                                            dev_ref_count := dev_ref_count d + 1\<rparr>) s1
                in if dev_ref_count (devices (objs s2) dev) = 0 then Stuck else Done s2 r
           else Done s1 r))"
  proof (rule leaves_then [OF c])
    fix r s1 assume q: "(if r = RT_EOK \<or> r = - RT_ENOSYS then same_but_oflag dev s else same_view dev s) s1"
    show "leaves dev (\<lambda>r s'. answer_ok alone (Call_open fl) r n \<and> open_times alone dev (opened (Call_open fl) r n) s')
      (if r = RT_EOK \<or> r = - RT_ENOSYS
           then let s2 = upd_dev dev (\<lambda>d. d\<lparr>dev_open_flag := dev_open_flag d OR RT_DEVICE_OFLAG_OPEN,
                                            dev_ref_count := dev_ref_count d + 1\<rparr>) s1
                in if dev_ref_count (devices (objs s2) dev) = 0 then Stuck else Done s2 r
           else Done s1 r)"
    proof (cases "r = RT_EOK \<or> r = - RT_ENOSYS")
      case True
      then obtain g where g: "obj_type s1 dev = obj_type s dev" "devices (objs s1) dev = (devices (objs s) dev)\<lparr>dev_open_flag := g\<rparr>"
        using q by (auto simp: same_but_oflag_def dev_view_def)
      have u: "uint (dev_ref_count (devices (objs s) dev) + 1) = int n + 1 \<and> dev_ref_count (devices (objs s) dev) + 1 \<noteq> 0"
        by (rule count_up) (use o in \<open>auto simp: open_times_def\<close>)
      show ?thesis using True o act free g u by (auto simp: open_times_def dev_valid_type flag_bits Let_def)
    next
      case False
      then have "open_times alone dev n s1" using q o(1) open_times_view by auto
      then show ?thesis using False free by auto
    qed
  qed
  then show ?thesis using False unfolding open_activated_def by (simp only: if_False)
qed

lemma device_open_ok:
  assumes d: "driver_ok drv dev" and o: "open_times alone dev n s" "n < 255"
  shows "leaves dev (\<lambda>r s'. answer_ok alone (Call_open fl) r n \<and> open_times alone dev (opened (Call_open fl) r n) s') (rt_device_open drv dev fl s)"
proof (cases "dev_flag (devices (objs s) dev) AND RT_DEVICE_FLAG_ACTIVATED = 0")
  case False
  then show ?thesis using open_activated_ok [OF d o False] open_times_valid [OF o(1)] by (simp add: rt_device_open_def)
next
  case True
  then have n0: "n = 0" using o(1) by (auto simp: open_times_def)
  let ?call = "case op_init (drv dev) of Some f \<Rightarrow> f s | None \<Rightarrow> Done s RT_EOK"
  have c: "leaves dev (\<lambda>r s'. same_view dev s s' \<and> r \<noteq> - RT_ENOSYS) ?call"
    using d by (cases "op_init (drv dev)") (auto simp: driver_ok_def same_view_def)
  have "leaves dev (\<lambda>r s'. answer_ok alone (Call_open fl) r n \<and> open_times alone dev (opened (Call_open fl) r n) s')
      (run_then ?call (\<lambda>r s1.
           if r \<noteq> RT_EOK then Done s1 r
           else open_activated drv dev fl (upd_dev dev (\<lambda>d. d\<lparr>dev_flag := dev_flag d OR RT_DEVICE_FLAG_ACTIVATED\<rparr>) s1)))"
  proof (rule leaves_then [OF c])
    fix r s1 assume "same_view dev s s1 \<and> r \<noteq> - RT_ENOSYS"
    then have q: "same_view dev s s1" "r \<noteq> - RT_ENOSYS" by simp_all
    then have o1: "open_times alone dev n s1" using o(1) open_times_view by auto
    let ?s = "upd_dev dev (\<lambda>d. d\<lparr>dev_flag := dev_flag d OR RT_DEVICE_FLAG_ACTIVATED\<rparr>) s1"
    have o2: "open_times alone dev n ?s" using o1 n0 by (simp add: open_times_def flag_bits)
    have "dev_flag (devices (objs ?s) dev) AND RT_DEVICE_FLAG_ACTIVATED \<noteq> 0" by (simp add: flag_bits)
    note A = open_activated_ok [OF d o2 o(2) this, of fl]
    show "leaves dev (\<lambda>r s'. answer_ok alone (Call_open fl) r n \<and> open_times alone dev (opened (Call_open fl) r n) s')
      (if r \<noteq> RT_EOK then Done s1 r else open_activated drv dev fl ?s)"
      using A o1 n0 q(2) by (cases "r = RT_EOK") auto
  qed
  then show ?thesis using True open_times_valid [OF o(1)] by (simp add: rt_device_open_def)
qed

lemma count_down: "uint (x :: u8) = int n \<Longrightarrow> 0 < n \<Longrightarrow> uint (x - 1) = int (n - 1)"
proof -
  assume a: "uint x = int n" "0 < n"
  have "uint x < 256" using uint_lt2p [of x] by simp
  then have "(int n - 1) mod 256 = int n - 1" using a by simp
  then show ?thesis using a by (simp add: uint_word_ariths of_nat_diff)
qed

lemma device_close_ok:
  assumes d: "driver_ok drv dev" and o: "open_times alone dev n s"
  shows "leaves dev (\<lambda>r s'. answer_ok alone Call_close r n \<and> open_times alone dev (opened Call_close r n) s') (rt_device_close drv dev s)"
proof (cases "n = 0")
  case True
  then have "dev_ref_count (devices (objs s) dev) = 0" using o by (simp add: open_times_def uint_0_iff)
  then show ?thesis using o open_times_valid [OF o] True by (simp add: rt_device_close_def)
next
  case False
  let ?s = "upd_dev dev (\<lambda>d. d\<lparr>dev_ref_count := dev_ref_count d - 1\<rparr>) s"
  have nz: "dev_ref_count (devices (objs s) dev) \<noteq> 0" using o False by (auto simp: open_times_def)
  have u: "uint (dev_ref_count (devices (objs s) dev) - 1) = int (n - 1)"
    by (rule count_down) (use o False in \<open>auto simp: open_times_def\<close>)
  have z: "dev_ref_count (devices (objs s) dev) - 1 = 0 \<longleftrightarrow> n = 1"
    using u False uint_0_iff [of "dev_ref_count (devices (objs s) dev) - 1"] by auto
  have o1: "open_times alone dev (n - 1) ?s" using o u False by (auto simp: open_times_def)
  show ?thesis
  proof (cases "n = 1")
    case n1: False
    then show ?thesis using open_times_valid [OF o] o1 z nz False by (simp add: rt_device_close_def Let_def)
  next
    case True
    let ?call = "case op_close (drv dev) of Some f \<Rightarrow> f ?s | None \<Rightarrow> Done ?s RT_EOK"
    have c: "leaves dev (\<lambda>_. same_view dev ?s) ?call"
      using d by (cases "op_close (drv dev)") (auto simp: driver_ok_def same_view_def)
    have "leaves dev (\<lambda>r s'. answer_ok alone Call_close r n \<and> open_times alone dev (opened Call_close r n) s')
      (run_then ?call (\<lambda>r s2.
             if r = RT_EOK \<or> r = - RT_ENOSYS
             then Done (upd_dev dev (\<lambda>d. d\<lparr>dev_open_flag := RT_DEVICE_OFLAG_CLOSE\<rparr>) s2) r
             else Done s2 r))"
    proof (rule leaves_then [OF c])
      fix r s2 assume q: "same_view dev ?s s2"
      have "open_times alone dev 0 s2" using o1 True open_times_view [OF q] by simp
      then show "leaves dev (\<lambda>r s'. answer_ok alone Call_close r n \<and> open_times alone dev (opened Call_close r n) s')
         (if r = RT_EOK \<or> r = - RT_ENOSYS
             then Done (upd_dev dev (\<lambda>d. d\<lparr>dev_open_flag := RT_DEVICE_OFLAG_CLOSE\<rparr>) s2) r
             else Done s2 r)"
        using True by (auto simp: open_times_def)
    qed
    then show ?thesis using open_times_valid [OF o] z nz True by (simp add: rt_device_close_def Let_def)
  qed
qed

lemma errno_view: "same_view dev s (rt_set_errno e s)"
  by (auto simp: same_view_def dev_view_def rt_set_errno_def split: option.splits)

lemma errno_simps [simp]: "objs (rt_set_errno e s) = objs s" "ram (rt_set_errno e s) = ram s" "dev_valid dev (rt_set_errno e s) = dev_valid dev s"
  by (auto simp: rt_set_errno_def dev_valid_type split: option.splits)

lemma device_io_ok:
  assumes d: "driver_ok drv dev" and o: "open_times alone dev n s"
  shows "leaves dev (\<lambda>r s'. (n = 0 \<longrightarrow> r = 0) \<and> open_times alone dev n s') (rt_device_read drv dev p b l s)"
    "leaves dev (\<lambda>r s'. (n = 0 \<longrightarrow> r = 0) \<and> open_times alone dev n s') (rt_device_write drv dev p b l s)"
    "leaves dev (\<lambda>r s'. open_times alone dev n s') (rt_device_control drv dev c a s)"
proof -
  have z: "dev_ref_count (devices (objs s) dev) = 0 \<longleftrightarrow> n = 0" using o by (auto simp: open_times_def uint_0_iff)
  have v: "dev \<noteq> 0" "dev_valid dev s" using o by (simp_all add: open_times_def)
  have e: "open_times alone dev n (rt_set_errno x s)" for x using o open_times_view [OF errno_view] by simp
  have k: "leaves dev (\<lambda>r s'. open_times alone dev n s') r" if "leaves dev (\<lambda>_. same_view dev s) r" for r :: "int run"
    by (rule leaves_mono [OF that]) (use o open_times_view in auto)
  show "leaves dev (\<lambda>r s'. (n = 0 \<longrightarrow> r = 0) \<and> open_times alone dev n s') (rt_device_read drv dev p b l s)"
    using d e k z v by (auto simp: rt_device_read_def driver_ok_def split: option.splits)
  show "leaves dev (\<lambda>r s'. (n = 0 \<longrightarrow> r = 0) \<and> open_times alone dev n s') (rt_device_write drv dev p b l s)"
    using d e k z v by (auto simp: rt_device_write_def driver_ok_def split: option.splits)
  show "leaves dev (\<lambda>r s'. open_times alone dev n s') (rt_device_control drv dev c a s)"
    using d o k v by (auto simp: rt_device_control_def driver_ok_def split: option.splits)
qed

lemma do_call_ok:
  assumes "driver_ok drv dev" "open_times alone dev n s" "n < 255"
  shows "leaves dev (\<lambda>r s'. answer_ok alone c r n \<and> open_times alone dev (opened c r n) s') (do_call drv dev c s)"
  using assms device_open_ok [OF assms] device_close_ok [OF assms(1,2)] device_io_ok [OF assms(1,2)]
  by (cases c) simp_all

lemma do_calls_ok:
  "driver_ok drv dev \<Longrightarrow> open_times alone dev n s \<Longrightarrow> n + length cs < 256 \<Longrightarrow>
   leaves dev (\<lambda>rs s'. \<exists>m. session alone n cs rs = Some m \<and> open_times alone dev m s') (do_calls drv dev cs s)"
proof (induction cs arbitrary: n s)
  case (Cons c cs)
  have "leaves dev (\<lambda>r s'. answer_ok alone c r n \<and> open_times alone dev (opened c r n) s') (do_call drv dev c s)"
    by (rule do_call_ok) (use Cons.prems in auto)
  then show ?case unfolding do_calls.simps
  proof (rule leaves_then)
    fix r s1 assume q: "answer_ok alone c r n \<and> open_times alone dev (opened c r n) s1"
    have "opened c r n \<le> n + 1" by (cases c) auto
    then have "leaves dev (\<lambda>rs s'. \<exists>m. session alone (opened c r n) cs rs = Some m \<and> open_times alone dev m s') (do_calls drv dev cs s1)"
      using Cons.IH [OF Cons.prems(1), of "opened c r n" s1] q Cons.prems(3) by simp
    then show "leaves dev (\<lambda>rs s'. \<exists>m. session alone n (c # cs) rs = Some m \<and> open_times alone dev m s')
        (run_then (do_calls drv dev cs s1) (\<lambda>rs s2. Done s2 (r # rs)))"
      by (rule leaves_then) (use q in auto)
  qed
qed simp

section \<open>Names\<close>

lemma reg_at_upd_dev [simp]: "reg_at bs (upd_dev dev f s) = reg_at bs s" "calm (upd_dev dev f s) = calm s"
  by (simp_all add: upd_dev_def reg_at_def typed_def apart_headers_def registered_def placed_def calm_def)

definition device_names :: "sys \<Rightarrow> u8 list list" where
  "device_names s = map (name_at (ram s)) (object_container (objs s) RT_Object_Class_Device)"

lemma device_class: "rt_object_get_information RT_Object_Class_Device"
  by (simp add: rt_object_get_information_def)

lemma device_register_spec:
  fixes flags :: u16
  assumes r: "reg_at bs s" and c: "calm s"
    and dev: "dev \<noteq> 0" "dev + 10 \<le> heap_ptr s \<or> heap_end s + 12 \<le> dev" "\<forall>b \<in> registered s. dev + 10 \<le> b \<or> b + 10 \<le> dev"
    and name: "cstr (ram s) name xs" "dev + 9 \<le> name \<or> name + int (length xs) < dev" "name \<noteq> 0"
  defines "s1 \<equiv> upd_dev dev (\<lambda>d. d\<lparr>dev_flag := flags, dev_ref_count := 0, dev_open_flag := 0\<rparr>) (object_attach dev RT_Object_Class_Device name s)"
  shows "rt_device_register dev name flags s =
      (if take RT_NAME_MAX xs \<in> set (device_names s) then Done s (- RT_ERROR) else Done s1 RT_EOK)"
    "reg_at bs s1" "device_names s1 = take RT_NAME_MAX xs # device_names s"
proof -
  have t: "typed s" using r by (simp add: reg_at_def)
  have find: "rt_device_find name s = Done s (case named s RT_Object_Class_Device xs of [] \<Rightarrow> 0 | a # _ \<Rightarrow> a)"
    unfolding rt_device_find_def by (rule object_find_spec [OF c t device_class name(3,1)])
  note i = object_init_ok [OF r c device_class dev(1,2), of name]
  have i: "rt_object_init dev RT_Object_Class_Device name s = Done (object_attach dev RT_Object_Class_Device name s) ()"
    "reg_at bs (object_attach dev RT_Object_Class_Device name s)" using i dev(3) by simp_all
  show "reg_at bs s1" using i(2) by (simp add: s1_def)
  have nz: "a \<noteq> 0" if "a \<in> set (named s RT_Object_Class_Device xs)" for a
    using that t by (auto simp: named_def typed_def)
  have e: "named s RT_Object_Class_Device xs = [] \<longleftrightarrow> take RT_NAME_MAX xs \<notin> set (device_names s)"
    unfolding named_def device_names_def filter_empty_conv set_map by (metis (no_types, lifting) imageE imageI)
  show "rt_device_register dev name flags s =
      (if take RT_NAME_MAX xs \<in> set (device_names s) then Done s (- RT_ERROR) else Done s1 RT_EOK)"
  proof (cases "named s RT_Object_Class_Device xs")
    case Nil
    then show ?thesis using e find i(1) dev(1) by (simp add: rt_device_register_def s1_def)
  next
    case (Cons a as)
    then have "a \<noteq> 0" using nz by auto
    then show ?thesis using e find dev(1) Cons by (simp add: rt_device_register_def)
  qed
  have "map (name_at (ram (object_attach dev RT_Object_Class_Device name s))) (object_container (objs s) RT_Object_Class_Device) = device_names s"
    unfolding device_names_def
  proof (rule map_cong [OF refl])
    fix b assume "b \<in> set (object_container (objs s) RT_Object_Class_Device)"
    then have "dev + 10 \<le> b \<or> b + 10 \<le> dev" using dev(3) by (auto simp: registered_def)
    then show "name_at (ram (object_attach dev RT_Object_Class_Device name s)) b = name_at (ram s) b" by (rule attach_names(2) [OF name(1,2)])
  qed
  moreover have "object_container (objs s1) RT_Object_Class_Device = dev # object_container (objs s) RT_Object_Class_Device"
    by (simp add: s1_def upd_dev_def object_attach_def)
  moreover have "ram s1 = ram (object_attach dev RT_Object_Class_Device name s)" by (simp add: s1_def)
  ultimately show "device_names s1 = take RT_NAME_MAX xs # device_names s"
    using attach_names(1) [OF name(1,2)] by (simp add: device_names_def)
qed

text \<open>What users do with the names: registering static devices under terminated names, and unregistering.\<close>

inductive device_step :: "sys \<Rightarrow> sys \<Rightarrow> bool" where
  register: "rt_device_register dev name flags s = Done s' r \<Longrightarrow> calm s \<Longrightarrow> dev \<noteq> 0 \<Longrightarrow>
    dev + 10 \<le> heap_ptr s \<or> heap_end s + 12 \<le> dev \<Longrightarrow> \<forall>b \<in> registered s. dev + 10 \<le> b \<or> b + 10 \<le> dev \<Longrightarrow>
    cstr (ram s) name xs \<Longrightarrow> dev + 9 \<le> name \<or> name + int (length xs) < dev \<Longrightarrow> name \<noteq> 0 \<Longrightarrow> device_step s s'"
| unregister: "rt_device_unregister dev s = Some (s', r) \<Longrightarrow> dev \<in> registered s \<Longrightarrow> device_step s s'"

lemma filter_unique: "distinct (map f xs) \<Longrightarrow> x \<in> set xs \<Longrightarrow> filter (\<lambda>a. f a = f x) xs = [x]"
proof (induction xs)
  case (Cons a xs)
  have "filter (\<lambda>b. f b = f x) xs = []" if e: "f a = f x"
  proof -
    have "f x \<notin> f ` set xs" using Cons.prems(1) e by simp
    then show ?thesis unfolding filter_empty_conv by (metis imageI)
  qed
  then show ?case using Cons by auto
qed simp

lemma device_step_inv:
  "device_step s s' \<Longrightarrow> reg_inv s \<and> distinct (device_names s) \<Longrightarrow> reg_inv s' \<and> distinct (device_names s')"
proof (induction rule: device_step.induct)
  case (register dev name flags s s' r xs)
  then obtain bs where rs: "reg_at bs s" by (auto simp: reg_inv_def)
  note S = device_register_spec [OF rs register(2-8), of flags]
  show ?case
  proof (cases "take RT_NAME_MAX xs \<in> set (device_names s)")
    case True
    then show ?thesis using S(1) register(1,9) by simp
  next
    case False
    let ?s = "upd_dev dev (\<lambda>d. d\<lparr>dev_flag := flags, dev_ref_count := 0, dev_open_flag := 0\<rparr>) (object_attach dev RT_Object_Class_Device name s)"
    have "s' = ?s" using S(1) register(1) False by simp
    moreover have "reg_inv ?s" using S(2) by (auto simp: reg_inv_def)
    moreover have "distinct (device_names ?s)" using S(3) False register(9) by simp
    ultimately show ?thesis by simp
  qed
next
  case (unregister dev s s' r)
  then obtain bs where rs: "reg_at bs s" by (auto simp: reg_inv_def)
  obtain s1 where s1: "rt_object_detach dev s = Some s1" "s1 = unlink_object dev (s\<lparr>ram := (ram s)(dev + 8 := 0)\<rparr>)" "reg_at bs s1"
    by (rule object_detach_ok [OF rs unregister(2)])
  have "s' = s1" using unregister(1) s1(1) by (auto simp: rt_device_unregister_def bind_eq_Some_conv rt_assert_def split: if_splits)
  let ?l = "removeAll dev (object_container (objs s) RT_Object_Class_Device)"
  have "map (name_at (ram s1)) ?l = map (name_at (ram s)) ?l"
  proof (rule map_cong [OF refl])
    fix b assume "b \<in> set ?l"
    then have b: "b \<in> registered s" "b \<noteq> dev" by (auto simp: registered_def)
    then have "dev + 10 \<le> b \<or> b + 10 \<le> dev" using rs unregister(2) by (auto simp: reg_at_def apart_headers_def)
    then show "name_at (ram s1) b = name_at (ram s) b" by (intro name_at_cong) (auto simp: s1(2))
  qed
  moreover have "distinct (map (name_at (ram s)) ?l)"
    using unregister(3) by (auto simp: device_names_def distinct_map distinct_removeAll intro: inj_on_subset)
  moreover have "device_names s1 = map (name_at (ram s1)) ?l" by (simp add: device_names_def s1(2))
  ultimately have "distinct (device_names s1)" by metis
  then show ?case using \<open>s' = s1\<close> s1(3) by (auto simp: reg_inv_def)
qed

lemma device_steps_inv:
  "device_step\<^sup>*\<^sup>* s s' \<Longrightarrow> reg_inv s \<and> distinct (device_names s) \<Longrightarrow> reg_inv s' \<and> distinct (device_names s')"
  by (induction rule: rtranclp_induct) (auto dest: device_step_inv)

section \<open>Properties\<close>

text \<open>
  C26. Device names stay unique: in every state reached by registering and unregistering devices, no two
  registered devices agree in the first eight bytes of their names, a name that is taken is refused
  with \<open>-RT_ERROR\<close>, and \<open>rt_device_find\<close> returns each device for its own name.
\<close>

theorem device_names_unique:
  assumes "device_step\<^sup>*\<^sup>* s0 s" "reg_inv s0" "distinct (device_names s0)" "calm s"
    and dev: "dev \<in> set (object_container (objs s) RT_Object_Class_Device)"
    and key: "cstr (ram s) key xs" "key \<noteq> 0" "take RT_NAME_MAX xs = name_at (ram s) dev"
  shows "rt_device_find key s = Done s dev \<and> distinct (device_names s) \<and>
    (\<forall>new flags. new \<noteq> 0 \<longrightarrow> rt_device_register new key flags s = Done s (- RT_ERROR))"
proof -
  have inv: "reg_inv s" "distinct (device_names s)" using device_steps_inv [OF assms(1)] assms(2,3) by auto
  have t: "typed s" using inv(1) by (auto simp: reg_inv_def reg_at_def)
  have "named s RT_Object_Class_Device xs = [dev]"
    unfolding named_def key(3) by (rule filter_unique [OF _ dev]) (use inv(2) in \<open>simp add: device_names_def\<close>)
  then have f: "rt_device_find key s = Done s dev"
    using object_find_spec [OF assms(4) t device_class key(2,1)] by (simp add: rt_device_find_def)
  have "dev \<noteq> 0" using t dev by (auto simp: typed_def)
  then show ?thesis using f inv(2) by (simp add: rt_device_register_def)
qed

definition drv_demo :: drivers where
  "drv_demo = (\<lambda>_. \<lparr>op_init = None, op_open = Some (\<lambda>fl s. Done s 0), op_close = None, op_read = None,
     op_write = Some (\<lambda>p b n s. Done (s\<lparr>ram := (ram s)(300 := ram s b)\<rparr>) n), op_control = None\<rparr>)"

definition s_dev :: sys where
  "s_dev = upd_dev 100 (\<lambda>d. d\<lparr>dev_flag := 3, dev_ref_count := 0, dev_open_flag := 0\<rparr>) (object_attach 100 9 200 s_names)"

lemma s_dev: "rt_device_register 100 200 3 s_names = Done s_dev 0" "device_step\<^sup>*\<^sup>* s_names s_dev" "reg_inv s_names" "calm s_dev"
  "distinct (device_names s_names)" "100 \<in> set (object_container (objs s_dev) 9)" "name_at (ram s_dev) 100 = map of_char ''button_0''"
  "cstr (ram s_dev) 210 (map of_char ''button_02'')"
proof -
  note n = s_names_inv
  have dn: "device_names s_names = []" by (simp add: device_names_def s_names_def demo_objs)
  note c = s_names_cstr(1)
  have S: "rt_device_register 100 200 3 s_names = (if take RT_NAME_MAX (map of_char ''button_01'') \<in> set (device_names s_names)
      then Done s_names (- RT_ERROR) else Done s_dev RT_EOK)"
    unfolding s_dev_def by (rule device_register_spec(1) [OF n(1,2) _ _ _ c]) (simp_all add: n)
  show r: "rt_device_register 100 200 3 s_names = Done s_dev 0" using S dn by simp
  have "device_step s_names s_dev"
    by (rule device_step.register [OF r n(2) _ _ _ c]) (simp_all add: n)
  then show "device_step\<^sup>*\<^sup>* s_names s_dev" by simp
  show "reg_inv s_names" using n(1) by (auto simp: reg_inv_def)
  show "calm s_dev" using n(2) by (simp add: s_dev_def object_attach_def calm_def)
  show "distinct (device_names s_names)" by (simp add: dn)
  show "100 \<in> set (object_container (objs s_dev) 9)" by (simp add: s_dev_def object_attach_def upd_dev_def)
  show "name_at (ram s_dev) 100 = map of_char ''button_0''"
    using attach_names(1) [OF c, of 100 9] by (simp add: s_dev_def)
  show "cstr (ram s_dev) 210 (map of_char ''button_02'')"
    by (rule cstr_agree [OF s_names_cstr(2)]) (simp add: s_dev_def attach_ram)
qed

theorem device_names_unique_witness:
  "rt_device_find 210 s_dev = Done s_dev 100 \<and> rt_device_register 400 210 0 s_dev = Done s_dev (- 1)"
  using device_names_unique [OF s_dev(2,3,5,4,6,8)] s_dev(7) by simp

lemma leave_critical_done: "leave_critical f s = Done s' x \<Longrightarrow> \<exists>k. f (s\<lparr>kern := k\<rparr>) = Done s' x"
  by (auto simp: leave_critical_def split: option.splits if_splits)

lemma run_then_done: "run_then r f = Done s' y \<Longrightarrow> \<exists>x s. r = Done s x \<and> f x s = Done s' y"
  by (cases r) auto

lemma device_register_done:
  assumes "rt_device_register dev name flags s = Done s1 RT_EOK"
  obtains s2 where "s1 = upd_dev dev (\<lambda>d. d\<lparr>dev_flag := flags, dev_ref_count := 0, dev_open_flag := 0\<rparr>)
    (object_attach dev RT_Object_Class_Device name s2)"
  using assms that
  by (force simp: rt_device_register_def rt_object_init_def Let_def split: if_splits dest!: run_then_done leave_critical_done)


lemma drv_demo_ok: "driver_ok drv_demo 100"
  by (simp add: driver_ok_def drv_demo_def same_view_def same_but_oflag_def dev_view_def) (metis rt_device.surjective rt_device.update_convs(3))


text \<open>
  When the driver refuses the last close of a stand-alone device, the counter is zero but the device stays
  flagged as open: it can be neither opened nor closed again.
\<close>

theorem failed_close_blocks:
  assumes o: "open_times True dev 1 s" and f: "op_close (drv dev) = Some f"
    and r: "f (upd_dev dev (\<lambda>d. d\<lparr>dev_ref_count := dev_ref_count d - 1\<rparr>) s) = Done s2 r" "r \<noteq> RT_EOK" "r \<noteq> - RT_ENOSYS"
    and v: "same_view dev (upd_dev dev (\<lambda>d. d\<lparr>dev_ref_count := dev_ref_count d - 1\<rparr>) s) s2"
  shows "rt_device_close drv dev s = Done s2 r \<and> rt_device_open drv dev fl s2 = Done s2 (- RT_EBUSY) \<and>
    rt_device_close drv dev s2 = Done s2 (- RT_ERROR)"
proof -
  have "uint (dev_ref_count (devices (objs s) dev)) = uint (1 :: u8)" using o by (simp add: open_times_def)
  then have nz: "dev_ref_count (devices (objs s) dev) = 1" by (rule unsigned_word_eqI)
  have d: "devices (objs s2) dev = (devices (objs s) dev)\<lparr>dev_ref_count := 0\<rparr>" "obj_type s2 dev = obj_type s dev"
    using v nz by (auto simp: same_view_def dev_view_def)
  have vd: "dev \<noteq> 0" "dev_valid dev s" "dev_valid dev s2" using o d(2) by (simp_all add: open_times_def dev_valid_type)
  show ?thesis
    using vd nz f r o d(1)
    by (auto simp: rt_device_close_def rt_device_open_def open_activated_def open_times_def Let_def)
qed

text \<open>
  \<open>rt_device_destroy\<close> never succeeds: a device that was registered is a static object, and one that was created
  but not registered has no class yet; either fails an assertion.
\<close>

theorem device_destroy_fails:
  "rt_device_register dev name flags s = Done s1 RT_EOK \<Longrightarrow> rt_device_destroy dev s1 = Stuck"
  "rt_device_create ty bytes s = Done s1 dev \<Longrightarrow> 10 \<le> object_size (objs s) RT_Object_Class_Device \<Longrightarrow> dev \<noteq> 0 \<Longrightarrow> rt_device_destroy dev s1 = Stuck"
proof -
  assume "rt_device_register dev name flags s = Done s1 RT_EOK"
  then obtain s2 where "s1 = upd_dev dev (\<lambda>d. d\<lparr>dev_flag := flags, dev_ref_count := 0, dev_open_flag := 0\<rparr>)
    (object_attach dev RT_Object_Class_Device name s2)" by (rule device_register_done)
  then show "rt_device_destroy dev s1 = Stuck"
    using attach_ram(2) [of dev RT_Object_Class_Device name s2]
    by (simp add: rt_device_destroy_def rt_object_is_systemobject_def rt_assert_def)
next
  assume c: "rt_device_create ty bytes s = Done s1 dev" and o: "10 \<le> object_size (objs s) RT_Object_Class_Device" "dev \<noteq> 0"
  let ?n = "object_size (objs s) RT_Object_Class_Device"
  obtain t :: sys where "obj_type s1 dev = rt_memset dev 0 (nat ?n) (ram t) (dev + 8)"
    using c o(2) by (auto simp: rt_device_create_def Let_def split: if_splits dest!: run_then_done)
  then have "obj_type s1 dev = 0" using o(1) by (simp add: memset_mfill mfill_def)
  then show "rt_device_destroy dev s1 = Stuck" by (simp add: rt_device_destroy_def dev_valid_type)
qed

end
