(* ===== verification/Float_Arith.thy ===== *)
theory Float_Arith
  imports Prelude "HOL-Library.Log_Nat"
begin

text \<open>
  Binary floating-point arithmetic as the C types \<open>float\<close> and \<open>double\<close> have it (IEEE 754 binary32 and
  binary64, round to nearest, ties to even, no contraction of a product and a sum): every operation
  gives the exact result rounded to the format. The sign of a zero is not kept; no operation of the
  modelled code can tell it.
\<close>

datatype fp =
    Fin rat
  | Infinity bool   \<comment> \<open>\<open>Infinity True\<close> is negative\<close>
  | NaN

text \<open>The exponent of the leading bit, and rounding to an integer.\<close>

definition expo :: "rat \<Rightarrow> int" where
  "expo x =
     (let (n, d) = quotient_of \<bar>x\<bar>; e = bitlen n - bitlen d in
      if (2::rat) powi e \<le> \<bar>x\<bar> then e else e - 1)"

definition round_even :: "rat \<Rightarrow> int" where
  "round_even x =
     (let f = \<lfloor>x\<rfloor>; r = x - of_int f in
      if r < 1 / 2 then f else if 1 / 2 < r then f + 1 else if even f then f else f + 1)"

text \<open>A format: significant bits, the exponent of its smallest positive number, and of its range.\<close>

record format =
  prec :: int
  emin :: int
  emax :: int

definition binary32 :: format where "binary32 = \<lparr>prec = 24, emin = - 149, emax = 128\<rparr>"
definition binary64 :: format where "binary64 = \<lparr>prec = 53, emin = - 1074, emax = 1024\<rparr>"

definition unit_exp :: "format \<Rightarrow> rat \<Rightarrow> int" where
  "unit_exp F x = max (expo x - (prec F - 1)) (emin F)"

definition fl_round :: "format \<Rightarrow> rat \<Rightarrow> rat" where
  "fl_round F x =
     (if x = 0 then 0
      else let u = unit_exp F x in of_int (round_even (x / 2 powi u)) * 2 powi u)"

section \<open>Laws of rounding\<close>

text \<open>What the proofs about programs use of rounding to a format.\<close>

locale rounding =
  fixes R :: "rat \<Rightarrow> rat"
  assumes mono: "x \<le> y \<Longrightarrow> R x \<le> R y"
    and minus: "R (- x) = - R x"
    and idem: "R (R x) = R x"
begin

lemma zero [simp]: "R 0 = 0"
  using minus [of 0] by simp

lemma le_fixed: "x \<le> y \<Longrightarrow> R y = y \<Longrightarrow> R x \<le> y"
  using mono [of x y] by simp

lemma fixed_le: "y \<le> x \<Longrightarrow> R y = y \<Longrightarrow> y \<le> R x"
  using mono [of y x] by simp

lemma nonneg: "0 \<le> x \<Longrightarrow> 0 \<le> R x"
  using fixed_le [of 0 x] by simp

lemma nonpos: "x \<le> 0 \<Longrightarrow> R x \<le> 0"
  using le_fixed [of x 0] by simp

lemma fixed_minus: "R x = x \<Longrightarrow> R (- x) = - x"
  by (simp add: minus)

end

lemma round_even_bound: "\<bar>of_int (round_even x) - x\<bar> \<le> 1 / 2"
  using floor_correct [of x] by (auto simp: round_even_def Let_def)

lemma round_even_int [simp]: "round_even (of_int n) = n"
  by (simp add: round_even_def)

lemma round_even_mono:
  assumes "x \<le> y"
  shows "round_even x \<le> round_even y"
proof (cases "\<lfloor>x\<rfloor> = \<lfloor>y\<rfloor>")
  case True
  then show ?thesis using assms by (auto simp: round_even_def Let_def)
next
  case False
  then have "\<lfloor>x\<rfloor> < \<lfloor>y\<rfloor>" using floor_mono [OF assms] by simp
  moreover have "round_even x \<le> \<lfloor>x\<rfloor> + 1" "\<lfloor>y\<rfloor> \<le> round_even y" by (auto simp: round_even_def Let_def)
  ultimately show ?thesis by simp
qed

lemma round_even_minus: "round_even (- x) = - round_even x"
proof (cases "x = of_int \<lfloor>x\<rfloor>")
  case True
  then obtain n where "x = of_int n" by blast
  then show ?thesis using round_even_int [of n] round_even_int [of "- n"] by simp
next
  case False
  have ne: "of_int \<lfloor>x\<rfloor> < x" using False floor_correct [of x] by linarith
  have "x < of_int (\<lfloor>x\<rfloor> + 1)" by (rule floor_less_iff [THEN iffD1]) simp
  then have f: "\<lfloor>- x\<rfloor> = - \<lfloor>x\<rfloor> - 1" using ne by (intro floor_unique) auto
  show ?thesis unfolding round_even_def Let_def f by auto
qed

lemma powi_pos [simp]: "0 < (2::rat) powi e"
  by (rule zero_less_power_int) simp

lemma powi_mono: "a \<le> b \<Longrightarrow> (2::rat) powi a \<le> 2 powi b"
  by (rule power_int_increasing) simp_all

lemma powi_less: "(2::rat) powi a < 2 powi b \<longleftrightarrow> a < b"
  by (metis linorder_not_le powi_mono power_int_strict_increasing one_less_numeral_iff semiring_norm(76) le_less_trans less_irrefl)

lemma powi_split: "(2::rat) powi (a + b) = 2 powi a * 2 powi b"
  by (rule power_int_add) simp

lemma expo_bounds:
  assumes "x \<noteq> 0"
  shows "2 powi expo x \<le> \<bar>x\<bar>" "\<bar>x\<bar> < 2 powi (expo x + 1)"
proof -
  obtain n d where q: "quotient_of \<bar>x\<bar> = (n, d)" by force
  have d: "0 < d" using quotient_of_denom_pos [OF q] .
  have x: "\<bar>x\<bar> = of_int n / of_int d" using quotient_of_div [OF q] .
  then have n: "0 < n" using assms d by (metis divide_pos_pos linorder_neqE_linordered_idom of_int_0_less_iff
      zero_less_abs_iff zero_less_divide_iff of_int_less_0_iff order_less_asym)
  let ?bn = "bitlen n" and ?bd = "bitlen d"
  have bl: "2 powi (bitlen m - 1) \<le> (of_int m :: rat) \<and> (of_int m :: rat) < 2 powi (bitlen m)" if "0 < m" for m
  proof -
    have "0 < bitlen m" using that bitlen_eq_zero_iff [of m] bitlen_nonneg [of m] by linarith
    then have e: "(2::rat) powi (bitlen m - 1) = of_int (2 ^ nat (bitlen m - 1))"
      "(2::rat) powi (bitlen m) = of_int (2 ^ nat (bitlen m))"
      by (simp_all add: power_int_nonneg_exp)
    show ?thesis unfolding e of_int_le_iff of_int_less_iff using bitlen_bounds [OF that] by simp
  qed
  note bn = bl [OF n] and bd = bl [OF d]
  have hi: "\<bar>x\<bar> < 2 powi (?bn - ?bd + 1)"
  proof -
    have "\<bar>x\<bar> < 2 powi ?bn / 2 powi (?bd - 1)"
      unfolding x by (rule frac_less) (use n d bn bd in auto)
    also have "\<dots> = 2 powi (?bn - ?bd + 1)" by (simp add: power_int_diff [symmetric] algebra_simps)
    finally show ?thesis .
  qed
  have lo: "2 powi (?bn - ?bd - 1) \<le> \<bar>x\<bar>"
  proof -
    have "2 powi (?bn - ?bd - 1) = 2 powi (?bn - 1) / (2::rat) powi ?bd" by (simp add: power_int_diff [symmetric] algebra_simps)
    also have "\<dots> \<le> \<bar>x\<bar>" unfolding x by (rule frac_le) (use n d bn bd in auto)
    finally show ?thesis .
  qed
  show "2 powi expo x \<le> \<bar>x\<bar>" "\<bar>x\<bar> < 2 powi (expo x + 1)"
    using hi lo by (auto simp: expo_def q Let_def)
qed

lemma expo_unique:
  assumes "2 powi e \<le> \<bar>x\<bar>" "\<bar>x\<bar> < 2 powi (e + 1)"
  shows "expo x = e"
proof -
  have "0 < \<bar>x\<bar>" using assms(1) powi_pos [of e] by linarith
  then have "x \<noteq> 0" by simp
  note b = expo_bounds [OF this]
  have "(2::rat) powi e < 2 powi (expo x + 1)" "(2::rat) powi expo x < 2 powi (e + 1)"
    using b assms by linarith+
  then show ?thesis unfolding powi_less by simp
qed

lemma expo_minus [simp]: "expo (- x) = expo x"
  by (simp add: expo_def)

lemma expo_mono: "0 < x \<Longrightarrow> x \<le> y \<Longrightarrow> expo x \<le> expo y"
  using expo_bounds [of x] expo_bounds [of y] powi_less [of "expo x" "expo y + 1"] by fastforce

lemma fl_round_minus: "fl_round F (- x) = - fl_round F x"
  using round_even_minus [of "x / 2 powi unit_exp F x"] by (simp add: fl_round_def unit_exp_def Let_def)

lemma fl_round_error:
  assumes "\<bar>x\<bar> < 2 powi (e + 1)" "emin F \<le> e - prec F + 1"
  shows "\<bar>fl_round F x - x\<bar> \<le> 2 powi (e - prec F)"
proof (cases "x = 0")
  case False
  let ?u = "unit_exp F x"
  have "(2::rat) powi expo x < 2 powi (e + 1)" using expo_bounds(1) [OF False] assms(1) by linarith
  then have u: "?u \<le> e - prec F + 1" using assms(2) unfolding powi_less by (simp add: unit_exp_def)
  have "fl_round F x - x = (of_int (round_even (x / 2 powi ?u)) - x / 2 powi ?u) * 2 powi ?u"
    using False by (simp add: fl_round_def Let_def left_diff_distrib)
  then have "\<bar>fl_round F x - x\<bar> \<le> 1 / 2 * 2 powi ?u"
    using mult_right_mono [OF round_even_bound [of "x / 2 powi ?u"], of "2 powi ?u"] by (simp add: abs_mult)
  also have "\<dots> \<le> 1 / 2 * 2 powi (e - prec F + 1)" using powi_mono [OF u] by simp
  also have "\<dots> = 2 powi (e - prec F)" using powi_split [of "e - prec F" 1] by simp
  finally show ?thesis .
qed (simp add: fl_round_def)

text \<open>An integer multiple of a unit at least that of the number is not changed.\<close>

lemma fl_round_exact:
  assumes "x = of_int m * 2 powi u" "unit_exp F x \<le> u"
  shows "fl_round F x = x"
proof (cases "x = 0")
  case False
  let ?v = "unit_exp F x"
  have "x / 2 powi ?v = of_int (m * 2 ^ nat (u - ?v))"
    using assms by (simp add: power_int_nonneg_exp [symmetric] power_int_diff)
  then have "of_int (round_even (x / 2 powi ?v)) = x / 2 powi ?v" using round_even_int by metis
  then show ?thesis using False by (simp add: fl_round_def Let_def)
qed (simp add: fl_round_def)

lemma fl_round_form:
  "x \<noteq> 0 \<Longrightarrow> fl_round F x = of_int (round_even (x / 2 powi unit_exp F x)) * 2 powi unit_exp F x"
  by (simp add: fl_round_def Let_def)

lemma fl_round_nonneg: "0 \<le> x \<Longrightarrow> 0 \<le> fl_round F x"
  using round_even_mono [of 0 "x / 2 powi unit_exp F x"] round_even_int [of 0]
  by (simp add: fl_round_def Let_def zero_le_mult_iff)

text \<open>Between two numbers with different units there is a power of two that both roundings respect.\<close>

lemma fl_round_mono_pos:
  assumes p: "0 < prec F" and x: "0 < x" "x \<le> y"
  shows "fl_round F x \<le> fl_round F y"
proof (cases "unit_exp F x = unit_exp F y")
  case True
  have "x / 2 powi unit_exp F y \<le> y / 2 powi unit_exp F y" using x(2) by (simp add: divide_right_mono)
  from round_even_mono [OF this] show ?thesis using x True by (simp add: fl_round_form mult_right_mono)
next
  case False
  let ?u = "unit_exp F x" and ?v = "unit_exp F y"
  have e: "expo x \<le> expo y" using expo_mono [OF x] .
  then have lt: "expo x < expo y" "?v = expo y - (prec F - 1)" "?u \<le> ?v" using False by (auto simp: unit_exp_def)
  have ge: "?u \<le> expo y" "?v \<le> expo y" using lt p by simp_all
  have up: "x \<le> 2 powi expo y"
    using expo_bounds(2) [of x] x powi_mono [of "expo x + 1" "expo y"] lt(1) by simp
  have lo: "2 powi expo y \<le> y" using expo_bounds(1) [of y] x by simp
  have q: "(2::rat) powi expo y / 2 powi w = of_int (2 ^ nat (expo y - w))" if "w \<le> expo y" for w
    using that by (simp add: power_int_diff [symmetric] power_int_nonneg_exp)
  have b: "(2::rat) powi expo y = of_int (2 ^ nat (expo y - w)) * 2 powi w" if "w \<le> expo y" for w
    using q [OF that] by (simp add: field_simps)
  have "x / 2 powi ?u \<le> of_int (2 ^ nat (expo y - ?u))"
    using up unfolding q [OF ge(1), symmetric] by (simp add: divide_right_mono)
  from round_even_mono [OF this] have "round_even (x / 2 powi ?u) \<le> 2 ^ nat (expo y - ?u)"
    unfolding round_even_int .
  then have "fl_round F x \<le> 2 powi expo y"
    unfolding b [OF ge(1)] using x by (simp add: fl_round_form mult_right_mono del: of_int_power of_int_numeral)
  moreover have "of_int (2 ^ nat (expo y - ?v)) \<le> y / 2 powi ?v"
    using lo unfolding q [OF ge(2), symmetric] by (simp add: divide_right_mono)
  from round_even_mono [OF this] have "2 ^ nat (expo y - ?v) \<le> round_even (y / 2 powi ?v)"
    unfolding round_even_int .
  then have "2 powi expo y \<le> fl_round F y"
    unfolding b [OF ge(2)] using x by (simp add: fl_round_form mult_right_mono del: of_int_power of_int_numeral)
  ultimately show ?thesis by linarith
qed

lemma fl_round_mono:
  assumes p: "0 < prec F" and "x \<le> y"
  shows "fl_round F x \<le> fl_round F y"
proof -
  consider "0 < x" | "y < 0" | "x \<le> 0" "0 \<le> y" by linarith
  then show ?thesis
  proof cases
    case 2
    then have "fl_round F (- y) \<le> fl_round F (- x)" using assms by (intro fl_round_mono_pos) auto
    then show ?thesis by (simp add: fl_round_minus)
  next
    case 3
    then show ?thesis using fl_round_nonneg [of "- x" F] fl_round_nonneg [of y F] by (simp add: fl_round_minus)
  qed (use fl_round_mono_pos [OF p] assms in blast)
qed

lemma fl_round_idem:
  assumes p: "0 < prec F"
  shows "fl_round F (fl_round F x) = fl_round F x"
proof (cases "x = 0")
  case False
  let ?u = "unit_exp F x" and ?p = "prec F"
  define m where "m = round_even (x / 2 powi ?u)"
  define r where "r = fl_round F x"
  have r: "r = of_int m * 2 powi ?u" using False by (simp add: r_def m_def fl_round_form)
  have "\<bar>x\<bar> / 2 powi ?u \<le> 2 powi (expo x + 1) / 2 powi ?u"
    using expo_bounds(2) [OF False] by (simp add: divide_right_mono)
  also have "\<dots> \<le> 2 powi ?p" using powi_mono [of "expo x + 1 - ?u" ?p] by (simp add: power_int_diff unit_exp_def)
  finally have "\<bar>x / 2 powi ?u\<bar> \<le> of_int (2 ^ nat ?p)" using p by (simp add: power_int_nonneg_exp)
  then have "- of_int (2 ^ nat ?p) \<le> x / 2 powi ?u" "x / 2 powi ?u \<le> of_int (2 ^ nat ?p)" by linarith+
  from this [THEN round_even_mono] have m: "\<bar>m\<bar> \<le> 2 ^ nat ?p"
    unfolding m_def round_even_int round_even_minus by linarith
  show ?thesis
  proof (cases "m = 0 \<or> \<bar>m\<bar> < 2 ^ nat ?p")
    case True
    have "unit_exp F r \<le> ?u" if "m \<noteq> 0"
    proof -
      have "(of_int \<bar>m\<bar> :: rat) < of_int (2 ^ nat ?p)" unfolding of_int_less_iff using True that by simp
      then have "\<bar>r\<bar> < 2 powi ?p * 2 powi ?u"
        unfolding r abs_mult using p by (simp add: power_int_nonneg_exp)
      moreover have "r \<noteq> 0" using that r by simp
      ultimately have "(2::rat) powi expo r < 2 powi (?p + ?u)"
        using expo_bounds(1) [of r] powi_split [of ?p ?u] by simp
      then show ?thesis unfolding powi_less by (simp add: unit_exp_def)
    qed
    then have "m = 0 \<or> unit_exp F r \<le> ?u" by blast
    then have "fl_round F r = r"
    proof
      assume "m = 0"
      then show ?thesis by (simp add: r fl_round_def)
    qed (rule fl_round_exact [OF r])
    then show ?thesis by (simp add: r_def)
  next
    case top: False
    then have am: "\<bar>m\<bar> = 2 ^ nat ?p" using m by simp
    define s :: int where "s = sgn m"
    have "nat ?p = Suc (nat (?p - 1))" using p by simp
    then have "m = (s * 2 ^ nat (?p - 1)) * 2" using am mult_sgn_abs [of m] by (simp add: s_def mult.assoc mult.commute)
    then have r': "r = of_int (s * 2 ^ nat (?p - 1)) * 2 powi (?u + 1)" unfolding r powi_split by simp
    have "\<bar>r\<bar> = 2 powi (?p + ?u)"
      unfolding r abs_mult powi_split using am p by (simp add: power_int_nonneg_exp of_int_abs [symmetric] del: of_int_abs)
    then have "expo r = ?p + ?u" by (intro expo_unique) (simp_all add: powi_less)
    then have "unit_exp F r \<le> ?u + 1" by (simp add: unit_exp_def)
    from fl_round_exact [OF r' this] show ?thesis by (simp add: r_def)
  qed
qed (simp add: fl_round_def)

interpretation r32: rounding "fl_round binary32"
  by unfold_locales (simp_all add: fl_round_mono fl_round_minus fl_round_idem binary32_def)

interpretation r64: rounding "fl_round binary64"
  by unfold_locales (simp_all add: fl_round_mono fl_round_minus fl_round_idem binary64_def)

section \<open>Operations\<close>

text \<open>The result of an operation whose exact value is \<open>x\<close>.\<close>

definition to_format :: "format \<Rightarrow> rat \<Rightarrow> fp" where
  "to_format F x =
     (let r = fl_round F x in if \<bar>r\<bar> < 2 powi emax F then Fin r else Infinity (r < 0))"

text \<open>Comparison: false when a NaN is involved.\<close>

instantiation fp :: ord
begin

fun less_fp :: "fp \<Rightarrow> fp \<Rightarrow> bool" where
  "Fin x < Fin y \<longleftrightarrow> x < y"
| "Infinity s < Fin y \<longleftrightarrow> s"
| "Fin x < Infinity s \<longleftrightarrow> \<not> s"
| "Infinity s < Infinity t \<longleftrightarrow> s \<and> \<not> t"
| "NaN < b \<longleftrightarrow> False"
| "a < NaN \<longleftrightarrow> False"

definition less_eq_fp :: "fp \<Rightarrow> fp \<Rightarrow> bool" where
  "a \<le> b \<longleftrightarrow> a < b \<or> a = b \<and> a \<noteq> NaN" for a b :: fp

instance ..

end

instantiation fp :: uminus
begin

fun uminus_fp :: "fp \<Rightarrow> fp" where
  "- Fin x = Fin (- x)"
| "- Infinity s = Infinity (\<not> s)"
| "- NaN = NaN"

instance ..

end

fun fadd :: "format \<Rightarrow> fp \<Rightarrow> fp \<Rightarrow> fp" where
  "fadd F (Fin x) (Fin y) = to_format F (x + y)"
| "fadd F (Infinity s) (Infinity t) = (if s = t then Infinity s else NaN)"
| "fadd F (Infinity s) (Fin y) = Infinity s"
| "fadd F (Fin x) (Infinity t) = Infinity t"
| "fadd F NaN b = NaN"
| "fadd F a NaN = NaN"

definition fsub :: "format \<Rightarrow> fp \<Rightarrow> fp \<Rightarrow> fp" where
  "fsub F a b = fadd F a (- b)"

fun fmul :: "format \<Rightarrow> fp \<Rightarrow> fp \<Rightarrow> fp" where
  "fmul F (Fin x) (Fin y) = to_format F (x * y)"
| "fmul F (Infinity s) (Infinity t) = Infinity (s \<noteq> t)"
| "fmul F (Infinity s) (Fin y) = (if y = 0 then NaN else Infinity (s \<noteq> (y < 0)))"
| "fmul F (Fin x) (Infinity t) = (if x = 0 then NaN else Infinity (t \<noteq> (x < 0)))"
| "fmul F NaN b = NaN"
| "fmul F a NaN = NaN"

text \<open>Division; a zero divisor counts as positive.\<close>

fun fdiv :: "format \<Rightarrow> fp \<Rightarrow> fp \<Rightarrow> fp" where
  "fdiv F (Fin x) (Fin y) = (if y \<noteq> 0 then to_format F (x / y) else if x = 0 then NaN else Infinity (x < 0))"
| "fdiv F (Infinity s) (Fin y) = Infinity (s \<noteq> (y < 0))"
| "fdiv F (Fin x) (Infinity t) = Fin 0"
| "fdiv F (Infinity s) (Infinity t) = NaN"
| "fdiv F NaN b = NaN"
| "fdiv F a NaN = NaN"

text \<open>Conversions: from a \<open>double\<close> or an integer to a \<open>float\<close>, a decimal literal, and to \<open>uint32_t\<close>.\<close>

fun to_float :: "fp \<Rightarrow> fp" where
  "to_float (Fin x) = to_format binary32 x"
| "to_float a = a"

definition float_of_int :: "int \<Rightarrow> fp" where
  "float_of_int i = to_format binary32 (of_int i)"

definition double_lit :: "rat \<Rightarrow> fp" where "double_lit x = to_format binary64 x"
definition float_lit :: "rat \<Rightarrow> fp" where "float_lit x = to_format binary32 x"

text \<open>\<open>None\<close>: the integral part is not a value of the type, and the behaviour is undefined.\<close>

fun to_uint32 :: "fp \<Rightarrow> u32 option" where
  "to_uint32 (Fin x) = (if - 1 < x \<and> x < 2 ^ 32 then Some (of_int (if x < 0 then 0 else \<lfloor>x\<rfloor>)) else None)"
| "to_uint32 a = None"

subsection \<open>Finite results\<close>

lemma to_format_finite:
  assumes "\<bar>x\<bar> \<le> b" "fl_round F b = b" "b < 2 powi emax F" "0 < prec F"
  shows "to_format F x = Fin (fl_round F x)"
proof -
  have "fl_round F x \<le> b" using fl_round_mono [OF assms(4), of x b] assms(1,2) by simp
  moreover have "- b \<le> fl_round F x"
    using fl_round_mono [OF assms(4), of "- b" x] assms(1,2) by (simp add: fl_round_minus)
  ultimately have "\<bar>fl_round F x\<bar> < 2 powi emax F" using assms(3) by simp
  then show ?thesis by (simp add: to_format_def Let_def)
qed

lemma fl_round_power: "fl_round F (2 powi e) = 2 powi e" if "emin F \<le> e" "0 < prec F"
proof -
  have "expo (2 powi e) = e" by (rule expo_unique) (simp_all add: powi_less)
  then show ?thesis using that by (intro fl_round_exact [of _ 1 e]) (simp_all add: unit_exp_def)
qed

lemma to_format32: "\<bar>x\<bar> \<le> 2 ^ 32 \<Longrightarrow> to_format binary32 x = Fin (fl_round binary32 x)"
  by (rule to_format_finite [of _ "2 powi 32"])
    (use fl_round_power [of binary32 32] powi_less [of 32 128] in \<open>simp_all add: binary32_def\<close>)

lemma to_format64: "\<bar>x\<bar> \<le> 2 ^ 32 \<Longrightarrow> to_format binary64 x = Fin (fl_round binary64 x)"
  by (rule to_format_finite [of _ "2 powi 32"])
    (use fl_round_power [of binary64 32] powi_less [of 32 1024] in \<open>simp_all add: binary64_def\<close>)

lemma to_format_not_NaN [simp]: "to_format F x \<noteq> NaN"
  by (simp add: to_format_def Let_def)

text \<open>Evaluation of a rounding, given the unit and the integer it rounds to.\<close>

lemma round_even_near: "\<bar>y - of_int m\<bar> < 1 / 2 \<Longrightarrow> round_even y = m"
proof -
  assume a: "\<bar>y - of_int m\<bar> < 1 / 2"
  have "\<bar>of_int (round_even y) - y\<bar> \<le> 1 / 2" by (rule round_even_bound)
  then have "\<bar>(of_int (round_even y) - of_int m :: rat)\<bar> < 1" using a by linarith
  then have "\<bar>(of_int (round_even y - m) :: rat)\<bar> < 1" by simp
  then show ?thesis by linarith
qed

lemma fl_round_near:
  assumes "2 powi (u + prec F - 1) \<le> \<bar>x\<bar>" "\<bar>x\<bar> < 2 powi (u + prec F)" "emin F \<le> u"
    and "\<bar>x - of_int m * 2 powi u\<bar> < 2 powi u / 2"
  shows "fl_round F x = of_int m * 2 powi u"
proof -
  have "expo x = u + prec F - 1" by (rule expo_unique) (use assms in simp_all)
  then have u: "unit_exp F x = u" using assms(3) by (simp add: unit_exp_def)
  have "0 < \<bar>x\<bar>" using assms(1) powi_pos [of "u + prec F - 1"] by linarith
  then have x: "x \<noteq> 0" by simp
  have "x / 2 powi u - of_int m = (x - of_int m * 2 powi u) / 2 powi u" by (simp add: field_simps)
  then have "\<bar>x / 2 powi u - of_int m\<bar> = \<bar>x - of_int m * 2 powi u\<bar> / 2 powi u" by (simp add: abs_divide)
  also have "\<dots> < 1 / 2" using assms(4) by (simp add: field_simps)
  finally show ?thesis using round_even_near x by (simp add: fl_round_form u)
qed

lemma to_format_near:
  assumes "2 powi (u + prec F - 1) \<le> \<bar>x\<bar>" "\<bar>x\<bar> < 2 powi (u + prec F)" "emin F \<le> u"
    and "\<bar>x - of_int m * 2 powi u\<bar> < 2 powi u / 2" "\<bar>of_int m * 2 powi u\<bar> < (2::rat) powi emax F"
  shows "to_format F x = Fin (of_int m * 2 powi u)"
  using fl_round_near [OF assms(1-4)] assms(5) by (simp add: to_format_def)

lemma to_format_Fin: "fl_round F x = x \<Longrightarrow> \<bar>x\<bar> < 2 powi emax F \<Longrightarrow> to_format F x = Fin x"
  by (simp add: to_format_def)

text \<open>The values of a format: what every operation returns.\<close>

fun is_float :: "format \<Rightarrow> fp \<Rightarrow> bool" where
  "is_float F (Fin r) \<longleftrightarrow> fl_round F r = r \<and> \<bar>r\<bar> < 2 powi emax F"
| "is_float F (Infinity s) \<longleftrightarrow> True"
| "is_float F NaN \<longleftrightarrow> True"

lemma is_float_to_format [simp]: "0 < prec F \<Longrightarrow> is_float F (to_format F x)"
  by (simp add: to_format_def Let_def fl_round_idem)

lemma is_float_uminus [simp]: "is_float F (- a) \<longleftrightarrow> is_float F a"
  by (cases a) (simp_all add: fl_round_minus)

lemma is_float_ops [simp]:
  assumes "0 < prec F"
  shows "is_float F (fadd F a b)" "is_float F (fsub F a b)" "is_float F (fmul F a b)" "is_float F (fdiv F a b)"
proof -
  show add: "is_float F (fadd F a b)" for a b using assms by (cases a; cases b) auto
  show "is_float F (fsub F a b)" by (simp add: fsub_def add)
  show "is_float F (fmul F a b)" using assms by (cases a; cases b) auto
  show "is_float F (fdiv F a b)" using assms by (cases a; cases b) (auto simp: fl_round_def)
qed

lemma prec_binary [simp]: "prec binary32 = 24" "prec binary64 = 53" "emin binary32 = - 149" "emax binary32 = 128"
  by (simp_all add: binary32_def binary64_def)

lemma fadd_zero [simp]: "is_float F a \<Longrightarrow> fadd F a (Fin 0) = a" "is_float F a \<Longrightarrow> fsub F a (Fin 0) = a"
  by (cases a; simp add: fsub_def to_format_def)+

lemma to_format_zero [simp]: "to_format F 0 = Fin 0"
  by (simp add: to_format_def fl_round_def)

lemma less_fp_irrefl [simp]: "\<not> a < (a :: fp)"
  by (cases a) auto

lemma less_eq_Fin [simp]: "Fin x \<le> Fin y \<longleftrightarrow> x \<le> y"
  by (auto simp: less_eq_fp_def)

lemma less_eq_Fin_Infinity [simp]: "Fin x \<le> Infinity s \<longleftrightarrow> \<not> s" "Infinity s \<le> Fin x \<longleftrightarrow> s"
  by (simp_all add: less_eq_fp_def)

text \<open>The error of one rounding, for numbers below a power of two.\<close>

lemma round32_error:
  assumes "\<bar>x\<bar> < 2 powi (e + 1)" "- 126 \<le> e"
  shows "\<bar>fl_round binary32 x - x\<bar> \<le> 2 powi (e - 24)"
  using fl_round_error [of x e binary32] assms by simp

text \<open>Small integers are exact.\<close>

lemma float_of_small_int:
  assumes "\<bar>n\<bar> < 2 ^ 24"
  shows "float_of_int n = Fin (of_int n)"
proof (cases "n = 0")
  case False
  have "of_int \<bar>n\<bar> < (of_int (2 ^ 24) :: rat)" unfolding of_int_less_iff by (rule assms)
  then have fin: "\<bar>of_int n :: rat\<bar> < 2 powi 24" by simp
  have "fl_round binary32 (of_int n) = of_int n"
  proof (rule fl_round_exact [of _ n 0])
    have "(2::rat) powi expo (of_int n) < 2 powi 24" using expo_bounds(1) [of "of_int n :: rat"] False fin by simp
    then show "unit_exp binary32 (of_int n) \<le> 0" unfolding powi_less by (simp add: unit_exp_def)
  qed simp
  then show ?thesis using fin powi_less [of 24 128] unfolding float_of_int_def by (intro to_format_Fin) simp_all
qed (simp add: float_of_int_def)

end
