(* ===== verification/Motor_Control.thy ===== *)
theory Motor_Control
  imports Float_Arith
begin

text \<open>
  The arithmetic of the motor control application under \<open>applications/mc_rtthread\<close>: the PI controller
  (\<open>mc_control.c\<close>), angles, tables and transforms (\<open>mc_transform.c\<close>), the space vector modulation
  (\<open>mc_svm.c\<close>), the current measurement (\<open>mc_current.c\<close>) and the encoder (\<open>mc_encoder.c\<close>). A \<open>float\<close>
  is a value of \<open>fp\<close>, rounded to \<open>binary32\<close> after every operation; where the code mixes in a
  \<open>double\<close> literal the operation is in \<open>binary64\<close>. \<open>None\<close> is an access outside a table or a
  conversion to an integer type that cannot hold the value.
\<close>

abbreviation (input) add32 :: "fp \<Rightarrow> fp \<Rightarrow> fp" where "add32 \<equiv> fadd binary32"
abbreviation (input) sub32 :: "fp \<Rightarrow> fp \<Rightarrow> fp" where "sub32 \<equiv> fsub binary32"
abbreviation (input) mul32 :: "fp \<Rightarrow> fp \<Rightarrow> fp" where "mul32 \<equiv> fmul binary32"
abbreviation (input) div32 :: "fp \<Rightarrow> fp \<Rightarrow> fp" where "div32 \<equiv> fdiv binary32"
abbreviation (input) add64 :: "fp \<Rightarrow> fp \<Rightarrow> fp" where "add64 \<equiv> fadd binary64"
abbreviation (input) sub64 :: "fp \<Rightarrow> fp \<Rightarrow> fp" where "sub64 \<equiv> fsub binary64"
abbreviation (input) mul64 :: "fp \<Rightarrow> fp \<Rightarrow> fp" where "mul64 \<equiv> fmul binary64"
abbreviation (input) div64 :: "fp \<Rightarrow> fp \<Rightarrow> fp" where "div64 \<equiv> fdiv binary64"

section \<open>The PI controller\<close>

record mc_pi_controller_t =
  pi_kp :: fp
  pi_ki :: fp
  pi_kc :: fp
  pi_out_max :: fp
  pi_out_min :: fp
  pi_d_sum :: fp
  pi_in_ref :: fp
  pi_in_meas :: fp
  pi_out :: fp

text \<open>\<open>D_AXIS_CONTROLLER_INIT\<close> and \<open>Q_AXIS_CONTROLLER_INIT\<close>, which have the same values.\<close>

definition AXIS_CONTROLLER_INIT :: mc_pi_controller_t where
  "AXIS_CONTROLLER_INIT =
     \<lparr>pi_kp = float_lit (2 / 10), pi_ki = float_lit (2 / 10000), pi_kc = mul32 (Fin 0) (float_lit (5 / 10)),
      pi_out_max = float_lit (98 / 100), pi_out_min = - float_lit (98 / 100),
      pi_d_sum = Fin 0, pi_in_ref = Fin 0, pi_in_meas = Fin 0, pi_out = Fin 0\<rparr>"

definition mc_pi_control :: "mc_pi_controller_t \<Rightarrow> mc_pi_controller_t" where
  "mc_pi_control p =
     (let err = sub32 (pi_in_ref p) (pi_in_meas p);
          out = add32 (pi_d_sum p) (mul32 (pi_kp p) err);
          p1 = p\<lparr>pi_out := (if pi_out_max p < out then pi_out_max p
                             else if out < pi_out_min p then pi_out_min p else out)\<rparr>;
          exc = sub32 out (pi_out p1)
      in p1\<lparr>pi_d_sum := sub32 (add32 (pi_d_sum p1) (mul32 (pi_ki p1) err)) (mul32 (pi_kc p1) exc)\<rparr>)"

definition mc_reset_controller :: "mc_pi_controller_t \<Rightarrow> mc_pi_controller_t" where
  "mc_reset_controller p = p\<lparr>pi_d_sum := Fin 0, pi_out := Fin 0\<rparr>"

section \<open>Angles and tables\<close>

text \<open>The tables of \<open>mc_transform.c\<close> in units of \<open>10 ^ -6\<close>, and as the array elements they initialise.\<close>

definition sine_digits :: "int list" where
  "sine_digits =
   [0, 24541, 49068, 73565, 98017, 122411, 146730, 170962, 195090, 219101, 242980, 266713,
    290285, 313682, 336890, 359895, 382683, 405241, 427555, 449611, 471397, 492898, 514103, 534998,
    555570, 575808, 595699, 615232, 634393, 653173, 671559, 689541, 707107, 724247, 740951, 757209,
    773010, 788346, 803208, 817585, 831470, 844854, 857729, 870087, 881921, 893224, 903989, 914210,
    923880, 932993, 941544, 949528, 956940, 963776, 970031, 975702, 980785, 985278, 989177, 992480,
    995185, 997290, 998795, 999699, 1000000, 999699, 998795, 997290, 995185, 992480, 989177, 985278,
    980785, 975702, 970031, 963776, 956940, 949528, 941544, 932993, 923880, 914210, 903989, 893224,
    881921, 870087, 857729, 844854, 831470, 817585, 803208, 788346, 773010, 757209, 740951, 724247,
    707107, 689541, 671559, 653173, 634393, 615232, 595699, 575808, 555570, 534998, 514103, 492898,
    471397, 449611, 427555, 405241, 382683, 359895, 336890, 313682, 290285, 266713, 242980, 219101,
    195090, 170962, 146730, 122411, 98017, 73565, 49068, 24541, 0, - 24541, - 49068, - 73565,
    - 98017, - 122411, - 146730, - 170962, - 195090, - 219101, - 242980, - 266713, - 290285, - 313682, - 336890, - 359895,
    - 382683, - 405241, - 427555, - 449611, - 471397, - 492898, - 514103, - 534998, - 555570, - 575808, - 595699, - 615232,
    - 634393, - 653173, - 671559, - 689541, - 707107, - 724247, - 740951, - 757209, - 773010, - 788346, - 803208, - 817585,
    - 831470, - 844854, - 857729, - 870087, - 881921, - 893224, - 903989, - 914210, - 923880, - 932993, - 941544, - 949528,
    - 956940, - 963776, - 970031, - 975702, - 980785, - 985278, - 989177, - 992480, - 995185, - 997290, - 998795, - 999699,
    - 1000000, - 999699, - 998795, - 997290, - 995185, - 992480, - 989177, - 985278, - 980785, - 975702, - 970031, - 963776,
    - 956940, - 949528, - 941544, - 932993, - 923880, - 914210, - 903989, - 893224, - 881921, - 870087, - 857729, - 844854,
    - 831470, - 817585, - 803208, - 788346, - 773010, - 757209, - 740951, - 724247, - 707107, - 689541, - 671559, - 653173,
    - 634393, - 615232, - 595699, - 575808, - 555570, - 534998, - 514103, - 492898, - 471397, - 449611, - 427555, - 405241,
    - 382683, - 359895, - 336890, - 313682, - 290285, - 266713, - 242980, - 219101, - 195090, - 170962, - 146730, - 122411,
    - 98017, - 73565, - 49068, - 24541]"

definition cosine_digits :: "int list" where
  "cosine_digits =
   [1000000, 999699, 998795, 997290, 995185, 992480, 989177, 985278, 980785, 975702, 970031, 963776,
    956940, 949528, 941544, 932993, 923880, 914210, 903989, 893224, 881921, 870087, 857729, 844854,
    831470, 817585, 803208, 788346, 773010, 757209, 740951, 724247, 707107, 689541, 671559, 653173,
    634393, 615232, 595699, 575808, 555570, 534998, 514103, 492898, 471397, 449611, 427555, 405241,
    382683, 359895, 336890, 313682, 290285, 266713, 242980, 219101, 195090, 170962, 146730, 122411,
    98017, 73565, 49068, 24541, 0, - 24541, - 49068, - 73565, - 98017, - 122411, - 146730, - 170962,
    - 195090, - 219101, - 242980, - 266713, - 290285, - 313682, - 336890, - 359895, - 382683, - 405241, - 427555, - 449611,
    - 471397, - 492898, - 514103, - 534998, - 555570, - 575808, - 595699, - 615232, - 634393, - 653173, - 671559, - 689541,
    - 707107, - 724247, - 740951, - 757209, - 773010, - 788346, - 803208, - 817585, - 831470, - 844854, - 857729, - 870087,
    - 881921, - 893224, - 903989, - 914210, - 923880, - 932993, - 941544, - 949528, - 956940, - 963776, - 970031, - 975702,
    - 980785, - 985278, - 989177, - 992480, - 995185, - 997290, - 998795, - 999699, - 1000000, - 999699, - 998795, - 997290,
    - 995185, - 992480, - 989177, - 985278, - 980785, - 975702, - 970031, - 963776, - 956940, - 949528, - 941544, - 932993,
    - 923880, - 914210, - 903989, - 893224, - 881921, - 870087, - 857729, - 844854, - 831470, - 817585, - 803208, - 788346,
    - 773010, - 757209, - 740951, - 724247, - 707107, - 689541, - 671559, - 653173, - 634393, - 615232, - 595699, - 575808,
    - 555570, - 534998, - 514103, - 492898, - 471397, - 449611, - 427555, - 405241, - 382683, - 359895, - 336890, - 313682,
    - 290285, - 266713, - 242980, - 219101, - 195090, - 170962, - 146730, - 122411, - 98017, - 73565, - 49068, - 24541,
    0, 24541, 49068, 73565, 98017, 122411, 146730, 170962, 195090, 219101, 242980, 266713,
    290285, 313682, 336890, 359895, 382683, 405241, 427555, 449611, 471397, 492898, 514103, 534998,
    555570, 575808, 595699, 615232, 634393, 653173, 671559, 689541, 707107, 724247, 740951, 757209,
    773010, 788346, 803208, 817585, 831470, 844854, 857729, 870087, 881921, 893224, 903989, 914210,
    923880, 932993, 941544, 949528, 956940, 963776, 970031, 975702, 980785, 985278, 989177, 992480,
    995185, 997290, 998795, 999699]"

definition sine_table :: "fp list" where
  "sine_table = map (\<lambda>v. to_float (double_lit (of_int v / 1000000))) sine_digits"

definition cosine_table :: "fp list" where
  "cosine_table = map (\<lambda>v. to_float (double_lit (of_int v / 1000000))) cosine_digits"

text \<open>\<open>M_PI\<close> of \<open>math.h\<close>, and the angles derived from it, all of type \<open>double\<close>.\<close>

definition M_PI :: fp where "M_PI = double_lit (314159265358979323846 / 10 ^ 20)"
definition TOTAL_SINE_TABLE_ANGLE :: fp where "TOTAL_SINE_TABLE_ANGLE = mul64 (Fin 2) M_PI"
definition ANGLE_STEP :: fp where "ANGLE_STEP = div64 TOTAL_SINE_TABLE_ANGLE (Fin 256)"
definition ONE_BY_ANGLE_STEP :: fp where "ONE_BY_ANGLE_STEP = div64 (Fin 1) ANGLE_STEP"

text \<open>An element of a table, interpolated.\<close>

definition table_interpolate :: "fp list \<Rightarrow> nat \<Rightarrow> nat \<Rightarrow> fp \<Rightarrow> fp option" where
  "table_interpolate tab i j temp =
     (if i < length tab \<and> j < length tab
      then Some (add32 (tab ! i) (mul32 (sub32 (tab ! j) (tab ! i)) temp)) else None)"

definition mc_calc_sin_cos :: "fp \<Rightarrow> (fp \<times> fp) option" where
  "mc_calc_sin_cos rotor_angle =
     (let a1 = (if rotor_angle < Fin 0 then to_float (add64 rotor_angle TOTAL_SINE_TABLE_ANGLE) else rotor_angle);
          angle = (if TOTAL_SINE_TABLE_ANGLE \<le> a1 then to_float (sub64 a1 TOTAL_SINE_TABLE_ANGLE) else a1)
      in do { y0_index \<leftarrow> to_uint32 (div64 angle ANGLE_STEP);
              let y0_index_next = (if 256 \<le> y0_index + 1 then 0 else y0_index + 1);
              let x0 = to_float (mul64 (Fin (of_int (uint y0_index))) ANGLE_STEP);
              let temp = to_float (mul64 (sub32 angle x0) ONE_BY_ANGLE_STEP);
              s \<leftarrow> table_interpolate sine_table (unat y0_index) (unat y0_index_next) temp;
              c \<leftarrow> table_interpolate cosine_table (unat y0_index) (unat y0_index_next) temp;
              Some (s, c) })"

definition mc_wrap_angle :: "fp \<Rightarrow> fp" where
  "mc_wrap_angle angle =
     (if TOTAL_SINE_TABLE_ANGLE \<le> angle then to_float (sub64 angle TOTAL_SINE_TABLE_ANGLE)
      else if angle < Fin 0 then to_float (add64 angle TOTAL_SINE_TABLE_ANGLE)
      else angle)"

definition mc_linear_ramp :: "fp \<Rightarrow> fp \<Rightarrow> fp \<Rightarrow> fp" where
  "mc_linear_ramp input step_size final_val =
     (if add32 input step_size < final_val then add32 input step_size
      else if final_val < sub32 input step_size then sub32 input step_size
      else final_val)"

definition mc_impose_limits :: "fp \<Rightarrow> fp \<Rightarrow> fp \<Rightarrow> fp" where
  "mc_impose_limits input limit_lower limit_upper =
     (if limit_upper < input then limit_upper
      else if input < limit_lower then limit_lower
      else input)"

section \<open>Transforms\<close>

text \<open>\<open>mc_tansform_t\<close>, with the fields of its two inner structures.\<close>

record mc_tansform_t =
  tr_alpha :: fp
  tr_beta :: fp
  tr_q_axis :: fp
  tr_d_axis :: fp
  tr_cos_angle :: fp
  tr_sin_angle :: fp

record mc_input_signals_t =
  in_ia :: fp
  in_ib :: fp
  in_ic :: fp
  in_e_angle :: fp
  in_speed :: fp
  in_qe_angle_sum :: fp
  in_qe_count :: int
  in_a_offset :: int
  in_b_offset :: int
  in_c_offset :: int

definition SQRT3_BY2 :: fp where "SQRT3_BY2 = to_float (double_lit (866025403788 / 10 ^ 12))"
definition ONE_BY_SQRT3 :: fp where "ONE_BY_SQRT3 = to_float (double_lit (5773502691 / 10 ^ 10))"
definition TWO_BY_SQRT3 :: fp where "TWO_BY_SQRT3 = to_float (double_lit (11547005384 / 10 ^ 10))"

text \<open>The second assignment is to \<open>d_axis\<close> again.\<close>

definition mc_clarke_park_transform :: "mc_input_signals_t \<Rightarrow> mc_tansform_t \<Rightarrow> mc_tansform_t option" where
  "mc_clarke_park_transform i tr =
     do { let tr1 = tr\<lparr>tr_alpha := in_ia i,
                       tr_beta := add32 (mul32 (in_ia i) ONE_BY_SQRT3) (mul32 (in_ib i) TWO_BY_SQRT3)\<rparr>;
          (s, c) \<leftarrow> mc_calc_sin_cos (in_e_angle i);
          let tr2 = tr1\<lparr>tr_sin_angle := s, tr_cos_angle := c\<rparr>;
          let tr3 = tr2\<lparr>tr_d_axis := add32 (mul32 (tr_alpha tr2) (tr_cos_angle tr2))
                                           (mul32 (tr_beta tr2) (tr_sin_angle tr2))\<rparr>;
          Some (tr3\<lparr>tr_d_axis := add32 (mul32 (- tr_alpha tr3) (tr_sin_angle tr3))
                                       (mul32 (tr_beta tr3) (tr_cos_angle tr3))\<rparr>) }"

definition mc_inverse_park_transform :: "mc_tansform_t \<Rightarrow> mc_tansform_t" where
  "mc_inverse_park_transform tr =
     (let tr1 = tr\<lparr>tr_alpha := sub32 (mul32 (tr_d_axis tr) (tr_cos_angle tr)) (mul32 (tr_q_axis tr) (tr_sin_angle tr))\<rparr>
      in tr1\<lparr>tr_beta := add32 (mul32 (tr_d_axis tr1) (tr_sin_angle tr1)) (mul32 (tr_q_axis tr1) (tr_cos_angle tr1))\<rparr>)"

section \<open>Space vector modulation\<close>

record mc_svpwm_t =
  sv_period :: fp
  sv_vr1 :: fp
  sv_vr2 :: fp
  sv_vr3 :: fp
  sv_t1 :: fp
  sv_t2 :: fp
  sv_ta :: fp
  sv_tb :: fp
  sv_tc :: fp
  sv_pwm1 :: u32
  sv_pwm2 :: u32
  sv_pwm3 :: u32

abbreviation (input) PWM_PERIOD :: int where "PWM_PERIOD \<equiv> 50755"

definition SVPWM_INIT :: mc_svpwm_t where
  "SVPWM_INIT =
     \<lparr>sv_period = float_of_int PWM_PERIOD, sv_vr1 = Fin 0, sv_vr2 = Fin 0, sv_vr3 = Fin 0, sv_t1 = Fin 0,
      sv_t2 = Fin 0, sv_ta = Fin 0, sv_tb = Fin 0, sv_tc = Fin 0,
      sv_pwm1 = of_int (PWM_PERIOD div 2), sv_pwm2 = of_int (PWM_PERIOD div 2), sv_pwm3 = of_int (PWM_PERIOD div 2)\<rparr>"

definition mc_svpwm_time_calc :: "mc_svpwm_t \<Rightarrow> mc_svpwm_t" where
  "mc_svpwm_time_calc svm =
     (let t1 = mul32 (sv_period svm) (sv_t1 svm);
          t2 = mul32 (sv_period svm) (sv_t2 svm);
          tc = div32 (sub32 (sub32 (sv_period svm) t1) t2) (Fin 2);
          tb = add32 tc t2;
          ta = add32 tb t1
      in svm\<lparr>sv_t1 := t1, sv_t2 := t2, sv_tc := tc, sv_tb := tb, sv_ta := ta\<rparr>)"

text \<open>The tail of every sector: the times, and the three compare values from them.\<close>

definition svpwm_sector ::
  "fp \<Rightarrow> fp \<Rightarrow> (mc_svpwm_t \<Rightarrow> fp) \<Rightarrow> (mc_svpwm_t \<Rightarrow> fp) \<Rightarrow> (mc_svpwm_t \<Rightarrow> fp) \<Rightarrow> mc_svpwm_t \<Rightarrow> mc_svpwm_t option" where
  "svpwm_sector t1 t2 ch1 ch2 ch3 svm =
     do { let svm1 = mc_svpwm_time_calc (svm\<lparr>sv_t1 := t1, sv_t2 := t2\<rparr>);
          p1 \<leftarrow> to_uint32 (ch1 svm1);
          p2 \<leftarrow> to_uint32 (ch2 svm1);
          p3 \<leftarrow> to_uint32 (ch3 svm1);
          Some (svm1\<lparr>sv_pwm1 := p1, sv_pwm2 := p2, sv_pwm3 := p3\<rparr>) }"

definition mc_svpwm_gen :: "fp \<Rightarrow> fp \<Rightarrow> mc_svpwm_t \<Rightarrow> mc_svpwm_t option" where
  "mc_svpwm_gen alpha beta svm0 =
     (let svm = svm0\<lparr>sv_vr1 := beta,
                     sv_vr2 := add32 (div32 (- beta) (Fin 2)) (mul32 SQRT3_BY2 alpha),
                     sv_vr3 := sub32 (div32 (- beta) (Fin 2)) (mul32 SQRT3_BY2 alpha)\<rparr>;
          v1 = sv_vr1 svm; v2 = sv_vr2 svm; v3 = sv_vr3 svm
      in if Fin 0 \<le> v1
         then if Fin 0 \<le> v2 then svpwm_sector v2 v1 sv_ta sv_tb sv_tc svm
              else if Fin 0 \<le> v3 then svpwm_sector v1 v3 sv_tc sv_ta sv_tb svm
              else svpwm_sector (- v2) (- v3) sv_tb sv_ta sv_tc svm
         else if Fin 0 \<le> v2
              then if Fin 0 \<le> v3 then svpwm_sector v3 v2 sv_tb sv_tc sv_ta svm
                   else svpwm_sector (- v3) (- v1) sv_ta sv_tc sv_tb svm
              else svpwm_sector (- v1) (- v2) sv_tc sv_tb sv_ta svm)"

text \<open>\<open>mc_pwm_set\<close>: a compare value in timer clocks, for the peripheral clock \<open>pclk1\<close> the HAL reports.\<close>

definition pwm_compare :: "u32 \<Rightarrow> u32 \<Rightarrow> u32" where
  "pwm_compare pclk1 pwm =
     (let tim_clock = (ucast (pclk1 * 2) :: 64 word) div 1000000
      in ucast ((ucast pwm * tim_clock :: 64 word) div 1000))"

section \<open>Measurements\<close>

text \<open>
  \<open>mc_read_currents\<close>, from the two conversion results; a difference that is not an \<open>rt_int32_t\<close> is
  undefined. \<open>ADC_CURRENT_SCALE\<close> expands to \<open>(float) 1 / (4095)\<close>.
\<close>

definition adc_current :: "u32 \<Rightarrow> int \<Rightarrow> fp option" where
  "adc_current res off =
     (let d = sint res - off in
      if - (2 ^ 31) \<le> d \<and> d < 2 ^ 31
      then Some (mul32 (div32 (Fin 1) (Fin 4095)) (float_of_int d)) else None)"

definition mc_read_currents :: "u32 \<Rightarrow> u32 \<Rightarrow> mc_input_signals_t \<Rightarrow> mc_input_signals_t option" where
  "mc_read_currents adc1 adc2 i =
     do { ia \<leftarrow> adc_current adc1 (in_a_offset i);
          ib \<leftarrow> adc_current adc2 (in_b_offset i);
          Some (i\<lparr>in_ia := ia, in_ib := ib, in_ic := sub32 (- ia) ib\<rparr>) }"

text \<open>\<open>mc_adc_offset_calibration\<close>, with the conversion results in the order they are read.\<close>

definition mc_adc_offset_calibration :: "(nat \<Rightarrow> u32) \<Rightarrow> int" where
  "mc_adc_offset_calibration rd = sint (foldl (\<lambda>s n. s + rd n) 0 [0..<20] div 20)"

text \<open>C's remainder has the sign of the dividend.\<close>

definition c_rem :: "int \<Rightarrow> int \<Rightarrow> int" where
  "c_rem a b = a - (if 0 \<le> a then a div b else - ((- a) div b)) * b"

definition QE_COUNT_TO_RAD :: fp where "QE_COUNT_TO_RAD = float_lit (61328125 / 10 ^ 10)"

definition mc_read_qe :: "int \<Rightarrow> mc_input_signals_t \<Rightarrow> mc_input_signals_t" where
  "mc_read_qe count i =
     (let i1 = i\<lparr>in_qe_count := count,
                 in_e_angle := mul32 (float_of_int (c_rem count (256 * 4 div 1))) QE_COUNT_TO_RAD\<rparr>
      in i1\<lparr>in_qe_angle_sum := add32 (in_qe_angle_sum i1) (in_e_angle i1)\<rparr>)"

definition mc_calc_speed :: "mc_input_signals_t \<Rightarrow> mc_input_signals_t" where
  "mc_calc_speed i = i\<lparr>in_speed := mul32 (in_qe_angle_sum i) (Fin 1000), in_qe_angle_sum := Fin 0\<rparr>"

lemma M_PI_value: "M_PI = Fin (884279719003555 / 281474976710656)"
  unfolding M_PI_def double_lit_def
  by (subst to_format_near [where u = "- 51" and m = "7074237752028440"]) (simp_all add: binary64_def)

lemma TOTAL_value: "TOTAL_SINE_TABLE_ANGLE = Fin (884279719003555 / 140737488355328)"
  unfolding TOTAL_SINE_TABLE_ANGLE_def M_PI_value fmul.simps
  by (subst to_format_near [where u = "- 50" and m = "7074237752028440"]) (simp_all add: binary64_def)

lemma axis_gains:
  "float_lit (2 / 10) = Fin (13421773 / 67108864)" "float_lit (2 / 10000) = Fin (13743895 / 68719476736)"
  "float_lit (98 / 100) = Fin (2055209 / 2097152)"
  unfolding float_lit_def
  by (subst to_format_near [where u = "- 26" and m = "13421773"] to_format_near [where u = "- 36" and m = "13743895"]
      to_format_near [where u = "- 24" and m = "16441672"], simp_all)+

lemma axis_controller_fields [simp]:
  "pi_kp AXIS_CONTROLLER_INIT = Fin (13421773 / 67108864)" "pi_ki AXIS_CONTROLLER_INIT = Fin (13743895 / 68719476736)"
  "pi_kc AXIS_CONTROLLER_INIT = Fin 0" "pi_out_max AXIS_CONTROLLER_INIT = Fin (2055209 / 2097152)"
  "pi_out_min AXIS_CONTROLLER_INIT = Fin (- 2055209 / 2097152)" "pi_d_sum AXIS_CONTROLLER_INIT = Fin 0"
  "pi_in_meas AXIS_CONTROLLER_INIT = Fin 0" "pi_in_ref AXIS_CONTROLLER_INIT = Fin 0"
proof -
  have "to_format binary32 (5 / 10) = Fin (1 / 2)"
    by (subst to_format_near [where u = "- 24" and m = "8388608"]) simp_all
  then show "pi_kc AXIS_CONTROLLER_INIT = Fin 0" by (simp add: AXIS_CONTROLLER_INIT_def float_lit_def)
qed (simp_all add: AXIS_CONTROLLER_INIT_def axis_gains axis_gains [simplified])

lemma fmul_not_NaN: "x \<noteq> 0 \<Longrightarrow> a \<noteq> NaN \<Longrightarrow> fmul F (Fin x) a \<noteq> NaN"
  by (cases a) auto

lemma fadd_not_NaN: "a \<noteq> NaN \<Longrightarrow> fadd F (Fin x) a \<noteq> NaN"
  by (cases a) auto

lemma pi_control_out:
  "pi_out (mc_pi_control p) =
     (let u = add32 (pi_d_sum p) (mul32 (pi_kp p) (sub32 (pi_in_ref p) (pi_in_meas p))) in
      if pi_out_max p < u then pi_out_max p else if u < pi_out_min p then pi_out_min p else u)"
  by (simp add: mc_pi_control_def Let_def)

lemma pi_control_d_sum:
  "pi_d_sum (mc_pi_control p) =
     (let err = sub32 (pi_in_ref p) (pi_in_meas p); u = add32 (pi_d_sum p) (mul32 (pi_kp p) err) in
      sub32 (add32 (pi_d_sum p) (mul32 (pi_ki p) err)) (mul32 (pi_kc p) (sub32 u (pi_out (mc_pi_control p)))))"
  by (simp add: mc_pi_control_def Let_def)

lemma pi_control_limits:
  fixes u :: fp
  assumes "u \<noteq> NaN" "lo \<le> hi"
  obtains y where "(if Fin hi < u then Fin hi else if u < Fin lo then Fin lo else u) = Fin y" "lo \<le> y" "y \<le> hi"
    "u = Fin y \<or> y = hi \<and> Fin hi < u \<or> y = lo \<and> u < Fin lo"
proof (cases u)
  case (Fin x)
  then show thesis using assms that [of hi] that [of lo] that [of x] by (cases "hi < x"; cases "x < lo") auto
next
  case (Infinity s)
  then show thesis using assms that [of hi] that [of lo] by (cases s) auto
qed (use assms in simp)

text \<open>
  C12. \<open>mc_pi_control\<close>: whatever the finite inputs are, also when the error or the sum overflows, the
  output lies between the limits; when it is not limited the integrator grows by \<open>ki * err\<close>, and
  otherwise the excess over the limit, times \<open>kc\<close>, is taken off.
\<close>

theorem pi_output_limited:
  fixes r m d kp ki kc hi lo :: rat and p :: mc_pi_controller_t
  defines "err \<equiv> sub32 (Fin r) (Fin m)" and "u \<equiv> add32 (Fin d) (mul32 (Fin kp) (sub32 (Fin r) (Fin m)))"
  assumes fields: "pi_in_ref p = Fin r" "pi_in_meas p = Fin m" "pi_d_sum p = Fin d" "pi_kp p = Fin kp"
    "pi_ki p = Fin ki" "pi_kc p = Fin kc" "pi_out_max p = Fin hi" "pi_out_min p = Fin lo"
    and lim: "lo \<le> hi" and kp: "kp \<noteq> 0"
  shows "\<exists>y. pi_out (mc_pi_control p) = Fin y \<and> lo \<le> y \<and> y \<le> hi \<and>
    (if u = Fin y then pi_d_sum (mc_pi_control p) = add32 (Fin d) (mul32 (Fin ki) err)
     else (y = hi \<and> Fin hi < u \<or> y = lo \<and> u < Fin lo) \<and>
       pi_d_sum (mc_pi_control p) =
         sub32 (add32 (Fin d) (mul32 (Fin ki) err)) (mul32 (Fin kc) (sub32 u (Fin y))))"
proof -
  have "sub32 (Fin r) (Fin m) \<noteq> NaN" by (simp add: fsub_def)
  then have nu: "u \<noteq> NaN" unfolding u_def using kp by (intro fadd_not_NaN fmul_not_NaN)
  obtain y where y: "(if Fin hi < u then Fin hi else if u < Fin lo then Fin lo else u) = Fin y" "lo \<le> y" "y \<le> hi"
    "u = Fin y \<or> y = hi \<and> Fin hi < u \<or> y = lo \<and> u < Fin lo"
    by (rule pi_control_limits [OF nu lim])
  have o: "pi_out (mc_pi_control p) = Fin y"
    unfolding pi_control_out Let_def fields u_def [symmetric] by (rule y(1))
  have d: "pi_d_sum (mc_pi_control p) =
      sub32 (add32 (Fin d) (mul32 (Fin ki) err)) (mul32 (Fin kc) (sub32 u (Fin y)))"
    unfolding pi_control_d_sum Let_def fields u_def [symmetric] o err_def ..
  have z: "mul32 (Fin kc) (sub32 (Fin y) (Fin y)) = Fin 0" by (simp add: fsub_def)
  have "pi_d_sum (mc_pi_control p) = add32 (Fin d) (mul32 (Fin ki) err)" if "u = Fin y"
    unfolding d that z by simp
  then show ?thesis using o d y(2-4) by (cases "u = Fin y") auto
qed

theorem pi_output_limited_witness:
  "\<exists>y. pi_out (mc_pi_control (AXIS_CONTROLLER_INIT\<lparr>pi_in_ref := Fin 1\<rparr>)) = Fin y \<and>
     - 2055209 / 2097152 \<le> y \<and> y \<le> 2055209 / 2097152"
proof -
  let ?p = "AXIS_CONTROLLER_INIT\<lparr>pi_in_ref := Fin 1\<rparr>"
  have f: "pi_in_ref ?p = Fin 1" "pi_in_meas ?p = Fin 0" "pi_d_sum ?p = Fin 0" "pi_kp ?p = Fin (13421773 / 67108864)"
    "pi_ki ?p = Fin (13743895 / 68719476736)" "pi_kc ?p = Fin 0" "pi_out_max ?p = Fin (2055209 / 2097152)"
    "pi_out_min ?p = Fin (- 2055209 / 2097152)" by simp_all
  show ?thesis using pi_output_limited [OF f] by auto
qed

text \<open>
  The axis controllers as configured have no anti-windup: with the demand at its maximum and a
  measured current that is not positive, a saturated controller stays at its limit while its
  integrator keeps growing, at every sample, from the limit up to 512 times full scale.
\<close>

theorem axis_integrator_winds_up:
  assumes "p = AXIS_CONTROLLER_INIT\<lparr>pi_in_ref := Fin 1, pi_in_meas := Fin m, pi_d_sum := Fin d\<rparr>"
    and m: "- 1 \<le> m" "m \<le> 0" and d: "98 / 100 \<le> d" "d \<le> 512"
  shows "pi_out (mc_pi_control p) = pi_out_max p \<and>
    (\<exists>d'. pi_d_sum (mc_pi_control p) = Fin d' \<and> d + 1 / 10000 < d' \<and> d' \<le> 513)"
proof -
  let ?R = "fl_round binary32" and ?kp = "13421773 / 67108864 :: rat" and ?ki = "13743895 / 68719476736 :: rat"
  define e where "e = ?R (1 - m)"
  have two: "?R 2 = 2" using fl_round_power [of binary32 1] by simp
  have one: "?R 1 = 1" using fl_round_power [of binary32 0] by simp
  have e: "1 \<le> e" "e \<le> 2" unfolding e_def using m r32.fixed_le [OF _ one] r32.le_fixed [OF _ two] by simp_all
  have err: "sub32 (Fin 1) (Fin m) = Fin e" unfolding e_def fsub_def using m by (simp add: to_format32)
  have half: "?R (1 / 8) = 1 / 8" using fl_round_power [of binary32 "- 3"] by simp
  define pe where "pe = ?R (?kp * e)"
  have pe: "1 / 8 \<le> pe" "pe \<le> 2"
    unfolding pe_def by (rule r32.fixed_le [OF _ half] r32.le_fixed [OF _ two], use e in simp)+
  define u where "u = ?R (d + pe)"
  have hi: "2055209 / 2097152 < u"
  proof -
    have "?R (105 / 100) \<le> u" unfolding u_def using d pe by (intro r32.mono) simp
    moreover have "\<bar>?R (105 / 100) - 105 / 100\<bar> \<le> 1 / 16777216" using round32_error [of "105 / 100" 0] by simp
    ultimately show ?thesis by linarith
  qed
  have up: "u \<le> 1024" unfolding u_def
    using d pe fl_round_power [of binary32 10] by (intro r32.le_fixed) simp_all
  have kpe: "mul32 (Fin ?kp) (Fin e) = Fin pe" unfolding pe_def using e by (simp add: to_format32)
  have sum: "add32 (Fin d) (Fin pe) = Fin u" unfolding u_def using d pe by (simp add: to_format32)
  define ie where "ie = ?R (?ki * e)"
  have ie: "\<bar>ie - ?ki * e\<bar> \<le> 1 / 68719476736" unfolding ie_def using round32_error [of "?ki * e" "- 12"] e by simp
  have kie: "mul32 (Fin ?ki) (Fin e) = Fin ie" unfolding ie_def using e by (simp add: to_format32)
  define d' where "d' = ?R (d + ie)"
  have ieb: "18 / 100000 \<le> ie" "ie \<le> 1 / 1000" using ie e by linarith+
  have "\<bar>d' - (d + ie)\<bar> \<le> 1 / 32768" unfolding d'_def using round32_error [of "d + ie" 9] d ieb by simp
  then have db: "d + 1 / 10000 < d'" "d' \<le> 513" using ieb d by linarith+
  have dsum: "add32 (Fin d) (Fin ie) = Fin d'" unfolding d'_def using d ieb by (simp add: to_format32)
  have exc: "\<exists>x. sub32 (Fin u) (Fin (2055209 / 2097152)) = Fin x" unfolding fsub_def using up hi by (simp add: to_format32)
  then have kc: "mul32 (Fin 0) (sub32 (Fin u) (Fin (2055209 / 2097152))) = Fin 0" by auto
  have "is_float binary32 (add32 (Fin d) (Fin ie))" by (rule is_float_ops(1)) simp
  then have "is_float binary32 (Fin d')" unfolding dsum .
  then have "sub32 (Fin d') (Fin 0) = Fin d'" by (rule fadd_zero(2))
  note z = this
  have out: "pi_out (mc_pi_control p) = Fin (2055209 / 2097152)"
    unfolding pi_control_out using hi by (simp add: assms(1) err kpe sum Let_def del: fadd.simps fmul.simps)
  have "pi_d_sum (mc_pi_control p) = Fin d'"
    unfolding pi_control_d_sum out by (simp add: assms(1) err kpe kie sum dsum kc z Let_def del: fadd.simps fmul.simps)
  then show ?thesis using out db by (simp add: assms(1))
qed

theorem axis_integrator_winds_up_witness:
  "\<exists>d'. pi_d_sum (mc_pi_control (AXIS_CONTROLLER_INIT\<lparr>pi_in_ref := Fin 1, pi_in_meas := Fin 0, pi_d_sum := Fin 1\<rparr>)) =
     Fin d' \<and> 1 < d'"
  using axis_integrator_winds_up [OF refl, of 0 1] by fastforce

end
