(* ===== verification/Angles.thy ===== *)
theory Angles
  imports Motor_Control
begin

text \<open>
  The sine and cosine tables of \<open>mc_transform.c\<close>, their interpolation by \<open>mc_calc_sin_cos\<close>, and the
  angle that \<open>mc_encoder.c\<close> derives from the encoder count.
\<close>

section \<open>The tables\<close>

lemma table_lengths: "length sine_digits = 256" "length cosine_digits = 256"
  by (simp_all add: sine_digits_def cosine_digits_def)

lemma table_entry_minus:
  assumes "\<bar>v\<bar> \<le> 1000000"
  shows "to_float (double_lit (of_int (- v) / 1000000)) = - to_float (double_lit (of_int v / 1000000))"
proof -
  let ?x = "of_int v / 1000000 :: rat"
  have x: "\<bar>?x\<bar> \<le> 1" using assms by (simp add: abs_le_iff)
  have one: "fl_round binary64 1 = 1" using fl_round_power [of binary64 0] by (simp add: binary64_def)
  have "fl_round binary64 ?x \<le> 1" "- 1 \<le> fl_round binary64 ?x"
    using x r64.le_fixed [OF _ one, of ?x] r64.fixed_le [OF _ r64.fixed_minus [OF one], of ?x] by linarith+
  then have r: "\<bar>fl_round binary64 ?x\<bar> \<le> 2 ^ 32" by simp
  have "double_lit (- ?x) = - double_lit ?x"
    using x unfolding double_lit_def by (subst (1 2) to_format64) (simp_all add: r64.minus)
  moreover have "double_lit ?x = Fin (fl_round binary64 ?x)"
    using x unfolding double_lit_def by (intro to_format64) simp
  moreover have "to_format binary32 (- fl_round binary64 ?x) = - to_format binary32 (fl_round binary64 ?x)"
    using r by (subst (1 2) to_format32) (simp_all add: r32.minus)
  ultimately show ?thesis by simp
qed

lemma tables_near_circle:
  "list_all2 (\<lambda>s c. \<bar>s * s + c * c - 10 ^ 12\<bar> \<le> 1200000) sine_digits cosine_digits"
  by (simp add: sine_digits_def cosine_digits_def)

text \<open>
  The tables of \<open>mc_transform.c\<close> have 256 entries each; the cosine table is the sine table a quarter
  turn on, the second half of the sine table is the first with the opposite sign, and at every step
  the two entries are the coordinates of a point within \<open>1.2 * 10 ^ -6\<close> (in the square of its radius)
  of the unit circle.
\<close>

theorem tables_consistent:
  "length sine_table = 256 \<and> cosine_table = rotate 64 sine_table \<and>
   rotate 128 sine_table = map uminus sine_table \<and>
   list_all2 (\<lambda>s c. \<bar>s * s + c * c - 10 ^ 12\<bar> \<le> 1200000) sine_digits cosine_digits"
proof (intro conjI)
  have r: "rotate 64 sine_digits = cosine_digits" "rotate 128 sine_digits = map uminus sine_digits"
    unfolding rotate_drop_take table_lengths by (simp_all add: sine_digits_def cosine_digits_def)
  show "length sine_table = 256" by (simp add: sine_table_def table_lengths)
  show "cosine_table = rotate 64 sine_table" by (simp add: sine_table_def cosine_table_def r [symmetric] rotate_map)
  have "\<forall>v\<in>set sine_digits. \<bar>v\<bar> \<le> 1000000" by (simp add: sine_digits_def)
  then have "map (\<lambda>v. to_float (double_lit (of_int (- v) / 1000000))) sine_digits =
      map (\<lambda>v. - to_float (double_lit (of_int v / 1000000))) sine_digits"
    by (intro map_cong refl table_entry_minus) simp
  then show "rotate 128 sine_table = map uminus sine_table" by (simp add: sine_table_def rotate_map r)
qed (rule tables_near_circle)

section \<open>Sine and cosine by interpolation\<close>

text \<open>The value on the chord between two neighbouring entries of a table, without rounding.\<close>

definition chord :: "int list \<Rightarrow> nat \<Rightarrow> rat \<Rightarrow> rat" where
  "chord tab i t =
     (let y0 = of_int (tab ! i) / 10 ^ 6; y1 = of_int (tab ! (Suc i mod 256)) / 10 ^ 6 in y0 + (y1 - y0) * (t - of_nat i))"

text \<open>Numbers of a format are multiples of the unit at their lower bound.\<close>

lemma float32_grid:
  assumes "fl_round binary32 x = x" "2 powi e \<le> x" "- 126 \<le> e"
  obtains m where "x = of_int m * 2 powi (e - 23)"
proof -
  have x: "0 < x" using assms(2) powi_pos [of e] by linarith
  let ?u = "unit_exp binary32 x"
  have "(2::rat) powi e < 2 powi (expo x + 1)" using expo_bounds(2) [of x] assms(2) x by simp
  then have "e - 23 \<le> ?u" unfolding powi_less using assms(3) by (simp add: unit_exp_def)
  then have "(2::rat) powi ?u = of_int (2 ^ nat (?u - (e - 23))) * 2 powi (e - 23)"
    using powi_split [of "?u - (e - 23)" "e - 23"] by (simp add: power_int_nonneg_exp)
  then have "x = of_int (round_even (x / 2 powi ?u) * 2 ^ nat (?u - (e - 23))) * 2 powi (e - 23)"
    using fl_round_form [of x binary32] x assms(1) by simp
  then show thesis by (rule that)
qed

lemma round64_error:
  assumes "\<bar>x\<bar> < 2 powi (e + 1)" "- 1022 \<le> e"
  shows "\<bar>fl_round binary64 x - x\<bar> \<le> 2 powi (e - 53)"
  using fl_round_error [of x e binary64] assms by (simp add: binary64_def)

abbreviation (input) TA :: rat where "TA \<equiv> 884279719003555 / 140737488355328"
abbreviation (input) SA :: rat where "SA \<equiv> 884279719003555 / 36028797018963968"

lemma ANGLE_STEP_value: "ANGLE_STEP = Fin SA"
  unfolding ANGLE_STEP_def TOTAL_value
  by (simp, subst to_format_near [where u = "- 58" and m = "7074237752028440"]) (simp_all add: binary64_def)

lemma ONE_BY_ANGLE_STEP_value: "ONE_BY_ANGLE_STEP = Fin (5734161139222659 / 140737488355328)"
  unfolding ONE_BY_ANGLE_STEP_def ANGLE_STEP_value
  by (simp, subst to_format_near [where u = "- 47" and m = "5734161139222659"]) (simp_all add: binary64_def)

text \<open>The largest \<open>float\<close> below a turn, and below two turns.\<close>

lemma float_below_turn:
  assumes "fl_round binary32 x = x" "x < TA"
  shows "x \<le> 6588397 / 1048576"
proof (cases "x < 4")
  case False
  then obtain m where m: "x = of_int m * 2 powi (2 - 23)"
    using float32_grid [OF assms(1), of 2] by auto
  then have "of_int m < (13176794 :: rat) + 1" using assms(2) by simp
  then have "m \<le> 13176794" by linarith
  then have "(of_int m :: rat) \<le> 13176794" by linarith
  then show ?thesis using m by simp
qed simp

lemma float_below_two_turns:
  assumes "fl_round binary32 x = x" "x < 2 * TA"
  shows "x \<le> 6588397 / 524288"
proof (cases "x < 8")
  case False
  then obtain m where m: "x = of_int m * 2 powi (3 - 23)"
    using float32_grid [OF assms(1), of 3] by auto
  then have "of_int m < (13176794 :: rat) + 1" using assms(2) by simp
  then have "m \<le> 13176794" by linarith
  then have "(of_int m :: rat) \<le> 13176794" by linarith
  then show ?thesis using m by simp
qed simp

lemma last_index: "fl_round binary64 (6588397 / 1048576 / SA) < 256"
  by (subst fl_round_near [where u = "- 45" and m = "9007198821823871"]) (simp_all add: binary64_def)

text \<open>Reduction to one turn.\<close>

definition one_turn :: "fp \<Rightarrow> fp" where
  "one_turn x =
     (let a1 = (if x < Fin 0 then to_float (add64 x TOTAL_SINE_TABLE_ANGLE) else x)
      in if TOTAL_SINE_TABLE_ANGLE \<le> a1 then to_float (sub64 a1 TOTAL_SINE_TABLE_ANGLE) else a1)"

lemma rounded_twice:
  assumes "\<bar>x\<bar> < 8"
  shows "to_float (to_format binary64 x) = Fin (fl_round binary32 (fl_round binary64 x))"
    and "\<bar>fl_round binary32 (fl_round binary64 x) - x\<bar> \<le> 1 / 2 ^ 21"
proof -
  have eight: "fl_round binary64 8 = 8" using fl_round_power [of binary64 3] by (simp add: binary64_def)
  let ?y = "fl_round binary64 x"
  have y: "\<bar>?y - x\<bar> \<le> 1 / 2 ^ 51" using round64_error [of x 2] assms by simp
  then have "\<bar>?y - x\<bar> \<le> 1" using order_trans [of _ "1 / 2 ^ 51" 1] by simp
  then have y16: "\<bar>?y\<bar> < 16" using assms by linarith
  have "\<bar>fl_round binary32 ?y - ?y\<bar> \<le> 1 / 2 ^ 22"
  proof -
    have "?y \<le> 8" "- 8 \<le> ?y"
      using assms r64.le_fixed [OF _ eight, of x] r64.fixed_le [OF _ r64.fixed_minus [OF eight], of x] by simp_all
    moreover have "fl_round binary32 8 = 8" using fl_round_power [of binary32 3] by simp
    ultimately consider "\<bar>?y\<bar> < 8" | "\<bar>?y\<bar> = 8" "fl_round binary32 ?y = ?y"
      using r32.fixed_minus [of 8] by (cases "?y = 8"; cases "?y = - 8") (auto simp: abs_if)
    then show ?thesis using round32_error [of ?y 2] by cases simp_all
  qed
  then show "\<bar>fl_round binary32 ?y - x\<bar> \<le> 1 / 2 ^ 21"
  proof -
    have "1 / 2 ^ 22 + 1 / 2 ^ 51 \<le> (1 / 2 ^ 21 :: rat)" by simp
    then show ?thesis using y \<open>\<bar>fl_round binary32 ?y - ?y\<bar> \<le> 1 / 2 ^ 22\<close> by linarith
  qed
  show "to_float (to_format binary64 x) = Fin (fl_round binary32 ?y)"
    using assms y16 by (simp add: to_format64 to_format32)
qed

lemma last_reduction: "fl_round binary32 (fl_round binary64 (6588397 / 524288 - TA)) = 13176793 / 2097152"
  by (subst fl_round_near [where u = "- 50" and m = "7074237072003816"], simp_all add: binary64_def,
      subst fl_round_near [where u = "- 21" and m = "13176793"], simp_all)

lemma is_float_to_float [simp]: "is_float binary32 (to_float a)"
  by (cases a) simp_all

lemma one_turn_bounds:
  assumes x: "is_float binary32 (Fin x)" "- TA \<le> x" "x < 2 * TA"
  obtains a k where "one_turn (Fin x) = Fin a" "is_float binary32 (Fin a)" "0 \<le> a" "a < TA" "k \<in> {- 1, 0, 1}"
    "\<bar>a - (x + of_int k * TA)\<bar> \<le> 1 / 2 ^ 20" "0 \<le> x \<Longrightarrow> x < TA \<Longrightarrow> a = x"
proof (cases "x < 0")
  case True
  let ?v = "fl_round binary32 (fl_round binary64 (x + TA))"
  have s: "\<bar>x + TA\<bar> < 8" using x True by simp
  note v = rounded_twice [OF s]
  have v0: "0 \<le> ?v" using x by (intro r32.nonneg r64.nonneg) simp
  have add: "to_float (add64 (Fin x) TOTAL_SINE_TABLE_ANGLE) = Fin ?v" unfolding TOTAL_value fadd.simps by (rule v(1))
  have fv: "is_float binary32 (Fin ?v)" unfolding add [symmetric] by simp
  have ot: "one_turn (Fin x) = (if TA \<le> ?v then to_float (sub64 (Fin ?v) TOTAL_SINE_TABLE_ANGLE) else Fin ?v)"
    using True unfolding one_turn_def add Let_def by (simp add: TOTAL_value)
  show thesis
  proof (cases "?v < TA")
    case True
    then show thesis using that [of ?v 1] ot fv v0 v(2) \<open>x < 0\<close> by simp
  next
    case False
    let ?w = "fl_round binary32 (fl_round binary64 (?v - TA))"
    have d: "\<bar>?v - (x + TA)\<bar> \<le> 1" using v(2) order_trans [of _ "1 / 2 ^ 21" 1] by simp
    then have "\<bar>?v - TA\<bar> < 8" using False \<open>x < 0\<close> by linarith
    note w = rounded_twice [OF this]
    have sub: "to_float (sub64 (Fin ?v) TOTAL_SINE_TABLE_ANGLE) = Fin ?w"
      unfolding TOTAL_value fsub_def uminus_fp.simps fadd.simps add_uminus_conv_diff by (rule w(1))
    have fw: "is_float binary32 (Fin ?w)" unfolding sub [symmetric] by simp
    have w0: "0 \<le> ?w" using False by (intro r32.nonneg r64.nonneg) simp
    have e: "\<bar>?w - (?v - TA)\<bar> \<le> 1" using w(2) order_trans [of _ "1 / 2 ^ 21" 1] by simp
    have wT: "?w < TA" using e d \<open>x < 0\<close> by linarith
    have "(1 / 2 ^ 21 + 1 / 2 ^ 21 :: rat) = 1 / 2 ^ 20" by simp
    moreover have "\<bar>?w - x\<bar> \<le> 1 / 2 ^ 21 + 1 / 2 ^ 21" using w(2) v(2) by linarith
    ultimately have "\<bar>?w - x\<bar> \<le> 1 / 2 ^ 20" by simp
    then show thesis using that [of ?w 0] ot sub fw False w0 wT \<open>x < 0\<close> by simp
  qed
next
  case pos: False
  have ot: "one_turn (Fin x) = (if TA \<le> x then to_float (sub64 (Fin x) TOTAL_SINE_TABLE_ANGLE) else Fin x)"
    using pos unfolding one_turn_def Let_def by (simp add: TOTAL_value)
  show thesis
  proof (cases "x < TA")
    case True
    then show thesis using that [of x 0] ot pos x(1) by simp
  next
    case False
    let ?w = "fl_round binary32 (fl_round binary64 (x - TA))"
    have "\<bar>x - TA\<bar> < 8" using False x(3) by simp
    note w = rounded_twice [OF this]
    have sub: "to_float (sub64 (Fin x) TOTAL_SINE_TABLE_ANGLE) = Fin ?w"
      unfolding TOTAL_value fsub_def uminus_fp.simps fadd.simps add_uminus_conv_diff by (rule w(1))
    have fw: "is_float binary32 (Fin ?w)" unfolding sub [symmetric] by simp
    have w0: "0 \<le> ?w" using False by (intro r32.nonneg r64.nonneg) simp
    have "x \<le> 6588397 / 524288" using x by (intro float_below_two_turns) simp_all
    then have "?w \<le> fl_round binary32 (fl_round binary64 (6588397 / 524288 - TA))" by (intro r32.mono r64.mono) simp
    then have "?w < TA" using last_reduction by simp
    moreover have "\<bar>?w - (x + of_int (- 1) * TA)\<bar> \<le> 1 / 2 ^ 20" using w(2) by simp
    ultimately show thesis using that [of ?w "- 1"] ot sub fw False w0 by simp
  qed
qed

text \<open>What an entry of a table is, and neighbouring entries.\<close>

lemma table_entry:
  assumes "\<bar>v\<bar> \<le> 1000000"
  obtains y where "to_float (double_lit (of_int v / 1000000)) = Fin y" "\<bar>y - of_int v / 1000000\<bar> \<le> 1 / 2 ^ 23"
proof -
  let ?x = "of_int v / 1000000 :: rat"
  have x: "\<bar>?x\<bar> \<le> 1" using assms by (simp add: abs_le_iff)
  have one: "fl_round binary64 1 = 1" using fl_round_power [of binary64 0] by (simp add: binary64_def)
  let ?y = "fl_round binary64 ?x"
  have y: "\<bar>?y - ?x\<bar> \<le> 1 / 2 ^ 53" using round64_error [of ?x 0] x by simp
  have y1: "\<bar>?y\<bar> \<le> 1"
    using x r64.le_fixed [OF _ one, of ?x] r64.fixed_le [OF _ r64.fixed_minus [OF one], of ?x] by linarith
  then have z: "\<bar>fl_round binary32 ?y - ?y\<bar> \<le> 1 / 2 ^ 24" using round32_error [of ?y 0] by simp
  have "1 / 2 ^ 53 + 1 / 2 ^ 24 \<le> (1 / 2 ^ 23 :: rat)" by simp
  then have "\<bar>fl_round binary32 ?y - ?x\<bar> \<le> 1 / 2 ^ 23" using y z by linarith
  moreover have "to_float (double_lit ?x) = Fin (fl_round binary32 ?y)"
    using x y1 by (simp add: double_lit_def to_format64 to_format32)
  ultimately show thesis using that by blast
qed

definition smooth_table :: "int list \<Rightarrow> bool" where
  "smooth_table d \<longleftrightarrow> length d = 256 \<and> (\<forall>v\<in>set d. \<bar>v\<bar> \<le> 1000000) \<and>
     list_all2 (\<lambda>v w. \<bar>w - v\<bar> \<le> 25000) d (rotate1 d)"

lemma smooth_tables: "smooth_table sine_digits" "smooth_table cosine_digits"
  unfolding smooth_table_def table_lengths by (simp_all add: sine_digits_def cosine_digits_def)

lemma smooth_table_at:
  assumes "smooth_table d" "i < 256"
  shows "\<bar>d ! i\<bar> \<le> 1000000" "\<bar>d ! (Suc i mod 256)\<bar> \<le> 1000000" "\<bar>d ! (Suc i mod 256) - d ! i\<bar> \<le> 25000"
proof -
  have n: "length d = 256" "\<forall>v\<in>set d. \<bar>v\<bar> \<le> 1000000" using assms by (simp_all add: smooth_table_def)
  then show "\<bar>d ! i\<bar> \<le> 1000000" "\<bar>d ! (Suc i mod 256)\<bar> \<le> 1000000" using assms(2) by simp_all
  have "rotate1 d ! i = d ! (Suc i mod 256)" using n assms(2) nth_rotate1 [of i d] by simp
  then show "\<bar>d ! (Suc i mod 256) - d ! i\<bar> \<le> 25000"
    using assms n by (auto simp: smooth_table_def list_all2_conv_all_nth)
qed

lemma product_error:
  fixes p q a b :: rat
  assumes "\<bar>p - a\<bar> \<le> e" "\<bar>q - b\<bar> \<le> f" "\<bar>a\<bar> \<le> A" "\<bar>q\<bar> \<le> B"
  shows "\<bar>p * q - a * b\<bar> \<le> e * B + A * f"
proof -
  have "p * q - a * b = (p - a) * q + a * (q - b)" by (simp add: algebra_simps)
  then have "\<bar>p * q - a * b\<bar> \<le> \<bar>p - a\<bar> * \<bar>q\<bar> + \<bar>a\<bar> * \<bar>q - b\<bar>" by (metis abs_mult abs_triangle_ineq)
  also have "\<dots> \<le> e * B + A * f" using assms by (intro add_mono mult_mono) auto
  finally show ?thesis .
qed

text \<open>One interpolation, for a fraction of a step that is accurate to five digits.\<close>

lemma table_interpolate_near:
  fixes d :: "int list" and t t0 :: rat
  defines "tab \<equiv> map (\<lambda>v. to_float (double_lit (of_int v / 1000000))) d"
  assumes d: "smooth_table d" "i < 256" and t: "\<bar>t - t0\<bar> \<le> 20 / 1000000" "0 \<le> t0" "t0 \<le> 1"
  obtains s where "table_interpolate tab i (Suc i mod 256) (Fin t) = Some (Fin s)"
    "\<bar>s - chord d i (of_nat i + t0)\<bar> \<le> 1 / 1000000"
proof -
  let ?R = "fl_round binary32" and ?j = "Suc i mod 256"
  note b = smooth_table_at [OF d]
  have n: "length d = 256" using d(1) by (simp add: smooth_table_def)
  define v w :: rat where "v = of_int (d ! i) / 1000000" and "w = of_int (d ! ?j) / 1000000"
  obtain y where y: "tab ! i = Fin y" "\<bar>y - v\<bar> \<le> 1 / 2 ^ 23"
    using table_entry [OF b(1)] d(2) n unfolding tab_def v_def by auto
  obtain z where z: "tab ! ?j = Fin z" "\<bar>z - w\<bar> \<le> 1 / 2 ^ 23"
    using table_entry [OF b(2)] d(2) n unfolding tab_def w_def by auto
  have v: "\<bar>v\<bar> \<le> 1" using b(1) by (simp add: v_def abs_le_iff)
  have w: "\<bar>w\<bar> \<le> 1" using b(2) by (simp add: w_def abs_le_iff)
  have wv: "w - v = of_int (d ! ?j - d ! i) / 1000000" by (simp add: v_def w_def diff_divide_distrib)
  have "of_int \<bar>d ! ?j - d ! i\<bar> \<le> (25000 :: rat)" using b(3) of_int_le_iff [of _ 25000] by (metis of_int_numeral)
  then have vw: "\<bar>w - v\<bar> \<le> 1 / 40" unfolding wv abs_divide of_int_abs by simp
  have small: "1 / 2 ^ 23 \<le> (12 / 100000000 :: rat)" "1 / 2 ^ 30 \<le> (1 / 1000000000 :: rat)" "1 / 2 ^ 24 \<le> (6 / 100000000 :: rat)" by simp_all
  have zy: "\<bar>(z - y) - (w - v)\<bar> \<le> 24 / 100000000" "\<bar>z - y\<bar> < 1 / 32" using y(2) z(2) vw small by linarith+
  define D where "D = ?R (z - y)"
  have D: "\<bar>D - (z - y)\<bar> \<le> 1 / 1000000000" using round32_error [of "z - y" "- 6"] zy(2) unfolding D_def by simp
  have D': "\<bar>D - (w - v)\<bar> \<le> 25 / 100000000" using D zy(1) by linarith
  have Db: "\<bar>D\<bar> \<le> 1 / 32" using D' vw by linarith
  have t2: "\<bar>t\<bar> \<le> 1 + 20 / 1000000" using t by linarith
  have "\<bar>D * t\<bar> \<le> (1 / 32) * (1 + 20 / 1000000)" unfolding abs_mult using Db t2 by (intro mult_mono) auto
  then have Dt: "\<bar>D * t\<bar> < 1 / 16" by simp
  define P where "P = ?R (D * t)"
  have P: "\<bar>P - D * t\<bar> \<le> 1 / 2 ^ 29" using round32_error [of "D * t" "- 5"] Dt unfolding P_def by simp
  have prod: "\<bar>D * t - (w - v) * t0\<bar> \<le> 25 / 100000000 * (1 + 20 / 1000000) + 1 / 40 * (20 / 1000000)"
    by (rule product_error [OF D' t(1) vw t2])
  have "1 / 2 ^ 29 + (25 / 100000000 * (1 + 20 / 1000000) + 1 / 40 * (20 / 1000000)) \<le> (76 / 100000000 :: rat)" by simp
  then have P': "\<bar>P - (w - v) * t0\<bar> \<le> 76 / 100000000" using P prod by linarith
  have ch: "chord d i (of_nat i + t0) = v + (w - v) * t0" by (simp add: chord_def Let_def v_def w_def)
  have "\<bar>(w - v) * t0\<bar> \<le> 1 / 40 * 1" unfolding abs_mult using vw t by (intro mult_mono) auto
  then have yP: "\<bar>y + P\<bar> < 2" using P' y(2) v small by linarith
  define s where "s = ?R (y + P)"
  have s: "\<bar>s - (y + P)\<bar> \<le> 6 / 100000000" using round32_error [of "y + P" 0] yP small(3) unfolding s_def by simp
  have "\<bar>s - chord d i (of_nat i + t0)\<bar> \<le> 1 / 1000000" unfolding ch using s y(2) P' small by linarith
  moreover have "table_interpolate tab i ?j (Fin t) = Some (Fin s)"
  proof -
    have "sub32 (Fin z) (Fin y) = Fin D" unfolding D_def fsub_def using zy(2) by (simp add: to_format32)
    moreover have "mul32 (Fin D) (Fin t) = Fin P" unfolding P_def using Dt by (simp add: to_format32)
    moreover have "add32 (Fin y) (Fin P) = Fin s" unfolding s_def using yP by (simp add: to_format32)
    moreover have "i < length tab" "?j < length tab" using n d(2) by (simp_all add: tab_def)
    ultimately show ?thesis by (simp add: table_interpolate_def y(1) z(1) del: fadd.simps fmul.simps)
  qed
  ultimately show thesis using that by blast
qed

lemma to_uint32_index:
  assumes "0 \<le> r" "r < 256"
  shows "to_uint32 (Fin r) = Some (of_nat (nat \<lfloor>r\<rfloor>))" "nat \<lfloor>r\<rfloor> < 256"
proof -
  have "0 \<le> \<lfloor>r\<rfloor>" "\<lfloor>r\<rfloor> < 256" using assms by (simp_all add: floor_less_iff)
  then show "to_uint32 (Fin r) = Some (of_nat (nat \<lfloor>r\<rfloor>))" "nat \<lfloor>r\<rfloor> < 256" using assms by (simp_all, linarith)
qed

lemma scaled_difference: "d * v - e = (d - e * s) * v + e * (s * v - 1)" for d :: rat
  by (simp add: algebra_simps)

lemma abs_sum_le: "x = y + z \<Longrightarrow> \<bar>y\<bar> \<le> e \<Longrightarrow> \<bar>z\<bar> \<le> f \<Longrightarrow> e + f \<le> g \<Longrightarrow> \<bar>x\<bar> \<le> g" for x :: rat
  by linarith

text \<open>The index and the fraction of a step computed for an angle of one turn.\<close>

lemma step_fraction:
  assumes a: "is_float binary32 (Fin a)" "0 \<le> a" "a < TA"
  obtains i t t0 where "to_uint32 (div64 (Fin a) ANGLE_STEP) = Some (of_nat i)" "i < 256"
    "to_float (mul64 (sub32 (Fin a) (to_float (mul64 (Fin (of_nat i)) ANGLE_STEP))) ONE_BY_ANGLE_STEP) = Fin t"
    "\<bar>t - t0\<bar> \<le> 20 / 1000000" "0 \<le> t0" "t0 \<le> 1" "\<bar>(of_nat i + t0) * SA - a\<bar> \<le> 1 / 10 ^ 9"
proof -
  let ?R = "fl_round binary32" and ?D = "fl_round binary64" and ?V = "5734161139222659 / 140737488355328 :: rat"
  define q where "q = a / SA"
  have q: "0 \<le> q" "q < 256" "q * SA = a" using a by (simp_all add: q_def field_simps)
  define r where "r = ?D q"
  have r: "\<bar>r - q\<bar> \<le> 1 / 2 ^ 46" unfolding r_def using round64_error [of q 7] q by simp
  have "a \<le> 6588397 / 1048576" using a by (intro float_below_turn) simp_all
  then have "q \<le> 6588397 / 1048576 / SA" unfolding q_def by (rule divide_right_mono) simp
  then have r1: "0 \<le> r" "r < 256" unfolding r_def using r64.mono last_index q(1) by (fastforce intro: r64.nonneg)+
  define i where "i = nat \<lfloor>r\<rfloor>"
  note idx = to_uint32_index [OF r1, folded i_def]
  have ir: "of_nat i \<le> r" "r < of_nat i + 1" using r1 by (simp_all add: i_def) linarith+
  have div: "div64 (Fin a) ANGLE_STEP = Fin r"
    unfolding ANGLE_STEP_value r_def q_def using q(1,2) by (simp add: q_def to_format64)
  define t0 where "t0 = max 0 (min 1 (q - of_nat i))"
  have t0: "0 \<le> t0" "t0 \<le> 1" "\<bar>t0 - (q - of_nat i)\<bar> \<le> 1 / 2 ^ 46"
    unfolding t0_def using r ir by (auto simp: max_def min_def)
  have i255: "(of_nat i :: rat) \<le> 255" using idx(2) by simp
  have iS: "0 \<le> of_nat i * SA" "of_nat i * SA < 8" using i255 by simp_all
  define x0 where "x0 = ?R (?D (of_nat i * SA))"
  have "\<bar>of_nat i * SA\<bar> < 8" using iS by simp
  note x = rounded_twice [OF this, folded x0_def]
  have x0: "to_float (mul64 (Fin (of_nat i)) ANGLE_STEP) = Fin x0" unfolding ANGLE_STEP_value fmul.simps by (rule x(1))
  have xe: "\<bar>x0 - of_nat i * SA\<bar> \<le> 1 / 2097152" using x(2) by simp
  have qi: "- 1 / 2 ^ 46 \<le> q - of_nat i" "q - of_nat i \<le> 1 + 1 / 2 ^ 46" using r ir by linarith+
  have qs: "(q - of_nat i) * SA = a - of_nat i * SA" using q(3) by (simp add: left_diff_distrib)
  have "(- 1 / 2 ^ 46) * SA \<le> a - of_nat i * SA" "a - of_nat i * SA \<le> (1 + 1 / 2 ^ 46) * SA"
    unfolding qs [symmetric] using qi by (intro mult_right_mono; simp)+
  then have ad: "- 1 / 1000 \<le> a - of_nat i * SA" "a - of_nat i * SA \<le> 1 / 40" by simp_all
  have ax: "\<bar>a - x0\<bar> < 1 / 32" using ad xe by linarith
  define d where "d = ?R (a - x0)"
  have d: "\<bar>d - (a - x0)\<bar> \<le> 1 / 1073741824" using round32_error [of "a - x0" "- 6"] ax unfolding d_def by simp
  have sub: "sub32 (Fin a) (Fin x0) = Fin d" unfolding d_def fsub_def using ax by (simp add: to_format32)
  have de: "\<bar>d - (q - of_nat i) * SA\<bar> \<le> 1 / 2097152 + 1 / 1073741824" unfolding qs using d xe by linarith
  have p: "\<bar>d * ?V - (q - of_nat i)\<bar> \<le> 1948 / 100000000"
  proof (rule abs_sum_le [OF scaled_difference [of d ?V "q - of_nat i" SA]])
    show "\<bar>(d - (q - of_nat i) * SA) * ?V\<bar> \<le> (1 / 2097152 + 1 / 1073741824) * ?V"
      unfolding abs_mult using de by (intro mult_mono) auto
    show "\<bar>(q - of_nat i) * (SA * ?V - 1)\<bar> \<le> 2 * (1 / 10 ^ 12)"
      unfolding abs_mult using qi by (intro mult_mono) auto
  qed simp
  have qi1: "- 1 / 100 \<le> q - of_nat i" "q - of_nat i \<le> 101 / 100"
    by (rule order_trans [OF _ qi(1)] order_trans [OF qi(2)], simp)+
  have p2: "\<bar>d * ?V\<bar> < 2" using p qi1 by linarith
  define s where "s = ?D (d * ?V)"
  have s: "\<bar>s - d * ?V\<bar> \<le> 1 / 2 ^ 53" using round64_error [of "d * ?V" 0] p2 unfolding s_def by simp
  have tiny: "1 / 2 ^ 53 \<le> (1 / 10000000000 :: rat)" "1 / 2 ^ 46 \<le> (1 / 10000000000 :: rat)"
    "1 / 2 ^ 24 \<le> (6 / 100000000 :: rat)" by simp_all
  have s2: "\<bar>s\<bar> < 2" using s p qi1 tiny by linarith
  define t where "t = ?R s"
  have t: "\<bar>t - s\<bar> \<le> 1 / 2 ^ 24" using round32_error [of s 0] s2 unfolding t_def by simp
  have mul: "to_float (mul64 (Fin d) ONE_BY_ANGLE_STEP) = Fin t"
    unfolding ONE_BY_ANGLE_STEP_value t_def s_def using p2 s2 [unfolded s_def] by (simp add: to_format64 to_format32)
  have tt: "\<bar>t - t0\<bar> \<le> 20 / 1000000" using t s p t0(3) tiny by linarith
  have eq: "(of_nat i + t0) * SA - a = (t0 - (q - of_nat i)) * SA"
    unfolding q(3) [symmetric] left_diff_distrib [symmetric] by (rule arg_cong [where f = "\<lambda>x. x * SA"]) simp
  have "\<bar>(t0 - (q - of_nat i)) * SA\<bar> \<le> 1 / 2 ^ 46 * 1"
    unfolding abs_mult using t0(3) by (intro mult_mono) auto
  also have "\<dots> \<le> 1 / 10 ^ 9" by simp
  finally have "\<bar>(of_nat i + t0) * SA - a\<bar> \<le> 1 / 10 ^ 9" unfolding eq .
  then show thesis using that [of i t t0] idx div x0 sub mul tt t0(1,2) by simp
qed


lemma mc_calc_sin_cos_one_turn:
  "mc_calc_sin_cos x =
     do { i \<leftarrow> to_uint32 (div64 (one_turn x) ANGLE_STEP);
          let j = (if 256 \<le> i + 1 then 0 else i + 1);
          let x0 = to_float (mul64 (Fin (of_int (uint i))) ANGLE_STEP);
          let temp = to_float (mul64 (sub32 (one_turn x) x0) ONE_BY_ANGLE_STEP);
          s \<leftarrow> table_interpolate sine_table (unat i) (unat j) temp;
          c \<leftarrow> table_interpolate cosine_table (unat i) (unat j) temp;
          Some (s, c) }"
  by (simp add: mc_calc_sin_cos_def one_turn_def Let_def)

lemma next_index:
  assumes "i < 256"
  shows "unat (of_nat i :: u32) = i" "uint (of_nat i :: u32) = of_nat i"
    "unat (if 256 \<le> (of_nat i :: u32) + 1 then 0 else of_nat i + 1 :: u32) = Suc i mod 256"
proof -
  show i: "unat (of_nat i :: u32) = i" using assms by (simp add: unat_of_nat)
  then show "uint (of_nat i :: u32) = of_nat i" by (metis uint_nat)
  have s: "unat ((of_nat i :: u32) + 1) = Suc i"
    using assms unat_of_nat [of "Suc i", where 'a = 32] unfolding of_nat_Suc add.commute [of "1 :: u32"] by simp
  then have "256 \<le> (of_nat i :: u32) + 1 \<longleftrightarrow> 256 \<le> Suc i" by (simp add: word_le_nat_alt)
  then show "unat (if 256 \<le> (of_nat i :: u32) + 1 then 0 else of_nat i + 1 :: u32) = Suc i mod 256"
    using s assms by (cases "i = 255") simp_all
qed

lemma sin_cos_chord:
  assumes "TOTAL_SINE_TABLE_ANGLE = Fin T" "is_float binary32 (Fin x)" "- T \<le> x" "x < 2 * T"
  shows "\<exists>k\<in>{- 1, 0, 1}. \<exists>i<256. \<exists>t s c. of_nat i \<le> t \<and> t \<le> of_nat i + 1 \<and>
    \<bar>t * (T / 256) - (x + of_int k * T)\<bar> \<le> 1 / 10 ^ 6 \<and> mc_calc_sin_cos (Fin x) = Some (Fin s, Fin c) \<and>
    \<bar>s - chord sine_digits i t\<bar> \<le> 1 / 10 ^ 6 \<and> \<bar>c - chord cosine_digits i t\<bar> \<le> 1 / 10 ^ 6"
proof -
  have T: "T = TA" using assms(1) by (simp add: TOTAL_value)
  then obtain a k where a: "one_turn (Fin x) = Fin a" "is_float binary32 (Fin a)" "0 \<le> a" "a < TA"
    and k: "k \<in> {- 1, 0, 1 :: int}" "\<bar>a - (x + of_int k * TA)\<bar> \<le> 1 / 2 ^ 20"
    using one_turn_bounds [of x] assms(2-4) by metis
  obtain i t t0 where i: "to_uint32 (div64 (Fin a) ANGLE_STEP) = Some (of_nat i)" "i < 256"
    and t: "to_float (mul64 (sub32 (Fin a) (to_float (mul64 (Fin (of_nat i)) ANGLE_STEP))) ONE_BY_ANGLE_STEP) = Fin t"
      "\<bar>t - t0\<bar> \<le> 20 / 1000000" "0 \<le> t0" "t0 \<le> 1" "\<bar>(of_nat i + t0) * SA - a\<bar> \<le> 1 / 10 ^ 9"
    by (rule step_fraction [OF a(2-4)])
  obtain s where s: "table_interpolate sine_table i (Suc i mod 256) (Fin t) = Some (Fin s)"
    "\<bar>s - chord sine_digits i (of_nat i + t0)\<bar> \<le> 1 / 10 ^ 6"
    using table_interpolate_near [OF smooth_tables(1) i(2) t(2-4)] unfolding sine_table_def by auto
  obtain c where c: "table_interpolate cosine_table i (Suc i mod 256) (Fin t) = Some (Fin c)"
    "\<bar>c - chord cosine_digits i (of_nat i + t0)\<bar> \<le> 1 / 10 ^ 6"
    using table_interpolate_near [OF smooth_tables(2) i(2) t(2-4)] unfolding cosine_table_def by auto
  note ni = next_index [OF i(2)]
  have "mc_calc_sin_cos (Fin x) = Some (Fin s, Fin c)"
    unfolding mc_calc_sin_cos_one_turn a(1) i(1) Let_def bind.bind_lunit ni(1,3) ni(2) of_int_of_nat_eq t(1) s(1) c(1) by simp
  moreover have "(1 / 10 ^ 9 + 1 / 2 ^ 20 :: rat) \<le> 1 / 10 ^ 6" by simp
  then have "\<bar>(of_nat i + t0) * SA - (x + of_int k * TA)\<bar> \<le> 1 / 10 ^ 6" using t(5) k(2) by linarith
  then have "\<bar>(of_nat i + t0) * (T / 256) - (x + of_int k * T)\<bar> \<le> 1 / 10 ^ 6" unfolding T by simp
  moreover have "of_nat i \<le> of_nat i + t0" "of_nat i + t0 \<le> of_nat i + 1" using t(3,4) by simp_all
  ultimately show ?thesis using k(1) i(2) s(2) c(2) by blast
qed

text \<open>
  C11. For every angle from minus one turn to two turns \<open>mc_calc_sin_cos\<close> is defined (its index is inside
  the tables), and sine and cosine are, within \<open>10 ^ -6\<close>, the values on the chord between neighbouring
  entries of the tables at the angle reduced to one turn, itself accurate to \<open>10 ^ -6\<close>.
\<close>

theorem sin_cos_interpolates:
  assumes "TOTAL_SINE_TABLE_ANGLE = Fin T" "is_float binary32 (Fin x)" "- T \<le> x" "x < 2 * T"
  shows "\<exists>k\<in>{- 1, 0, 1}. \<exists>i<256. \<exists>t s c. of_nat i \<le> t \<and> t \<le> of_nat i + 1 \<and>
    \<bar>t * (T / 256) - (x + of_int k * T)\<bar> \<le> 1 / 10 ^ 6 \<and> mc_calc_sin_cos (Fin x) = Some (Fin s, Fin c) \<and>
    \<bar>s - chord sine_digits i t\<bar> \<le> 1 / 10 ^ 6 \<and> \<bar>c - chord cosine_digits i t\<bar> \<le> 1 / 10 ^ 6"
  by (rule sin_cos_chord [OF assms])

theorem sin_cos_interpolates_witness:
  "\<exists>i<256. \<exists>t s c. mc_calc_sin_cos (Fin 1) = Some (Fin s, Fin c) \<and> \<bar>s - chord sine_digits i t\<bar> \<le> 1 / 10 ^ 6"
proof -
  have one: "fl_round binary32 1 = 1" using fl_round_power [of binary32 0] by simp
  have T: "TOTAL_SINE_TABLE_ANGLE = Fin (884279719003555 / 140737488355328)" by (rule TOTAL_value)
  show ?thesis using sin_cos_interpolates [OF T, of 1] one by (force simp: power_int_def)
qed

section \<open>The encoder angle\<close>

lemma QE_COUNT_TO_RAD_value: "QE_COUNT_TO_RAD = Fin (13170115 / 2147483648)"
  unfolding QE_COUNT_TO_RAD_def float_lit_def
  by (subst to_format_near [where u = "- 31" and m = "13170115"]) simp_all

lemma c_rem_eq: "c_rem a b = (if 0 \<le> a then a mod b else - ((- a) mod b))"
  using minus_div_mult_eq_mod [of a b] minus_div_mult_eq_mod [of "- a" b] by (simp add: c_rem_def)

lemma c_rem_mod:
  assumes "0 < b"
  shows "\<bar>c_rem a b\<bar> < b" "a mod b = (if c_rem a b < 0 then c_rem a b + b else c_rem a b)"
proof -
  note m = pos_mod_bound [OF assms, of a] pos_mod_sign [OF assms, of a]
    pos_mod_bound [OF assms, of "- a"] pos_mod_sign [OF assms, of "- a"]
  show "\<bar>c_rem a b\<bar> < b" using m assms by (simp add: c_rem_eq)
  show "a mod b = (if c_rem a b < 0 then c_rem a b + b else c_rem a b)"
    using m zmod_zminus1_eq_if [of "- a" b] by (auto simp: c_rem_eq)
qed

lemma encoder_turn:
  fixes count :: int
  obtains a where "mc_wrap_angle (in_e_angle (mc_read_qe count i)) = Fin a" "is_float binary32 (Fin a)" "0 \<le> a" "a < TA"
    "\<bar>a - of_int (count mod 1024) * TA / 1024\<bar> \<le> 1 / 300"
proof -
  let ?R = "fl_round binary32" and ?k = "13170115 / 2147483648 :: rat"
  define n where "n = c_rem count 1024"
  have n: "\<bar>n\<bar> \<le> 1023" "count mod 1024 = (if n < 0 then n + 1024 else n)"
    using c_rem_mod [of 1024 count] by (simp_all add: n_def)
  have n1: "(of_int n :: rat) \<le> 1023" "- 1023 \<le> (of_int n :: rat)" using n(1) by linarith+
  define v where "v = ?R (of_int n * ?k)"
  have exact: "float_of_int n = Fin (of_int n)" by (rule float_of_small_int) (use n(1) in simp)
  have angle: "in_e_angle (mc_read_qe count i) = Fin v"
    using n1 by (simp add: mc_read_qe_def Let_def n_def [symmetric] exact QE_COUNT_TO_RAD_value v_def to_format32)
  have nk: "\<bar>of_int n * ?k\<bar> < 8" using n1 by (simp add: abs_if)
  have e: "\<bar>v - of_int n * ?k\<bar> \<le> 1 / 4194304" unfolding v_def using round32_error [of "of_int n * ?k" 2] nk by simp
  have k: "\<bar>of_int n * ?k - of_int n * TA / 1024\<bar> \<le> 319 / 100000"
  proof -
    have "of_int n * ?k - of_int n * TA / 1024 = of_int n * (?k - TA / 1024)" by (simp add: algebra_simps)
    moreover have "\<bar>of_int n * (?k - TA / 1024)\<bar> \<le> 1023 * (3118 / 1000000000)"
      unfolding abs_mult using n1 by (intro mult_mono) auto
    ultimately show ?thesis by linarith
  qed
  have "\<exists>a. mc_wrap_angle (Fin v) = Fin a \<and> is_float binary32 (Fin a) \<and> 0 \<le> a \<and> a < TA \<and>
    \<bar>a - of_int (count mod 1024) * TA / 1024\<bar> \<le> 1 / 300"
  proof (cases "n < 0")
    case False
    have "v \<le> 628 / 100" using e n1 by (simp add: abs_if split: if_splits)
    then have "v < TA" by simp
    moreover have "0 \<le> v" unfolding v_def using False by (intro r32.nonneg) simp
    moreover have "is_float binary32 (Fin v)" unfolding angle [symmetric] by (simp add: mc_read_qe_def Let_def)
    moreover have "\<bar>v - of_int n * TA / 1024\<bar> \<le> 1 / 300" using e k by linarith
    then have "\<bar>v - of_int (count mod 1024) * TA / 1024\<bar> \<le> 1 / 300" using False unfolding n(2) by simp
    ultimately show ?thesis by (simp add: mc_wrap_angle_def TOTAL_value)
  next
    case True
    have n0: "(of_int n :: rat) \<le> - 1" using True by linarith
    have v: "- 6275 / 1000 \<le> v" "v \<le> - 6 / 1000" using e n1 n0 by (simp_all add: abs_if split: if_splits)
    then have "\<bar>v + TA\<bar> < 8" by simp
    note w = rounded_twice [OF this]
    let ?w = "?R (fl_round binary64 (v + TA))"
    have wrap: "mc_wrap_angle (Fin v) = to_float (add64 (Fin v) TOTAL_SINE_TABLE_ANGLE)"
      using v by (simp add: mc_wrap_angle_def TOTAL_value)
    have add: "to_float (add64 (Fin v) TOTAL_SINE_TABLE_ANGLE) = Fin ?w" unfolding TOTAL_value fadd.simps by (rule w(1))
    have "is_float binary32 (Fin ?w)" unfolding add [symmetric] by simp
    moreover have w2: "\<bar>?w - (v + TA)\<bar> \<le> 1 / 2097152" using w(2) by simp
    then have "0 \<le> ?w" "?w < TA" using v by (simp_all add: abs_if split: if_splits)
    moreover have "\<bar>?w - of_int (count mod 1024) * TA / 1024\<bar> \<le> 1 / 300"
    proof -
      have "of_int (count mod 1024) * TA / 1024 = of_int n * TA / 1024 + TA"
        unfolding n(2) using True by (simp add: algebra_simps)
      then show ?thesis using w2 e k by linarith
    qed
    ultimately show ?thesis unfolding wrap add by blast
  qed
  then show thesis using that unfolding angle by blast
qed

text \<open>
  C15. For every encoder count, also a negative one, \<open>mc_read_qe\<close> and \<open>mc_wrap_angle\<close> give an electrical
  angle of one turn, which differs from that of the count modulo the 1024 edges of a revolution by at
  most \<open>1 / 300\<close> rad (the factor \<open>0.0061328125\<close> is not quite a turn by 1024), and for which the table
  lookup is defined.
\<close>

theorem encoder_angle:
  fixes count :: int
  shows "\<exists>a T s c. TOTAL_SINE_TABLE_ANGLE = Fin T \<and> mc_wrap_angle (in_e_angle (mc_read_qe count i)) = Fin a \<and>
    0 \<le> a \<and> a < T \<and> \<bar>a - of_int (count mod 1024) * T / 1024\<bar> \<le> 1 / 300 \<and>
    mc_calc_sin_cos (Fin a) = Some (Fin s, Fin c)"
proof -
  obtain a where a: "mc_wrap_angle (in_e_angle (mc_read_qe count i)) = Fin a" "is_float binary32 (Fin a)" "0 \<le> a" "a < TA"
    "\<bar>a - of_int (count mod 1024) * TA / 1024\<bar> \<le> 1 / 300" by (rule encoder_turn)
  obtain s c where "mc_calc_sin_cos (Fin a) = Some (Fin s, Fin c)"
    using sin_cos_chord [OF TOTAL_value a(2)] a(3,4) by auto
  then show ?thesis
    using a TOTAL_value
    by (intro exI [where x = a] exI [where x = TA] exI [where x = s] exI [where x = c] conjI)
qed

end
