(* ===== verification/Svm.thy ===== *)
theory Svm
  imports Motor_Control
begin

text \<open>
  The space vector modulation of \<open>mc_svm.c\<close>: in the linear region, a hexagon around the origin of the
  \<open>alpha\<close>-\<open>beta\<close> plane, the compare values realise the requested voltages; outside of it a time is
  negative and its conversion to an unsigned integer undefined.
\<close>

section \<open>Times of a sector\<close>

lemma to_uint32_duty:
  assumes "- 1 < x" "x < 65536"
  obtains p where "to_uint32 (Fin x) = Some p" "uint p = max 0 \<lfloor>x\<rfloor>"
proof -
  let ?n = "max 0 \<lfloor>x\<rfloor>"
  have f: "\<lfloor>x\<rfloor> < 65536" using assms(2) by (simp add: floor_less_iff)
  have n: "0 \<le> ?n" "?n < 2 ^ 32" using f by simp_all
  have "to_uint32 (Fin x) = Some (of_int ?n)"
    using assms by (cases "x < 0") (simp_all add: max_def)
  moreover have "uint (of_int ?n :: u32) = ?n" using n by (simp add: take_bit_int_eq_self unsigned_of_int)
  ultimately show thesis by (rule that)
qed

abbreviation (input) PP :: rat where "PP \<equiv> 50755"

text \<open>On and off times of a sector, up to rounding, for active times of at most a period.\<close>

lemma time_calc_near:
  fixes t1 t2 :: rat
  assumes p: "sv_period svm = Fin PP" and t: "0 \<le> t1" "0 \<le> t2" "t1 + t2 \<le> 1 + 1 / 1000000"
  obtains a b c where
    "sv_ta (mc_svpwm_time_calc (svm\<lparr>sv_t1 := Fin t1, sv_t2 := Fin t2\<rparr>)) = Fin a"
    "sv_tb (mc_svpwm_time_calc (svm\<lparr>sv_t1 := Fin t1, sv_t2 := Fin t2\<rparr>)) = Fin b"
    "sv_tc (mc_svpwm_time_calc (svm\<lparr>sv_t1 := Fin t1, sv_t2 := Fin t2\<rparr>)) = Fin c"
    "\<bar>a - b - PP * t1\<bar> \<le> 1 / 64" "\<bar>b - c - PP * t2\<bar> \<le> 1 / 64" "\<bar>a + c - PP\<bar> \<le> 1 / 32" "- 1 / 16 \<le> c" "c \<le> b" "b \<le> a"
proof -
  let ?R = "fl_round binary32"
  have err: "\<bar>?R x - x\<bar> \<le> 1 / 512" if "\<bar>x\<bar> < 65536" for x using round32_error [of x 15] that by simp
  have tt: "t1 \<le> 1 + 1 / 1000000" "t2 \<le> 1 + 1 / 1000000" using t by simp_all
  have Pt: "\<bar>PP * t1\<bar> < 65536" "\<bar>PP * t2\<bar> < 65536" using t tt by (simp_all add: abs_if)
  define T1 where "T1 = ?R (PP * t1)"
  have T1: "\<bar>T1 - PP * t1\<bar> \<le> 1 / 512" "0 \<le> T1" unfolding T1_def using t by (intro err Pt r32.nonneg, simp)+
  define T2 where "T2 = ?R (PP * t2)"
  have T2: "\<bar>T2 - PP * t2\<bar> \<le> 1 / 512" "0 \<le> T2" unfolding T2_def using t by (intro err Pt r32.nonneg, simp)+
  have T12: "T1 \<le> 50756" "T2 \<le> 50756" "T1 + T2 \<le> 50756" using T1 T2 t tt by linarith+
  define u where "u = ?R (PP - T1)"
  have u: "\<bar>u - (PP - T1)\<bar> \<le> 1 / 512" unfolding u_def using T1 T12 by (intro err) simp
  define w where "w = ?R (u - T2)"
  have "\<bar>u - T2\<bar> < 65536" using u T1 T2 T12 by linarith
  then have w: "\<bar>w - (u - T2)\<bar> \<le> 1 / 512" unfolding w_def by (rule err)
  define c where "c = ?R (w / 2)"
  have "\<bar>w / 2\<bar> < 65536" using w u T1 T2 T12 by linarith
  then have c: "\<bar>c - w / 2\<bar> \<le> 1 / 512" unfolding c_def by (rule err)
  have c2: "2 * c \<le> PP - T1 - T2 + 1 / 128" "PP - T1 - T2 - 1 / 128 \<le> 2 * c" using c w u by linarith+
  define b where "b = ?R (c + T2)"
  have cT: "\<bar>c + T2\<bar> < 65536" using c2 T1(2) T2(2) T12 by linarith
  then have b: "\<bar>b - (c + T2)\<bar> \<le> 1 / 512" unfolding b_def by (rule err)
  have cb: "c \<le> b" unfolding b_def using T2(2) by (intro r32.fixed_le) (simp_all add: c_def r32.idem)
  define a where "a = ?R (b + T1)"
  have bT: "\<bar>b + T1\<bar> < 65536" using b c2 T1(2) T2(2) T12 by linarith
  then have a: "\<bar>a - (b + T1)\<bar> \<le> 1 / 512" unfolding a_def by (rule err)
  have ba: "b \<le> a" unfolding a_def using T1(2) by (intro r32.fixed_le) (simp_all add: b_def r32.idem)
  have fin: "to_format binary32 x = Fin (?R x)" if "\<bar>x\<bar> < 65536" for x using that by (simp add: to_format32)
  have mul: "mul32 (Fin PP) (Fin t1) = Fin T1" "mul32 (Fin PP) (Fin t2) = Fin T2"
    unfolding T1_def T2_def fmul.simps by (rule fin [OF Pt(1)], rule fin [OF Pt(2)])
  have sub: "sub32 (Fin PP) (Fin T1) = Fin u" "sub32 (Fin u) (Fin T2) = Fin w"
    unfolding u_def w_def fsub_def uminus_fp.simps fadd.simps add_uminus_conv_diff
    by (rule fin, use T1 T12 in simp, rule fin, fold u_def, fact)
  have div: "div32 (Fin w) (Fin 2) = Fin c" unfolding c_def using fin [OF \<open>\<bar>w / 2\<bar> < 65536\<close>] by simp
  have add: "add32 (Fin c) (Fin T2) = Fin b" "add32 (Fin b) (Fin T1) = Fin a"
    unfolding b_def a_def fadd.simps by (rule fin [OF cT], fold b_def, rule fin [OF bT])
  note ops = mul sub div add
  show thesis
  proof (rule that)
    show "\<bar>a - b - PP * t1\<bar> \<le> 1 / 64" using a T1(1) by linarith
    show "\<bar>b - c - PP * t2\<bar> \<le> 1 / 64" using b T2(1) by linarith
    show "\<bar>a + c - PP\<bar> \<le> 1 / 32" using a b c2 by linarith
    show "- 1 / 16 \<le> c" using c2 T1(1) T2(1) t(3) by linarith
  qed (simp_all add: mc_svpwm_time_calc_def Let_def p ops cb ba del: fadd.simps fmul.simps fdiv.simps)
qed

text \<open>The three compare values of a sector.\<close>

lemma sector_near:
  fixes t1 t2 :: rat and svm :: mc_svpwm_t
  defines "svm1 \<equiv> mc_svpwm_time_calc (svm\<lparr>sv_t1 := Fin t1, sv_t2 := Fin t2\<rparr>)"
  assumes "sv_period svm = Fin PP" "0 \<le> t1" "0 \<le> t2" "t1 + t2 \<le> 1 + 1 / 1000000"
  obtains a b c where
    "to_uint32 (sv_ta svm1) = Some a" "to_uint32 (sv_tb svm1) = Some b" "to_uint32 (sv_tc svm1) = Some c"
    "\<bar>of_int (uint a) - of_int (uint b) - PP * t1\<bar> \<le> 11 / 10" "\<bar>of_int (uint b) - of_int (uint c) - PP * t2\<bar> \<le> 11 / 10"
    "\<bar>of_int (uint a) - of_int (uint c) - PP * (t1 + t2)\<bar> \<le> 11 / 10"
    "\<bar>uint a + uint c - 50755\<bar> \<le> 2" "uint c \<le> uint b" "uint b \<le> uint a" "uint a \<le> 50755"
proof -
  obtain x y z where t: "sv_ta svm1 = Fin x" "sv_tb svm1 = Fin y" "sv_tc svm1 = Fin z"
    and n: "\<bar>x - y - PP * t1\<bar> \<le> 1 / 64" "\<bar>y - z - PP * t2\<bar> \<le> 1 / 64" "\<bar>x + z - PP\<bar> \<le> 1 / 32" "- 1 / 16 \<le> z" "z \<le> y" "y \<le> x"
    using time_calc_near [OF assms(2-5), folded svm1_def] by metis
  have r: "x \<le> PP + 1 / 8" "- 1 < x" "- 1 < y" "- 1 < z" "x < 65536" "y < 65536" "z < 65536" using n by linarith+
  obtain a where a: "to_uint32 (Fin x) = Some a" "uint a = max 0 \<lfloor>x\<rfloor>" by (rule to_uint32_duty [OF r(2) r(5)])
  obtain b where b: "to_uint32 (Fin y) = Some b" "uint b = max 0 \<lfloor>y\<rfloor>" by (rule to_uint32_duty [OF r(3) r(6)])
  obtain c where c: "to_uint32 (Fin z) = Some c" "uint c = max 0 \<lfloor>z\<rfloor>" by (rule to_uint32_duty [OF r(4) r(7)])
  have fl: "w - 1 \<le> of_int (max 0 \<lfloor>w\<rfloor>)" "of_int (max 0 \<lfloor>w\<rfloor>) \<le> w + 1 / 16" if "- 1 / 16 \<le> w" for w :: rat
    using that floor_correct [of w] by (cases "0 \<le> \<lfloor>w\<rfloor>"; simp add: max_def; linarith)+
  have xy: "- 1 / 16 \<le> x" "- 1 / 16 \<le> y" using n by linarith+
  note f = fl [OF xy(1), folded a(2)] fl [OF xy(2), folded b(2)] fl [OF n(4), folded c(2)]
  show thesis
  proof (rule that)
    show "\<bar>of_int (uint a) - of_int (uint b) - PP * t1\<bar> \<le> 11 / 10" using f n(1) by linarith
    show "\<bar>of_int (uint b) - of_int (uint c) - PP * t2\<bar> \<le> 11 / 10" using f n(2) by linarith
    show "\<bar>of_int (uint a) - of_int (uint c) - PP * (t1 + t2)\<bar> \<le> 11 / 10"
      using f n(1,2) unfolding abs_le_iff distrib_left by linarith
    have "\<bar>of_int (uint a) + of_int (uint c) - PP\<bar> < 3" using f n(3) by linarith
    then have "\<bar>of_int (uint a + uint c - 50755) :: rat\<bar> < of_int 3" by simp
    then have "\<bar>uint a + uint c - 50755\<bar> < 3" unfolding of_int_abs [symmetric] of_int_less_iff .
    then show "\<bar>uint a + uint c - 50755\<bar> \<le> 2" by simp
    show "uint c \<le> uint b" "uint b \<le> uint a" unfolding a b c by (intro max.mono order_refl floor_mono n)+
    have "\<lfloor>x\<rfloor> < 50756" using r(1) by (simp add: floor_less_iff)
    then show "uint a \<le> 50755" unfolding a(2) by simp
  qed (simp_all add: t a b c del: to_uint32.simps)
qed

section \<open>The six sectors\<close>

lemma SQRT3_BY2_value: "SQRT3_BY2 = Fin (14529495 / 16777216)"
  unfolding SQRT3_BY2_def double_lit_def
  by (subst to_format_near [where u = "- 53" and m = "7800463371586040"], simp_all add: binary64_def,
      subst to_format_near [where u = "- 24" and m = "14529495"], simp_all)

abbreviation (input) QQ :: rat where "QQ \<equiv> 866025403788 / 1000000000000"

text \<open>The phase voltages \<open>vr2\<close> and \<open>vr3\<close> up to rounding.\<close>

lemma phase_voltages:
  assumes "\<bar>\<alpha>\<bar> \<le> 2" "\<bar>\<beta>\<bar> \<le> 2"
  obtains v w where
    "add32 (div32 (- Fin \<beta>) (Fin 2)) (mul32 SQRT3_BY2 (Fin \<alpha>)) = Fin v" "\<bar>v - (- \<beta> / 2 + QQ * \<alpha>)\<bar> \<le> 4 / 10000000"
    "sub32 (div32 (- Fin \<beta>) (Fin 2)) (mul32 SQRT3_BY2 (Fin \<alpha>)) = Fin w" "\<bar>w - (- \<beta> / 2 - QQ * \<alpha>)\<bar> \<le> 4 / 10000000"
proof -
  let ?R = "fl_round binary32" and ?S = "14529495 / 16777216 :: rat"
  have fin: "to_format binary32 x = Fin (?R x)" if "\<bar>x\<bar> < 4" for x using that by (simp add: to_format32)
  have err: "\<bar>?R x - x\<bar> \<le> 1 / 8388608" if "\<bar>x\<bar> < 4" for x using round32_error [of x 1] that by simp
  define h where "h = ?R (- \<beta> / 2)"
  have "\<bar>- \<beta> / 2\<bar> < 2" using assms(2) by simp
  then have h: "\<bar>h - (- \<beta> / 2)\<bar> \<le> 1 / 16777216" "div32 (- Fin \<beta>) (Fin 2) = Fin h"
    unfolding h_def using round32_error [of "- \<beta> / 2" 0] fin [of "- \<beta> / 2"] by simp_all
  have q: "\<bar>?S * \<alpha> - QQ * \<alpha>\<bar> \<le> 4 / 100000000"
  proof -
    have "?S * \<alpha> - QQ * \<alpha> = (?S - QQ) * \<alpha>" by (simp add: algebra_simps)
    moreover have "\<bar>(?S - QQ) * \<alpha>\<bar> \<le> 2 / 100000000 * 2"
      unfolding abs_mult using assms by (intro mult_mono) auto
    ultimately show ?thesis by linarith
  qed
  have qa: "\<bar>?S * \<alpha>\<bar> < 2" using assms by (simp add: abs_mult)
  define g where "g = ?R (?S * \<alpha>)"
  have g: "\<bar>g - ?S * \<alpha>\<bar> \<le> 1 / 16777216" "mul32 SQRT3_BY2 (Fin \<alpha>) = Fin g"
    unfolding g_def SQRT3_BY2_value using round32_error [of "?S * \<alpha>" 0] qa fin [of "?S * \<alpha>"] by simp_all
  have hg: "\<bar>h + g\<bar> < 4" "\<bar>h - g\<bar> < 4" using h(1) g(1) qa \<open>\<bar>- \<beta> / 2\<bar> < 2\<close> assms(2) by linarith+
  show thesis
  proof (rule that)
    show "add32 (div32 (- Fin \<beta>) (Fin 2)) (mul32 SQRT3_BY2 (Fin \<alpha>)) = Fin (?R (h + g))"
      unfolding h(2) g(2) using fin [OF hg(1)] by simp
    show "sub32 (div32 (- Fin \<beta>) (Fin 2)) (mul32 SQRT3_BY2 (Fin \<alpha>)) = Fin (?R (h - g))"
      unfolding h(2) g(2) fsub_def using fin [OF hg(2)] by simp
    show "\<bar>?R (h + g) - (- \<beta> / 2 + QQ * \<alpha>)\<bar> \<le> 4 / 10000000" using err [OF hg(1)] h(1) g(1) q by linarith
    show "\<bar>?R (h - g) - (- \<beta> / 2 - QQ * \<alpha>)\<bar> \<le> 4 / 10000000" using err [OF hg(2)] h(1) g(1) q by linarith
  qed
qed

lemma mc_svpwm_gen_sectors:
  "mc_svpwm_gen (Fin \<alpha>) (Fin \<beta>) svm0 =
     (let svm = svm0\<lparr>sv_vr1 := Fin \<beta>,
                     sv_vr2 := add32 (div32 (- Fin \<beta>) (Fin 2)) (mul32 SQRT3_BY2 (Fin \<alpha>)),
                     sv_vr3 := sub32 (div32 (- Fin \<beta>) (Fin 2)) (mul32 SQRT3_BY2 (Fin \<alpha>))\<rparr>;
          v1 = Fin \<beta>; v2 = sv_vr2 svm; v3 = sv_vr3 svm
      in if Fin 0 \<le> v1
         then if Fin 0 \<le> v2 then svpwm_sector v2 v1 sv_ta sv_tb sv_tc svm
              else if Fin 0 \<le> v3 then svpwm_sector v1 v3 sv_tc sv_ta sv_tb svm
              else svpwm_sector (- v2) (- v3) sv_tb sv_ta sv_tc svm
         else if Fin 0 \<le> v2
              then if Fin 0 \<le> v3 then svpwm_sector v3 v2 sv_tb sv_tc sv_ta svm
                   else svpwm_sector (- v3) (- v1) sv_ta sv_tc sv_tb svm
              else svpwm_sector (- v1) (- v2) sv_tc sv_tb sv_ta svm)"
  by (simp add: mc_svpwm_gen_def Let_def del: fadd.simps fmul.simps fdiv.simps uminus_fp.simps less_eq_Fin)

lemma mc_svpwm_gen_by_sector:
  fixes svm :: mc_svpwm_t
  assumes "add32 (div32 (- Fin \<beta>) (Fin 2)) (mul32 SQRT3_BY2 (Fin \<alpha>)) = Fin v"
    and "sub32 (div32 (- Fin \<beta>) (Fin 2)) (mul32 SQRT3_BY2 (Fin \<alpha>)) = Fin w"
  defines "svm1 \<equiv> svm\<lparr>sv_vr1 := Fin \<beta>, sv_vr2 := Fin v, sv_vr3 := Fin w\<rparr>"
  shows "mc_svpwm_gen (Fin \<alpha>) (Fin \<beta>) svm =
     (if 0 \<le> \<beta>
      then if 0 \<le> v then svpwm_sector (Fin v) (Fin \<beta>) sv_ta sv_tb sv_tc svm1
           else if 0 \<le> w then svpwm_sector (Fin \<beta>) (Fin w) sv_tc sv_ta sv_tb svm1
           else svpwm_sector (Fin (- v)) (Fin (- w)) sv_tb sv_ta sv_tc svm1
      else if 0 \<le> v
           then if 0 \<le> w then svpwm_sector (Fin w) (Fin v) sv_tb sv_tc sv_ta svm1
                else svpwm_sector (Fin (- w)) (Fin (- \<beta>)) sv_ta sv_tc sv_tb svm1
           else svpwm_sector (Fin (- \<beta>)) (Fin (- v)) sv_tc sv_tb sv_ta svm1)"
  unfolding mc_svpwm_gen_sectors Let_def assms by simp

text \<open>What a result promises: the differences of the compare values are the line-to-line voltages.\<close>

definition duties_for :: "rat \<Rightarrow> rat \<Rightarrow> mc_svpwm_t \<Rightarrow> bool" where
  "duties_for \<alpha> \<beta> svm \<longleftrightarrow>
     (let p1 = uint (sv_pwm1 svm); p2 = uint (sv_pwm2 svm); p3 = uint (sv_pwm3 svm)
      in p1 \<le> PWM_PERIOD \<and> p2 \<le> PWM_PERIOD \<and> p3 \<le> PWM_PERIOD \<and>
         \<bar>of_int (p1 - p2) - PP * (QQ * \<alpha> - \<beta> / 2)\<bar> \<le> 5 / 4 \<and> \<bar>of_int (p2 - p3) - PP * \<beta>\<bar> \<le> 5 / 4 \<and>
         \<bar>of_int (p3 - p1) - PP * (- QQ * \<alpha> - \<beta> / 2)\<bar> \<le> 5 / 4 \<and>
         \<bar>max p1 (max p2 p3) + min p1 (min p2 p3) - PWM_PERIOD\<bar> \<le> 2)"

lemma duties_forI:
  assumes "sv_pwm1 svm' = p1" "sv_pwm2 svm' = p2" "sv_pwm3 svm' = p3"
    and "\<bar>of_int (uint p1) - of_int (uint p2) - PP * (QQ * \<alpha> - \<beta> / 2)\<bar> \<le> 5 / 4"
    and "\<bar>of_int (uint p2) - of_int (uint p3) - PP * \<beta>\<bar> \<le> 5 / 4"
    and "\<bar>of_int (uint p3) - of_int (uint p1) - PP * (- QQ * \<alpha> - \<beta> / 2)\<bar> \<le> 5 / 4"
    and "uint z \<le> uint y" "uint y \<le> uint x" "uint x \<le> 50755" "\<bar>uint x + uint z - 50755\<bar> \<le> 2" "{p1, p2, p3} = {x, y, z}"
  shows "duties_for \<alpha> \<beta> svm'"
proof -
  have m: "x \<in> {p1, p2, p3}" "z \<in> {p1, p2, p3}" "p1 \<in> {x, y, z}" "p2 \<in> {x, y, z}" "p3 \<in> {x, y, z}"
    using assms(11) by auto
  have le: "uint p \<le> uint x" "uint z \<le> uint p" if "p \<in> {x, y, z}" for p using that assms(7,8) by auto
  note ps = le [OF m(3)] le [OF m(4)] le [OF m(5)]
  have mx: "max (uint p1) (max (uint p2) (uint p3)) = uint x" using ps m(1) by (intro antisym) auto
  have mn: "min (uint p1) (min (uint p2) (uint p3)) = uint z" using ps m(2) by (intro antisym) auto
  have "uint p1 \<le> 50755" "uint p2 \<le> 50755" "uint p3 \<le> 50755" using ps assms(9) by linarith+
  then show ?thesis
    unfolding duties_for_def Let_def assms(1-3) of_int_diff mx mn using assms(4-6,10) by (intro conjI)
qed

lemma scale_near: "\<bar>p - PP * u\<bar> \<le> 11 / 10 \<Longrightarrow> \<bar>u - v\<bar> \<le> 1 / 1000000 \<Longrightarrow> \<bar>p - PP * v\<bar> \<le> 5 / 4" for p :: rat
  by linarith

text \<open>
  A sector, whichever channels it gives the times to: \<open>u1\<close>, \<open>u2\<close> and \<open>u3\<close> are the active times of the
  three channels.
\<close>

lemma sector_duties:
  fixes t1 t2 :: rat
  assumes p: "sv_period svm = Fin PP" "0 \<le> t1" "0 \<le> t2" "t1 + t2 \<le> 1 + 1 / 1000000"
    and perm: "(c1, c2, c3, u1, u2, u3) \<in>
      {(sv_ta, sv_tb, sv_tc, t1 + t2, t2, 0), (sv_ta, sv_tc, sv_tb, t1 + t2, 0, t2), (sv_tb, sv_ta, sv_tc, t2, t1 + t2, 0),
       (sv_tb, sv_tc, sv_ta, t2, 0, t1 + t2), (sv_tc, sv_ta, sv_tb, 0, t1 + t2, t2), (sv_tc, sv_tb, sv_ta, 0, t2, t1 + t2)}"
    and u: "\<bar>u1 - u2 - (QQ * \<alpha> - \<beta> / 2)\<bar> \<le> 1 / 1000000" "\<bar>u2 - u3 - \<beta>\<bar> \<le> 1 / 1000000"
      "\<bar>u3 - u1 - (- QQ * \<alpha> - \<beta> / 2)\<bar> \<le> 1 / 1000000"
  shows "\<exists>svm'. svpwm_sector (Fin t1) (Fin t2) c1 c2 c3 svm = Some svm' \<and> duties_for \<alpha> \<beta> svm'"
proof -
  let ?s = "mc_svpwm_time_calc (svm\<lparr>sv_t1 := Fin t1, sv_t2 := Fin t2\<rparr>)"
  obtain a b c where t: "to_uint32 (sv_ta ?s) = Some a" "to_uint32 (sv_tb ?s) = Some b" "to_uint32 (sv_tc ?s) = Some c"
    and n: "\<bar>of_int (uint a) - of_int (uint b) - PP * t1\<bar> \<le> 11 / 10" "\<bar>of_int (uint b) - of_int (uint c) - PP * t2\<bar> \<le> 11 / 10"
      "\<bar>of_int (uint a) - of_int (uint c) - PP * (t1 + t2)\<bar> \<le> 11 / 10"
      and o: "\<bar>uint a + uint c - 50755\<bar> \<le> 2" "uint c \<le> uint b" "uint b \<le> uint a" "uint a \<le> 50755"
    by (rule sector_near [OF p])
  obtain p1 p2 p3 where r: "to_uint32 (c1 ?s) = Some p1" "to_uint32 (c2 ?s) = Some p2" "to_uint32 (c3 ?s) = Some p3"
    and s: "{p1, p2, p3} = {a, b, c}"
    and d: "\<bar>of_int (uint p1) - of_int (uint p2) - PP * (u1 - u2)\<bar> \<le> 11 / 10"
      "\<bar>of_int (uint p2) - of_int (uint p3) - PP * (u2 - u3)\<bar> \<le> 11 / 10"
      "\<bar>of_int (uint p3) - of_int (uint p1) - PP * (u3 - u1)\<bar> \<le> 11 / 10"
  proof -
    consider "c1 = sv_ta" "c2 = sv_tb" "c3 = sv_tc" "u1 = t1 + t2" "u2 = t2" "u3 = 0"
      | "c1 = sv_ta" "c2 = sv_tc" "c3 = sv_tb" "u1 = t1 + t2" "u2 = 0" "u3 = t2"
      | "c1 = sv_tb" "c2 = sv_ta" "c3 = sv_tc" "u1 = t2" "u2 = t1 + t2" "u3 = 0"
      | "c1 = sv_tb" "c2 = sv_tc" "c3 = sv_ta" "u1 = t2" "u2 = 0" "u3 = t1 + t2"
      | "c1 = sv_tc" "c2 = sv_ta" "c3 = sv_tb" "u1 = 0" "u2 = t1 + t2" "u3 = t2"
      | "c1 = sv_tc" "c2 = sv_tb" "c3 = sv_ta" "u1 = 0" "u2 = t2" "u3 = t1 + t2"
      using perm by (elim insertE emptyE Pair_inject)
    then show thesis
    proof cases
      case 1
      show thesis by (rule that [of a b c]) (insert n, unfold 1 t ring_distribs mult_zero_right, (rule refl | linarith | blast)+)
    next
      case 2
      show thesis by (rule that [of a c b]) (insert n, unfold 2 t ring_distribs mult_zero_right, (rule refl | linarith | blast)+)
    next
      case 3
      show thesis by (rule that [of b a c]) (insert n, unfold 3 t ring_distribs mult_zero_right, (rule refl | linarith | blast)+)
    next
      case 4
      show thesis by (rule that [of b c a]) (insert n, unfold 4 t ring_distribs mult_zero_right, (rule refl | linarith | blast)+)
    next
      case 5
      show thesis by (rule that [of c a b]) (insert n, unfold 5 t ring_distribs mult_zero_right, (rule refl | linarith | blast)+)
    next
      case 6
      show thesis by (rule that [of c b a]) (insert n, unfold 6 t ring_distribs mult_zero_right, (rule refl | linarith | blast)+)
    qed
  qed
  have "svpwm_sector (Fin t1) (Fin t2) c1 c2 c3 svm = Some (?s\<lparr>sv_pwm1 := p1, sv_pwm2 := p2, sv_pwm3 := p3\<rparr>)"
    using r by (simp add: svpwm_sector_def Let_def)
  moreover have "duties_for \<alpha> \<beta> (?s\<lparr>sv_pwm1 := p1, sv_pwm2 := p2, sv_pwm3 := p3\<rparr>)"
    by (rule duties_forI [OF _ _ _ scale_near [OF d(1) u(1)] scale_near [OF d(2) u(2)] scale_near [OF d(3) u(3)] o(2-4,1) s])
      simp_all
  ultimately show ?thesis by blast
qed

lemma svpwm_gen_duties:
  assumes p: "sv_period svm = Fin PP" and b: "\<bar>\<beta>\<bar> \<le> 1" and ab: "QQ * \<bar>\<alpha>\<bar> + \<bar>\<beta>\<bar> / 2 \<le> 1"
  shows "\<exists>svm'. mc_svpwm_gen (Fin \<alpha>) (Fin \<beta>) svm = Some svm' \<and> duties_for \<alpha> \<beta> svm'"
proof -
  have a2: "\<bar>\<alpha>\<bar> \<le> 2" using ab by simp
  have b2: "\<bar>\<beta>\<bar> \<le> 2" using b by simp
  obtain v w where v: "add32 (div32 (- Fin \<beta>) (Fin 2)) (mul32 SQRT3_BY2 (Fin \<alpha>)) = Fin v" "\<bar>v - (- \<beta> / 2 + QQ * \<alpha>)\<bar> \<le> 4 / 10000000"
    and w: "sub32 (div32 (- Fin \<beta>) (Fin 2)) (mul32 SQRT3_BY2 (Fin \<alpha>)) = Fin w" "\<bar>w - (- \<beta> / 2 - QQ * \<alpha>)\<bar> \<le> 4 / 10000000"
    by (rule phase_voltages [OF a2 b2])
  let ?svm = "svm\<lparr>sv_vr1 := Fin \<beta>, sv_vr2 := Fin v, sv_vr3 := Fin w\<rparr>"
  have P: "sv_period ?svm = Fin PP" using p by simp
  have lin: "- QQ * \<alpha> + \<beta> / 2 \<le> 1" "QQ * \<alpha> + \<beta> / 2 \<le> 1" "- QQ * \<alpha> - \<beta> / 2 \<le> 1" "QQ * \<alpha> - \<beta> / 2 \<le> 1"
    using ab by (simp_all add: abs_if split: if_splits)
  note gen = mc_svpwm_gen_by_sector [OF v(1) w(1), of svm]
  consider (s3) "0 \<le> \<beta>" "0 \<le> v" | (s5) "0 \<le> \<beta>" "\<not> 0 \<le> v" "0 \<le> w" | (s1) "0 \<le> \<beta>" "\<not> 0 \<le> v" "\<not> 0 \<le> w"
    | (s6) "\<not> 0 \<le> \<beta>" "0 \<le> v" "0 \<le> w" | (s2) "\<not> 0 \<le> \<beta>" "0 \<le> v" "\<not> 0 \<le> w" | (s4) "\<not> 0 \<le> \<beta>" "\<not> 0 \<le> v"
    by blast
  then show ?thesis
  proof cases
    case s3
    then have t: "0 \<le> v" "0 \<le> \<beta>" "v + \<beta> \<le> 1 + 1 / 1000000" using v(2) w(2) lin b by linarith+
    have "\<exists>svm'. svpwm_sector (Fin (v)) (Fin (\<beta>)) sv_ta sv_tb sv_tc ?svm = Some svm' \<and> duties_for \<alpha> \<beta> svm'"
      by (rule sector_duties [OF P t, where ?u1.0 = "v + \<beta>" and ?u2.0 = "\<beta>" and ?u3.0 = "0"]) (simp, (use v(2) w(2) in linarith)+)
    then show ?thesis using s3 by (simp add: gen)
  next
    case s5
    then have t: "0 \<le> \<beta>" "0 \<le> w" "\<beta> + w \<le> 1 + 1 / 1000000" using v(2) w(2) lin b by linarith+
    have "\<exists>svm'. svpwm_sector (Fin (\<beta>)) (Fin (w)) sv_tc sv_ta sv_tb ?svm = Some svm' \<and> duties_for \<alpha> \<beta> svm'"
      by (rule sector_duties [OF P t, where ?u1.0 = "0" and ?u2.0 = "\<beta> + w" and ?u3.0 = "w"]) (simp, (use v(2) w(2) in linarith)+)
    then show ?thesis using s5 by (simp add: gen)
  next
    case s1
    then have t: "0 \<le> - v" "0 \<le> - w" "- v + - w \<le> 1 + 1 / 1000000" using v(2) w(2) lin b by linarith+
    have "\<exists>svm'. svpwm_sector (Fin (- v)) (Fin (- w)) sv_tb sv_ta sv_tc ?svm = Some svm' \<and> duties_for \<alpha> \<beta> svm'"
      by (rule sector_duties [OF P t, where ?u1.0 = "- w" and ?u2.0 = "- v + - w" and ?u3.0 = "0"]) (simp, (use v(2) w(2) in linarith)+)
    then show ?thesis using s1 by (simp add: gen)
  next
    case s6
    then have t: "0 \<le> w" "0 \<le> v" "w + v \<le> 1 + 1 / 1000000" using v(2) w(2) lin b by linarith+
    have "\<exists>svm'. svpwm_sector (Fin (w)) (Fin (v)) sv_tb sv_tc sv_ta ?svm = Some svm' \<and> duties_for \<alpha> \<beta> svm'"
      by (rule sector_duties [OF P t, where ?u1.0 = "v" and ?u2.0 = "0" and ?u3.0 = "w + v"]) (simp, (use v(2) w(2) in linarith)+)
    then show ?thesis using s6 by (simp add: gen)
  next
    case s2
    then have t: "0 \<le> - w" "0 \<le> - \<beta>" "- w + - \<beta> \<le> 1 + 1 / 1000000" using v(2) w(2) lin b by linarith+
    have "\<exists>svm'. svpwm_sector (Fin (- w)) (Fin (- \<beta>)) sv_ta sv_tc sv_tb ?svm = Some svm' \<and> duties_for \<alpha> \<beta> svm'"
      by (rule sector_duties [OF P t, where ?u1.0 = "- w + - \<beta>" and ?u2.0 = "0" and ?u3.0 = "- \<beta>"]) (simp, (use v(2) w(2) in linarith)+)
    then show ?thesis using s2 by (simp add: gen)
  next
    case s4
    then have t: "0 \<le> - \<beta>" "0 \<le> - v" "- \<beta> + - v \<le> 1 + 1 / 1000000" using v(2) w(2) lin b by linarith+
    have "\<exists>svm'. svpwm_sector (Fin (- \<beta>)) (Fin (- v)) sv_tc sv_tb sv_ta ?svm = Some svm' \<and> duties_for \<alpha> \<beta> svm'"
      by (rule sector_duties [OF P t, where ?u1.0 = "0" and ?u2.0 = "- v" and ?u3.0 = "- \<beta> + - v"]) (simp, (use v(2) w(2) in linarith)+)
    then show ?thesis using s4 by (simp add: gen)
  qed
qed

lemma svpwm_gen_period: "mc_svpwm_gen a b svm = Some svm' \<Longrightarrow> sv_period svm' = sv_period svm"
  by (auto simp: mc_svpwm_gen_def svpwm_sector_def mc_svpwm_time_calc_def Let_def split: if_splits bind_splits)

lemma SVPWM_period: "float_of_int PWM_PERIOD = Fin PP"
  unfolding float_of_int_def
  by (subst to_format_near [where u = "- 8" and m = "12993280"]) simp_all

text \<open>
  C10. In the linear region (\<open>\<bar>beta\<bar> \<le> 1\<close> and \<open>sqrt 3 / 2 * \<bar>alpha\<bar> + \<bar>beta\<bar> / 2 \<le> 1\<close>, which holds for every
  vector of length at most 1) \<open>mc_svpwm_gen\<close> returns compare values of at most a period whose
  differences are the three line-to-line voltages times the period, within 1.25 counts, in all six
  sectors, and whose largest and smallest are placed symmetrically in the period.
\<close>

theorem svpwm_line_voltages:
  assumes "sv_period svm = float_of_int PWM_PERIOD" "\<bar>\<beta>\<bar> \<le> 1" "QQ * \<bar>\<alpha>\<bar> + \<bar>\<beta>\<bar> / 2 \<le> 1"
  shows "\<exists>svm'. mc_svpwm_gen (Fin \<alpha>) (Fin \<beta>) svm = Some svm' \<and> duties_for \<alpha> \<beta> svm'"
  using svpwm_gen_duties [OF assms(1) [unfolded SVPWM_period] assms(2,3)] .

theorem svpwm_line_voltages_witness:
  "\<exists>svm'. mc_svpwm_gen (Fin (1 / 2)) (Fin (- 1 / 4)) SVPWM_INIT = Some svm' \<and> duties_for (1 / 2) (- 1 / 4) svm'"
  by (rule svpwm_line_voltages) (simp_all add: SVPWM_INIT_def)

section \<open>Overmodulation\<close>

lemma time_calc_over:
  fixes t1 t2 :: rat
  assumes p: "sv_period svm = Fin PP" and t: "0 \<le> t1" "0 \<le> t2" "t1 \<le> 2" "t2 \<le> 2" "1 + 1 / 1000 \<le> t1 + t2"
  shows "to_uint32 (sv_tc (mc_svpwm_time_calc (svm\<lparr>sv_t1 := Fin t1, sv_t2 := Fin t2\<rparr>))) = None"
proof -
  let ?R = "fl_round binary32"
  have err: "\<bar>?R x - x\<bar> \<le> 1 / 128" if "\<bar>x\<bar> < 262144" for x using round32_error [of x 17] that by simp
  have fin: "to_format binary32 x = Fin (?R x)" if "\<bar>x\<bar> < 262144" for x using that by (simp add: to_format32)
  have Pt: "\<bar>PP * t1\<bar> < 262144" "\<bar>PP * t2\<bar> < 262144" using t by simp_all
  define T1 where "T1 = ?R (PP * t1)"
  have T1: "\<bar>T1 - PP * t1\<bar> \<le> 1 / 128" unfolding T1_def by (rule err [OF Pt(1)])
  define T2 where "T2 = ?R (PP * t2)"
  have T2: "\<bar>T2 - PP * t2\<bar> \<le> 1 / 128" unfolding T2_def by (rule err [OF Pt(2)])
  have b: "\<bar>PP - T1\<bar> < 262144" using T1 t by linarith
  define u where "u = ?R (PP - T1)"
  have u: "\<bar>u - (PP - T1)\<bar> \<le> 1 / 128" unfolding u_def by (rule err [OF b])
  have c: "\<bar>u - T2\<bar> < 262144" using u T1 T2 t by linarith
  define w where "w = ?R (u - T2)"
  have w: "\<bar>w - (u - T2)\<bar> \<le> 1 / 128" unfolding w_def by (rule err [OF c])
  have d: "\<bar>w / 2\<bar> < 262144" using w c by linarith
  have "\<bar>?R (w / 2) - w / 2\<bar> \<le> 1 / 128" by (rule err [OF d])
  then have neg: "?R (w / 2) \<le> - 1" using w u T1 T2 t(5) by linarith
  have mul: "mul32 (Fin PP) (Fin t1) = Fin T1" "mul32 (Fin PP) (Fin t2) = Fin T2"
    unfolding T1_def T2_def fmul.simps by (rule fin [OF Pt(1)], rule fin [OF Pt(2)])
  have sub: "sub32 (Fin PP) (Fin T1) = Fin u" "sub32 (Fin u) (Fin T2) = Fin w"
    unfolding u_def w_def fsub_def uminus_fp.simps fadd.simps add_uminus_conv_diff
    by (rule fin [OF b], rule fin, fold u_def, rule c)
  have div: "div32 (Fin w) (Fin 2) = Fin (?R (w / 2))" using fin [OF d] by simp
  show ?thesis using neg by (simp add: mc_svpwm_time_calc_def Let_def p mul sub div del: fadd.simps fmul.simps fdiv.simps)
qed

lemma sector_over:
  assumes "sv_period svm = Fin PP" "0 \<le> t1" "0 \<le> t2" "t1 \<le> 2" "t2 \<le> 2" "1 + 1 / 1000 \<le> t1 + t2" "sv_tc \<in> {c1, c2, c3}"
  shows "svpwm_sector (Fin t1) (Fin t2) c1 c2 c3 svm = None"
  using assms(7) time_calc_over [OF assms(1-6)] by (auto simp: svpwm_sector_def Let_def split: bind_splits)

text \<open>
  Outside the linear region by a margin of \<open>1 / 500\<close>, and for voltages such as the two current
  controllers can demand together, \<open>mc_svpwm_gen\<close> computes a negative time and converts it to
  \<open>uint32_t\<close>, which is undefined: nothing limits the length of the voltage vector.
\<close>

theorem svpwm_overmodulation_undefined:
  assumes "sv_period svm = float_of_int PWM_PERIOD" and small: "\<bar>\<alpha>\<bar> \<le> 7 / 5" "\<bar>\<beta>\<bar> \<le> 7 / 5"
    and over: "1 + 1 / 500 \<le> \<bar>\<beta>\<bar> \<or> 1 + 1 / 500 \<le> QQ * \<bar>\<alpha>\<bar> + \<bar>\<beta>\<bar> / 2"
  shows "mc_svpwm_gen (Fin \<alpha>) (Fin \<beta>) svm = None"
proof -
  have b: "\<bar>\<alpha>\<bar> \<le> 2" "\<bar>\<beta>\<bar> \<le> 2" using small by simp_all
  obtain v w where v: "add32 (div32 (- Fin \<beta>) (Fin 2)) (mul32 SQRT3_BY2 (Fin \<alpha>)) = Fin v" "\<bar>v - (- \<beta> / 2 + QQ * \<alpha>)\<bar> \<le> 4 / 10000000"
    and w: "sub32 (div32 (- Fin \<beta>) (Fin 2)) (mul32 SQRT3_BY2 (Fin \<alpha>)) = Fin w" "\<bar>w - (- \<beta> / 2 - QQ * \<alpha>)\<bar> \<le> 4 / 10000000"
    by (rule phase_voltages [OF b])
  define g where "g = QQ * \<alpha>"
  have g: "\<bar>g\<bar> = QQ * \<bar>\<alpha>\<bar>" unfolding g_def abs_mult by simp
  have g2: "\<bar>g\<bar> \<le> 122 / 100" using small(1) unfolding g by linarith
  note vw = v(2) [folded g_def] w(2) [folded g_def]
  note ov = over [folded g]
  let ?svm = "svm\<lparr>sv_vr1 := Fin \<beta>, sv_vr2 := Fin v, sv_vr3 := Fin w\<rparr>"
  have P: "sv_period ?svm = Fin PP" using assms(1) SVPWM_period by simp
  note gen = mc_svpwm_gen_by_sector [OF v(1) w(1), of svm]
  note so = sector_over [OF P]
  have up: "\<bar>\<beta>\<bar> \<le> 2" "\<bar>v\<bar> \<le> 2" "\<bar>w\<bar> \<le> 2" using vw small(2) g2 by linarith+
  show ?thesis
  proof (cases "0 \<le> \<beta>")
    case pos: True
    show ?thesis
    proof (cases "0 \<le> v")
      case True
      have "1 + 1 / 1000 \<le> v + \<beta>" using ov vw pos True by (auto simp: abs_if split: if_splits)
      then show ?thesis using so [of v \<beta>] pos True up by (simp add: gen)
    next
      case neg: False
      show ?thesis
      proof (cases "0 \<le> w")
        case True
        have "1 + 1 / 1000 \<le> \<beta> + w" using ov vw pos True by (auto simp: abs_if split: if_splits)
        then show ?thesis using so [of \<beta> w] pos neg True up by (simp add: gen)
      next
        case False
        have "1 + 1 / 1000 \<le> - v + - w" using ov vw pos neg False by (auto simp: abs_if split: if_splits)
        then show ?thesis using so [of "- v" "- w"] pos neg False up by (simp add: gen)
      qed
    qed
  next
    case neg: False
    show ?thesis
    proof (cases "0 \<le> v")
      case pos: True
      show ?thesis
      proof (cases "0 \<le> w")
        case True
        have "1 + 1 / 1000 \<le> w + v" using ov vw pos neg True by (auto simp: abs_if split: if_splits)
        then show ?thesis using so [of w v] pos neg True up by (simp add: gen)
      next
        case False
        have "1 + 1 / 1000 \<le> - w + - \<beta>" using ov vw pos neg False by (auto simp: abs_if split: if_splits)
        then show ?thesis using so [of "- w" "- \<beta>"] pos neg False up by (simp add: gen)
      qed
    next
      case False
      have "1 + 1 / 1000 \<le> - \<beta> + - v" using ov vw neg False by (auto simp: abs_if split: if_splits)
      then show ?thesis using so [of "- \<beta>" "- v"] neg False up by (simp add: gen)
    qed
  qed
qed

theorem svpwm_overmodulation_undefined_witness:
  "mc_svpwm_gen (Fin (98 / 100)) (Fin (98 / 100)) SVPWM_INIT = None"
  by (rule svpwm_overmodulation_undefined) (simp_all add: SVPWM_INIT_def)

end
