(* ===== verification/Drivers.thy ===== *)
theory Drivers
  imports Prelude
begin

text \<open>
  The device drivers the motor control application uses: the PWM timer (\<open>drivers/drv_pwm.c\<close> with
  \<open>rt_drv_pwm.c\<close>) and the pulse encoder (\<open>drivers/drv_pulse_encoder.c\<close>). The state is that of the timer
  registers the HAL calls write. \<open>pclk1\<close> is the clock frequency the HAL reports.
\<close>

section \<open>PWM timer\<close>

text \<open>Channels are the HAL's channel numbers: 0, 4 and 8 for the channels 1, 2 and 3.\<close>

record tim =
  tim_psc :: u32
  tim_arr :: u32
  tim_ccr :: "u32 \<Rightarrow> u32"
  tim_running :: "u32 set"

record rt_pwm_configuration =
  cf_channel :: u32
  cf_period :: u32
  cf_pulse :: u32
  cf_complementary :: bool

text \<open>The timer clock in MHz.\<close>

definition tim_clock :: "u32 \<Rightarrow> 64 word" where
  "tim_clock pclk1 = (ucast (pclk1 * 2) :: 64 word) div 1000000"

definition drv_pwm_enable :: "rt_pwm_configuration \<Rightarrow> bool \<Rightarrow> tim \<Rightarrow> tim" where
  "drv_pwm_enable cfg enable h =
     (let channel = 4 * (cf_channel cfg - 1)
      in if \<not> enable then h\<lparr>tim_running := tim_running h - {channel}\<rparr>
         else h\<lparr>tim_running := insert channel (tim_running h)\<rparr>)"

definition drv_pwm_set :: "u32 \<Rightarrow> rt_pwm_configuration \<Rightarrow> tim \<Rightarrow> tim" where
  "drv_pwm_set pclk1 cfg h =
     (let channel = 4 * (cf_channel cfg - 1);
          clk = tim_clock pclk1;
          period0 = (ucast ((ucast (cf_period cfg) * clk :: 64 word) div 1000) :: u32);
          psc = (ucast (period0 div 65535 + 1) :: 64 word);
          period1 = (ucast ((ucast period0 :: 64 word) div psc) :: u32);
          period = (if period1 < 3 then 3 else period1);
          h1 = h\<lparr>tim_psc := ucast (psc - 1), tim_arr := period - 1\<rparr>;
          pulse0 = (ucast ((ucast (cf_pulse cfg) * clk :: 64 word) div psc div 1000) :: u32);
          pulse = (if pulse0 < 2 then 2 else if period < pulse0 then period else pulse0)
      in h1\<lparr>tim_ccr := (tim_ccr h1)(channel := pulse - 1)\<rparr>)"

text \<open>\<open>rt_pwm_enable\<close>, \<open>rt_pwm_disable\<close> and \<open>rt_pwm_set\<close> on a device that exists.\<close>

definition pwm_configuration :: "int \<Rightarrow> rt_pwm_configuration" where
  "pwm_configuration channel =
     \<lparr>cf_channel = of_int (if 0 < channel then channel else - channel), cf_period = 0, cf_pulse = 0,
      cf_complementary = (\<not> 0 < channel)\<rparr>"

definition rt_pwm_enable :: "int \<Rightarrow> tim \<Rightarrow> tim" where
  "rt_pwm_enable channel h = drv_pwm_enable (pwm_configuration channel) True h"

definition rt_pwm_disable :: "int \<Rightarrow> tim \<Rightarrow> tim" where
  "rt_pwm_disable channel h = drv_pwm_enable (pwm_configuration channel) False h"

definition rt_pwm_set :: "u32 \<Rightarrow> int \<Rightarrow> u32 \<Rightarrow> u32 \<Rightarrow> tim \<Rightarrow> tim" where
  "rt_pwm_set pclk1 channel period pulse h =
     drv_pwm_set pclk1 \<lparr>cf_channel = of_int channel, cf_period = period, cf_pulse = pulse, cf_complementary = False\<rparr> h"

section \<open>Pulse encoder\<close>

record stm32_pulse_encoder_device =
  enc_cnt :: u32            \<comment> \<open>the counter of the timer, from 0 to \<open>AUTO_RELOAD_VALUE\<close>\<close>
  over_under_flowcount :: int

abbreviation (input) AUTO_RELOAD_VALUE :: int where "AUTO_RELOAD_VALUE \<equiv> 32767"

definition pulse_encoder_clear_count :: "stm32_pulse_encoder_device \<Rightarrow> stm32_pulse_encoder_device" where
  "pulse_encoder_clear_count d = d\<lparr>over_under_flowcount := 0, enc_cnt := 0\<rparr>"

definition pulse_encoder_get_count :: "stm32_pulse_encoder_device \<Rightarrow> int" where
  "pulse_encoder_get_count d = sint (ucast (enc_cnt d) :: 16 word) + over_under_flowcount d * AUTO_RELOAD_VALUE"

definition pulse_encoder_update_isr :: "bool \<Rightarrow> stm32_pulse_encoder_device \<Rightarrow> stm32_pulse_encoder_device" where
  "pulse_encoder_update_isr counting_down d =
     (if counting_down then d\<lparr>over_under_flowcount := over_under_flowcount d - 1\<rparr>
      else d\<lparr>over_under_flowcount := over_under_flowcount d + 1\<rparr>)"

text \<open>
  An edge of the encoder: the timer counts from 0 to its reload value, and the interrupt handler runs
  when it passes from one to the other.
\<close>

definition encoder_edge :: "bool \<Rightarrow> stm32_pulse_encoder_device \<Rightarrow> stm32_pulse_encoder_device" where
  "encoder_edge up d =
     (if up
      then if enc_cnt d = of_int AUTO_RELOAD_VALUE then pulse_encoder_update_isr False (d\<lparr>enc_cnt := 0\<rparr>)
           else d\<lparr>enc_cnt := enc_cnt d + 1\<rparr>
      else if enc_cnt d = 0 then pulse_encoder_update_isr True (d\<lparr>enc_cnt := of_int AUTO_RELOAD_VALUE\<rparr>)
           else d\<lparr>enc_cnt := enc_cnt d - 1\<rparr>)"

section \<open>The count and the position\<close>

text \<open>The position in edges since the counter was cleared.\<close>

definition position :: "bool list \<Rightarrow> int" where
  "position es = (\<Sum>up\<leftarrow>es. if up then 1 else - 1)"

lemma encoder_edges:
  fixes d :: stm32_pulse_encoder_device
  shows "uint (enc_cnt (fold encoder_edge es (pulse_encoder_clear_count d))) = position es mod 32768 \<and>
    over_under_flowcount (fold encoder_edge es (pulse_encoder_clear_count d)) = position es div 32768"
proof (induction es rule: rev_induct)
  case Nil
  then show ?case by (simp add: position_def pulse_encoder_clear_count_def)
next
  case (snoc up es)
  define e where "e = fold encoder_edge es (pulse_encoder_clear_count d)"
  define p where "p = position es"
  have ih: "uint (enc_cnt e) = p mod 32768" "over_under_flowcount e = p div 32768" using snoc by (simp_all add: e_def p_def)
  define q r where "q = p div 32768" and "r = p mod 32768"
  have r: "0 \<le> r" "r < 32768" and pq: "p = r + 32768 * q" by (simp_all add: r_def q_def)
  have split: "(s + 32768 * k) mod 32768 = s" "(s + 32768 * k) div 32768 = k" if "0 \<le> s" "s < 32768" for s k :: int
    using that by simp_all
  have p': "position (es @ [up]) = p + (if up then 1 else - 1)" by (simp add: position_def p_def)
  have z: "enc_cnt e = 0 \<longleftrightarrow> r = 0" "enc_cnt e = 32767 \<longleftrightarrow> r = 32767"
    using ih(1) by (simp_all add: r_def word_uint_eq_iff)
  have inc: "uint (enc_cnt e + 1) = r + 1" using ih(1) r by (simp add: r_def uint_word_ariths)
  have dec: "uint (enc_cnt e - 1) = r - 1" if "r \<noteq> 0" using ih(1) r that by (simp add: r_def uint_word_ariths)
  have "uint (enc_cnt (encoder_edge up e)) = (p + (if up then 1 else - 1)) mod 32768 \<and>
    over_under_flowcount (encoder_edge up e) = (p + (if up then 1 else - 1)) div 32768"
  proof (cases up)
    case True
    show ?thesis
    proof (cases "r = 32767")
      case last: True
      then have "p + 1 = 0 + 32768 * (q + 1)" using pq by simp
      then show ?thesis using True last z ih(2) split [of 0 "q + 1"]
        by (simp add: encoder_edge_def pulse_encoder_update_isr_def q_def [symmetric])
    next
      case False
      have m: "(p + 1) mod 32768 = r + 1" "(p + 1) div 32768 = q"
        using False pq r split [of "r + 1" q] by (simp_all add: algebra_simps)
      then show ?thesis using True False z ih(2) inc
        by (simp add: encoder_edge_def q_def [symmetric])
    qed
  next
    case down: False
    show ?thesis
    proof (cases "r = 0")
      case True
      then have "p - 1 = 32767 + 32768 * (q - 1)" using pq by simp
      then show ?thesis using down True z ih(2) split [of 32767 "q - 1"]
        by (simp add: encoder_edge_def pulse_encoder_update_isr_def q_def [symmetric])
    next
      case False
      have m: "(p - 1) mod 32768 = r - 1" "(p - 1) div 32768 = q"
        using False pq r split [of "r - 1" q] by (simp_all add: algebra_simps)
      then show ?thesis using down False z ih(2) dec
        by (simp add: encoder_edge_def q_def [symmetric])
    qed
  qed
  then show ?case using p' by (simp add: e_def)
qed

text \<open>
  After any sequence of encoder edges since \<open>pulse_encoder_clear_count\<close>, \<open>pulse_encoder_get_count\<close>
  returns the position less one edge for every time the counter has wrapped around: the wrap-around
  is 32768 edges, and the code counts it as \<open>AUTO_RELOAD_VALUE\<close>, 32767.
\<close>

theorem encoder_count_drifts:
  "pulse_encoder_get_count (fold encoder_edge es (pulse_encoder_clear_count d)) = position es - position es div 32768"
proof -
  define e where "e = fold encoder_edge es (pulse_encoder_clear_count d)"
  define p where "p = position es"
  have c: "uint (enc_cnt e) = p mod 32768" "over_under_flowcount e = p div 32768"
    using encoder_edges [of es d] by (simp_all add: e_def p_def)
  have "sint (ucast (enc_cnt e) :: 16 word) = p mod 32768"
    using c(1) by (simp add: sint_uint unsigned_ucast_eq take_bit_int_eq_self signed_take_bit_int_eq_self)
  then have "pulse_encoder_get_count e = p mod 32768 + (p div 32768) * 32767" by (simp add: pulse_encoder_get_count_def c(2))
  also have "\<dots> = p - p div 32768" using mult_div_mod_eq [of 32768 p] by (simp add: algebra_simps)
  finally show ?thesis by (simp add: e_def p_def)
qed

text \<open>
  The PWM driver ignores that a channel is complementary: enabling or disabling the complementary
  output of a channel is the same as enabling or disabling the channel itself, so the inverted outputs
  are never started, and each half of \<open>mc_pwm_enable\<close> repeats the other.
\<close>

theorem complementary_ignored:
  "rt_pwm_enable (- ch) h = rt_pwm_enable ch h \<and> rt_pwm_disable (- ch) h = rt_pwm_disable ch h"
  by (cases "ch = 0") (auto simp: rt_pwm_enable_def rt_pwm_disable_def drv_pwm_enable_def pwm_configuration_def Let_def)

end
