(* ===== verification/Foc.thy ===== *)
theory Foc
  imports Angles Svm Drivers
begin

text \<open>
  The motor control loop of \<open>mc_foc.c\<close>: its state, start-up, rotor alignment, the handler of the current
  samples, and the shell command. The two ADC results, the encoder count and the clock frequency are
  arguments; \<open>None\<close> is undefined behaviour. GPIO toggles and printed texts are left out; the delays of
  the alignment do not change the state.
\<close>

section \<open>State\<close>

datatype mc_foc_enable_state_s = MC_FOC_ENABLE | MC_FOC_DISABLE

record mc_foc_context_t =
  enable_state :: mc_foc_enable_state_s
  com_mode :: u32
  control_sync :: u32

text \<open>
  The static variables of \<open>mc_foc.c\<close>, the PWM timer, and whether the injected conversions run and
  \<open>mc_adc_callback\<close> is registered as receive indication of the first ADC.
\<close>

record foc_state =
  p_context :: mc_foc_context_t
  input :: mc_input_signals_t
  transform :: mc_tansform_t
  svm :: mc_svpwm_t
  d_axis_controller :: mc_pi_controller_t
  q_axis_controller :: mc_pi_controller_t
  pwm_dev :: tim
  adc_injected :: bool
  rx_indicate :: bool

section \<open>Peripherals\<close>

definition mc_adc_enable :: "foc_state \<Rightarrow> foc_state" where
  "mc_adc_enable s = s\<lparr>adc_injected := True\<rparr>"

definition mc_adc_disable :: "foc_state \<Rightarrow> foc_state" where
  "mc_adc_disable s = s\<lparr>adc_injected := False\<rparr>"

definition mc_pwm_enable :: "tim \<Rightarrow> tim" where
  "mc_pwm_enable h = fold rt_pwm_enable [1, - 1, 2, - 2, 3, - 3] h"

definition mc_pwm_disable :: "tim \<Rightarrow> tim" where
  "mc_pwm_disable h = fold rt_pwm_disable [1, - 1, 2, - 2, 3, - 3] h"

definition mc_pwm_set :: "u32 \<Rightarrow> mc_svpwm_t \<Rightarrow> tim \<Rightarrow> tim" where
  "mc_pwm_set pclk1 sv h =
     h\<lparr>tim_ccr := (tim_ccr h)(0 := pwm_compare pclk1 (sv_pwm1 sv), 4 := pwm_compare pclk1 (sv_pwm2 sv),
                            8 := pwm_compare pclk1 (sv_pwm3 sv))\<rparr>"

section \<open>A sample\<close>

definition mc_foc :: "u32 \<Rightarrow> u32 \<Rightarrow> u32 \<Rightarrow> int \<Rightarrow> foc_state \<Rightarrow> foc_state option" where
  "mc_foc pclk1 adc1 adc2 count s =
     do { i1 \<leftarrow> mc_read_currents adc1 adc2 (input s);
          let i2 = mc_read_qe count i1;
          let i3 = i2\<lparr>in_e_angle := mc_wrap_angle (in_e_angle i2)\<rparr>;
          t1 \<leftarrow> mc_clarke_park_transform i3 (transform s);
          let q = mc_pi_control ((q_axis_controller s)\<lparr>pi_in_meas := tr_q_axis t1\<rparr>);
          let d = mc_pi_control ((d_axis_controller s)\<lparr>pi_in_meas := tr_d_axis t1\<rparr>);
          let t2 = mc_inverse_park_transform (t1\<lparr>tr_q_axis := pi_out q, tr_d_axis := pi_out d\<rparr>);
          sv \<leftarrow> mc_svpwm_gen (tr_alpha t2) (tr_beta t2) (svm s);
          Some (s\<lparr>input := i3, transform := t2, svm := sv, d_axis_controller := d, q_axis_controller := q,
                  pwm_dev := mc_pwm_set pclk1 sv (pwm_dev s)\<rparr>) }"

definition mc_adc_callback :: "u32 \<Rightarrow> u32 \<Rightarrow> u32 \<Rightarrow> int \<Rightarrow> foc_state \<Rightarrow> foc_state option" where
  "mc_adc_callback pclk1 adc1 adc2 count s =
     (if enable_state (p_context s) = MC_FOC_ENABLE then mc_foc pclk1 adc1 adc2 count s else Some s)"

text \<open>\<open>HAL_ADCEx_InjectedConvCpltCallback\<close> of \<open>drv_adc.c\<close>, at the end of an injected conversion.\<close>

definition injected_conversion_complete :: "u32 \<Rightarrow> u32 \<Rightarrow> u32 \<Rightarrow> int \<Rightarrow> foc_state \<Rightarrow> foc_state option" where
  "injected_conversion_complete pclk1 adc1 adc2 count s =
     (if rx_indicate s then mc_adc_callback pclk1 adc1 adc2 count s else Some s)"

section \<open>Start-up\<close>

text \<open>One pass of \<open>mc_rotor_alignment\<close>: the vector of the alignment at an angle.\<close>

definition alignment_pass :: "u32 \<Rightarrow> fp \<Rightarrow> foc_state \<Rightarrow> foc_state option" where
  "alignment_pass pclk1 angle s =
     do { let i = (input s)\<lparr>in_e_angle := angle\<rparr>;
          (sn, cs) \<leftarrow> mc_calc_sin_cos angle;
          let t = mc_inverse_park_transform ((transform s)\<lparr>tr_sin_angle := sn, tr_cos_angle := cs\<rparr>);
          sv \<leftarrow> mc_svpwm_gen (tr_alpha t) (tr_beta t) (svm s);
          Some (s\<lparr>input := i, transform := t, svm := sv, pwm_dev := mc_pwm_set pclk1 sv (pwm_dev s)\<rparr>) }"

definition mc_rotor_alignment :: "u32 \<Rightarrow> foc_state \<Rightarrow> foc_state option" where
  "mc_rotor_alignment pclk1 s =
     do { s1 \<leftarrow> alignment_pass pclk1 (to_float M_PI)
                  (s\<lparr>transform := (transform s)\<lparr>tr_d_axis := Fin 0, tr_q_axis := float_lit (5 / 10)\<rparr>\<rparr>);
          s2 \<leftarrow> alignment_pass pclk1 (to_float (div64 (mul64 (Fin 3) M_PI) (Fin 2))) s1;
          Some (s2\<lparr>svm := SVPWM_INIT, pwm_dev := mc_pwm_set pclk1 SVPWM_INIT (pwm_dev s2)\<rparr>) }"

text \<open>The static initialisers.\<close>

definition foc_static :: "mc_foc_context_t \<Rightarrow> tim \<Rightarrow> foc_state" where
  "foc_static ctx h =
     \<lparr>p_context = ctx,
      input = \<lparr>in_ia = Fin 0, in_ib = Fin 0, in_ic = Fin 0, in_e_angle = Fin 0, in_speed = Fin 0,
               in_qe_angle_sum = Fin 0, in_qe_count = 0, in_a_offset = 0, in_b_offset = 0, in_c_offset = 0\<rparr>,
      transform = \<lparr>tr_alpha = Fin 0, tr_beta = Fin 0, tr_q_axis = Fin 0, tr_d_axis = Fin 0,
                   tr_cos_angle = Fin 0, tr_sin_angle = Fin 0\<rparr>,
      svm = SVPWM_INIT, d_axis_controller = AXIS_CONTROLLER_INIT, q_axis_controller = AXIS_CONTROLLER_INIT,
      pwm_dev = h, adc_injected = False, rx_indicate = False\<rparr>"

text \<open>
  \<open>mc_foc_init\<close>. The context comes from \<open>rt_malloc\<close>: \<open>None\<close>, or memory with arbitrary contents, of which
  only \<open>com_mode\<close> is set at once. \<open>devices\<close> says for each of the four devices, in the order they are
  looked up, whether \<open>rt_device_find\<close> finds it. The mailbox and the thread are those of the kernel
  model; \<open>rt_mb_init\<close> does not fail.
\<close>

definition mc_foc_init :: "u32 \<Rightarrow> mc_foc_context_t option \<Rightarrow> bool list \<Rightarrow> tim \<Rightarrow> (foc_state \<times> rt_err_t) option" where
  "mc_foc_init pclk1 memory devices h =
     do { ctx \<leftarrow> memory;
          let s0 = foc_static (ctx\<lparr>com_mode := 0\<rparr>) h;
          if False \<in> set devices then Some (s0, - RT_ERROR)
          else
            do { let s1 = s0\<lparr>input := (input s0)\<lparr>in_a_offset := 4095 div 2, in_b_offset := 4095 div 2\<rparr>\<rparr>;
                 let s2 = mc_adc_enable s1;
                 let h1 = rt_pwm_set pclk1 1 (of_int PWM_PERIOD) (sv_pwm1 (svm s2)) (mc_pwm_enable (pwm_dev s2));
                 let h2 = rt_pwm_set pclk1 2 (of_int PWM_PERIOD) (sv_pwm2 (svm s2)) h1;
                 let h3 = rt_pwm_set pclk1 3 (of_int PWM_PERIOD) (sv_pwm3 (svm s2)) h2;
                 s3 \<leftarrow> mc_rotor_alignment pclk1 (s2\<lparr>pwm_dev := h3\<rparr>);
                 let s4 = s3\<lparr>input := (input s3)\<lparr>in_e_angle := Fin 0\<rparr>, rx_indicate := True\<rparr>;
                 Some (s4\<lparr>p_context := (p_context s4)\<lparr>enable_state := MC_FOC_ENABLE\<rparr>\<rparr>, RT_EOK) } }"

section \<open>The shell command\<close>

definition mc_foc_enable :: "foc_state \<Rightarrow> foc_state" where
  "mc_foc_enable s =
     (if enable_state (p_context s) \<noteq> MC_FOC_ENABLE
      then let s1 = mc_adc_enable (s\<lparr>p_context := (p_context s)\<lparr>enable_state := MC_FOC_ENABLE\<rparr>\<rparr>)
           in s1\<lparr>pwm_dev := mc_pwm_enable (pwm_dev s1)\<rparr>
      else s)"

definition mc_foc_disable :: "foc_state \<Rightarrow> foc_state" where
  "mc_foc_disable s =
     (if enable_state (p_context s) \<noteq> MC_FOC_DISABLE
      then let s1 = mc_adc_disable (s\<lparr>p_context := (p_context s)\<lparr>enable_state := MC_FOC_DISABLE\<rparr>\<rparr>)
           in s1\<lparr>pwm_dev := mc_pwm_disable (pwm_dev s1)\<rparr>
      else s)"

text \<open>
  \<open>mc_set_demand\<close> as configured, for torque. The printed value is converted to \<open>int\<close>, which is
  undefined when it does not fit.
\<close>

definition int32_defined :: "fp \<Rightarrow> bool" where
  "int32_defined a \<longleftrightarrow> (case a of Fin x \<Rightarrow> - (2 ^ 31) - 1 < x \<and> x < 2 ^ 31 | _ \<Rightarrow> False)"

definition mc_set_demand :: "fp \<Rightarrow> foc_state \<Rightarrow> foc_state option" where
  "mc_set_demand setpoint s =
     (let sp = mc_impose_limits setpoint (Fin (- 1)) (Fin 1);
          s1 = s\<lparr>d_axis_controller := (d_axis_controller s)\<lparr>pi_in_ref := sp\<rparr>\<rparr>
      in if int32_defined (mul32 sp (Fin 100)) then Some s1 else None)"

abbreviation (input) COM_SPEED_MASK :: u32 where "COM_SPEED_MASK \<equiv> 1"
abbreviation (input) COM_CURRENT_MASK :: u32 where "COM_CURRENT_MASK \<equiv> 2"
abbreviation (input) COM_DQ_MASK :: u32 where "COM_DQ_MASK \<equiv> 4"
abbreviation (input) COM_ALPHA_BETA_MASK :: u32 where "COM_ALPHA_BETA_MASK \<equiv> 8"

definition foc_print :: "string \<Rightarrow> u32 \<Rightarrow> u32" where
  "foc_print a m =
     (let m1 = (if a = ''sp'' then m OR COM_SPEED_MASK else m);
          m2 = (if a = ''cur'' then m1 OR COM_CURRENT_MASK else m1);
          m3 = (if a = ''dq'' then m2 OR COM_DQ_MASK else m2);
          m4 = (if a = ''ab'' then m3 OR COM_ALPHA_BETA_MASK else m3)
      in if a = ''stop'' then 0 else m4)"

text \<open>\<open>foc\<close> with the words of the command line; \<open>atof\<close> is that of the C library.\<close>

definition foc :: "(string \<Rightarrow> fp) \<Rightarrow> string list \<Rightarrow> foc_state \<Rightarrow> foc_state option" where
  "foc atof argv s =
     (if 1 < length argv
      then if argv ! 1 = ''enable'' then Some (mc_foc_enable s)
           else if argv ! 1 = ''disable'' then Some (mc_foc_disable s)
           else if argv ! 1 = ''print''
           then if length argv = 3
                then Some (s\<lparr>p_context := (p_context s)\<lparr>com_mode := foc_print (argv ! 2) (com_mode (p_context s))\<rparr>\<rparr>)
                else Some s
           else if argv ! 1 = ''s''
           then if length argv = 3 then mc_set_demand (to_float (atof (argv ! 2))) s else Some s
           else Some s
      else Some s)"

text \<open>
  What happens after start-up: a conversion completes, while they run, or a command is entered. The
  ADC has 12 bits, and the count is an \<open>rt_int32_t\<close>.
\<close>

inductive foc_step :: "u32 \<Rightarrow> (string \<Rightarrow> fp) \<Rightarrow> foc_state \<Rightarrow> foc_state \<Rightarrow> bool" for pclk1 atof where
  sample: "adc_injected s \<Longrightarrow> adc1 \<le> 4095 \<Longrightarrow> adc2 \<le> 4095 \<Longrightarrow>
    injected_conversion_complete pclk1 adc1 adc2 count s = Some s' \<Longrightarrow> foc_step pclk1 atof s s'"
| command: "foc atof argv s = Some s' \<Longrightarrow> foc_step pclk1 atof s s'"

end
