(* ===== verification/Foc_Loop.thy ===== *)
theory Foc_Loop
  imports Foc
begin

text \<open>
  The control loop of \<open>Foc\<close> as a whole: bounds for the measured currents, the controllers and the voltage
  vector, the invariant they give, and what holds in every state the loop can reach.
\<close>

section \<open>Sine and cosine are almost on the unit circle\<close>

lemma square_convex:
  fixes a b t :: rat
  assumes "0 \<le> t" "t \<le> 1"
  shows "(a + (b - a) * t)\<^sup>2 \<le> (1 - t) * a\<^sup>2 + t * b\<^sup>2"
proof -
  have "(1 - t) * a\<^sup>2 + t * b\<^sup>2 - (a + (b - a) * t)\<^sup>2 = t * (1 - t) * (a - b)\<^sup>2"
    by (simp add: power2_eq_square algebra_simps)
  moreover have "0 \<le> t * (1 - t) * (a - b)\<^sup>2" using assms by simp
  ultimately show ?thesis by linarith
qed

lemma table_point_circle:
  assumes "i < 256"
  shows "(of_int (sine_digits ! i) / 10 ^ 6)\<^sup>2 + (of_int (cosine_digits ! i) / 10 ^ 6)\<^sup>2 \<le> (1 + 12 / 10 ^ 7 :: rat)"
proof -
  let ?s = "sine_digits ! i" and ?c = "cosine_digits ! i"
  have "\<bar>?s * ?s + ?c * ?c - 10 ^ 12\<bar> \<le> 1200000"
    using list_all2_nthD [OF tables_near_circle] assms table_lengths by simp
  then have "?s * ?s + ?c * ?c \<le> 1000001200000" by simp
  then have "of_int (?s * ?s + ?c * ?c) \<le> (1000001200000 :: rat)" by (metis of_int_le_iff of_int_numeral)
  then show ?thesis by (simp add: power2_eq_square)
qed

lemma chord_circle:
  assumes "i < 256" "of_nat i \<le> t" "t \<le> of_nat i + 1"
  shows "(chord sine_digits i t)\<^sup>2 + (chord cosine_digits i t)\<^sup>2 \<le> 1 + 12 / 10 ^ 7"
proof -
  let ?u = "t - of_nat i" and ?j = "Suc i mod 256" and ?y = "\<lambda>d k. of_int (d ! k) / 10 ^ 6 :: rat"
  have u: "0 \<le> ?u" "?u \<le> 1" using assms by simp_all
  have "(chord d i t)\<^sup>2 \<le> (1 - ?u) * (?y d i)\<^sup>2 + ?u * (?y d ?j)\<^sup>2" for d
    unfolding chord_def Let_def by (rule square_convex [OF u])
  from add_mono [OF this [of sine_digits] this [of cosine_digits]]
  have "(chord sine_digits i t)\<^sup>2 + (chord cosine_digits i t)\<^sup>2 \<le>
      (1 - ?u) * ((?y sine_digits i)\<^sup>2 + (?y cosine_digits i)\<^sup>2) + ?u * ((?y sine_digits ?j)\<^sup>2 + (?y cosine_digits ?j)\<^sup>2)"
    by (simp only: distrib_left add_ac)
  also have "\<dots> \<le> (1 - ?u) * (1 + 12 / 10 ^ 7) + ?u * (1 + 12 / 10 ^ 7)"
    by (rule add_mono [OF mult_left_mono mult_left_mono], rule table_point_circle [OF assms(1)], use u in simp,
        rule table_point_circle, simp, rule u)
  also have "\<dots> = 1 + 12 / 10 ^ 7" by (simp only: distrib_right [symmetric] diff_add_cancel mult_1_left)
  finally show ?thesis .
qed

lemma square_near:
  fixes x y :: rat
  assumes "\<bar>x - y\<bar> \<le> 1 / 10 ^ 6" "\<bar>y\<bar> \<le> 2"
  shows "x\<^sup>2 \<le> y\<^sup>2 + 41 / 10 ^ 7"
proof -
  have "x\<^sup>2 = y\<^sup>2 + (2 * y * (x - y) + (x - y)\<^sup>2)" by (simp add: power2_eq_square algebra_simps)
  moreover have "\<bar>2 * y * (x - y)\<bar> \<le> (2 * 2) * (1 / 10 ^ 6)" unfolding abs_mult using assms by (intro mult_mono) auto
  moreover have "(x - y)\<^sup>2 \<le> (1 / 10 ^ 6)\<^sup>2" using assms(1) by (metis abs_ge_zero power2_abs power_mono)
  ultimately show ?thesis by (simp add: power2_eq_square)
qed

lemma sin_cos_circle:
  assumes "is_float binary32 (Fin x)" "- TA \<le> x" "x < 2 * TA"
  obtains s c where "mc_calc_sin_cos (Fin x) = Some (Fin s, Fin c)" "s\<^sup>2 + c\<^sup>2 \<le> 1 + 1 / 10 ^ 5"
proof -
  obtain i t s c where i: "i < 256" "of_nat i \<le> t" "t \<le> of_nat i + 1"
    and sc: "mc_calc_sin_cos (Fin x) = Some (Fin s, Fin c)"
    and n: "\<bar>s - chord sine_digits i t\<bar> \<le> 1 / 10 ^ 6" "\<bar>c - chord cosine_digits i t\<bar> \<le> 1 / 10 ^ 6"
    using sin_cos_chord [OF TOTAL_value assms] by blast
  let ?S = "chord sine_digits i t" and ?C = "chord cosine_digits i t"
  have SC: "?S\<^sup>2 + ?C\<^sup>2 \<le> 1 + 12 / 10 ^ 7" by (rule chord_circle [OF i])
  have "(12 / 10 ^ 7 :: rat) \<le> 1" by simp
  then have "?S\<^sup>2 \<le> 4" "?C\<^sup>2 \<le> 4" using SC zero_le_power2 [of ?S] zero_le_power2 [of ?C] by linarith+
  then have b: "\<bar>?S\<bar> \<le> 2" "\<bar>?C\<bar> \<le> 2" using abs_le_square_iff [of _ "2 :: rat"] by simp_all
  have "s\<^sup>2 + c\<^sup>2 \<le> 1 + 1 / 10 ^ 5" using square_near [OF n(1) b(1)] square_near [OF n(2) b(2)] SC by simp
  then show thesis using that sc by blast
qed

section \<open>The voltage vector\<close>

lemma rotation_norm: "(d * c - q * s)\<^sup>2 + (d * s + q * c)\<^sup>2 = (d\<^sup>2 + q\<^sup>2) * (s\<^sup>2 + c\<^sup>2)" for d :: rat
  by (simp add: power2_eq_square algebra_simps)

lemma component_bound:
  fixes a b :: rat
  assumes "a\<^sup>2 + b\<^sup>2 \<le> k" "k \<le> m\<^sup>2" "0 \<le> m"
  shows "\<bar>a\<bar> \<le> m" "\<bar>b\<bar> \<le> m"
proof -
  have "a\<^sup>2 \<le> m\<^sup>2" "b\<^sup>2 \<le> m\<^sup>2" using assms(1,2) zero_le_power2 [of a] zero_le_power2 [of b] by linarith+
  then show "\<bar>a\<bar> \<le> m" "\<bar>b\<bar> \<le> m" using abs_le_square_iff [of a m] abs_le_square_iff [of b m] assms(3) by simp_all
qed

lemma inner_product_le: "(p * x + q * y)\<^sup>2 \<le> (p\<^sup>2 + q\<^sup>2) * (x\<^sup>2 + y\<^sup>2)" for p :: rat
proof -
  have "(p\<^sup>2 + q\<^sup>2) * (x\<^sup>2 + y\<^sup>2) - (p * x + q * y)\<^sup>2 = (p * y - q * x)\<^sup>2" by (simp add: power2_eq_square algebra_simps)
  then show ?thesis using zero_le_power2 [of "p * y - q * x"] by linarith
qed

text \<open>A vector of length at most \<open>0.987\<close> is in the linear region.\<close>

lemma linear_region:
  fixes a b :: rat
  assumes "a\<^sup>2 + b\<^sup>2 \<le> 974 / 1000"
  shows "\<bar>b\<bar> \<le> 987 / 1000" "QQ * \<bar>a\<bar> + \<bar>b\<bar> / 2 \<le> 988 / 1000" "\<bar>a\<bar> \<le> 1"
proof -
  show "\<bar>b\<bar> \<le> 987 / 1000" by (rule component_bound(2) [OF assms]) (simp_all add: power2_eq_square)
  show "\<bar>a\<bar> \<le> 1" by (rule component_bound(1) [OF assms]) simp_all
  have "(QQ * \<bar>a\<bar> + 1 / 2 * \<bar>b\<bar>)\<^sup>2 \<le> (QQ\<^sup>2 + (1 / 2)\<^sup>2) * (\<bar>a\<bar>\<^sup>2 + \<bar>b\<bar>\<^sup>2)" by (rule inner_product_le)
  also have "\<dots> = (QQ\<^sup>2 + (1 / 2)\<^sup>2) * (a\<^sup>2 + b\<^sup>2)" unfolding power2_abs ..
  also have "\<dots> \<le> (QQ\<^sup>2 + (1 / 2)\<^sup>2) * (974 / 1000)" using assms by (intro mult_left_mono) simp_all
  also have "\<dots> \<le> (988 / 1000)\<^sup>2" by (simp add: power2_eq_square)
  finally show "QQ * \<bar>a\<bar> + \<bar>b\<bar> / 2 \<le> 988 / 1000" using power2_le_imp_le [of "QQ * \<bar>a\<bar> + 1 / 2 * \<bar>b\<bar>" "988 / 1000"] by simp
qed

text \<open>The inverse Park transform up to rounding.\<close>

lemma inverse_park_near:
  assumes t: "tr_d_axis t = Fin d" "tr_q_axis t = Fin q" "tr_sin_angle t = Fin s" "tr_cos_angle t = Fin c"
    and b: "\<bar>d\<bar> \<le> 1" "\<bar>q\<bar> \<le> 1" "s\<^sup>2 + c\<^sup>2 \<le> 1 + 1 / 10 ^ 5"
  obtains \<alpha> \<beta> where "tr_alpha (mc_inverse_park_transform t) = Fin \<alpha>" "tr_beta (mc_inverse_park_transform t) = Fin \<beta>"
    "\<bar>\<alpha> - (d * c - q * s)\<bar> \<le> 1 / 1000000" "\<bar>\<beta> - (d * s + q * c)\<bar> \<le> 1 / 1000000"
proof -
  let ?R = "fl_round binary32"
  have err: "\<bar>?R x - x\<bar> \<le> 1 / 8388608" if "\<bar>x\<bar> < 4" for x using round32_error [of x 1] that by simp
  have fin: "to_format binary32 x = Fin (?R x)" if "\<bar>x\<bar> < 4" for x using that by (simp add: to_format32)
  have sc: "\<bar>s\<bar> \<le> 101 / 100" "\<bar>c\<bar> \<le> 101 / 100"
    by (rule component_bound(1) [OF b(3)] component_bound(2) [OF b(3)]; simp add: power2_eq_square)+
  have p: "\<bar>x * y\<bar> \<le> 101 / 100" if "\<bar>x\<bar> \<le> 1" "\<bar>y\<bar> \<le> 101 / 100" for x y :: rat
    using mult_mono [OF that] by (simp add: abs_mult)
  have m: "mul32 (Fin x) (Fin y) = Fin (?R (x * y)) \<and> \<bar>?R (x * y) - x * y\<bar> \<le> 1 / 8388608 \<and> \<bar>?R (x * y)\<bar> < 2"
    if "\<bar>x\<bar> \<le> 1" "\<bar>y\<bar> \<le> 101 / 100" for x y :: rat
  proof -
    have xy: "\<bar>x * y\<bar> < 4" using p [OF that] by simp
    have "\<bar>?R (x * y)\<bar> < 2" using err [OF xy] p [OF that] by linarith
    then show ?thesis using err [OF xy] fin [OF xy] by simp
  qed
  note mm = m [OF b(1) sc(2)] m [OF b(2) sc(1)] m [OF b(1) sc(1)] m [OF b(2) sc(2)]
  note prods = mm [THEN conjunct1]
  note er = mm [THEN conjunct2, THEN conjunct1] and bd = mm [THEN conjunct2, THEN conjunct2]
  have x: "\<bar>?R (d * c) - ?R (q * s)\<bar> < 4" "\<bar>?R (d * s) + ?R (q * c)\<bar> < 4"
    by (use bd(1,2) in linarith, use bd(3,4) in linarith)
  show thesis
  proof (rule that)
    show "tr_alpha (mc_inverse_park_transform t) = Fin (?R (?R (d * c) - ?R (q * s)))"
      unfolding fin [OF x(1), symmetric] by (simp add: mc_inverse_park_transform_def Let_def t fsub_def prods del: fmul.simps)
    show "tr_beta (mc_inverse_park_transform t) = Fin (?R (?R (d * s) + ?R (q * c)))"
      unfolding fin [OF x(2), symmetric] by (simp add: mc_inverse_park_transform_def Let_def t prods del: fmul.simps)
    show "\<bar>?R (?R (d * c) - ?R (q * s)) - (d * c - q * s)\<bar> \<le> 1 / 1000000" using er(1,2) err [OF x(1)] by linarith
    show "\<bar>?R (?R (d * s) + ?R (q * c)) - (d * s + q * c)\<bar> \<le> 1 / 1000000" using er(3,4) err [OF x(2)] by linarith
  qed
qed

text \<open>A demand of length at most \<open>0.9868\<close> can be modulated at every angle.\<close>

lemma modulation_defined:
  assumes t: "tr_d_axis t = Fin d" "tr_q_axis t = Fin q" "tr_sin_angle t = Fin s" "tr_cos_angle t = Fin c"
    and b: "d\<^sup>2 + q\<^sup>2 \<le> 9739 / 10000" "s\<^sup>2 + c\<^sup>2 \<le> 1 + 1 / 10 ^ 5" and p: "sv_period sv = float_of_int PWM_PERIOD"
  defines "t' \<equiv> mc_inverse_park_transform t"
  obtains sv' where "mc_svpwm_gen (tr_alpha t') (tr_beta t') sv = Some sv'" "sv_period sv' = float_of_int PWM_PERIOD"
    "uint (sv_pwm1 sv') \<le> 50755" "uint (sv_pwm2 sv') \<le> 50755" "uint (sv_pwm3 sv') \<le> 50755"
proof -
  have "\<bar>d\<bar> \<le> 1" "\<bar>q\<bar> \<le> 1" by (rule component_bound(1) [OF b(1)] component_bound(2) [OF b(1)]; simp)+
  from inverse_park_near [OF t this b(2)] obtain \<alpha> \<beta> where
    ab: "tr_alpha t' = Fin \<alpha>" "tr_beta t' = Fin \<beta>" "\<bar>\<alpha> - (d * c - q * s)\<bar> \<le> 1 / 1000000" "\<bar>\<beta> - (d * s + q * c)\<bar> \<le> 1 / 1000000"
    unfolding t'_def by blast
  have "(d * c - q * s)\<^sup>2 + (d * s + q * c)\<^sup>2 \<le> 9739 / 10000 * (1 + 1 / 10 ^ 5)"
    unfolding rotation_norm using b by (intro mult_mono) simp_all
  then have "(d * c - q * s)\<^sup>2 + (d * s + q * c)\<^sup>2 \<le> 974 / 1000" by simp
  note l = linear_region [OF this]
  have "\<bar>\<beta>\<bar> \<le> 1" using ab(4) l(1) by linarith
  moreover have "QQ * \<bar>\<alpha>\<bar> + \<bar>\<beta>\<bar> / 2 \<le> 1"
  proof -
    have "\<bar>\<alpha>\<bar> \<le> \<bar>d * c - q * s\<bar> + 1 / 1000000" "\<bar>\<beta>\<bar> \<le> \<bar>d * s + q * c\<bar> + 1 / 1000000" using ab(3,4) by linarith+
    then show ?thesis using l(2) by simp
  qed
  ultimately obtain sv' where "mc_svpwm_gen (Fin \<alpha>) (Fin \<beta>) sv = Some sv'" "duties_for \<alpha> \<beta> sv'"
    using svpwm_gen_duties [of sv \<beta> \<alpha>] p SVPWM_period by auto
  then show thesis
    using that svpwm_gen_period [of "Fin \<alpha>" "Fin \<beta>" sv sv'] p ab(1,2) by (simp add: duties_for_def Let_def)
qed

section \<open>The measured currents\<close>

lemma adc_scale: "div32 (Fin 1) (Fin 4095) = Fin (8390657 / 34359738368)"
  by (simp, subst to_format_near [where u = "- 35" and m = "8390657"]) simp_all

lemma fl32_near:
  assumes "\<bar>x\<bar> < 4"
  shows "to_format binary32 x = Fin (fl_round binary32 x)" "\<bar>fl_round binary32 x - x\<bar> \<le> 1 / 8388608"
  using assms to_format32 [of x] round32_error [of x 1] by simp_all

lemma adc_current_bound:
  assumes "adc \<le> 4095"
  obtains x where "adc_current adc 2047 = Some (Fin x)" "\<bar>x\<bar> \<le> 501 / 1000"
proof -
  let ?d = "sint adc - 2047" and ?k = "8390657 / 34359738368 :: rat"
  have u: "uint adc \<le> 4095" using assms by (simp add: word_le_def)
  have "- (2 ^ 31) \<le> uint adc" by (rule order_trans [OF _ uint_ge_0]) simp
  then have "sint adc = uint adc" using u unfolding sint_uint by (intro signed_take_bit_int_eq_self) simp_all
  then have d: "- 2047 \<le> ?d" "?d \<le> 2048" using uint_ge_0 [of adc] u by simp_all
  have f: "float_of_int ?d = Fin (of_int ?d)" by (rule float_of_small_int) (use d in simp)
  define w :: rat where "w = of_int ?d"
  have "of_int ?d \<le> (of_int 2048 :: rat)" "(of_int (- 2047) :: rat) \<le> of_int ?d" using d unfolding of_int_le_iff by blast+
  then have "w \<le> 2048" "- 2047 \<le> w" unfolding w_def of_int_numeral of_int_minus .
  then have b: "\<bar>?k * w\<bar> \<le> 5002 / 10000" by linarith
  then have b4: "\<bar>?k * w\<bar> < 4" by simp
  have "\<bar>fl_round binary32 (?k * w)\<bar> \<le> 501 / 1000" using fl32_near(2) [OF b4] b by linarith
  moreover have "adc_current adc 2047 = Some (Fin (fl_round binary32 (?k * w)))"
    using d fl32_near(1) [OF b4] by (simp only: adc_current_def Let_def adc_scale f [folded w_def] fmul.simps if_True) simp
  ultimately show thesis using that by blast
qed

lemma transform_constants:
  "ONE_BY_SQRT3 = Fin (4843165 / 8388608)" "TWO_BY_SQRT3 = Fin (4843165 / 4194304)"
proof -
  show "ONE_BY_SQRT3 = Fin (4843165 / 8388608)"
    unfolding ONE_BY_SQRT3_def double_lit_def
    by (subst to_format_near [where u = "- 53" and m = "5200308913562031"], simp_all add: binary64_def,
        subst to_format_near [where u = "- 24" and m = "9686330"], simp_all)
  show "TWO_BY_SQRT3 = Fin (4843165 / 4194304)"
    unfolding TWO_BY_SQRT3_def double_lit_def
    by (subst to_format_near [where u = "- 52" and m = "5200308914462751"], simp_all add: binary64_def,
        subst to_format_near [where u = "- 23" and m = "9686330"], simp_all)
qed

text \<open>The product of two numbers of at most given size.\<close>

lemma mul32_bound:
  assumes "\<bar>x\<bar> \<le> a" "\<bar>y\<bar> \<le> b" "a * b \<le> c" "c < 3"
  obtains z where "mul32 (Fin x) (Fin y) = Fin z" "\<bar>z\<bar> \<le> c + 1 / 8388608"
proof -
  have "\<bar>x * y\<bar> \<le> c" using mult_mono [OF assms(1,2)] assms(3) abs_ge_zero [of x] assms(1) by (simp add: abs_mult)
  then have l: "\<bar>x * y\<bar> < 4" "\<bar>x * y\<bar> \<le> c" using assms(4) by simp_all
  have "\<bar>fl_round binary32 (x * y)\<bar> \<le> c + 1 / 8388608" using fl32_near(2) [OF l(1)] l(2) by linarith
  then show thesis using that [of "fl_round binary32 (x * y)"] fl32_near(1) [OF l(1)] by simp
qed

lemma add32_bound:
  assumes "\<bar>x\<bar> \<le> a" "\<bar>y\<bar> \<le> b" "a + b \<le> c" "c < 3"
  obtains z where "add32 (Fin x) (Fin y) = Fin z" "\<bar>z\<bar> \<le> c + 1 / 8388608"
proof -
  have l: "\<bar>x + y\<bar> < 4" "\<bar>x + y\<bar> \<le> c" using assms by simp_all
  have "\<bar>fl_round binary32 (x + y)\<bar> \<le> c + 1 / 8388608" using fl32_near(2) [OF l(1)] l(2) by linarith
  then show thesis using that [of "fl_round binary32 (x + y)"] fl32_near(1) [OF l(1)] by simp
qed

text \<open>The transforms keep the \<open>q\<close> axis and deliver a \<open>d\<close> axis of at most 2.\<close>

lemma clarke_park_bound:
  assumes i: "in_ia i = Fin x" "in_ib i = Fin y" "\<bar>x\<bar> \<le> 501 / 1000" "\<bar>y\<bar> \<le> 501 / 1000"
    and a: "mc_calc_sin_cos (in_e_angle i) = Some (Fin s, Fin c)" "s\<^sup>2 + c\<^sup>2 \<le> 1 + 1 / 10 ^ 5"
  obtains t m where "mc_clarke_park_transform i tr = Some t" "tr_d_axis t = Fin m" "\<bar>m\<bar> \<le> 2"
    "tr_q_axis t = tr_q_axis tr" "tr_sin_angle t = Fin s" "tr_cos_angle t = Fin c"
proof -
  have sc: "\<bar>s\<bar> \<le> 101 / 100" "\<bar>c\<bar> \<le> 101 / 100"
    by (rule component_bound(1) [OF a(2)] component_bound(2) [OF a(2)]; simp add: power2_eq_square)+
  obtain p1 where p1: "mul32 (Fin x) ONE_BY_SQRT3 = Fin p1" "\<bar>p1\<bar> \<le> 290 / 1000 + 1 / 8388608"
    unfolding transform_constants by (rule mul32_bound [OF i(3), of "4843165 / 8388608" "578 / 1000" "290 / 1000"]) auto
  obtain p2 where p2: "mul32 (Fin y) TWO_BY_SQRT3 = Fin p2" "\<bar>p2\<bar> \<le> 580 / 1000 + 1 / 8388608"
    unfolding transform_constants by (rule mul32_bound [OF i(4), of "4843165 / 4194304" "1156 / 1000" "580 / 1000"]) auto
  obtain b where b: "add32 (Fin p1) (Fin p2) = Fin b" "\<bar>b\<bar> \<le> 871 / 1000 + 1 / 8388608"
    by (rule add32_bound [OF p1(2) p2(2), of "871 / 1000"]) auto
  have prods: "\<exists>z. mul32 (Fin u) (Fin v) = Fin z \<and> \<bar>z\<bar> \<le> 9 / 10" if "\<bar>u\<bar> \<le> 872 / 1000" "\<bar>v\<bar> \<le> 101 / 100" for u v
    by (rule mul32_bound [OF that, of "89 / 100"]) (auto intro: order_trans)
  have xb: "\<bar>x\<bar> \<le> 872 / 1000" "\<bar>- x\<bar> \<le> 872 / 1000" "\<bar>b\<bar> \<le> 872 / 1000" using i(3) b(2) by simp_all
  obtain q1 q2 where q: "mul32 (Fin x) (Fin c) = Fin q1" "mul32 (Fin b) (Fin s) = Fin q2"
    using prods [OF xb(1) sc(2)] prods [OF xb(3) sc(1)] by blast
  obtain r1 r2 where r: "mul32 (Fin (- x)) (Fin s) = Fin r1" "\<bar>r1\<bar> \<le> 9 / 10" "mul32 (Fin b) (Fin c) = Fin r2" "\<bar>r2\<bar> \<le> 9 / 10"
    using prods [OF xb(2) sc(1)] prods [OF xb(3) sc(2)] by blast
  obtain m where m: "add32 (Fin r1) (Fin r2) = Fin m" "\<bar>m\<bar> \<le> 9 / 5 + 1 / 8388608"
    by (rule add32_bound [OF r(2) r(4), of "9 / 5"]) auto
  show thesis
  proof (rule that)
    show "mc_clarke_park_transform i tr =
        Some (tr\<lparr>tr_alpha := Fin x, tr_beta := Fin b, tr_sin_angle := Fin s, tr_cos_angle := Fin c, tr_d_axis := Fin m\<rparr>)"
      by (simp add: mc_clarke_park_transform_def Let_def i(1,2) a(1) p1(1) p2(1) b(1) r(1,3) m(1) del: fmul.simps fadd.simps)
    show "\<bar>m\<bar> \<le> 2" using m(2) by linarith
  qed simp_all
qed

section \<open>The controllers\<close>

text \<open>A controller with the gains and limits of the axis controllers.\<close>

definition axis_controller :: "mc_pi_controller_t \<Rightarrow> bool" where
  "axis_controller p \<longleftrightarrow> pi_kp p = pi_kp AXIS_CONTROLLER_INIT \<and> pi_ki p = pi_ki AXIS_CONTROLLER_INIT \<and>
     pi_kc p = pi_kc AXIS_CONTROLLER_INIT \<and> pi_out_max p = pi_out_max AXIS_CONTROLLER_INIT \<and>
     pi_out_min p = pi_out_min AXIS_CONTROLLER_INIT"

lemma axis_controller_step: "axis_controller p \<Longrightarrow> axis_controller (mc_pi_control p)"
  by (simp add: axis_controller_def mc_pi_control_def Let_def)

lemma pi_control_in_ref [simp]: "pi_in_ref (mc_pi_control p) = pi_in_ref p"
  by (simp add: mc_pi_control_def Let_def)

lemma axis_controller_update [simp]:
  "axis_controller (p\<lparr>pi_in_meas := m\<rparr>) \<longleftrightarrow> axis_controller p" "axis_controller (p\<lparr>pi_in_ref := m\<rparr>) \<longleftrightarrow> axis_controller p"
  "axis_controller AXIS_CONTROLLER_INIT"
  by (simp_all add: axis_controller_def)

abbreviation (input) KP :: rat where "KP \<equiv> 13421773 / 67108864"
abbreviation (input) KI :: rat where "KI \<equiv> 13743895 / 68719476736"
abbreviation (input) R32 :: "rat \<Rightarrow> rat" where "R32 \<equiv> fl_round binary32"

text \<open>
  The integrator does not grow beyond \<open>2 ^ 15\<close>: an increment of less than \<open>2 ^ -9\<close> is lost in rounding there.
\<close>

lemma round_saturates:
  assumes "\<bar>x\<bar> \<le> 32768" "\<bar>i\<bar> \<le> 1 / 1000"
  shows "\<bar>R32 (x + i)\<bar> \<le> 32768"
proof -
  have top: "R32 (32768 + 1 / 1000) = 32768"
    by (subst fl_round_near [where u = "- 8" and m = "8388608"]) simp_all
  have "R32 (x + i) \<le> R32 (32768 + 1 / 1000)" using assms by (intro r32.mono) simp
  moreover have "R32 (- (32768 + 1 / 1000)) \<le> R32 (x + i)" using assms by (intro r32.mono) simp
  ultimately show ?thesis unfolding r32.minus top by simp
qed

lemma axis_control_step:
  assumes p: "axis_controller p" "pi_in_ref p = Fin r" "pi_in_meas p = Fin m" "pi_d_sum p = Fin x"
    and b: "\<bar>r\<bar> \<le> 1" "\<bar>m\<bar> \<le> 2" "\<bar>x\<bar> \<le> 32768"
  defines "e \<equiv> R32 (r - m)" and "u \<equiv> R32 (x + R32 (KP * R32 (r - m)))"
  obtains y where "pi_out (mc_pi_control p) = Fin y" "\<bar>y\<bar> \<le> 2055209 / 2097152" "\<bar>u\<bar> \<le> 2055209 / 2097152 \<Longrightarrow> y = u"
    "pi_d_sum (mc_pi_control p) = Fin (R32 (x + R32 (KI * e)))" "\<bar>R32 (x + R32 (KI * e))\<bar> \<le> 32768"
proof -
  have rm: "\<bar>r - m\<bar> < 4" using b by linarith
  have err: "sub32 (Fin r) (Fin m) = Fin e" unfolding e_def fsub_def using fl32_near(1) [OF rm] by simp
  have e: "\<bar>e\<bar> \<le> 31 / 10" using fl32_near(2) [OF rm] b unfolding e_def by linarith
  obtain pe where pe: "mul32 (Fin KP) (Fin e) = Fin pe" "\<bar>pe\<bar> \<le> 7 / 10 + 1 / 8388608"
    by (rule mul32_bound [OF _ e, of KP "201 / 1000" "7 / 10"]) auto
  have pe': "pe = R32 (KP * e)" using pe(1) e by (simp add: to_format32 abs_mult)
  obtain ie where ie: "mul32 (Fin KI) (Fin e) = Fin ie" and ie': "ie = R32 (KI * e)"
    using e by (simp add: to_format32 abs_mult)
  have ke: "\<bar>KI * e\<bar> \<le> 7 / 10000" using e by (simp add: abs_mult)
  then have "\<bar>R32 (KI * e) - KI * e\<bar> \<le> 1 / 17179869184" using round32_error [of "KI * e" "- 10"] by simp
  then have ie2: "\<bar>ie\<bar> \<le> 1 / 1000" unfolding ie' using ke by linarith
  define x' where "x' = R32 (x + ie)"
  have x': "\<bar>x'\<bar> \<le> 32768" unfolding x'_def by (rule round_saturates [OF b(3) ie2])
  have kp: "pi_kp p = Fin KP" "pi_ki p = Fin KI" "pi_kc p = Fin 0" "pi_out_max p = Fin (2055209 / 2097152)"
    "pi_out_min p = Fin (- 2055209 / 2097152)"
    using p(1) by (simp_all add: axis_controller_def)
  have up: "u = R32 (x + pe)" unfolding u_def pe' e_def ..
  have "\<bar>x + pe\<bar> \<le> 2 ^ 32" "\<bar>x + ie\<bar> \<le> 2 ^ 32" using b(3) pe(2) ie2 by simp_all
  then have sum: "add32 (Fin x) (Fin pe) = Fin u" "add32 (Fin x) (Fin ie) = Fin x'"
    unfolding up x'_def by (simp_all add: to_format32)
  obtain y where y: "(if Fin (2055209 / 2097152) < Fin u then Fin (2055209 / 2097152)
      else if Fin u < Fin (- 2055209 / 2097152) then Fin (- 2055209 / 2097152) else Fin u) = Fin y"
    "- 2055209 / 2097152 \<le> y" "y \<le> 2055209 / 2097152"
    by (rule pi_control_limits [of "Fin u" "- 2055209 / 2097152" "2055209 / 2097152"]) simp_all
  have out: "pi_out (mc_pi_control p) = Fin y"
    unfolding pi_control_out Let_def kp p(2-4) err pe(1) sum(1) by (rule y(1))
  have ub: "\<bar>u\<bar> \<le> 65536"
  proof -
    have t: "R32 65536 = 65536" using fl_round_power [of binary32 16] by simp
    have "x + pe \<le> 65536" "- 65536 \<le> x + pe" using b(3) pe(2) by linarith+
    then have "R32 (x + pe) \<le> 65536" "- 65536 \<le> R32 (x + pe)"
      using r32.le_fixed [OF _ t] r32.fixed_le [OF _ r32.fixed_minus [OF t]] by blast+
    then show ?thesis unfolding up by linarith
  qed
  then have "\<exists>z. sub32 (Fin u) (Fin y) = Fin z" unfolding fsub_def using y(2,3) by (simp add: to_format32)
  then have exc: "mul32 (Fin 0) (sub32 (Fin u) (Fin y)) = Fin 0" by auto
  have "is_float binary32 (add32 (Fin x) (Fin ie))" by (rule is_float_ops(1)) simp
  then have "is_float binary32 (Fin x')" unfolding sum(2) .
  then have z: "sub32 (Fin x') (Fin 0) = Fin x'" by (rule fadd_zero(2))
  have d: "pi_d_sum (mc_pi_control p) = Fin x'"
    unfolding pi_control_d_sum Let_def kp p(2-4) err pe(1) ie sum out exc z ..
  have "y = u" if "\<bar>u\<bar> \<le> 2055209 / 2097152" using y(1) that by (simp add: abs_le_iff split: if_splits)
  then show thesis using that out y(2,3) d x' unfolding x'_def ie' by (simp add: abs_le_iff)
qed

section \<open>The controller of the quadrature axis\<close>

text \<open>
  The measured value of the \<open>q\<close> controller is its own last output \<open>x\<close>, so it runs on its own, with its
  integrator \<open>s\<close>. From the alignment vector, \<open>x = 1 / 2\<close>, it needs two samples to reach a region that it
  does not leave.
\<close>

definition q_region :: "rat \<Rightarrow> rat \<Rightarrow> bool" where
  "q_region x s \<longleftrightarrow> \<bar>x\<bar> \<le> 5001 / 10000 \<and> \<bar>s\<bar> \<le> 1 / 1000000 \<or> \<bar>x\<bar> \<le> 1001 / 10000 \<and> \<bar>s\<bar> \<le> 12 / 100000 \<or>
     \<bar>s\<bar> \<le> 4 / 100 \<and> \<bar>x - 5 / 6 * s\<bar> \<le> 3 / 100"

lemma q_axis_step:
  assumes p: "axis_controller p" "pi_in_ref p = Fin 0" "pi_in_meas p = Fin x" "pi_d_sum p = Fin s" and q: "q_region x s"
  obtains y s' where "pi_out (mc_pi_control p) = Fin y" "pi_d_sum (mc_pi_control p) = Fin s'" "q_region y s'" "\<bar>y\<bar> \<le> 11 / 100"
proof -
  have x: "\<bar>x\<bar> \<le> 501 / 1000" "\<bar>s\<bar> \<le> 4 / 100" using q unfolding q_region_def by (elim disjE conjE; linarith)+
  define e where "e = R32 (0 - x)"
  have e: "\<bar>e + x\<bar> \<le> 1 / 33554432" unfolding e_def using round32_error [of "0 - x" "- 1"] x by simp
  define k where "k = R32 (KP * e)"
  have "\<bar>KP * e\<bar> < 1 / 4" using e x by linarith
  then have k: "\<bar>k - KP * e\<bar> \<le> 1 / 134217728" unfolding k_def using round32_error [of "KP * e" "- 3"] by simp
  define i where "i = R32 (KI * e)"
  have "\<bar>KI * e\<bar> < 1 / 4096" using e x by linarith
  then have i: "\<bar>i - KI * e\<bar> \<le> 1 / 137438953472" unfolding i_def using round32_error [of "KI * e" "- 13"] by simp
  define u where "u = R32 (s + k)"
  have "\<bar>s + k\<bar> < 1 / 4" using x k e by linarith
  then have u: "\<bar>u - (s + k)\<bar> \<le> 1 / 134217728" unfolding u_def using round32_error [of "s + k" "- 3"] by simp
  define s' where "s' = R32 (s + i)"
  have "\<bar>s + i\<bar> < 1 / 16" using x i e by linarith
  then have s': "\<bar>s' - (s + i)\<bar> \<le> 1 / 536870912" unfolding s'_def using round32_error [of "s + i" "- 5"] by simp
  have b: "\<bar>0 :: rat\<bar> \<le> 1" "\<bar>x\<bar> \<le> 2" "\<bar>s\<bar> \<le> 32768" using x by simp_all
  obtain y where y: "pi_out (mc_pi_control p) = Fin y" "\<bar>u\<bar> \<le> 2055209 / 2097152 \<Longrightarrow> y = u"
    "pi_d_sum (mc_pi_control p) = Fin s'"
    using axis_control_step [OF p b] unfolding s'_def u_def i_def k_def e_def by blast
  have ux: "\<bar>u - (s - x / 5)\<bar> \<le> 1 / 10000000" using u k e x by linarith
  have sx: "\<bar>s' - (s - x / 5000)\<bar> \<le> 1 / 100000000" using s' i e x by linarith
  have yu: "y = u" using y(2) ux x by linarith
  have "q_region u s' \<and> \<bar>u\<bar> \<le> 11 / 100"
    using q [unfolded q_region_def]
  proof (elim disjE conjE)
    assume "\<bar>x\<bar> \<le> 5001 / 10000" "\<bar>s\<bar> \<le> 1 / 1000000"
    then have "\<bar>u\<bar> \<le> 1001 / 10000" "\<bar>s'\<bar> \<le> 12 / 100000" using ux sx by linarith+
    then show ?thesis by (simp add: q_region_def)
  next
    assume "\<bar>x\<bar> \<le> 1001 / 10000" "\<bar>s\<bar> \<le> 12 / 100000"
    then have "\<bar>s'\<bar> \<le> 15 / 100000" "\<bar>u\<bar> \<le> 2 / 100 + 2 / 10000" using ux sx by linarith+
    then have "\<bar>s'\<bar> \<le> 4 / 100" "\<bar>u - 5 / 6 * s'\<bar> \<le> 3 / 100" "\<bar>u\<bar> \<le> 11 / 100" by linarith+
    then show ?thesis by (simp add: q_region_def)
  next
    assume r: "\<bar>s\<bar> \<le> 4 / 100" "\<bar>x - 5 / 6 * s\<bar> \<le> 3 / 100"
    have "\<bar>s'\<bar> \<le> 4 / 100" using r sx by linarith
    moreover have "\<bar>u - 5 / 6 * s'\<bar> \<le> 3 / 100" using r sx ux by linarith
    moreover have "\<bar>u\<bar> \<le> 11 / 100" using r ux by linarith
    ultimately show ?thesis by (simp add: q_region_def)
  qed
  then show thesis using that y(1,3) yu by blast
qed

section \<open>Compare values\<close>

lemma unat_ucast64: "unat (ucast w :: 64 word) = unat w" for w :: u32
proof -
  have "unat w < 2 ^ 32" using unsigned_less [of w, where ?'a = nat] by simp
  then show ?thesis by (simp add: unsigned_ucast_eq take_bit_nat_eq_self)
qed

lemma unat_pwm_compare:
  assumes "unat p \<le> 50755"
  shows "unat (pwm_compare pclk1 p) = unat p * (unat (pclk1 * 2) div 1000000) div 1000"
proof -
  let ?c = "unat (pclk1 * 2) div 1000000" and ?w = "(ucast (pclk1 * 2) :: 64 word) div 1000000"
  have "unat (pclk1 * 2) < 2 ^ 32" using unsigned_less [of "pclk1 * 2", where ?'a = nat] by simp
  then have c: "?c \<le> 4294" by simp
  have w: "unat ?w = ?c" by (simp add: unat_div_distrib unat_ucast64)
  have le: "unat p * ?c \<le> 50755 * 4294" using assms c by (rule mult_le_mono)
  have "unat (ucast p * ?w :: 64 word) = unat p * ?c"
    using le by (subst unat_word_ariths(2)) (simp add: w unat_ucast64)
  then have "unat ((ucast p * ?w :: 64 word) div 1000) = unat p * ?c div 1000" by (simp add: unat_div_distrib)
  moreover have "unat p * ?c div 1000 < 2 ^ 32" using le by simp
  ultimately show ?thesis by (simp add: pwm_compare_def Let_def unsigned_ucast_eq take_bit_nat_eq_self)
qed

lemma pwm_compare_le:
  assumes "uint p \<le> 50755"
  shows "pwm_compare pclk1 p \<le> pwm_compare pclk1 (of_int PWM_PERIOD)"
proof -
  have "int (unat p) \<le> int 50755" using assms unfolding uint_nat by simp
  then have p: "unat p \<le> 50755" unfolding of_nat_le_iff .
  have q: "unat (of_int PWM_PERIOD :: u32) = 50755" by simp
  show ?thesis
    unfolding word_le_nat_alt unat_pwm_compare [OF p] unat_pwm_compare [OF eq_imp_le [OF q]] q
    by (intro div_le_mono mult_le_mono1 p)
qed

section \<open>The invariant of the loop\<close>

definition foc_ok :: "u32 \<Rightarrow> foc_state \<Rightarrow> bool" where
  "foc_ok pclk1 s \<longleftrightarrow>
     rx_indicate s \<and> in_a_offset (input s) = 2047 \<and> in_b_offset (input s) = 2047 \<and>
     axis_controller (d_axis_controller s) \<and> axis_controller (q_axis_controller s) \<and>
     (\<exists>r. pi_in_ref (d_axis_controller s) = Fin r \<and> \<bar>r\<bar> \<le> 1) \<and> pi_in_ref (q_axis_controller s) = Fin 0 \<and>
     (\<exists>x. pi_d_sum (d_axis_controller s) = Fin x \<and> \<bar>x\<bar> \<le> 32768) \<and>
     (\<exists>x y. tr_q_axis (transform s) = Fin x \<and> pi_d_sum (q_axis_controller s) = Fin y \<and> q_region x y) \<and>
     sv_period (svm s) = float_of_int PWM_PERIOD \<and>
     (\<forall>ch\<in>{0, 4, 8}. tim_ccr (pwm_dev s) ch \<le> pwm_compare pclk1 (of_int PWM_PERIOD)) \<and>
     (adc_injected s \<longleftrightarrow> enable_state (p_context s) = MC_FOC_ENABLE) \<and>
     (\<forall>ch\<in>{0, 4, 8}. ch \<in> tim_running (pwm_dev s) \<longleftrightarrow> enable_state (p_context s) = MC_FOC_ENABLE)"

text \<open>A sample is processed without undefined behaviour, whatever it is, and keeps the invariant.\<close>

lemma mc_foc_ok:
  assumes ok: "foc_ok pclk1 s" and adc: "adc1 \<le> 4095" "adc2 \<le> 4095"
  obtains s' where "mc_foc pclk1 adc1 adc2 count s = Some s'" "foc_ok pclk1 s'"
proof -
  obtain r x qx qs where d: "pi_in_ref (d_axis_controller s) = Fin r" "\<bar>r\<bar> \<le> 1"
      "pi_d_sum (d_axis_controller s) = Fin x" "\<bar>x\<bar> \<le> 32768"
    and q: "tr_q_axis (transform s) = Fin qx" "pi_d_sum (q_axis_controller s) = Fin qs" "q_region qx qs"
    using ok unfolding foc_ok_def by blast
  have c: "axis_controller (d_axis_controller s)" "axis_controller (q_axis_controller s)"
    "pi_in_ref (q_axis_controller s) = Fin 0" "in_a_offset (input s) = 2047" "in_b_offset (input s) = 2047"
    and per: "sv_period (svm s) = float_of_int PWM_PERIOD"
    using ok by (simp_all add: foc_ok_def)
  obtain ia where ia: "adc_current adc1 2047 = Some (Fin ia)" "\<bar>ia\<bar> \<le> 501 / 1000" by (rule adc_current_bound [OF adc(1)])
  obtain ib where ib: "adc_current adc2 2047 = Some (Fin ib)" "\<bar>ib\<bar> \<le> 501 / 1000" by (rule adc_current_bound [OF adc(2)])
  define i1 where "i1 = (input s)\<lparr>in_ia := Fin ia, in_ib := Fin ib, in_ic := sub32 (- Fin ia) (Fin ib)\<rparr>"
  have i1: "mc_read_currents adc1 adc2 (input s) = Some i1" by (simp add: mc_read_currents_def c ia ib i1_def)
  obtain a where a: "mc_wrap_angle (in_e_angle (mc_read_qe count i1)) = Fin a" "is_float binary32 (Fin a)" "0 \<le> a" "a < TA"
    by (rule encoder_turn)
  define i3 where "i3 = (mc_read_qe count i1)\<lparr>in_e_angle := Fin a\<rparr>"
  have i3: "in_ia i3 = Fin ia" "in_ib i3 = Fin ib" "in_e_angle i3 = Fin a" "in_a_offset i3 = 2047" "in_b_offset i3 = 2047"
    by (simp_all add: i3_def i1_def mc_read_qe_def Let_def c)
  obtain sn cs where sc: "mc_calc_sin_cos (in_e_angle i3) = Some (Fin sn, Fin cs)" "sn\<^sup>2 + cs\<^sup>2 \<le> 1 + 1 / 10 ^ 5"
    using sin_cos_circle [OF a(2)] a(3,4) i3(3) by auto
  obtain t1 m where t1: "mc_clarke_park_transform i3 (transform s) = Some t1" "tr_d_axis t1 = Fin m" "\<bar>m\<bar> \<le> 2"
    "tr_q_axis t1 = Fin qx" "tr_sin_angle t1 = Fin sn" "tr_cos_angle t1 = Fin cs"
    by (rule clarke_park_bound [OF i3(1,2) ia(2) ib(2) sc, of "transform s"]) (simp add: q(1))
  define pq where "pq = (q_axis_controller s)\<lparr>pi_in_meas := Fin qx\<rparr>"
  have pq: "axis_controller pq" "pi_in_ref pq = Fin 0" "pi_in_meas pq = Fin qx" "pi_d_sum pq = Fin qs"
    by (simp_all add: pq_def c q(2))
  obtain y qs' where y: "pi_out (mc_pi_control pq) = Fin y" "pi_d_sum (mc_pi_control pq) = Fin qs'" "q_region y qs'" "\<bar>y\<bar> \<le> 11 / 100"
    by (rule q_axis_step [OF pq q(3)])
  define pd where "pd = (d_axis_controller s)\<lparr>pi_in_meas := Fin m\<rparr>"
  have pd: "axis_controller pd" "pi_in_ref pd = Fin r" "pi_in_meas pd = Fin m" "pi_d_sum pd = Fin x"
    by (simp_all add: pd_def c d)
  obtain z x' where z: "pi_out (mc_pi_control pd) = Fin z" "\<bar>z\<bar> \<le> 2055209 / 2097152" "pi_d_sum (mc_pi_control pd) = Fin x'" "\<bar>x'\<bar> \<le> 32768"
    by (rule axis_control_step [OF pd d(2) t1(3) d(4)])
  define t2 where "t2 = t1\<lparr>tr_q_axis := Fin y, tr_d_axis := Fin z\<rparr>"
  have "\<bar>z\<bar>\<^sup>2 \<le> (2055209 / 2097152)\<^sup>2" "\<bar>y\<bar>\<^sup>2 \<le> (11 / 100)\<^sup>2" using z(2) y(4) by (intro power_mono; simp)+
  then have norm: "z\<^sup>2 + y\<^sup>2 \<le> 9739 / 10000" by (simp add: power2_eq_square)
  have t2: "tr_d_axis t2 = Fin z" "tr_q_axis t2 = Fin y" "tr_sin_angle t2 = Fin sn" "tr_cos_angle t2 = Fin cs"
    by (simp_all add: t2_def t1)
  obtain sv where sv: "mc_svpwm_gen (tr_alpha (mc_inverse_park_transform t2)) (tr_beta (mc_inverse_park_transform t2)) (svm s) = Some sv"
      "sv_period sv = float_of_int PWM_PERIOD" "uint (sv_pwm1 sv) \<le> 50755" "uint (sv_pwm2 sv) \<le> 50755" "uint (sv_pwm3 sv) \<le> 50755"
    by (rule modulation_defined [OF t2 norm sc(2) per])
  define s' where "s' = s\<lparr>input := i3, transform := mc_inverse_park_transform t2, svm := sv,
      d_axis_controller := mc_pi_control pd, q_axis_controller := mc_pi_control pq,
      pwm_dev := mc_pwm_set pclk1 sv (pwm_dev s)\<rparr>"
  have "mc_foc pclk1 adc1 adc2 count s = Some s'"
    unfolding mc_foc_def i1 bind.bind_lunit Let_def a(1) i3_def [symmetric] t1(1) t1(2,4) pq_def [symmetric] pd_def [symmetric]
      y(1) z(1) t2_def [symmetric] sv(1) s'_def ..
  moreover have "foc_ok pclk1 s'"
    using ok sv(2) pwm_compare_le [OF sv(3)] pwm_compare_le [OF sv(4)] pwm_compare_le [OF sv(5)] y z(3,4) i3(4,5) d(2)
    by (simp add: foc_ok_def s'_def axis_controller_step pq(1,2) pd(1,2) mc_inverse_park_transform_def Let_def t2(2) mc_pwm_set_def)
  ultimately show thesis by (rule that)
qed

section \<open>Commands\<close>

lemma pwm_channels:
  "tim_running (mc_pwm_enable h) = {0, 4, 8} \<union> tim_running h" "tim_ccr (mc_pwm_enable h) = tim_ccr h"
  "tim_running (mc_pwm_disable h) = tim_running h - {0, 4, 8}" "tim_ccr (mc_pwm_disable h) = tim_ccr h"
  by (auto simp: mc_pwm_enable_def mc_pwm_disable_def rt_pwm_enable_def rt_pwm_disable_def drv_pwm_enable_def
      pwm_configuration_def Let_def)

lemma mc_foc_enable_ok: "foc_ok pclk1 s \<Longrightarrow> foc_ok pclk1 (mc_foc_enable s)"
  by (simp add: mc_foc_enable_def foc_ok_def mc_adc_enable_def pwm_channels Let_def)

lemma mc_foc_disable_ok: "foc_ok pclk1 s \<Longrightarrow> foc_ok pclk1 (mc_foc_disable s)"
  by (simp add: mc_foc_disable_def foc_ok_def mc_adc_disable_def pwm_channels Let_def)

lemma limited_demand:
  assumes "setpoint \<noteq> NaN"
  obtains r where "mc_impose_limits setpoint (Fin (- 1)) (Fin 1) = Fin r" "\<bar>r\<bar> \<le> 1"
    "int32_defined (mul32 (Fin r) (Fin 100))" "\<forall>x. setpoint = Fin x \<longrightarrow> r = max (- 1) (min 1 x)"
proof -
  obtain r where r: "mc_impose_limits setpoint (Fin (- 1)) (Fin 1) = Fin r" "\<bar>r\<bar> \<le> 1"
    "\<forall>x. setpoint = Fin x \<longrightarrow> r = max (- 1) (min 1 x)"
  proof (cases setpoint)
    case (Fin x)
    show thesis by (rule that [of "max (- 1) (min 1 x)"]) (auto simp: Fin mc_impose_limits_def max_def min_def)
  next
    case (Infinity n)
    show thesis by (rule that [of "if n then - 1 else 1"]) (auto simp: Infinity mc_impose_limits_def)
  qed (use assms in simp)
  have h: "fl_round binary32 128 = 128" using fl_round_power [of binary32 7] by simp
  have b: "r * 100 \<le> 128" "- 128 \<le> r * 100" using r(2) by simp_all
  have "fl_round binary32 (r * 100) \<le> 128" "- 128 \<le> fl_round binary32 (r * 100)"
    using r32.le_fixed [OF b(1) h] r32.fixed_le [OF b(2) r32.fixed_minus [OF h]] by blast+
  moreover have "to_format binary32 (r * 100) = Fin (fl_round binary32 (r * 100))" using r(2) by (simp add: to_format32 abs_mult)
  ultimately have "int32_defined (mul32 (Fin r) (Fin 100))" by (simp add: int32_defined_def)
  then show thesis using that r by blast
qed

lemma mc_set_demand_ok:
  assumes "foc_ok pclk1 s" "mc_set_demand a s = Some s'"
  shows "foc_ok pclk1 s'"
proof -
  have "a \<noteq> NaN" using assms(2) by (auto simp: mc_set_demand_def mc_impose_limits_def int32_defined_def Let_def)
  then obtain r where "mc_impose_limits a (Fin (- 1)) (Fin 1) = Fin r" "\<bar>r\<bar> \<le> 1" by (rule limited_demand)
  then show ?thesis using assms by (auto simp: mc_set_demand_def foc_ok_def Let_def split: if_splits)
qed

lemma foc_command_ok:
  assumes "foc_ok pclk1 s" "foc atof argv s = Some s'"
  shows "foc_ok pclk1 s'"
  using assms mc_foc_enable_ok [of pclk1 s] mc_foc_disable_ok [of pclk1 s] mc_set_demand_ok [of pclk1 s _ s']
  by (auto simp: foc_def split: if_splits) (simp_all add: foc_ok_def)

section \<open>Start-up\<close>

lemma alignment_pass_ok:
  assumes x: "is_float binary32 (Fin x)" "- TA \<le> x" "x < 2 * TA" and p: "sv_period (svm s) = float_of_int PWM_PERIOD"
    and t: "tr_d_axis (transform s) = Fin 0" "tr_q_axis (transform s) = Fin (1 / 2)"
  obtains s' tr sv h where "alignment_pass pclk1 (Fin x) s = Some s'"
    "s' = s\<lparr>input := (input s)\<lparr>in_e_angle := Fin x\<rparr>, transform := tr, svm := sv, pwm_dev := h\<rparr>"
    "sv_period sv = float_of_int PWM_PERIOD" "tr_d_axis tr = Fin 0" "tr_q_axis tr = Fin (1 / 2)"
    "tim_running h = tim_running (pwm_dev s)"
proof -
  obtain sn cs where sc: "mc_calc_sin_cos (Fin x) = Some (Fin sn, Fin cs)" "sn\<^sup>2 + cs\<^sup>2 \<le> 1 + 1 / 10 ^ 5"
    by (rule sin_cos_circle [OF x])
  let ?t = "(transform s)\<lparr>tr_sin_angle := Fin sn, tr_cos_angle := Fin cs\<rparr>"
  have tt: "tr_d_axis ?t = Fin 0" "tr_q_axis ?t = Fin (1 / 2)" "tr_sin_angle ?t = Fin sn" "tr_cos_angle ?t = Fin cs"
    by (simp_all add: t)
  have n: "(0 :: rat)\<^sup>2 + (1 / 2)\<^sup>2 \<le> 9739 / 10000" by (simp add: power2_eq_square)
  define t' where "t' = mc_inverse_park_transform ?t"
  have t': "tr_d_axis t' = Fin 0" "tr_q_axis t' = Fin (1 / 2)" by (simp_all add: t'_def mc_inverse_park_transform_def Let_def t)
  obtain sv where sv: "mc_svpwm_gen (tr_alpha t') (tr_beta t') (svm s) = Some sv" "sv_period sv = float_of_int PWM_PERIOD"
    unfolding t'_def by (rule modulation_defined [OF tt n sc(2) p])
  have "alignment_pass pclk1 (Fin x) s =
      Some (s\<lparr>input := (input s)\<lparr>in_e_angle := Fin x\<rparr>, transform := t', svm := sv, pwm_dev := mc_pwm_set pclk1 sv (pwm_dev s)\<rparr>)"
    by (simp add: alignment_pass_def sc(1) Let_def t'_def [symmetric] sv(1))
  then show thesis using that sv(2) t' by (simp add: mc_pwm_set_def)
qed

lemma alignment_angles:
  obtains v w where "to_float M_PI = Fin v" "is_float binary32 (Fin v)" "0 \<le> v" "v < TA"
    "to_float (div64 (mul64 (Fin 3) M_PI) (Fin 2)) = Fin w" "is_float binary32 (Fin w)" "0 \<le> w" "w < TA"
proof -
  let ?p = "884279719003555 / 281474976710656 :: rat" and ?R = "fl_round binary32" and ?D = "fl_round binary64"
  have p: "to_float M_PI = Fin (?R ?p)" by (simp add: M_PI_value to_format32)
  have v: "\<bar>?R ?p - ?p\<bar> \<le> 1 / 4194304" using round32_error [of ?p 2] by simp
  define t where "t = ?D (3 * ?p)"
  have t: "\<bar>t - 3 * ?p\<bar> \<le> 1 / 100" unfolding t_def using round64_error [of "3 * ?p" 3] by simp
  define h where "h = ?D (t / 2)"
  have t8: "\<bar>t / 2\<bar> < 8" using t by linarith
  then have "\<bar>h - t / 2\<bar> \<le> 1 / 2251799813685248" unfolding h_def using round64_error [of "t / 2" 2] by simp
  then have h: "\<bar>h - t / 2\<bar> \<le> 1 / 100" by linarith
  have h8: "\<bar>h\<bar> < 8" using t h by linarith
  then have w: "\<bar>?R h - h\<bar> \<le> 1 / 4194304" using round32_error [of h 2] by simp
  have "mul64 (Fin 3) M_PI = Fin t" unfolding M_PI_value t_def by (simp add: to_format64)
  moreover have "div64 (Fin t) (Fin 2) = Fin h" unfolding h_def using t8 by (simp add: to_format64)
  ultimately have q: "to_float (div64 (mul64 (Fin 3) M_PI) (Fin 2)) = Fin (?R h)" using h8 by (simp add: to_format32)
  show thesis
  proof (rule that [OF p _ _ _ q])
    show "is_float binary32 (Fin (?R ?p))" unfolding p [symmetric] by simp
    show "is_float binary32 (Fin (?R h))" unfolding q [symmetric] by simp
    show "0 \<le> ?R ?p" "?R ?p < TA" using v by linarith+
    show "0 \<le> ?R h" "?R h < TA" using t h w by linarith+
  qed
qed

lemma half_lit: "float_lit (5 / 10) = Fin (1 / 2)"
  unfolding float_lit_def by (subst to_format_near [where u = "- 24" and m = "8388608"]) simp_all

lemma mc_rotor_alignment_ok:
  assumes p: "sv_period (svm s) = float_of_int PWM_PERIOD"
  obtains tr h i where "mc_rotor_alignment pclk1 s =
      Some (s\<lparr>input := (input s)\<lparr>in_e_angle := i\<rparr>, transform := tr, svm := SVPWM_INIT, pwm_dev := mc_pwm_set pclk1 SVPWM_INIT h\<rparr>)"
    "tr_q_axis tr = Fin (1 / 2)" "tim_running h = tim_running (pwm_dev s)"
proof -
  obtain v w where v: "to_float M_PI = Fin v" "is_float binary32 (Fin v)" "0 \<le> v" "v < TA"
    and w: "to_float (div64 (mul64 (Fin 3) M_PI) (Fin 2)) = Fin w" "is_float binary32 (Fin w)" "0 \<le> w" "w < TA"
    by (rule alignment_angles)
  let ?s0 = "s\<lparr>transform := (transform s)\<lparr>tr_d_axis := Fin 0, tr_q_axis := Fin (1 / 2)\<rparr>\<rparr>"
  have vb: "- TA \<le> v" "v < 2 * TA" and wb: "- TA \<le> w" "w < 2 * TA" using v(3,4) w(3,4) by simp_all
  have s0: "sv_period (svm ?s0) = float_of_int PWM_PERIOD" "tr_d_axis (transform ?s0) = Fin 0" "tr_q_axis (transform ?s0) = Fin (1 / 2)"
    using p by simp_all
  obtain s1 tr1 sv1 h1 where s1: "alignment_pass pclk1 (Fin v) ?s0 = Some s1"
      "s1 = ?s0\<lparr>input := (input ?s0)\<lparr>in_e_angle := Fin v\<rparr>, transform := tr1, svm := sv1, pwm_dev := h1\<rparr>"
    and n1: "sv_period sv1 = float_of_int PWM_PERIOD" "tr_d_axis tr1 = Fin 0" "tr_q_axis tr1 = Fin (1 / 2)"
      "tim_running h1 = tim_running (pwm_dev ?s0)"
    by (rule alignment_pass_ok [OF v(2) vb s0])
  have s1': "sv_period (svm s1) = float_of_int PWM_PERIOD" "tr_d_axis (transform s1) = Fin 0" "tr_q_axis (transform s1) = Fin (1 / 2)"
    using n1 by (simp_all add: s1(2))
  obtain s2 tr2 sv2 h2 where s2: "alignment_pass pclk1 (Fin w) s1 = Some s2"
      "s2 = s1\<lparr>input := (input s1)\<lparr>in_e_angle := Fin w\<rparr>, transform := tr2, svm := sv2, pwm_dev := h2\<rparr>"
    and n2: "tr_q_axis tr2 = Fin (1 / 2)" "tim_running h2 = tim_running (pwm_dev s1)"
    by (rule alignment_pass_ok [OF w(2) wb s1'])
  have "mc_rotor_alignment pclk1 s =
      Some (s\<lparr>input := (input s)\<lparr>in_e_angle := Fin w\<rparr>, transform := tr2, svm := SVPWM_INIT, pwm_dev := mc_pwm_set pclk1 SVPWM_INIT h2\<rparr>)"
    unfolding mc_rotor_alignment_def half_lit v(1) w(1) s1(1) bind.bind_lunit s2(1) by (simp add: s2(2) s1(2))
  then show thesis using that n1(4) n2 by (simp add: s1(2))
qed

lemma rt_pwm_set_running [simp]: "tim_running (rt_pwm_set pclk1 ch p d h) = tim_running h"
  by (simp add: rt_pwm_set_def drv_pwm_set_def Let_def)

lemma mc_foc_init_ok:
  assumes "False \<notin> set devices"
  obtains s where "mc_foc_init pclk1 (Some ctx) devices h = Some (s, RT_EOK)" "foc_ok pclk1 s" "enable_state (p_context s) = MC_FOC_ENABLE"
    "\<forall>ch\<in>{0, 4, 8}. tim_ccr (pwm_dev s) ch = pwm_compare pclk1 (of_int (PWM_PERIOD div 2))"
    "pi_in_ref (d_axis_controller s) = Fin 0"
proof -
  define s0 where "s0 = foc_static (ctx\<lparr>com_mode := 0\<rparr>) h"
  define s2 where "s2 = mc_adc_enable (s0\<lparr>input := (input s0)\<lparr>in_a_offset := 4095 div 2, in_b_offset := 4095 div 2\<rparr>\<rparr>)"
  define h3 where "h3 = rt_pwm_set pclk1 3 (of_int PWM_PERIOD) (sv_pwm3 (svm s2)) (rt_pwm_set pclk1 2 (of_int PWM_PERIOD) (sv_pwm2 (svm s2))
      (rt_pwm_set pclk1 1 (of_int PWM_PERIOD) (sv_pwm1 (svm s2)) (mc_pwm_enable (pwm_dev s2))))"
  have period: "sv_period (svm (s2\<lparr>pwm_dev := h3\<rparr>)) = float_of_int PWM_PERIOD"
    by (simp add: s2_def s0_def foc_static_def SVPWM_INIT_def mc_adc_enable_def)
  obtain tr h4 i where a: "mc_rotor_alignment pclk1 (s2\<lparr>pwm_dev := h3\<rparr>) =
      Some (s2\<lparr>input := (input s2)\<lparr>in_e_angle := i\<rparr>, transform := tr, svm := SVPWM_INIT, pwm_dev := mc_pwm_set pclk1 SVPWM_INIT h4\<rparr>)"
    "tr_q_axis tr = Fin (1 / 2)" "tim_running h4 = tim_running h3"
    by (rule mc_rotor_alignment_ok [OF period, of pclk1]) simp
  define s4 where "s4 = s2\<lparr>input := (input s2)\<lparr>in_e_angle := Fin 0\<rparr>, transform := tr, svm := SVPWM_INIT,
      pwm_dev := mc_pwm_set pclk1 SVPWM_INIT h4, rx_indicate := True,
      p_context := (p_context s2)\<lparr>enable_state := MC_FOC_ENABLE\<rparr>\<rparr>"
  have "mc_foc_init pclk1 (Some ctx) devices h = Some (s4, RT_EOK)"
    using assms unfolding mc_foc_init_def bind.bind_lunit Let_def s0_def [symmetric] s2_def [symmetric] h3_def [symmetric] a(1)
    by (simp add: s4_def)
  moreover have "foc_ok pclk1 s4"
  proof -
    have run: "{0, 4, 8} \<subseteq> tim_running h4" unfolding a(3) h3_def by (simp add: pwm_channels)
    have duty: "uint (of_int (PWM_PERIOD div 2) :: u32) \<le> 50755" by simp
    have q: "\<exists>x. x * 2 = 1 \<and> q_region x 0" by (rule exI [of _ "1 / 2"]) (simp add: q_region_def)
    show ?thesis
      using run pwm_compare_le [OF duty, of pclk1] q
      by (simp add: foc_ok_def s4_def s2_def s0_def foc_static_def mc_adc_enable_def SVPWM_INIT_def a(2) mc_pwm_set_def)
  qed
  moreover have "enable_state (p_context s4) = MC_FOC_ENABLE" by (simp add: s4_def)
  moreover have "\<forall>ch\<in>{0, 4, 8}. tim_ccr (pwm_dev s4) ch = pwm_compare pclk1 (of_int (PWM_PERIOD div 2))"
    by (simp add: s4_def mc_pwm_set_def SVPWM_INIT_def)
  moreover have "pi_in_ref (d_axis_controller s4) = Fin 0"
    by (simp add: s4_def s2_def s0_def foc_static_def mc_adc_enable_def)
  ultimately show thesis by (rule that)
qed

section \<open>Every reachable state\<close>

lemma foc_step_ok: "foc_step pclk1 atof s s' \<Longrightarrow> foc_ok pclk1 s \<Longrightarrow> foc_ok pclk1 s'"
proof (induction rule: foc_step.induct)
  case (sample s adc1 adc2 count s')
  obtain s1 where "mc_foc pclk1 adc1 adc2 count s = Some s1" "foc_ok pclk1 s1"
    by (rule mc_foc_ok [OF sample.prems sample.hyps(2,3)])
  then show ?case using sample by (auto simp: injected_conversion_complete_def mc_adc_callback_def split: if_splits)
next
  case (command argv s s')
  then show ?case by (blast intro: foc_command_ok)
qed

lemma foc_reachable_ok:
  assumes "mc_foc_init pclk1 (Some ctx) devices h = Some (s0, RT_EOK)" "(foc_step pclk1 atof)\<^sup>*\<^sup>* s0 s"
  shows "foc_ok pclk1 s"
proof -
  have "False \<notin> set devices" using assms(1) by (auto simp: mc_foc_init_def Let_def)
  then have "foc_ok pclk1 s0" using assms(1) by (auto elim: mc_foc_init_ok [of devices pclk1 ctx h])
  with assms(2) show ?thesis by (induction rule: rtranclp_induct) (auto intro: foc_step_ok)
qed

text \<open>
  C9. After a successful start-up, in every state that samples and shell commands (other than a demand
  that is not a number) lead to, the handler of the next sample returns: no table is accessed out of
  bounds, no conversion is undefined, and no compare value exceeds the one of a full period, for all
  results of the 12-bit ADC, all encoder counts, and however long the loop has run.
\<close>

theorem foc_always_defined:
  assumes "mc_foc_init pclk1 (Some ctx) devices h = Some (s0, RT_EOK)" "(foc_step pclk1 atof)\<^sup>*\<^sup>* s0 s"
    and "adc1 \<le> 4095" "adc2 \<le> 4095"
  shows "\<exists>s'. injected_conversion_complete pclk1 adc1 adc2 count s = Some s' \<and>
    (\<forall>ch\<in>{0, 4, 8}. tim_ccr (pwm_dev s') ch \<le> pwm_compare pclk1 (of_int PWM_PERIOD))"
proof -
  have ok: "foc_ok pclk1 s" by (rule foc_reachable_ok [OF assms(1,2)])
  obtain s1 where "mc_foc pclk1 adc1 adc2 count s = Some s1" "foc_ok pclk1 s1" by (rule mc_foc_ok [OF ok assms(3,4)])
  then show ?thesis using ok by (auto simp: injected_conversion_complete_def mc_adc_callback_def foc_ok_def)
qed

definition tim_reset :: tim where
  "tim_reset = \<lparr>tim_psc = 0, tim_arr = 0, tim_ccr = (\<lambda>ch. 0), tim_running = {}\<rparr>"

theorem foc_always_defined_witness:
  "\<exists>s0 s1 s2. mc_foc_init 42000000 (Some \<lparr>enable_state = MC_FOC_DISABLE, com_mode = 7, control_sync = 0\<rparr>) [True, True, True, True] tim_reset =
     Some (s0, RT_EOK) \<and> foc (\<lambda>_. Fin 1) [''foc'', ''s'', ''1''] s0 = Some s1 \<and>
     injected_conversion_complete 42000000 100 4000 (- 5) s1 = Some s2"
proof -
  let ?ctx = "\<lparr>enable_state = MC_FOC_DISABLE, com_mode = 7, control_sync = 0\<rparr>"
  obtain s0 where s0: "mc_foc_init 42000000 (Some ?ctx) [True, True, True, True] tim_reset = Some (s0, RT_EOK)"
    by (rule mc_foc_init_ok [of "[True, True, True, True]" 42000000 ?ctx tim_reset]) simp_all
  have one: "fl_round binary32 1 = 1" using fl_round_power [of binary32 0] by simp
  have "int32_defined (mul32 (Fin 1) (Fin 100))"
    by (rule limited_demand [of "Fin 1"]) simp_all
  then obtain s1 where s1: "foc (\<lambda>_. Fin 1) [''foc'', ''s'', ''1''] s0 = Some s1"
    using one by (simp add: foc_def mc_set_demand_def mc_impose_limits_def Let_def to_format32)
  then have "(foc_step 42000000 (\<lambda>_. Fin 1))\<^sup>*\<^sup>* s0 s1" by (blast intro: foc_step.command)
  from foc_always_defined [OF s0 this, of 100 4000 "- 5"] show ?thesis using s0 s1 by auto
qed

text \<open>
  C13. \<open>mc_foc_init\<close>: without memory for the context it dereferences a null pointer; with a device missing
  it reports an error with nothing started and no handler registered, but \<open>enable_state\<close> keeps the
  contents of the allocated memory; otherwise it succeeds, with the loop enabled, the conversions and
  the three channels running, neutral compare values, and no demand.
\<close>

theorem foc_init_outcome:
  "mc_foc_init pclk1 None devices h = None \<and>
   (False \<in> set devices \<longrightarrow>
     (\<exists>s. mc_foc_init pclk1 (Some ctx) devices h = Some (s, - RT_ERROR) \<and> pwm_dev s = h \<and> \<not> adc_injected s \<and>
       \<not> rx_indicate s \<and> enable_state (p_context s) = enable_state ctx)) \<and>
   (False \<notin> set devices \<longrightarrow>
     (\<exists>s. mc_foc_init pclk1 (Some ctx) devices h = Some (s, RT_EOK) \<and> enable_state (p_context s) = MC_FOC_ENABLE \<and>
       adc_injected s \<and> rx_indicate s \<and> {0, 4, 8} \<subseteq> tim_running (pwm_dev s) \<and>
       (\<forall>ch\<in>{0, 4, 8}. tim_ccr (pwm_dev s) ch = pwm_compare pclk1 (of_int (PWM_PERIOD div 2))) \<and>
       pi_in_ref (d_axis_controller s) = Fin 0))"
proof (intro conjI impI)
  show "mc_foc_init pclk1 None devices h = None" by (simp add: mc_foc_init_def)
next
  assume "False \<in> set devices"
  then show "\<exists>s. mc_foc_init pclk1 (Some ctx) devices h = Some (s, - RT_ERROR) \<and> pwm_dev s = h \<and> \<not> adc_injected s \<and>
      \<not> rx_indicate s \<and> enable_state (p_context s) = enable_state ctx"
    by (simp add: mc_foc_init_def foc_static_def)
next
  assume "False \<notin> set devices"
  then obtain s where s: "mc_foc_init pclk1 (Some ctx) devices h = Some (s, RT_EOK)" "foc_ok pclk1 s"
      "enable_state (p_context s) = MC_FOC_ENABLE"
      "\<forall>ch\<in>{0, 4, 8}. tim_ccr (pwm_dev s) ch = pwm_compare pclk1 (of_int (PWM_PERIOD div 2))"
      "pi_in_ref (d_axis_controller s) = Fin 0"
    by (rule mc_foc_init_ok)
  then show "\<exists>s. mc_foc_init pclk1 (Some ctx) devices h = Some (s, RT_EOK) \<and> enable_state (p_context s) = MC_FOC_ENABLE \<and>
       adc_injected s \<and> rx_indicate s \<and> {0, 4, 8} \<subseteq> tim_running (pwm_dev s) \<and>
       (\<forall>ch\<in>{0, 4, 8}. tim_ccr (pwm_dev s) ch = pwm_compare pclk1 (of_int (PWM_PERIOD div 2))) \<and>
       pi_in_ref (d_axis_controller s) = Fin 0"
    by (intro exI [of _ s]) (simp add: foc_ok_def)
qed

theorem foc_init_outcome_witness:
  "(\<exists>s. mc_foc_init 42000000 (Some \<lparr>enable_state = MC_FOC_ENABLE, com_mode = 0, control_sync = 0\<rparr>) [True, False, True, True] tim_reset =
      Some (s, - RT_ERROR) \<and> enable_state (p_context s) = MC_FOC_ENABLE) \<and>
   (\<exists>s. mc_foc_init 42000000 (Some \<lparr>enable_state = MC_FOC_DISABLE, com_mode = 0, control_sync = 0\<rparr>) [True, True, True, True] tim_reset =
      Some (s, RT_EOK) \<and> enable_state (p_context s) = MC_FOC_ENABLE)"
  using foc_init_outcome [of 42000000 "[True, False, True, True]" tim_reset "\<lparr>enable_state = MC_FOC_ENABLE, com_mode = 0, control_sync = 0\<rparr>"]
    foc_init_outcome [of 42000000 "[True, True, True, True]" tim_reset "\<lparr>enable_state = MC_FOC_DISABLE, com_mode = 0, control_sync = 0\<rparr>"]
  by auto

lemma mc_foc_q_axis:
  assumes "mc_foc pclk1 adc1 adc2 count s = Some s'"
  shows "q_axis_controller s' = mc_pi_control ((q_axis_controller s)\<lparr>pi_in_meas := tr_q_axis (transform s)\<rparr>)"
    "tr_q_axis (transform s') = pi_out (q_axis_controller s')"
proof -
  have q: "tr_q_axis t = tr_q_axis tr" if "mc_clarke_park_transform i tr = Some t" for i t tr
    using that by (auto simp: mc_clarke_park_transform_def Let_def split: bind_splits)
  show "q_axis_controller s' = mc_pi_control ((q_axis_controller s)\<lparr>pi_in_meas := tr_q_axis (transform s)\<rparr>)"
    "tr_q_axis (transform s') = pi_out (q_axis_controller s')"
    using assms by (auto simp: mc_foc_def Let_def q mc_inverse_park_transform_def split: bind_splits)
qed

text \<open>
  The quadrature axis is not controlled: \<open>mc_clarke_park_transform\<close> assigns both components to
  \<open>d_axis\<close>, so what the \<open>q\<close> controller takes for the measured current is its own last output, and its
  state after a sample is the same whatever currents and angle were measured.
\<close>

theorem q_axis_runs_open_loop:
  assumes "mc_foc pclk1 adc1 adc2 count s = Some s1" "mc_foc pclk1 adc1' adc2' count' s = Some s2"
  shows "q_axis_controller s1 = q_axis_controller s2 \<and> tr_q_axis (transform s1) = tr_q_axis (transform s2) \<and>
    pi_in_meas (q_axis_controller s1) = tr_q_axis (transform s)"
  using mc_foc_q_axis [OF assms(1)] mc_foc_q_axis [OF assms(2)] by (simp add: mc_pi_control_def Let_def)

lemma foc_ok_started:
  obtains s where "foc_ok 42000000 s" "enable_state (p_context s) = MC_FOC_ENABLE"
  by (rule mc_foc_init_ok [of "[]" 42000000 "\<lparr>enable_state = MC_FOC_ENABLE, com_mode = 0, control_sync = 0\<rparr>" tim_reset]) simp_all

theorem q_axis_runs_open_loop_witness:
  "\<exists>s s1 s2. mc_foc 42000000 0 4095 0 s = Some s1 \<and> mc_foc 42000000 4095 0 512 s = Some s2 \<and>
     q_axis_controller s1 = q_axis_controller s2"
proof -
  obtain s where ok: "foc_ok 42000000 s" by (rule foc_ok_started)
  obtain s1 where s1: "mc_foc 42000000 0 4095 0 s = Some s1" by (rule mc_foc_ok [OF ok, of 0 4095 0]) simp_all
  obtain s2 where s2: "mc_foc 42000000 4095 0 512 s = Some s2" by (rule mc_foc_ok [OF ok, of 4095 0 512]) simp_all
  show ?thesis using q_axis_runs_open_loop [OF s1 s2] s1 s2 by blast
qed

text \<open>
  C38. \<open>mc_set_demand\<close> clamps every demand, also an infinite one, to \<open>[- 1, 1]\<close> and changes nothing but the
  reference of the \<open>d\<close> controller; a demand that is not a number passes both comparisons and reaches a
  conversion to \<open>int\<close> that is undefined.
\<close>

theorem demand_outcome:
  "(a \<noteq> NaN \<longrightarrow> (\<exists>r. mc_set_demand a s = Some (s\<lparr>d_axis_controller := (d_axis_controller s)\<lparr>pi_in_ref := Fin r\<rparr>\<rparr>) \<and>
      \<bar>r\<bar> \<le> 1 \<and> (\<forall>x. a = Fin x \<longrightarrow> r = max (- 1) (min 1 x)))) \<and>
   (a = NaN \<longrightarrow> mc_impose_limits a (Fin (- 1)) (Fin 1) = NaN \<and> mc_set_demand a s = None)"
proof (intro conjI impI)
  assume "a \<noteq> NaN"
  then obtain r where "mc_impose_limits a (Fin (- 1)) (Fin 1) = Fin r" "\<bar>r\<bar> \<le> 1"
    "int32_defined (mul32 (Fin r) (Fin 100))" "\<forall>x. a = Fin x \<longrightarrow> r = max (- 1) (min 1 x)"
    by (rule limited_demand)
  then show "\<exists>r. mc_set_demand a s = Some (s\<lparr>d_axis_controller := (d_axis_controller s)\<lparr>pi_in_ref := Fin r\<rparr>\<rparr>) \<and>
      \<bar>r\<bar> \<le> 1 \<and> (\<forall>x. a = Fin x \<longrightarrow> r = max (- 1) (min 1 x))"
    by (intro exI [of _ r]) (simp add: mc_set_demand_def Let_def del: fmul.simps)
qed (simp_all add: mc_set_demand_def mc_impose_limits_def int32_defined_def Let_def)

theorem demand_outcome_witness:
  "\<exists>s. (\<exists>r. mc_set_demand (Fin 3) s = Some (s\<lparr>d_axis_controller := (d_axis_controller s)\<lparr>pi_in_ref := Fin r\<rparr>\<rparr>) \<and> \<bar>r\<bar> \<le> 1) \<and>
     mc_set_demand NaN s = None"
proof -
  obtain s where "foc_ok 42000000 s" by (rule foc_ok_started)
  show ?thesis using demand_outcome [of "Fin 3" s] demand_outcome [of NaN s] by blast
qed



end
