(* ===== verification/Spec2Isabelle.thy ===== *)
theory Spec2Isabelle
  imports Ringbuffer Mutex Event Mailbox Message_Queue Data_Queue Printf Mempool Device Foc_Loop
begin

text \<open>
  The firmware of the motor controller under \<open>projects/rt-thread_foc\<close>: the RT-Thread kernel it runs
  on (scheduler, threads, timers, inter-process communication, the byte ring buffer) and the
  field-oriented control of \<open>applications/mc_rtthread\<close> and \<open>drivers\<close>.

  \<^bold>\<open>Kernel.\<close> All kernel components share one state, the record \<open>kernel\<close> of theory \<open>Kernel_State\<close>: the
  threads, the lists their nodes are linked into, the ready bitmap, the current thread, the timers and
  the timer lists, the tick, and the tables of the IPC objects. An operation is a function from the
  state to an optional result; \<open>None\<close> stands for a failed assertion, a null pointer or an access out of
  bounds, and for a loop that does not return. The configuration is that of \<open>rtconfig.h\<close>: one
  processor, 32 priorities, 1000 ticks per second, software timers, debug assertions on.
    \<^item> \<open>Prelude\<close>: machine types, error codes, \<open>memcpy\<close> and assertions as partial functions.
    \<^item> \<open>Ringbuffer\<close>: \<open>components/drivers/src/ringbuffer.c\<close>, with the locale \<open>byte_fifo\<close>, which states
      what a byte queue promises, interpreted on the model.
    \<^item> \<open>Kernel_State\<close>, \<open>Scheduler\<close>: \<open>src/scheduler.c\<close>, \<open>src/irq.c\<close> and find-first-set of
      \<open>src/kservice.c\<close>; the invariant \<open>sched_inv\<close> ties queues, bitmap and thread states together.
    \<^item> \<open>Timer\<close>, \<open>Thread\<close>, \<open>Clock\<close>: \<open>src/timer.c\<close>, \<open>src/thread.c\<close>, the defunct list of \<open>src/idle.c\<close>,
      \<open>src/clock.c\<close>. The application's timer functions are a parameter. \<open>kinv\<close> and \<open>tick_inv\<close>
      extend the invariant to the timer lists.
    \<^item> \<open>Ipc_Queue\<close>: suspension and resumption of threads on the wait queues of \<open>src/ipc.c\<close>, with
      the locale \<open>wait_queue\<close> for the queue disciplines.
    \<^item> \<open>Semaphore\<close>, \<open>Mutex\<close>, \<open>Event\<close>, \<open>Mailbox\<close>, \<open>Message_Queue\<close>: the IPC objects of \<open>src/ipc.c\<close>.
      A blocking operation is modelled up to its call of the scheduler; what it does when its
      thread runs again is a second definition. \<open>Channel\<close> has the locale \<open>fifo_channel\<close>, the contract
      of the queues of messages, and its extension \<open>bounded_channel\<close> for those with urgent messages.
    \<^item> \<open>Completion\<close>, \<open>Data_Queue\<close>: \<open>completion.c\<close> and \<open>dataqueue.c\<close> of \<open>components/drivers/src\<close>, on the record
      \<open>devipc\<close>, the kernel's state with the flags of the completions and the data queues beside it.
      \<open>dq_specs\<close> is the bounded list that a data queue implements.

  \<^bold>\<open>Memory.\<close> The record \<open>sys\<close> of theory \<open>Heap\<close> puts the kernel's state beside a byte-addressed memory
  and the variables of the allocators.
    \<^item> \<open>Memory\<close>: the memory and string routines of \<open>src/kservice.c\<close>, with their loops over words;
      equivalence with plain filling and copying, and the string functions on the bytes before the
      terminator. A string that is not terminated within the memory has the result \<open>None\<close>.
    \<^item> \<open>Printf\<close>: formatted output of \<open>src/kservice.c\<close>. A format and its arguments have a list of items,
      each item has a text, and \<open>rt_vsnprintf\<close> writes the texts one after the other as far as the
      buffer goes.
    \<^item> \<open>Heap\<close>, \<open>Heap_Ops\<close>: \<open>src/mem.c\<close>. The block headers are bytes of the memory. A call that takes
      the lock is a value of type \<open>run\<close>: it ends, fails an assertion, or gets to a point where other
      threads run and goes on from the state it then finds. \<open>heap_rep\<close> relates the memory to a list of
      blocks; without competition the operations refine the first-fit allocator \<open>alloc_blocks\<close> and
      \<open>coalesce\<close> on that list, and under competition \<open>holds\<close> says what a thread that owns blocks gets,
      whatever the others do that leave its blocks alone.
    \<^item> \<open>Mempool\<close>: \<open>src/mempool.c\<close>; the links of the free blocks are words of the memory, \<open>mp_rep\<close> relates
      them to the list of free blocks; the queue of waiting threads is a third interpretation of
      \<open>wait_queue\<close>.

    \<^item> \<open>Object\<close>: \<open>src/object.c\<close>. The headers of the objects are bytes of the memory, the lists a field of
      the state; \<open>reg_at\<close> ties classes, lists, headers and heap blocks together, and \<open>registry_step\<close> are
      the calls of the registry's users.
    \<^item> \<open>Device\<close>: \<open>src/device.c\<close> and the console. The functions of the drivers are a parameter, whose
      contract is \<open>driver_ok\<close>; \<open>session\<close> is the abstract counter that \<open>rt_device_open\<close> and
      \<open>rt_device_close\<close> implement, whatever other threads do where a driver blocks.

  \<^bold>\<open>Motor control.\<close> A second state, the record \<open>foc_state\<close> of theory \<open>Foc\<close>: the state machine variable,
  the two controllers, the transform values, the encoder and the timer registers. The interrupt that
  runs the control loop, the alignment and the shell command are its steps.
    \<^item> \<open>Float_Arith\<close>: the type \<open>fp\<close> of IEEE numbers (a value \<open>m * 2 ^ e\<close>, or not a finite number) and
      the operations of both C types, rounded to nearest, ties to even. The locale \<open>rounding\<close> has the
      error bounds; it is interpreted on single and on double precision. Every operation rounds on
      its own (no contraction), and a literal without suffix has type \<open>double\<close>, as in standard C and
      with the flags of \<open>rtconfig.py\<close>. The project file of the vendor's IDE passes
      \<open>-fsingle-precision-constant\<close> instead; that build is not modelled.
    \<^item> \<open>Motor_Control\<close>: \<open>mc_control.c\<close>, \<open>mc_transform.c\<close>, \<open>mc_svm.c\<close>, \<open>mc_current.c\<close>, \<open>mc_encoder.c\<close>,
      one definition per function; the limits of the controllers.
    \<^item> \<open>Angles\<close>: the sine and cosine tables and their interpolation, the encoder's angle.
    \<^item> \<open>Svm\<close>: the duty cycles of space vector modulation give back the voltages asked for.
    \<^item> \<open>Drivers\<close>: \<open>drv_pwm.c\<close>, \<open>rt_drv_pwm.c\<close> and \<open>drv_pulse_encoder.c\<close> on the timer's registers.
    \<^item> \<open>Foc\<close>: \<open>mc_foc.c\<close>, the interrupt, the alignment, the shell command, and the step relation
      \<open>foc_step\<close>. ADC readings, the encoder count, the frequency of the timer's bus, the number \<open>atof\<close>
      reads and the addresses \<open>rt_malloc\<close> returns are arguments.
    \<^item> \<open>Foc_Loop\<close>: the invariant \<open>foc_ok\<close> (controllers within their limits, gains as configured, angle
      in the table's range) of every reachable state, and with it that the interrupt never reaches
      undefined behaviour, what enabling, disabling and a change of demand do.

  \<^bold>\<open>Bounds and fuel.\<close> Loops of the kernel that may not end are \<open>partial_function (option)\<close>, the loops
  over tables and messages are recursive on their counter. The properties of the loops state that they
  return.

  \<^bold>\<open>Not modelled.\<close> The allocators \<open>memheap.c\<close> and \<open>slab.c\<close>, which the configuration does not select, and
  the hooks of the others, which nothing sets. Signals and more than one processor, which the configuration leaves out; the thread
  \<open>mc_foc_tasks\<close> that prints measurements, \<open>mc_communicate\<close> and the registration of drivers, which are
  input and output; \<open>mc_pwm_set_old\<close> and \<open>_adc_count_to_volt\<close>, which nothing calls; the port to the
  processor and the vendor's hardware layer; the start-up sequence of \<open>src/components.c\<close>, the other drivers
  of \<open>components/drivers\<close> (serial, pipes, work queues and the device classes), and the components, file
  systems, network stacks and shells that the repository vendors with RT-Thread.
\<close>

end
